(* ===== verification/Prelude.thy ===== *)
theory Prelude
  imports Main "HOL-Library.Word"
begin

text \<open>
  Shared vocabulary of the development: the exceptions the code raises as a datatype, the
  exception-and-state shape of a Python method, Python's slices and list indexing, bytes as
  integers in 0..255, insertion-ordered dictionaries, and the lemma collections the component
  theories use.  Nothing here is specific to one component.
\<close>

unbundle bit_operations_syntax

named_theorems py_simps "unfolding rules of the Python helpers"
named_theorems exec_simps "unfolding rules of the exception monad"

subsection \<open>Exceptions\<close>

text \<open>
  The exception classes of \<open>pyocd/core/exceptions.py\<close> that the modelled code raises or
  catches, with Python's own.  Messages are not modelled.  \<open>TransferFaultError\<close> carries the
  optional fault address and length, as the class does.  \<open>Diverges\<close> is no exception: it is the
  outcome of a loop that makes no progress and never ends.
\<close>

datatype exn =
    AssertionError
  | ValueError
  | KeyError
  | IndexError
  | AttributeError
  | TypeError
  | RecursionError
  | ZeroDivisionError
  | PyocdError
  | InternalError
  | TimeoutError
  | TargetSupportError
  | ProbeError
  | ProbeDisconnected
  | TargetError
  | DebugError
  | CoreRegisterAccessError
  | TransferError
  | TransferTimeoutError
  | TransferProtocolError
  | TransferFaultError "int option" "int option"
  | FlashFailure "int option" "int option"
  | FlashEraseFailure "int option" "int option"
  | FlashProgramFailure "int option" "int option"
  | CommandError
  | RTTError
  | StopIteration
  | Diverges

text \<open>\<open>is_transfer_error e\<close>: \<open>except TransferError\<close> catches \<open>e\<close>.\<close>

fun is_transfer_error :: "exn \<Rightarrow> bool" where
  "is_transfer_error TransferError = True"
| "is_transfer_error TransferTimeoutError = True"
| "is_transfer_error TransferProtocolError = True"
| "is_transfer_error (TransferFaultError _ _) = True"
| "is_transfer_error _ = False"

text \<open>
  \<open>except ProbeError\<close> and \<open>except exceptions.Error\<close>, the base class of pyOCD's own
  exceptions.  \<open>TransferError\<close> is no \<open>ProbeError\<close>.
\<close>

fun is_probe_error :: "exn \<Rightarrow> bool" where
  "is_probe_error ProbeError = True"
| "is_probe_error ProbeDisconnected = True"
| "is_probe_error _ = False"

definition is_pyocd_error :: "exn \<Rightarrow> bool" where
  "is_pyocd_error e \<longleftrightarrow> e \<notin> {AssertionError, ValueError, KeyError, IndexError, AttributeError,
     TypeError, RecursionError, ZeroDivisionError, StopIteration, Diverges}"

text \<open>\<open>is_flash_failure e\<close>: \<open>except FlashFailure\<close> catches \<open>e\<close>.\<close>

fun is_flash_failure :: "exn \<Rightarrow> bool" where
  "is_flash_failure (FlashFailure _ _) = True"
| "is_flash_failure (FlashEraseFailure _ _) = True"
| "is_flash_failure (FlashProgramFailure _ _) = True"
| "is_flash_failure _ = False"

text \<open>\<open>is_transfer_fault e\<close>: \<open>except TransferFaultError\<close> catches \<open>e\<close>.\<close>

fun is_transfer_fault :: "exn \<Rightarrow> bool" where
  "is_transfer_fault (TransferFaultError _ _) = True"
| "is_transfer_fault _ = False"

subsection \<open>Methods that change state and may raise\<close>

text \<open>
  A method is a function from the state to its outcome (\<open>Inl\<close> the exception raised,
  \<open>Inr\<close> the value returned) and the state it leaves, also when it raises.
\<close>

type_synonym ('s, 'a) exec = "'s \<Rightarrow> (exn + 'a) \<times> 's"

definition ret :: "'a \<Rightarrow> ('s, 'a) exec" where
  "ret x s = (Inr x, s)"

definition raise :: "exn \<Rightarrow> ('s, 'a) exec" where
  "raise e s = (Inl e, s)"

definition bind :: "('s, 'a) exec \<Rightarrow> ('a \<Rightarrow> ('s, 'b) exec) \<Rightarrow> ('s, 'b) exec" where
  "bind m f s = (case m s of (Inl e, s') \<Rightarrow> (Inl e, s') | (Inr x, s') \<Rightarrow> f x s')"

definition get_state :: "('s, 's) exec" where
  "get_state s = (Inr s, s)"

definition put_state :: "'s \<Rightarrow> ('s, unit) exec" where
  "put_state t s = (Inr (), t)"

definition modify :: "('s \<Rightarrow> 's) \<Rightarrow> ('s, unit) exec" where
  "modify f s = (Inr (), f s)"

definition assert_that :: "bool \<Rightarrow> ('s, unit) exec" where
  "assert_that b = (if b then ret () else raise AssertionError)"

text \<open>\<open>catch m p h\<close>: \<open>try: m  except p as e: h(e)\<close>.\<close>

definition catch :: "('s, 'a) exec \<Rightarrow> (exn \<Rightarrow> bool) \<Rightarrow> (exn \<Rightarrow> ('s, 'a) exec) \<Rightarrow> ('s, 'a) exec" where
  "catch m p h s = (case m s of (Inl e, s') \<Rightarrow> (if p e then h e s' else (Inl e, s'))
                              | (Inr x, s') \<Rightarrow> (Inr x, s'))"

fun for_each :: "('a \<Rightarrow> ('s, unit) exec) \<Rightarrow> 'a list \<Rightarrow> ('s, unit) exec" where
  "for_each f [] = ret ()"
| "for_each f (x # xs) = bind (f x) (\<lambda>_. for_each f xs)"

lemma ret_apply [simp, exec_simps]: "ret x s = (Inr x, s)"
  by (simp add: ret_def)

lemma raise_apply [simp, exec_simps]: "raise e s = (Inl e, s)"
  by (simp add: raise_def)

lemma get_state_apply [simp, exec_simps]: "get_state s = (Inr s, s)"
  by (simp add: get_state_def)

lemma put_state_apply [simp, exec_simps]: "put_state t s = (Inr (), t)"
  by (simp add: put_state_def)

lemma modify_apply [simp, exec_simps]: "modify f s = (Inr (), f s)"
  by (simp add: modify_def)

lemma bind_Inr: "m s = (Inr x, s') \<Longrightarrow> bind m f s = f x s'"
  by (simp add: bind_def)

lemma bind_Inl: "m s = (Inl e, s') \<Longrightarrow> bind m f s = (Inl e, s')"
  by (simp add: bind_def)

lemma bind_ret [simp]: "bind (ret x) f = f x"
  by (rule ext) (simp add: bind_def)

lemma bind_raise [simp]: "bind (raise e) f = raise e"
  by (rule ext) (simp add: bind_def)

lemma bind_Inr_iff:
  "bind m f s = (Inr y, t) \<longleftrightarrow> (\<exists>x s'. m s = (Inr x, s') \<and> f x s' = (Inr y, t))"
  by (auto simp: bind_def split: prod.splits sum.splits)

lemma bind_InrE:
  assumes "bind m f s = (Inr y, t)"
  obtains x s' where "m s = (Inr x, s')" and "f x s' = (Inr y, t)"
  using assms by (auto simp: bind_Inr_iff)

lemma bind_assoc: "bind (bind m f) g = bind m (\<lambda>x. bind (f x) g)"
  by (rule ext) (auto simp: bind_def split: prod.splits sum.splits)

lemma assert_that_True [simp]: "assert_that True = ret ()"
  by (simp add: assert_that_def)

lemma assert_that_False [simp]: "assert_that False = raise AssertionError"
  by (simp add: assert_that_def)

text \<open>
  \<open>wp m Q E s\<close>: run from \<open>s\<close>, the method returns with \<open>Q\<close> of its value and state, or
  raises with \<open>E\<close> of the exception and state.
\<close>

definition wp :: "('s, 'a) exec \<Rightarrow> ('a \<Rightarrow> 's \<Rightarrow> bool) \<Rightarrow> (exn \<Rightarrow> 's \<Rightarrow> bool) \<Rightarrow> 's \<Rightarrow> bool" where
  "wp m Q E s = (case m s of (Inl e, s') \<Rightarrow> E e s' | (Inr x, s') \<Rightarrow> Q x s')"

lemma wp_bind [simp]: "wp (bind m f) Q E = wp m (\<lambda>x. wp (f x) Q E) E"
  by (auto simp: wp_def bind_def fun_eq_iff split: prod.splits sum.splits)

lemma wp_ret [simp]: "wp (ret x) Q E = Q x"
  by (simp add: wp_def fun_eq_iff)

lemma wp_raise [simp]: "wp (raise e) Q E = E e"
  by (simp add: wp_def fun_eq_iff)

lemma wp_Pair [simp]: "wp (Pair (Inr x)) Q E = Q x" "wp (Pair (Inl e)) Q' E' = E' e"
  by (simp_all add: wp_def fun_eq_iff)

lemma wp_get_state [simp]: "wp get_state Q E = (\<lambda>s. Q s s)"
  by (simp add: wp_def fun_eq_iff)

lemma wp_put_state [simp]: "wp (put_state t) Q E = (\<lambda>s. Q () t)"
  by (simp add: wp_def fun_eq_iff)

lemma wp_modify [simp]: "wp (modify f) Q E = (\<lambda>s. Q () (f s))"
  by (simp add: wp_def fun_eq_iff)

lemma wp_if [simp]: "wp (if b then m else m') Q E = (if b then wp m Q E else wp m' Q E)"
  by simp

lemma wp_catch [simp]:
  "wp (catch m p h) Q E = wp m Q (\<lambda>e. if p e then wp (h e) Q E else E e)"
  by (auto simp: wp_def catch_def fun_eq_iff split: prod.splits sum.splits)

lemma wp_mono:
  "wp m Q E s \<Longrightarrow> (\<And>x s'. Q x s' \<Longrightarrow> Q' x s') \<Longrightarrow> (\<And>e s'. E e s' \<Longrightarrow> E' e s') \<Longrightarrow> wp m Q' E' s"
  by (auto simp: wp_def split: prod.splits sum.splits)

lemma wp_conj: "wp m Q E s \<Longrightarrow> wp m Q' E' s \<Longrightarrow> wp m (\<lambda>x s'. Q x s' \<and> Q' x s') (\<lambda>e s'. E e s' \<and> E' e s') s"
  by (auto simp: wp_def split: prod.splits sum.splits)

lemma wpD_Inr: "wp m Q E s \<Longrightarrow> m s = (Inr x, s') \<Longrightarrow> Q x s'"
  by (simp add: wp_def)

lemma wpD_Inl: "wp m Q E s \<Longrightarrow> m s = (Inl e, s') \<Longrightarrow> E e s'"
  by (simp add: wp_def)

lemma wpI: "(\<And>x s'. m s = (Inr x, s') \<Longrightarrow> Q x s') \<Longrightarrow> (\<And>e s'. m s = (Inl e, s') \<Longrightarrow> E e s') \<Longrightarrow> wp m Q E s"
  by (auto simp: wp_def split: prod.splits sum.splits)

lemma wp_case:
  "wp m Q E s \<longleftrightarrow> (case m s of (Inl e, s') \<Rightarrow> E e s' | (Inr x, s') \<Rightarrow> Q x s')"
  by (simp add: wp_def)

lemma wp_assert [simp]: "wp (assert_that b) Q E = (if b then Q () else E AssertionError)"
  by (simp add: assert_that_def)

text \<open>Pure code that may raise: the same without a state.\<close>

definition res_bind :: "exn + 'a \<Rightarrow> ('a \<Rightarrow> exn + 'b) \<Rightarrow> exn + 'b" where
  "res_bind r f = (case r of Inl e \<Rightarrow> Inl e | Inr x \<Rightarrow> f x)"

definition lift_res :: "exn + 'a \<Rightarrow> ('s, 'a) exec" where
  "lift_res r s = (r, s)"

lemma res_bind_simps [simp]:
  "res_bind (Inl e) f = Inl e"
  "res_bind (Inr x) f = f x"
  by (simp_all add: res_bind_def)

lemma res_bind_Inr_iff: "res_bind r f = Inr y \<longleftrightarrow> (\<exists>x. r = Inr x \<and> f x = Inr y)"
  by (cases r) auto

lemma lift_res_apply [simp, exec_simps]: "lift_res r s = (r, s)"
  by (simp add: lift_res_def)

lemma wp_lift_res [simp]:
  "wp (lift_res r) Q E = (case r of Inl e \<Rightarrow> E e | Inr x \<Rightarrow> Q x)"
  by (simp add: wp_def fun_eq_iff split: sum.splits)

text \<open>\<open>[f(x) for x in xs]\<close> where \<open>f\<close> may raise: left to right, up to the first exception.\<close>

fun res_map :: "('a \<Rightarrow> exn + 'b) \<Rightarrow> 'a list \<Rightarrow> exn + 'b list" where
  "res_map f [] = Inr []"
| "res_map f (x # xs) = res_bind (f x) (\<lambda>y. res_bind (res_map f xs) (\<lambda>ys. Inr (y # ys)))"

fun exec_map :: "('a \<Rightarrow> ('s, 'b) exec) \<Rightarrow> 'a list \<Rightarrow> ('s, 'b list) exec" where
  "exec_map f [] = ret []"
| "exec_map f (x # xs) = bind (f x) (\<lambda>y. bind (exec_map f xs) (\<lambda>ys. ret (y # ys)))"

lemma res_map_Inr: "(\<And>x. x \<in> set xs \<Longrightarrow> f x = Inr (g x)) \<Longrightarrow> res_map f xs = Inr (map g xs)"
  by (induction xs) auto

lemma res_map_Inr_iff: "res_map f xs = Inr ys \<longleftrightarrow> list_all2 (\<lambda>x y. f x = Inr y) xs ys"
  by (induction xs arbitrary: ys) (auto simp: res_bind_Inr_iff list_all2_Cons1)

text \<open>A loop over a list, with an invariant of the part that is behind it.\<close>

lemma wp_for_each:
  assumes step: "\<And>xs x ys s. zs = xs @ x # ys \<Longrightarrow> I xs s \<Longrightarrow> wp (f x) (\<lambda>_. I (xs @ [x])) E s" and "I [] s"
  shows "wp (for_each f zs) (\<lambda>_. I zs) E s"
proof -
  have "wp (for_each f ys) (\<lambda>_. I zs) E s" if "zs = xs @ ys" "I xs s" for xs ys s
    using that
  proof (induction ys arbitrary: xs s)
    case (Cons y ys)
    have "wp (f y) (\<lambda>_. wp (for_each f ys) (\<lambda>_. I zs) E) E s"
      by (rule wp_mono [OF step [OF Cons.prems]]) (use Cons.IH [of "xs @ [y]"] Cons.prems(1) in simp_all)
    then show ?case by simp
  qed simp
  then show ?thesis using assms(2) by (metis append_Nil)
qed

lemma wp_exec_map:
  assumes "\<And>x s. x \<in> set xs \<Longrightarrow> I s \<Longrightarrow> wp (f x) (\<lambda>y s'. I s' \<and> P x y) E s" and "I s"
  shows "wp (exec_map f xs) (\<lambda>ys s'. I s' \<and> list_all2 P xs ys) E s"
  using assms
proof (induction xs arbitrary: s)
  case (Cons x xs)
  have 1: "wp (f x) (\<lambda>y s'. I s' \<and> P x y) E s" using Cons.prems by simp
  have 2: "wp (exec_map f xs) (\<lambda>ys s'. I s' \<and> list_all2 P xs ys) E s'" if "I s'" for s'
    using Cons.IH [OF _ that] Cons.prems(1) by simp
  show ?case by (auto intro!: wp_mono [OF 1] wp_mono [OF 2])
qed simp

text \<open>The first position of an element, as \<open>list.index\<close>; the callers look up what is there.\<close>

fun index_of :: "'a list \<Rightarrow> 'a \<Rightarrow> nat" where
  "index_of [] x = 0"
| "index_of (y # ys) x = (if x = y then 0 else Suc (index_of ys x))"

lemma index_of_less: "x \<in> set xs \<Longrightarrow> index_of xs x < length xs"
  by (induction xs) auto

lemma nth_index_of: "x \<in> set xs \<Longrightarrow> xs ! index_of xs x = x"
  by (induction xs) auto

subsection \<open>Python integers\<close>

text \<open>
  Python's integers are unbounded.  A shift by a negative count raises ValueError, a division
  by zero ZeroDivisionError; \<open>//\<close> and \<open>%\<close> round towards minus infinity, as \<open>div\<close>
  and \<open>mod\<close> do.
\<close>

definition py_shl :: "int \<Rightarrow> int \<Rightarrow> exn + int" where
  "py_shl x n = (if n < 0 then Inl ValueError else Inr (push_bit (nat n) x))"

definition py_shr :: "int \<Rightarrow> int \<Rightarrow> exn + int" where
  "py_shr x n = (if n < 0 then Inl ValueError else Inr (drop_bit (nat n) x))"

definition py_floordiv :: "int \<Rightarrow> int \<Rightarrow> exn + int" where
  "py_floordiv a b = (if b = 0 then Inl ZeroDivisionError else Inr (a div b))"

lemma py_shl_nonneg [simp]: "0 \<le> n \<Longrightarrow> py_shl x n = Inr (push_bit (nat n) x)"
  by (simp add: py_shl_def)

lemma py_shr_nonneg [simp]: "0 \<le> n \<Longrightarrow> py_shr x n = Inr (drop_bit (nat n) x)"
  by (simp add: py_shr_def)

lemma py_floordiv_nonzero [simp]: "b \<noteq> 0 \<Longrightarrow> py_floordiv a b = Inr (a div b)"
  by (simp add: py_floordiv_def)

subsection \<open>Python lists: slices and indices\<close>

text \<open>
  \<open>py_slice xs a b\<close> is \<open>xs[a:b]\<close>: negative bounds count from the end, and both are
  clipped to the list.
\<close>

definition py_bound :: "nat \<Rightarrow> int \<Rightarrow> nat" where
  "py_bound n i = nat (min (int n) (max 0 (if i < 0 then int n + i else i)))"

definition py_slice :: "'a list \<Rightarrow> int \<Rightarrow> int \<Rightarrow> 'a list" where
  "py_slice xs a b = drop (py_bound (length xs) a) (take (py_bound (length xs) b) xs)"

definition py_from :: "'a list \<Rightarrow> int \<Rightarrow> 'a list" where
  "py_from xs a = drop (py_bound (length xs) a) xs"

definition py_upto :: "'a list \<Rightarrow> int \<Rightarrow> 'a list" where
  "py_upto xs b = take (py_bound (length xs) b) xs"

text \<open>\<open>xs[i]\<close>: negative indices count from the end; out of range raises.\<close>

definition py_index :: "'a list \<Rightarrow> int \<Rightarrow> exn + 'a" where
  "py_index xs i =
     (if i < - int (length xs) \<or> int (length xs) \<le> i then Inl IndexError
      else if i < 0 then Inr (xs ! nat (int (length xs) + i))
      else Inr (xs ! nat i))"

lemma py_bound_nonneg [simp]: "0 \<le> i \<Longrightarrow> py_bound n i = min n (nat i)"
  by (auto simp: py_bound_def min_def max_def)

lemma py_bound_le: "py_bound n i \<le> n"
  by (auto simp: py_bound_def)

lemma py_from_nonneg [simp]: "0 \<le> a \<Longrightarrow> py_from xs a = drop (nat a) xs"
  by (auto simp: py_from_def min_def)

lemma py_upto_nonneg [simp]: "0 \<le> b \<Longrightarrow> py_upto xs b = take (nat b) xs"
  by (auto simp: py_upto_def min_def)

lemma py_slice_nonneg [simp]:
  "0 \<le> a \<Longrightarrow> 0 \<le> b \<Longrightarrow> py_slice xs a b = take (nat b - nat a) (drop (nat a) xs)"
  by (auto simp: py_slice_def min_def drop_take)

lemma py_index_nonneg:
  "0 \<le> i \<Longrightarrow> i < int (length xs) \<Longrightarrow> py_index xs i = Inr (xs ! nat i)"
  by (simp add: py_index_def)

subsection \<open>Bytes\<close>

definition is_byte :: "int \<Rightarrow> bool" where
  "is_byte b \<longleftrightarrow> 0 \<le> b \<and> b < 256"

definition all_bytes :: "int list \<Rightarrow> bool" where
  "all_bytes bs \<longleftrightarrow> list_all is_byte bs"

lemma is_byteD: "is_byte b \<Longrightarrow> 0 \<le> b" "is_byte b \<Longrightarrow> b < 256"
  by (simp_all add: is_byte_def)

lemma all_bytes_Nil [simp]: "all_bytes []"
  by (simp add: all_bytes_def)

lemma all_bytes_Cons [simp]: "all_bytes (b # bs) \<longleftrightarrow> is_byte b \<and> all_bytes bs"
  by (simp add: all_bytes_def)

lemma all_bytes_append [simp]: "all_bytes (xs @ ys) \<longleftrightarrow> all_bytes xs \<and> all_bytes ys"
  by (simp add: all_bytes_def)

lemma all_bytes_take: "all_bytes xs \<Longrightarrow> all_bytes (take n xs)"
  by (auto simp: all_bytes_def list_all_iff dest: in_set_takeD)

lemma all_bytes_drop: "all_bytes xs \<Longrightarrow> all_bytes (drop n xs)"
  by (auto simp: all_bytes_def list_all_iff dest: in_set_dropD)

lemma all_bytes_nth: "all_bytes xs \<Longrightarrow> i < length xs \<Longrightarrow> is_byte (xs ! i)"
  by (simp add: all_bytes_def list_all_length)

text \<open>Masks of low bits as remainders, shifts as products and quotients.\<close>

lemma and_low_mask: "(x::int) AND (2 ^ n - 1) = x mod 2 ^ n"
  by (simp add: mask_eq_exp_minus_1 [symmetric] take_bit_eq_mask [symmetric] take_bit_eq_mod)

lemma and_1_mod: "(x::int) AND 1 = x mod 2"
  using and_low_mask [of x 1] by simp

lemma and_3_mod: "(x::int) AND 3 = x mod 4"
  using and_low_mask [of x 2] by simp

lemma and_255_mod: "(x::int) AND 255 = x mod 256"
  using and_low_mask [of x 8] by simp

lemma and_65535_mod: "(x::int) AND 65535 = x mod 65536"
  using and_low_mask [of x 16] by simp

lemma and_u32_mod: "(x::int) AND 4294967295 = x mod 4294967296"
  using and_low_mask [of x 32] by simp

text \<open>An OR of numbers whose bits do not meet is a sum.\<close>

lemma or_shift_disjoint:
  fixes x y :: int
  assumes "0 \<le> x" and "x < 2 ^ n"
  shows "x OR (push_bit n y) = x + push_bit n y"
proof -
  have "x AND push_bit n y = 0"
  proof (rule bit_eqI)
    fix i
    have "take_bit n x = x" using assms by (simp add: take_bit_int_eq_self)
    then have "bit x i \<Longrightarrow> i < n" by (metis bit_take_bit_iff)
    then show "bit (x AND push_bit n y) i = bit (0::int) i"
      by (auto simp: bit_and_iff bit_push_bit_iff)
  qed
  then show ?thesis by (rule disjunctive_add_eq_or [symmetric])
qed

subsection \<open>Insertion-ordered dictionaries\<close>

text \<open>
  A Python dict whose iteration order matters: an association list.  Assigning to a key that is
  there keeps its place, a new key goes to the end.
\<close>

fun od_set :: "'k \<Rightarrow> 'v \<Rightarrow> ('k \<times> 'v) list \<Rightarrow> ('k \<times> 'v) list" where
  "od_set k v [] = [(k, v)]"
| "od_set k v ((k', v') # d) = (if k = k' then (k, v) # d else (k', v') # od_set k v d)"

definition od_del :: "'k \<Rightarrow> ('k \<times> 'v) list \<Rightarrow> ('k \<times> 'v) list" where
  "od_del k d = filter (\<lambda>(k', v). k' \<noteq> k) d"

definition od_keys :: "('k \<times> 'v) list \<Rightarrow> 'k list" where
  "od_keys d = map fst d"

fun od_update :: "('k \<times> 'v) list \<Rightarrow> ('k \<times> 'v) list \<Rightarrow> ('k \<times> 'v) list" where
  "od_update d [] = d"
| "od_update d ((k, v) # kvs) = od_update (od_set k v d) kvs"

lemma map_of_od_set [simp]: "map_of (od_set k v d) = (map_of d)(k \<mapsto> v)"
  by (induction k v d rule: od_set.induct) (auto simp: fun_eq_iff)

lemma map_of_od_del [simp]: "map_of (od_del k d) = (map_of d)(k := None)"
  by (induction d) (auto simp: od_del_def fun_eq_iff)

lemma map_of_od_update: "map_of (od_update d kvs) k =
    (case map_of (rev kvs) k of Some v \<Rightarrow> Some v | None \<Rightarrow> map_of d k)"
  by (induction d kvs rule: od_update.induct)
    (auto simp: map_add_def split: option.splits if_splits)

lemma od_keys_set: "set (od_keys (od_set k v d)) = insert k (set (od_keys d))"
  by (induction k v d rule: od_set.induct) (auto simp: od_keys_def)

lemma od_keys_del: "set (od_keys (od_del k d)) = set (od_keys d) - {k}"
  by (auto simp: od_keys_def od_del_def image_iff)

lemma distinct_od_set [simp]: "distinct (od_keys d) \<Longrightarrow> distinct (od_keys (od_set k v d))"
proof (induction k v d rule: od_set.induct)
  case (2 k v k' v' d)
  then show ?case using od_keys_set [of k v d] by (auto simp: od_keys_def)
qed (simp add: od_keys_def)

lemma distinct_od_del [simp]: "distinct (od_keys d) \<Longrightarrow> distinct (od_keys (od_del k d))"
  by (induction d) (auto simp: od_keys_def od_del_def)

lemma distinct_od_update: "distinct (od_keys d) \<Longrightarrow> distinct (od_keys (od_update d kvs))"
  by (induction d kvs rule: od_update.induct) auto

lemma in_od_keys: "k \<in> set (od_keys d) \<longleftrightarrow> map_of d k \<noteq> None"
  by (auto simp: od_keys_def map_of_eq_None_iff)

lemma od_set_keep: "map_of d k \<noteq> None \<Longrightarrow> od_keys (od_set k v d) = od_keys d"
  by (induction k v d rule: od_set.induct) (auto simp: od_keys_def split: if_splits)

lemma od_set_new: "map_of d k = None \<Longrightarrow> od_set k v d = d @ [(k, v)]"
  by (induction k v d rule: od_set.induct) (auto split: if_splits)

subsection \<open>Strings\<close>

text \<open>\<open>str.lower\<close> on ASCII.\<close>

definition lower :: "string \<Rightarrow> string" where
  "lower s = map (\<lambda>c. if 65 \<le> (of_char c :: nat) \<and> (of_char c :: nat) \<le> 90 then char_of ((of_char c :: nat) + 32) else c) s"

subsection \<open>Sorting with a comparison\<close>

text \<open>
  \<open>list.sort()\<close> on objects that define only \<open>__lt__\<close>: each element is inserted after the
  last one it is not less than, which is what every stable sort does for a strict weak order.
  The sorted prefix is kept reversed.
\<close>

fun insert_rev :: "('a \<Rightarrow> 'a \<Rightarrow> bool) \<Rightarrow> 'a \<Rightarrow> 'a list \<Rightarrow> 'a list" where
  "insert_rev lt x [] = [x]"
| "insert_rev lt x (y # ys) = (if lt x y then y # insert_rev lt x ys else x # y # ys)"

definition py_sort :: "('a \<Rightarrow> 'a \<Rightarrow> bool) \<Rightarrow> 'a list \<Rightarrow> 'a list" where
  "py_sort lt xs = rev (foldl (\<lambda>acc x. insert_rev lt x acc) [] xs)"

lemma set_insert_rev [simp]: "set (insert_rev lt x ys) = insert x (set ys)"
  by (induction ys) auto

lemma set_insert_fold: "set (foldl (\<lambda>acc x. insert_rev lt x acc) acc xs) = set acc \<union> set xs"
  by (induction xs arbitrary: acc) auto

lemma set_py_sort [simp]: "set (py_sort lt xs) = set xs"
  by (simp add: py_sort_def set_insert_fold)

lemma length_insert_rev [simp]: "length (insert_rev lt x ys) = Suc (length ys)"
  by (induction ys) auto

lemma length_py_sort [simp]: "length (py_sort lt xs) = length xs"
proof -
  have "length (foldl (\<lambda>acc x. insert_rev lt x acc) acc xs) = length acc + length xs" for acc
    by (induction xs arbitrary: acc) auto
  from this [of "[]"] show ?thesis by (simp add: py_sort_def)
qed

lemma distinct_map_insert_rev:
  "distinct (map f (insert_rev lt x ys)) \<longleftrightarrow> distinct (map f (x # ys))"
  by (induction ys) auto

lemma distinct_map_py_sort [simp]: "distinct (map f (py_sort lt xs)) \<longleftrightarrow> distinct (map f xs)"
proof -
  have "distinct (map f (foldl (\<lambda>acc x. insert_rev lt x acc) acc xs)) \<longleftrightarrow> distinct (map f (acc @ xs))" for acc
  proof (induction xs arbitrary: acc)
    case (Cons x xs)
    have "distinct (map f (insert_rev lt x acc @ xs)) \<longleftrightarrow> distinct (map f (acc @ x # xs))"
      using distinct_map_insert_rev [of f lt x acc] by (simp add: image_Un) blast
    with Cons show ?case by simp
  qed simp
  from this [of "[]"] show ?thesis by (simp add: py_sort_def rev_map [symmetric])
qed

text \<open>Sorted by any key the comparison respects.\<close>

lemma sorted_insert_rev:
  fixes key :: "'a \<Rightarrow> 'k::linorder"
  assumes "\<And>x y. lt x y \<Longrightarrow> key x \<le> key y" and "\<And>x y. \<not> lt x y \<Longrightarrow> key y \<le> key x"
  shows "sorted (rev (map key ys)) \<Longrightarrow> sorted (rev (map key (insert_rev lt x ys)))"
  by (induction ys) (auto simp: sorted_append assms dest: assms intro: order_trans)

lemma sorted_py_sort:
  fixes key :: "'a \<Rightarrow> 'k::linorder"
  assumes "\<And>x y. lt x y \<Longrightarrow> key x \<le> key y" and "\<And>x y. \<not> lt x y \<Longrightarrow> key y \<le> key x"
  shows "sorted (map key (py_sort lt xs))"
proof -
  have "sorted (rev (map key acc)) \<Longrightarrow>
      sorted (rev (map key (foldl (\<lambda>acc x. insert_rev lt x acc) acc xs)))" for acc
  proof (induction xs arbitrary: acc)
    case (Cons x xs)
    have "sorted (rev (map key (insert_rev lt x acc)))"
      by (rule sorted_insert_rev) (use assms Cons.prems in auto)
    then show ?case using Cons.IH by simp
  qed simp
  from this [of "[]"] show ?thesis by (simp add: py_sort_def rev_map)
qed

end
