(* ===== verification/Mask.thy ===== *)
theory Mask
  imports Prelude
begin

text \<open>
  Bit fields, masks, alignment and parity: \<open>pyocd/utility/mask.py\<close>.  Python integers are
  \<open>int\<close>; a negative shift count raises, so every function that shifts by a caller's count
  returns a sum.
\<close>

subsection \<open>Masks and bit fields\<close>

datatype mask_arg = BitRange int int | BitList "int list" | BitPos int

fun or_bits :: "int list \<Rightarrow> exn + int" where
  "or_bits [] = Inl TypeError"
| "or_bits [b] = py_shl 1 b"
| "or_bits (b # c # bs) =
     res_bind (py_shl 1 b) (\<lambda>x. res_bind (or_bits (c # bs)) (\<lambda>y. Inr (x OR y)))"

definition mask_of_arg :: "mask_arg \<Rightarrow> exn + int" where
  "mask_of_arg a = (case a of
       BitRange hi lo \<Rightarrow> res_bind (py_shl 1 (hi - lo + 1)) (\<lambda>x. py_shl (x - 1) lo)
     | BitList bs \<Rightarrow> or_bits bs
     | BitPos b \<Rightarrow> py_shl 1 b)"

fun bitmask_from :: "int \<Rightarrow> mask_arg list \<Rightarrow> exn + int" where
  "bitmask_from acc [] = Inr acc"
| "bitmask_from acc (a # args) =
     res_bind (mask_of_arg a) (\<lambda>m. bitmask_from (acc OR m) args)"

definition bitmask :: "mask_arg list \<Rightarrow> exn + int" where
  "bitmask args = bitmask_from 0 args"

definition bit_invert :: "int \<Rightarrow> int \<Rightarrow> exn + int" where
  "bit_invert value width = res_bind (py_shl 1 width) (\<lambda>x. Inr ((x - 1) AND (NOT value)))"

definition bfx :: "int \<Rightarrow> int \<Rightarrow> int \<Rightarrow> exn + int" where
  "bfx value msb lsb = res_bind (bitmask [BitRange msb lsb]) (\<lambda>m. py_shr (value AND m) lsb)"

definition bfxw :: "int \<Rightarrow> int \<Rightarrow> int \<Rightarrow> exn + int" where
  "bfxw value lsb width =
     res_bind (bitmask [BitRange (lsb + width) lsb]) (\<lambda>m. py_shr (value AND m) lsb)"

definition bfi :: "int \<Rightarrow> int \<Rightarrow> int \<Rightarrow> int \<Rightarrow> exn + int" where
  "bfi value msb lsb field =
     res_bind (bitmask [BitRange msb lsb]) (\<lambda>m.
     res_bind (py_shl field lsb) (\<lambda>f. Inr ((value AND NOT m) OR (f AND m))))"

record bitfield =
  bf_msb :: int
  bf_lsb :: int
  bf_name :: "string option"

definition Bitfield :: "int \<Rightarrow> int option \<Rightarrow> string option \<Rightarrow> exn + bitfield" where
  "Bitfield msb lsb name =
     (let l = (case lsb of Some l \<Rightarrow> l | None \<Rightarrow> msb)
      in if msb \<ge> l then Inr \<lparr>bf_msb = msb, bf_lsb = l, bf_name = name\<rparr> else Inl AssertionError)"

definition bitfield_width :: "bitfield \<Rightarrow> int" where
  "bitfield_width b = bf_msb b - bf_lsb b + 1"

definition bitfield_get :: "bitfield \<Rightarrow> int \<Rightarrow> exn + int" where
  "bitfield_get b value = bfx value (bf_msb b) (bf_lsb b)"

definition bitfield_set :: "bitfield \<Rightarrow> int \<Rightarrow> int \<Rightarrow> exn + int" where
  "bitfield_set b register_value field_value = bfi register_value (bf_msb b) (bf_lsb b) field_value"

subsection \<open>Scans, alignment, parity, sign\<close>

function msb_loop :: "int \<Rightarrow> int \<Rightarrow> int" where
  "msb_loop n ndx = (if 1 < n then msb_loop (drop_bit 1 n) (ndx + 1) else ndx)"
  by pat_completeness auto
termination
  by (relation "measure (\<lambda>(n, ndx). nat n)") (auto simp: drop_bit_Suc)

declare msb_loop.simps [simp del]

definition msb :: "int \<Rightarrow> int" where
  "msb n = msb_loop n 0"

fun same_items :: "'a list \<Rightarrow> 'a list \<Rightarrow> bool" where
  "same_items (x # xs) (y # ys) = (if x \<noteq> y then False else same_items xs ys)"
| "same_items _ _ = True"

definition same :: "'a list \<Rightarrow> 'a list \<Rightarrow> bool" where
  "same d1 d2 = (if length d1 \<noteq> length d2 then False else same_items d1 d2)"

definition align_down :: "int \<Rightarrow> int \<Rightarrow> exn + int" where
  "align_down value multiple = res_bind (py_floordiv value multiple) (\<lambda>q. Inr (q * multiple))"

definition align_up :: "int \<Rightarrow> int \<Rightarrow> exn + int" where
  "align_up value multiple =
     res_bind (py_floordiv (value + multiple - 1) multiple) (\<lambda>q. Inr (q * multiple))"

definition round_up_div :: "int \<Rightarrow> int \<Rightarrow> exn + int" where
  "round_up_div value divisor = py_floordiv (value + divisor - 1) divisor"

definition parity32_high :: "int \<Rightarrow> int" where
  "parity32_high n =
     (let n = n XOR drop_bit 16 n;
          n = n XOR drop_bit 8 n;
          n = n XOR drop_bit 4 n;
          n = n AND 0xf
      in push_bit (nat n) 0xD32C0000 AND push_bit 32 1)"

definition twos_complement :: "int \<Rightarrow> int \<Rightarrow> exn + int" where
  "twos_complement value width =
     res_bind (py_shl 1 (width - 1)) (\<lambda>signmask.
       if value AND signmask = 0 then Inr (value AND (signmask - 1))
       else res_bind (bit_invert value (width - 1)) (\<lambda>i. Inr (- i - 1)))"

subsection \<open>Masks\<close>

lemma range_mask: "0 \<le> lo \<Longrightarrow> lo \<le> hi + 1 \<Longrightarrow>
    bitmask [BitRange hi lo] = Inr (push_bit (nat lo) (mask (nat (hi - lo + 1))))"
  by (simp add: bitmask_def mask_of_arg_def mask_eq_exp_minus_1 push_bit_of_1)

lemma bit_range_mask: "bit (push_bit l (mask w :: int)) i \<longleftrightarrow> l \<le> i \<and> i < l + w"
  by (auto simp: bit_push_bit_iff bit_mask_iff)

lemma bfx_eq:
  assumes "0 \<le> lo" and "lo \<le> hi + 1"
  shows "bfx value hi lo = Inr (take_bit (nat (hi - lo + 1)) (drop_bit (nat lo) value))"
proof -
  have "drop_bit (nat lo) (value AND push_bit (nat lo) (mask (nat (hi - lo + 1))))
      = take_bit (nat (hi - lo + 1)) (drop_bit (nat lo) value)"
    by (rule bit_eqI) (auto simp: bit_simps)
  with assms show ?thesis by (simp add: bfx_def range_mask)
qed

lemma bfi_eq:
  assumes "0 \<le> lo" and "lo \<le> hi + 1"
  shows "\<exists>r. bfi value hi lo field = Inr r \<and>
    (\<forall>i. bit r i = (if nat lo \<le> i \<and> i < nat lo + nat (hi - lo + 1)
                    then bit field (i - nat lo) else bit value i))"
  using assms by (auto simp: bfi_def range_mask bit_simps)

text \<open>
  C39. Writing a field and reading it back gives the field's value truncated to the width of
  the bit field, and every bit of the register outside the field is unchanged.
\<close>

theorem bfi_bfx_roundtrip:
  assumes "0 \<le> lo" and "lo \<le> hi"
  shows "\<exists>r. bfi value hi lo field = Inr r
    \<and> bfx r hi lo = Inr (field mod 2 ^ nat (hi - lo + 1))
    \<and> (\<forall>i. i < nat lo \<or> nat hi < i \<longrightarrow> bit r i = bit value i)"
proof -
  obtain r where r: "bfi value hi lo field = Inr r"
    and b: "\<And>i. bit r i = (if nat lo \<le> i \<and> i < nat lo + nat (hi - lo + 1)
                    then bit field (i - nat lo) else bit value i)"
    using bfi_eq [of lo hi "value" field] assms by auto
  have "take_bit (nat (hi - lo + 1)) (drop_bit (nat lo) r)
      = take_bit (nat (hi - lo + 1)) field"
    by (rule bit_eqI) (auto simp: bit_simps b)
  then have "bfx r hi lo = Inr (field mod 2 ^ nat (hi - lo + 1))"
    using assms by (simp add: bfx_eq take_bit_eq_mod)
  moreover have "\<forall>i. i < nat lo \<or> nat hi < i \<longrightarrow> bit r i = bit value i"
    using assms by (auto simp: b)
  ultimately show ?thesis using r by blast
qed

theorem bfi_bfx_roundtrip_witness:
  "\<exists>r. bfi 0xabcd 11 4 0x123 = Inr r \<and> bfx r 11 4 = Inr (0x123 mod 2 ^ nat (11 - 4 + 1))
    \<and> (\<forall>i. i < nat 4 \<or> nat 11 < i \<longrightarrow> bit r i = bit (0xabcd :: int) i)"
  using bfi_bfx_roundtrip [of 4 11 "0xabcd" "0x123"] by simp

text \<open>\<open>bfxw\<close> asks for the bits from \<open>lsb + width\<close> down to \<open>lsb\<close>: one more than the width.\<close>

lemma bfxw_one_bit_too_wide:
  "0 \<le> lsb \<Longrightarrow> 0 \<le> width \<Longrightarrow>
    bfxw value lsb width = Inr (take_bit (nat (width + 1)) (drop_bit (nat lsb) value))"
  using bfx_eq [of lsb "lsb + width" "value"] by (simp add: bfx_def bfxw_def)

subsection \<open>Alignment\<close>

text \<open>
  For a positive multiple, \<open>align_down\<close> and \<open>align_up\<close> return the nearest multiples
  below and above the value, and a value that is a multiple is left alone.
\<close>

theorem align_brackets:
  assumes "0 < m"
  shows "\<exists>d u. align_down v m = Inr d \<and> align_up v m = Inr u
    \<and> m dvd d \<and> m dvd u \<and> d \<le> v \<and> v < d + m \<and> v \<le> u \<and> u < v + m
    \<and> (m dvd v \<longleftrightarrow> d = v) \<and> (m dvd v \<longleftrightarrow> u = v)
    \<and> round_up_div v m = Inr (u div m)"
proof -
  let ?d = "v div m * m" and ?u = "(v + m - 1) div m * m"
  have d: "?d \<le> v" "v < ?d + m"
    using assms div_mult_mod_eq [of v m] pos_mod_bound [of m v] pos_mod_sign [of m v] by linarith+
  have u: "v \<le> ?u" "?u < v + m"
    using assms div_mult_mod_eq [of "v + m - 1" m] pos_mod_bound [of m "v + m - 1"]
      pos_mod_sign [of m "v + m - 1"] by linarith+
  have eq_d: "m dvd v \<longleftrightarrow> ?d = v" by (metis dvd_div_mult_self dvd_triv_right)
  have eq_u: "m dvd v \<longleftrightarrow> ?u = v"
  proof
    assume "m dvd v"
    then have "m dvd ?u - v" and "0 \<le> ?u - v" and "?u - v < m" using u by auto
    then have "?u - v = 0" by (metis zdvd_not_zless order_le_less)
    then show "?u = v" by simp
  next
    assume "?u = v"
    then show "m dvd v" by (metis dvd_triv_right)
  qed
  have r: "align_down v m = Inr ?d" "align_up v m = Inr ?u" "round_up_div v m = Inr (?u div m)"
    using assms by (simp_all add: align_down_def align_up_def round_up_div_def)
  show ?thesis
    by (rule exI [of _ ?d], rule exI [of _ ?u], intro conjI)
      (rule r d u eq_d eq_u dvd_triv_right)+
qed

theorem align_brackets_witness:
  "\<exists>d u. align_down 0x1234 0x100 = Inr d \<and> align_up 0x1234 0x100 = Inr u
    \<and> 0x100 dvd d \<and> 0x100 dvd u \<and> d \<le> 0x1234 \<and> 0x1234 < d + 0x100 \<and> 0x1234 \<le> u
    \<and> u < 0x1234 + 0x100 \<and> (0x100 dvd (0x1234::int) \<longleftrightarrow> d = 0x1234)
    \<and> (0x100 dvd (0x1234::int) \<longleftrightarrow> u = 0x1234)
    \<and> round_up_div 0x1234 0x100 = Inr (u div 0x100)"
  using align_brackets [of "0x100" "0x1234"] by simp

subsection \<open>The highest set bit\<close>

lemma msb_loop_spec:
  "1 \<le> n \<Longrightarrow> 0 \<le> ndx \<Longrightarrow> \<exists>k. msb_loop n ndx = ndx + int k \<and> 2 ^ k \<le> n \<and> n < 2 ^ (k + 1)"
proof (induction n ndx rule: msb_loop.induct)
  case (1 n ndx)
  show ?case
  proof (cases "1 < n")
    case True
    then have "1 \<le> drop_bit 1 n" by (simp add: drop_bit_Suc)
    with 1 True obtain k where k: "msb_loop (drop_bit 1 n) (ndx + 1) = ndx + 1 + int k"
      "2 ^ k \<le> drop_bit 1 n" "drop_bit 1 n < 2 ^ (k + 1)" by auto
    then have "2 ^ Suc k \<le> n \<and> n < 2 ^ (Suc k + 1)" by (auto simp: drop_bit_Suc)
    with k True show ?thesis by (subst msb_loop.simps) (auto intro!: exI [of _ "Suc k"])
  next
    case False
    with 1 show ?thesis by (subst msb_loop.simps) (auto intro!: exI [of _ 0])
  qed
qed

lemma msb_spec: "1 \<le> n \<Longrightarrow> \<exists>k. msb n = int k \<and> 2 ^ k \<le> n \<and> n < 2 ^ (k + 1)"
  using msb_loop_spec [of n 0] by (auto simp: msb_def)

lemma same_iff: "same d1 d2 \<longleftrightarrow> d1 = d2"
proof -
  have "length d1 = length d2 \<Longrightarrow> same_items d1 d2 \<longleftrightarrow> d1 = d2"
    by (induction d1 d2 rule: list_induct2) auto
  then show ?thesis by (auto simp: same_def)
qed

subsection \<open>Parity\<close>

definition parity_of :: "nat list \<Rightarrow> int \<Rightarrow> bool" where
  "parity_of ks n = foldr (\<lambda>i p. bit n i \<noteq> p) ks False"

lemma nibble_parity:
  assumes "0 \<le> k" and "k < 16"
  shows "push_bit (nat k) 0xD32C0000 AND push_bit 32 1
    = (if parity_of [0..<4] k then 2 ^ 32 else (0::int))"
proof -
  have "k = 0 \<or> k = 1 \<or> k = 2 \<or> k = 3 \<or> k = 4 \<or> k = 5 \<or> k = 6 \<or> k = 7 \<or> k = 8
      \<or> k = 9 \<or> k = 10 \<or> k = 11 \<or> k = 12 \<or> k = 13 \<or> k = 14 \<or> k = 15"
    using assms by presburger
  then show ?thesis
    by (elim disjE) (simp_all add: parity_of_def upt_rec push_bit_eq_mult)
qed

text \<open>
  C34. \<open>parity32_high\<close> is the even-parity bit of a 32-bit value, placed at bit 32: the
  value it returns is \<open>2 ^ 32\<close> exactly when an odd number of the 32 bits is set, else 0.
\<close>

lemma parity_of_card: "distinct ks \<Longrightarrow> parity_of ks n = odd (card {i \<in> set ks. bit n i})"
proof (induction ks)
  case (Cons k ks)
  have "{i \<in> set (k # ks). bit n i} = (if bit n k then insert k else id) {i \<in> set ks. bit n i}"
    by auto
  with Cons show ?case by (auto simp: parity_of_def)
qed (simp add: parity_of_def)

lemma parity_of_append: "parity_of (xs @ ys) n = (parity_of xs n \<noteq> parity_of ys n)"
  by (induction xs) (auto simp: parity_of_def)

lemma parity_of_xor: "parity_of ks (n XOR m) = (parity_of ks n \<noteq> parity_of ks m)"
  by (induction ks) (auto simp: parity_of_def bit_simps)

lemma parity_of_drop: "parity_of ks (drop_bit k n) = parity_of (map ((+) k) ks) n"
  by (induction ks) (auto simp: parity_of_def bit_simps)

lemma parity_of_fold: "parity_of [0..<k] (n XOR drop_bit k n) = parity_of [0..<k + k] n"
proof -
  have "[0..<k + k] = [0..<k] @ map ((+) k) [0..<k]"
    by (rule nth_equalityI) (auto simp: nth_append)
  then show ?thesis by (simp add: parity_of_append parity_of_xor parity_of_drop)
qed

lemma parity_of_and_mask: "parity_of [0..<k] (n AND (2 ^ k - 1)) = parity_of [0..<k] n"
proof -
  have "(\<forall>i \<in> set ks. i < k) \<Longrightarrow> parity_of ks (n AND mask k) = parity_of ks n" for ks
    by (induction ks) (auto simp: parity_of_def bit_simps)
  then show ?thesis by (simp add: mask_eq_exp_minus_1)
qed

theorem parity32_high_correct:
  "parity32_high n = (if odd (card {i. i < 32 \<and> bit n i}) then 2 ^ 32 else 0)"
proof -
  let ?a = "n XOR drop_bit 16 n"
  let ?b = "?a XOR drop_bit 8 ?a"
  let ?c = "?b XOR drop_bit 4 ?b"
  have "parity32_high n = push_bit (nat (?c AND 15)) 0xD32C0000 AND push_bit 32 1"
    by (simp add: parity32_high_def Let_def)
  also have "\<dots> = (if parity_of [0..<4] (?c AND 15) then 2 ^ 32 else 0)"
    using and_low_mask [of ?c 4] by (intro nibble_parity) simp_all
  also have "parity_of [0..<4] (?c AND 15) = parity_of [0..<32] n"
    using parity_of_and_mask [of 4 ?c] parity_of_fold [of 4 ?b] parity_of_fold [of 8 ?a]
      parity_of_fold [of 16 n] by simp
  also have "\<dots> = odd (card {i. i < 32 \<and> bit n i})"
    by (subst parity_of_card) (auto intro!: arg_cong [of _ _ "\<lambda>A. odd (card A)"])
  finally show ?thesis .
qed

lemma and_push_bit_1_eq_0: "(v::int) AND push_bit w 1 = 0 \<longleftrightarrow> \<not> bit v w"
  by (simp add: push_bit_of_1 and_exp_eq_0_iff_not_bit)

text \<open>
  \<open>twos_complement\<close> reads the low \<open>width\<close> bits of its argument as a signed number.
\<close>

theorem twos_complement_signed:
  assumes "1 \<le> width"
  shows "twos_complement value width = Inr (signed_take_bit (nat width - 1) value)"
proof -
  let ?w = "nat (width - 1)"
  have w: "nat width - 1 = ?w" by simp
  have sign: "value AND push_bit ?w 1 = 0 \<longleftrightarrow> \<not> bit value ?w"
    by (rule and_push_bit_1_eq_0)
  have low: "push_bit ?w 1 - 1 = (mask ?w :: int)"
    by (simp add: mask_eq_exp_minus_1)
  show ?thesis
  proof (cases "bit value ?w")
    case True
    have "- ((push_bit ?w 1 - 1) AND (NOT value)) - 1 = NOT (mask ?w AND (NOT value))"
      by (simp only: low not_int_def)
    also have "\<dots> = signed_take_bit ?w value"
      using True by (intro bit_eqI) (auto simp: bit_simps min_def not_less)
    finally show ?thesis
      using assms True sign w by (simp add: twos_complement_def bit_invert_def)
  next
    case False
    have "value AND mask ?w = signed_take_bit ?w value"
      using False by (intro bit_eqI) (auto simp: bit_simps min_def not_less)
    with assms False sign low w show ?thesis by (simp add: twos_complement_def)
  qed
qed

theorem twos_complement_signed_witness:
  "twos_complement 0xfe 8 = Inr (signed_take_bit (nat 8 - 1) 0xfe)"
  using twos_complement_signed [of 8 "0xfe"] by simp

end
