(* ===== verification/Conversion.thy ===== *)
theory Conversion
  imports Mask
begin

text \<open>
  Conversions between byte lists, little-endian word lists and hexadecimal strings:
  \<open>pyocd/utility/conversion.py\<close>.  Bytes and words are Python integers.  The floating-point
  functions rest on \<open>struct\<close> and are left out.
\<close>

subsection \<open>The loops\<close>

text \<open>\<open>le_word bs\<close> is the \<open>sum((data[i] << (i * 8)) ...)\<close> of the code.\<close>

fun le_word_at :: "nat \<Rightarrow> int list \<Rightarrow> int" where
  "le_word_at i [] = 0"
| "le_word_at i (b # bs) = push_bit (8 * i) b + le_word_at (Suc i) bs"

definition le_word :: "int list \<Rightarrow> int" where
  "le_word bs = le_word_at 0 bs"

text \<open>
  The list comprehension over \<open>range(0, datalen, bytewidth)\<close>.  Bit widths are naturals.
\<close>

fun le_words :: "nat \<Rightarrow> nat \<Rightarrow> int list \<Rightarrow> int list" where
  "le_words 0 bw data = []"
| "le_words (Suc n) bw data = le_word (take bw data) # le_words n bw (drop bw data)"

definition byte_list_to_nbit_le_list :: "int list \<Rightarrow> nat \<Rightarrow> int \<Rightarrow> exn + int list" where
  "byte_list_to_nbit_le_list data bitwidth pad =
     (let bytewidth = bitwidth div 8
      in if bytewidth = 0 then Inl ZeroDivisionError
         else let res = le_words (length data div bytewidth) bytewidth data;
                  remainder = length data mod bytewidth
              in if remainder \<noteq> 0 then
                   (let pad_count = bytewidth - remainder;
                        padded_data = py_from data (- int remainder) @ replicate pad_count pad
                    in Inr (res @ [le_word (take bytewidth padded_data)]))
                 else Inr res)"

definition nbit_le_list_to_byte_list :: "int list \<Rightarrow> nat \<Rightarrow> int list" where
  "nbit_le_list_to_byte_list data bitwidth =
     concat (map (\<lambda>x. map (\<lambda>k. drop_bit (8 * k) x AND 0xff) [0..<(bitwidth + 7) div 8]) data)"

fun u32_of_bytes :: "int list \<Rightarrow> int" where
  "u32_of_bytes (a # b # c # d # _) =
     a OR push_bit 8 b OR push_bit 16 c OR push_bit 24 d"
| "u32_of_bytes _ = 0"

fun byte_list_to_u32le_list :: "int list \<Rightarrow> int \<Rightarrow> int list" where
  "byte_list_to_u32le_list (a # b # c # d # data) pad =
     u32_of_bytes [a, b, c, d] # byte_list_to_u32le_list data pad"
| "byte_list_to_u32le_list [] pad = []"
| "byte_list_to_u32le_list data pad =
     [u32_of_bytes (data @ replicate (4 - length data) pad)]"

fun u32le_list_to_byte_list :: "int list \<Rightarrow> int list" where
  "u32le_list_to_byte_list [] = []"
| "u32le_list_to_byte_list (x # data) =
     [x AND 0xff, drop_bit 8 x AND 0xff, drop_bit 16 x AND 0xff, drop_bit 24 x AND 0xff]
       @ u32le_list_to_byte_list data"

fun u16le_list_to_byte_list :: "int list \<Rightarrow> int list" where
  "u16le_list_to_byte_list [] = []"
| "u16le_list_to_byte_list (h # data) =
     [h AND 0xff, drop_bit 8 h AND 0xff] @ u16le_list_to_byte_list data"

text \<open>An odd number of bytes raises: \<open>byte_data[i + 1]\<close> is out of range.\<close>

fun byte_list_to_u16le_list :: "int list \<Rightarrow> exn + int list" where
  "byte_list_to_u16le_list [] = Inr []"
| "byte_list_to_u16le_list [a] = Inl IndexError"
| "byte_list_to_u16le_list (a # b # data) =
     res_bind (byte_list_to_u16le_list data) (\<lambda>r. Inr ((a OR push_bit 8 b) # r))"

subsection \<open>Hexadecimal strings\<close>

definition hex_digit :: "int \<Rightarrow> char" where
  "hex_digit d = ''0123456789abcdef'' ! nat d"

fun hex_nat :: "nat \<Rightarrow> string" where
  "hex_nat n = (if n < 16 then [hex_digit (int n)] else hex_nat (n div 16) @ [hex_digit (int (n mod 16))])"

declare hex_nat.simps [simp del]

text \<open>\<open>"%02x" % v\<close>: at least two characters, zero padded, a minus sign when negative.\<close>

definition byte_to_hex2 :: "int \<Rightarrow> string" where
  "byte_to_hex2 v =
     (if v < 0 then CHR ''-'' # hex_nat (nat (- v))
      else let h = hex_nat (nat v) in if length h < 2 then CHR ''0'' # h else h)"

definition digit_table :: "(char \<times> int) list" where
  "digit_table = zip ''0123456789abcdef'' [0..15] @ zip ''ABCDEF'' [10..15]"

definition digit_value :: "char \<Rightarrow> exn + int" where
  "digit_value c = (case map_of digit_table c of Some v \<Rightarrow> Inr v | None \<Rightarrow> Inl ValueError)"

text \<open>
  \<open>int(s, base=16)\<close> on ASCII strings, as Python reads them: surrounding whitespace, a sign, a
  \<open>0x\<close> prefix and single underscores between digits are accepted, anything else raises.
\<close>

definition is_py_space :: "char \<Rightarrow> bool" where
  "is_py_space c \<longleftrightarrow> (9 \<le> (of_char c :: nat) \<and> of_char c \<le> (13::nat))
     \<or> (28 \<le> (of_char c :: nat) \<and> of_char c \<le> (32::nat))"

fun hex_digits :: "int \<Rightarrow> string \<Rightarrow> exn + int" where
  "hex_digits acc [] = Inr acc"
| "hex_digits acc (c # cs) =
     (if c = CHR ''_'' then
        (case cs of [] \<Rightarrow> Inl ValueError
         | d # _ \<Rightarrow> if d = CHR ''_'' then Inl ValueError else hex_digits acc cs)
      else res_bind (digit_value c) (\<lambda>v. hex_digits (acc * 16 + v) cs))"

definition hex_unsigned :: "string \<Rightarrow> exn + int" where
  "hex_unsigned s =
     (let t = (case s of c # x # r \<Rightarrow>
                 (if c = CHR ''0'' \<and> (x = CHR ''x'' \<or> x = CHR ''X'')
                  then (case r of u # r' \<Rightarrow> if u = CHR ''_'' then r' else r | [] \<Rightarrow> r)
                  else s)
               | _ \<Rightarrow> s)
      in case t of [] \<Rightarrow> Inl ValueError
         | c # _ \<Rightarrow> if c = CHR ''_'' then Inl ValueError else hex_digits 0 t)"

definition int_base16 :: "string \<Rightarrow> exn + int" where
  "int_base16 s =
     (let t = rev (dropWhile is_py_space (rev (dropWhile is_py_space s)))
      in case t of
           [] \<Rightarrow> Inl ValueError
         | c # r \<Rightarrow> if c = CHR ''-'' then res_bind (hex_unsigned r) (\<lambda>v. Inr (- v))
                    else if c = CHR ''+'' then hex_unsigned r
                    else hex_unsigned t)"

definition uint_to_hex_le :: "int \<Rightarrow> nat \<Rightarrow> string" where
  "uint_to_hex_le v width =
     concat (map (\<lambda>k. byte_to_hex2 (drop_bit (8 * k) v AND 0xff)) [0..<(width + 7) div 8])"

fun hex_le_sum :: "nat \<Rightarrow> nat \<Rightarrow> string \<Rightarrow> exn + int" where
  "hex_le_sum 0 k s = Inr 0"
| "hex_le_sum (Suc n) k s =
     res_bind (int_base16 (take 2 (drop (2 * k) s))) (\<lambda>b.
     res_bind (hex_le_sum n (Suc k) s) (\<lambda>rest. Inr (push_bit (8 * k) b + rest)))"

definition hex_le_to_uint :: "string \<Rightarrow> nat \<Rightarrow> exn + int" where
  "hex_le_to_uint s width = hex_le_sum ((width + 7) div 8) 0 s"

definition u32_to_hex8le :: "int \<Rightarrow> string" where
  "u32_to_hex8le v = uint_to_hex_le v 32"

definition u64_to_hex16le :: "int \<Rightarrow> string" where
  "u64_to_hex16le v = uint_to_hex_le v 64"

definition hex8_to_u32be :: "string \<Rightarrow> exn + int" where
  "hex8_to_u32be data = hex_le_to_uint data 32"

definition hex16_to_u64be :: "string \<Rightarrow> exn + int" where
  "hex16_to_u64be data = hex_le_to_uint data 64"

definition hex8_to_u32le :: "string \<Rightarrow> exn + int" where
  "hex8_to_u32le data = int_base16 (take 8 data)"

definition hex16_to_u64le :: "string \<Rightarrow> exn + int" where
  "hex16_to_u64le data = int_base16 (take 16 data)"

text \<open>\<open>binascii.unhexlify\<close>: an odd length or a digit that is none raises (a ValueError subclass).\<close>

fun hex_decode :: "string \<Rightarrow> exn + int list" where
  "hex_decode [] = Inr []"
| "hex_decode [c] = Inl ValueError"
| "hex_decode (c # d # s) =
     res_bind (digit_value c) (\<lambda>h. res_bind (digit_value d) (\<lambda>l.
     res_bind (hex_decode s) (\<lambda>r. Inr ((h * 16 + l) # r))))"

definition hex_to_byte_list :: "string \<Rightarrow> exn + int list" where
  "hex_to_byte_list data = hex_decode data"

definition hex_encode :: "int list \<Rightarrow> string" where
  "hex_encode bs = concat (map byte_to_hex2 bs)"

fun pairwise :: "'a list \<Rightarrow> ('a \<times> 'a) list" where
  "pairwise (x # y # xs) = (x, y) # pairwise xs"
| "pairwise _ = []"

subsection \<open>Codecs\<close>

text \<open>
  The contract of an encoder and its decoder: what was encoded is decoded again.  The
  conversions of this theory, and the byte stuffing of the SDC-600, provide it.
\<close>

locale codec =
  fixes enc :: "'a \<Rightarrow> 'b"
    and dec :: "'b \<Rightarrow> exn + 'a"
    and valid :: "'a \<Rightarrow> bool"
  assumes dec_enc: "valid x \<Longrightarrow> dec (enc x) = Inr x"
begin

lemma enc_inj: "valid x \<Longrightarrow> valid y \<Longrightarrow> enc x = enc y \<Longrightarrow> x = y"
  by (metis dec_enc sum.inject(2))

lemma dec_enc_iff: "valid x \<Longrightarrow> dec (enc x) = Inr y \<longleftrightarrow> y = x"
  by (auto simp: dec_enc)

end

locale list_codec = codec enc dec valid
  for enc :: "'a list \<Rightarrow> 'b list" and dec :: "'b list \<Rightarrow> exn + 'a list" and valid +
  assumes enc_append: "enc (xs @ ys) = enc xs @ enc ys"
    and valid_append: "valid (xs @ ys) \<longleftrightarrow> valid xs \<and> valid ys"
begin

lemma dec_append: "valid xs \<Longrightarrow> valid ys \<Longrightarrow> dec (enc xs @ enc ys) = Inr (xs @ ys)"
  by (metis dec_enc enc_append valid_append)

end

subsection \<open>Words\<close>

definition is_uint :: "nat \<Rightarrow> int \<Rightarrow> bool" where
  "is_uint w x \<longleftrightarrow> 0 \<le> x \<and> x < 2 ^ w"

definition all_uints :: "nat \<Rightarrow> int list \<Rightarrow> bool" where
  "all_uints w xs \<longleftrightarrow> list_all (is_uint w) xs"

lemma all_uints_simps [simp]:
  "all_uints w []"
  "all_uints w (x # xs) \<longleftrightarrow> is_uint w x \<and> all_uints w xs"
  "all_uints w (xs @ ys) \<longleftrightarrow> all_uints w xs \<and> all_uints w ys"
  by (simp_all add: all_uints_def)

lemma is_byte_uint: "is_byte b \<longleftrightarrow> is_uint 8 b"
  by (simp add: is_byte_def is_uint_def)

lemma byte_of_word: "drop_bit n x AND 255 = x div 2 ^ n mod (256::int)"
  by (simp add: and_255_mod drop_bit_eq_div)

lemma is_byte_mod [simp]: "is_byte (x mod 256)"
  by (simp add: is_byte_def)

lemma is_byte_and [simp]: "is_byte (x AND 255)"
  by (simp add: and_255_mod)

lemma byte_horner: "is_byte a \<Longrightarrow> (a + 256 * y) mod 256 = a" "is_byte a \<Longrightarrow> (a + 256 * y) div 256 = y"
  by (simp_all add: is_byte_def)

lemma or_byte_shift: "is_byte a \<Longrightarrow> a OR push_bit 8 y = a + 256 * y"
  using or_shift_disjoint [of a 8 y] by (simp add: is_byte_def push_bit_eq_mult)

lemma u32_of_bytes_horner:
  assumes "is_byte a" "is_byte b" "is_byte c"
  shows "u32_of_bytes [a, b, c, d] = a + 256 * (b + 256 * (c + 256 * d))"
proof -
  have s: "push_bit 16 c = push_bit 8 (push_bit 8 c)" "push_bit 24 d = push_bit 8 (push_bit 8 (push_bit 8 d))"
    by (simp_all add: push_bit_push_bit)
  have "u32_of_bytes [a, b, c, d] = a OR push_bit 8 (b OR push_bit 8 (c OR push_bit 8 d))"
    by (simp add: s push_bit_or or.assoc del: push_bit_push_bit)
  then show ?thesis by (simp only: or_byte_shift assms)
qed

lemma div_steps: "x div 65536 = x div 256 div (256::int)" "x div 16777216 = x div 256 div 256 div (256::int)"
  by (simp_all add: div_mult2_eq [symmetric])

lemma u32_bytes_inv:
  assumes "is_uint 32 x"
  shows "x mod 256 + 256 * (x div 256 mod 256 + 256 * (x div 65536 mod 256
      + 256 * (x div 16777216 mod 256))) = x"
proof -
  have "x div 256 div 256 div 256 mod 256 = x div 256 div 256 div 256"
    using assms by (intro mod_pos_pos_trivial) (auto simp: is_uint_def)
  then show ?thesis
    unfolding div_steps by (metis mod_mult_div_eq)
qed

lemma u32_bytes_horner_inv:
  assumes "is_byte a" "is_byte b" "is_byte c" "is_byte d"
  shows "let x = a + 256 * (b + 256 * (c + 256 * d)) in
    x mod 256 = a \<and> x div 256 mod 256 = b \<and> x div 65536 mod 256 = c \<and> x div 16777216 mod 256 = d"
proof -
  have 1: "(a + 256 * (b + 256 * (c + 256 * d))) div 256 = b + 256 * (c + 256 * d)"
    and 2: "(b + 256 * (c + 256 * d)) div 256 = c + 256 * d" and 3: "(c + 256 * d) div 256 = d"
    and 4: "d mod 256 = d"
    using assms by (simp_all only: byte_horner) (simp add: is_byte_def)
  show ?thesis
    unfolding Let_def div_steps 1 2 3 4 using assms by (intro conjI byte_horner) simp_all
qed

lemma byte_words:
  "(x::int) AND 255 = x mod 256" "drop_bit 8 x = x div 256"
  "drop_bit 16 x = x div 65536" "drop_bit 24 x = x div 16777216"
  by (simp_all add: and_255_mod drop_bit_eq_div)

lemma u32_of_split:
  "is_uint 32 x \<Longrightarrow> u32_of_bytes [x AND 255, drop_bit 8 x AND 255, drop_bit 16 x AND 255,
    drop_bit 24 x AND 255] = x"
  unfolding byte_words by (simp only: u32_of_bytes_horner is_byte_mod u32_bytes_inv)

lemma split_of_u32:
  assumes "is_byte a" "is_byte b" "is_byte c" "is_byte d"
  shows "u32le_list_to_byte_list [u32_of_bytes [a, b, c, d]] = [a, b, c, d]"
  using u32_bytes_horner_inv [OF assms] assms
  by (simp only: u32_of_bytes_horner u32le_list_to_byte_list.simps byte_words Let_def append_Nil2)

lemma u32_to_bytes_to_u32:
  "all_uints 32 ws \<Longrightarrow> byte_list_to_u32le_list (u32le_list_to_byte_list ws) pad = ws"
proof (induction ws)
  case (Cons x ws)
  then show ?case by (simp add: u32_of_split del: u32_of_bytes.simps)
qed simp

lemma all_bytes_u32le: "all_bytes (u32le_list_to_byte_list ws)"
  by (induction ws) auto

lemma length_u32le [simp]: "length (u32le_list_to_byte_list ws) = 4 * length ws"
  by (induction ws) auto

lemma u32le_append: "u32le_list_to_byte_list (xs @ ys)
    = u32le_list_to_byte_list xs @ u32le_list_to_byte_list ys"
  by (induction xs) auto

lemma four_dvd_Suc: "\<not> 4 dvd Suc 0" "\<not> 4 dvd Suc (Suc 0)" "\<not> 4 dvd Suc (Suc (Suc 0))"
  "4 dvd Suc (Suc (Suc (Suc n))) \<longleftrightarrow> 4 dvd n"
  by presburger+

lemma bytes_to_u32_to_bytes:
  "all_bytes bs \<Longrightarrow> 4 dvd length bs \<Longrightarrow>
    u32le_list_to_byte_list (byte_list_to_u32le_list bs pad) = bs"
proof (induction bs pad rule: byte_list_to_u32le_list.induct)
  case (1 a b c d data pad)
  have "4 dvd length data" using "1.prems"(2) by (simp add: four_dvd_Suc)
  moreover have "u32le_list_to_byte_list [u32_of_bytes [a, b, c, d]] = [a, b, c, d]"
    using "1.prems"(1) by (intro split_of_u32) simp_all
  ultimately show ?case
    using 1 by (simp del: u32_of_bytes.simps)
qed (simp_all add: four_dvd_Suc)



subsection \<open>Words of any byte width\<close>

definition word_bytes :: "nat \<Rightarrow> int \<Rightarrow> int list" where
  "word_bytes n x = map (\<lambda>k. drop_bit (8 * k) x AND 0xff) [0..<n]"

lemma take_bit_split: "take_bit (m + n) (x::int) = take_bit m x + push_bit m (take_bit n (drop_bit m x))"
proof -
  have "push_bit m (drop_bit m (take_bit (m + n) x)) + take_bit m (take_bit (m + n) x) = take_bit (m + n) x"
    by (rule bits_ident)
  then show ?thesis by (simp add: drop_bit_take_bit)
qed

lemma le_word_at_bytes:
  "le_word_at i (map (\<lambda>k. drop_bit (8 * k) x AND 255) [i..<i + n])
    = push_bit (8 * i) (take_bit (8 * n) (drop_bit (8 * i) x))"
proof (induction n arbitrary: i)
  case (Suc n)
  have "[i..<i + Suc n] = i # [Suc i..<Suc i + n]" by (simp add: upt_rec)
  then show ?case
    using Suc [of "Suc i"] take_bit_split [of 8 "8 * n" "drop_bit (8 * i) x"]
    by (simp add: and_255_mod take_bit_eq_mod [of 8] push_bit_add push_bit_push_bit
        add.commute)
qed simp

lemma le_word_word_bytes: "le_word (word_bytes n x) = take_bit (8 * n) x"
  using le_word_at_bytes [of 0 x n] by (simp add: le_word_def word_bytes_def)

lemma length_word_bytes [simp]: "length (word_bytes n x) = n"
  by (simp add: word_bytes_def)

lemma all_bytes_word_bytes [simp]: "all_bytes (word_bytes n x)"
  by (simp add: word_bytes_def all_bytes_def list_all_iff)

lemma nbit_bytes: "nbit_le_list_to_byte_list ws (8 * n) = concat (map (word_bytes n) ws)"
  by (simp add: nbit_le_list_to_byte_list_def word_bytes_def [abs_def])

lemma length_concat_word_bytes: "length (concat (map (word_bytes n) ws)) = n * length ws"
  by (induction ws) simp_all

lemma le_words_concat:
  "all_uints (8 * n) ws \<Longrightarrow> le_words (length ws) n (concat (map (word_bytes n) ws)) = ws"
  by (induction ws) (simp_all add: le_word_word_bytes is_uint_def take_bit_int_eq_self)

text \<open>
  Words of any whole number of bytes survive the trip through a little-endian byte list,
  with no padding involved.
\<close>

theorem nbit_le_roundtrip:
  assumes "0 < n" and "all_uints (8 * n) ws"
  shows "byte_list_to_nbit_le_list (nbit_le_list_to_byte_list ws (8 * n)) (8 * n) pad = Inr ws"
  using assms
  by (simp add: byte_list_to_nbit_le_list_def nbit_bytes length_concat_word_bytes le_words_concat)

theorem nbit_le_roundtrip_witness:
  "byte_list_to_nbit_le_list (nbit_le_list_to_byte_list [0x1234, 0xfffe] (8 * 2)) (8 * 2) 0
    = Inr [0x1234, 0xfffe]"
  by (rule nbit_le_roundtrip) (simp_all add: is_uint_def)

subsection \<open>Hexadecimal\<close>

lemma nibble_cases:
  fixes d :: int
  assumes "0 \<le> d" and "d < 16"
  obtains "d = 0" | "d = 1" | "d = 2" | "d = 3" | "d = 4" | "d = 5" | "d = 6" | "d = 7" | "d = 8"
    | "d = 9" | "d = 10" | "d = 11" | "d = 12" | "d = 13" | "d = 14" | "d = 15"
proof -
  have "d = 0 \<or> d = 1 \<or> d = 2 \<or> d = 3 \<or> d = 4 \<or> d = 5 \<or> d = 6 \<or> d = 7 \<or> d = 8
      \<or> d = 9 \<or> d = 10 \<or> d = 11 \<or> d = 12 \<or> d = 13 \<or> d = 14 \<or> d = 15"
    using assms by presburger
  with that show thesis by blast
qed

lemma hex_digit_facts:
  assumes "0 \<le> d" and "d < 16"
  shows "digit_value (hex_digit d) = Inr d"
    and "\<not> is_py_space (hex_digit d)"
    and "hex_digit d \<noteq> CHR ''_''" and "hex_digit d \<noteq> CHR ''-''" and "hex_digit d \<noteq> CHR ''+''"
    and "hex_digit d \<noteq> CHR ''x''" and "hex_digit d \<noteq> CHR ''X''"
  using assms
  by (cases d rule: nibble_cases;
      simp add: digit_value_def digit_table_def hex_digit_def is_py_space_def upto_rec1)+

lemma byte_to_hex2_byte:
  assumes "is_byte b"
  shows "byte_to_hex2 b = [hex_digit (b div 16), hex_digit (b mod 16)]"
proof (cases "b < 16")
  case True
  have "hex_digit 0 = CHR ''0''" by (simp add: hex_digit_def)
  moreover have "nat b < 16" using True by simp
  ultimately show ?thesis
    using True assms by (simp add: is_byte_def byte_to_hex2_def hex_nat.simps [of "nat b"] div_pos_pos_trivial)
next
  case False
  then have "\<not> nat b < 16" and "nat b div 16 < 16"
    using assms by (auto simp: is_byte_def)
  then have "hex_nat (nat b) = [hex_digit (b div 16), hex_digit (b mod 16)]"
    using assms by (simp add: is_byte_def hex_nat.simps [of "nat b"] hex_nat.simps [of "nat b div 16"]
        zdiv_int zmod_int)
  with False assms show ?thesis by (simp add: is_byte_def byte_to_hex2_def)
qed

lemma hex_encode_simps [simp]:
  "hex_encode [] = []"
  "is_byte b \<Longrightarrow> hex_encode (b # bs) = hex_digit (b div 16) # hex_digit (b mod 16) # hex_encode bs"
  by (simp_all add: hex_encode_def byte_to_hex2_byte)

lemma byte_nibbles: "is_byte b \<Longrightarrow> 0 \<le> b div 16 \<and> b div 16 < 16 \<and> 0 \<le> b mod 16 \<and> b mod 16 < 16"
  by (auto simp: is_byte_def)

lemma hex_decode_encode: "all_bytes bs \<Longrightarrow> hex_decode (hex_encode bs) = Inr bs"
  by (induction bs) (simp_all add: hex_digit_facts byte_nibbles)

interpretation hex: list_codec hex_encode hex_decode all_bytes
  by unfold_locales (simp_all add: hex_decode_encode, simp add: hex_encode_def)

interpretation u32le: codec u32le_list_to_byte_list "\<lambda>bs. Inr (byte_list_to_u32le_list bs 0)" "all_uints 32"
  by unfold_locales (simp add: u32_to_bytes_to_u32)

lemma int_base16_byte: "is_byte b \<Longrightarrow> int_base16 (byte_to_hex2 b) = Inr b"
  using byte_nibbles [of b]
  by (simp add: byte_to_hex2_byte int_base16_def hex_unsigned_def hex_digit_facts Let_def)

lemma uint_to_hex_le_bytes: "uint_to_hex_le v w = hex_encode (word_bytes ((w + 7) div 8) v)"
  by (simp add: uint_to_hex_le_def hex_encode_def word_bytes_def o_def)

lemma hex_pair_at:
  "all_bytes bs \<Longrightarrow> k < length bs \<Longrightarrow> take 2 (drop (2 * k) (hex_encode bs)) = byte_to_hex2 (bs ! k)"
proof (induction bs arbitrary: k)
  case (Cons b bs)
  then show ?case by (cases k) (simp_all add: byte_to_hex2_byte numeral_2_eq_2)
qed simp

lemma hex_le_sum_bytes:
  assumes "all_bytes bs"
  shows "k + n = length bs \<Longrightarrow> hex_le_sum n k (hex_encode bs) = Inr (le_word_at k (drop k bs))"
proof (induction n arbitrary: k)
  case (Suc n)
  then have "drop k bs = bs ! k # drop (Suc k) bs" by (simp add: Cons_nth_drop_Suc)
  with Suc assms show ?case
    by (simp add: hex_pair_at int_base16_byte all_bytes_nth)
qed simp

lemma hex_le_roundtrip_bytes:
  "hex_le_to_uint (uint_to_hex_le v w) w = Inr (take_bit (8 * ((w + 7) div 8)) v)"
  using hex_le_sum_bytes [of "word_bytes ((w + 7) div 8) v" 0 "(w + 7) div 8"] le_word_word_bytes
  by (simp add: hex_le_to_uint_def uint_to_hex_le_bytes le_word_def)

text \<open>
  A register value printed as little-endian hex bytes and read back is the value truncated
  to the whole bytes that hold \<open>width\<close> bits, so a value that fits \<open>width\<close> bits comes back
  unchanged; the digit count is twice that number of bytes; and decoding encoded bytes gives
  the bytes.
\<close>

theorem hex_le_roundtrip:
  assumes "is_uint w v" and "all_bytes bs"
  shows "hex_le_to_uint (uint_to_hex_le v w) w = Inr v
    \<and> length (uint_to_hex_le v w) = 2 * ((w + 7) div 8)
    \<and> hex_decode (hex_encode bs) = Inr bs"
proof -
  have "v < 2 ^ (8 * ((w + 7) div 8))"
    using assms by (auto simp: is_uint_def intro: less_le_trans power_increasing)
  then have "take_bit (8 * ((w + 7) div 8)) v = v"
    using assms by (simp add: is_uint_def take_bit_int_eq_self)
  moreover have "length (hex_encode cs) = 2 * length cs" if "all_bytes cs" for cs
    using that by (induction cs) simp_all
  ultimately show ?thesis
    using assms hex_le_roundtrip_bytes [of v w] by (simp add: uint_to_hex_le_bytes hex_decode_encode)
qed

theorem hex_le_roundtrip_witness:
  "hex_le_to_uint (uint_to_hex_le 0x12345678 32) 32 = Inr 0x12345678
    \<and> length (uint_to_hex_le 0x12345678 32) = 2 * ((32 + 7) div 8)
    \<and> hex_decode (hex_encode [0, 0xff]) = Inr [0, 0xff]"
  by (rule hex_le_roundtrip) (simp_all add: is_uint_def is_byte_def)

end
