(* ===== verification/Names.thy ===== *)
theory Names
  imports Prelude
begin

text \<open>
  Name matching and name generation: \<open>pyocd/utility/strings.py\<close>.  The matcher's set of items
  is a list without duplicates, in the (unspecified) order a Python set is iterated in.
\<close>

subsection \<open>Unique prefix matching\<close>

definition starts_with :: "string \<Rightarrow> string \<Rightarrow> bool" where
  "starts_with s prefix \<longleftrightarrow> take (length prefix) s = prefix"

definition matcher_init :: "string list option \<Rightarrow> string list" where
  "matcher_init items = (case items of None \<Rightarrow> [] | Some xs \<Rightarrow> remdups xs)"

definition add_items :: "string list \<Rightarrow> string list \<Rightarrow> string list" where
  "add_items items more = remdups (items @ more)"

definition find_all :: "string list \<Rightarrow> string \<Rightarrow> exn + string list" where
  "find_all items prefix =
     (if length prefix = 0 then Inl ValueError
      else if prefix \<in> set items then Inr [prefix]
      else Inr (filter (\<lambda>i. starts_with i prefix) items))"

definition find_one :: "string list \<Rightarrow> string \<Rightarrow> exn + string option" where
  "find_one items prefix =
     res_bind (find_all items prefix) (\<lambda>all_matches.
       Inr (if length all_matches = 1 then Some (hd all_matches) else None))"

subsection \<open>Decimal numbers\<close>

definition digit_char :: "nat \<Rightarrow> char" where
  "digit_char d = char_of (48 + d)"

fun dec_str :: "nat \<Rightarrow> string" where
  "dec_str n = (if n < 10 then [digit_char n] else dec_str (n div 10) @ [digit_char (n mod 10)])"

declare dec_str.simps [simp del]

definition is_digit :: "char \<Rightarrow> bool" where
  "is_digit c \<longleftrightarrow> 48 \<le> (of_char c :: nat) \<and> (of_char c :: nat) \<le> 57"

definition dec_value :: "string \<Rightarrow> nat" where
  "dec_value s = foldl (\<lambda>acc c. 10 * acc + (of_char c - 48)) 0 s"

subsection \<open>Making a name unique\<close>

text \<open>
  The match of \<open>[0-9]+$\<close> in a name, as the text before it and its digits.  \<open>$\<close> also
  matches before a final newline, so a newline after the digits is dropped with them.
\<close>

definition strip_newline :: "string \<Rightarrow> string" where
  "strip_newline s = (if s \<noteq> [] \<and> last s = char_of (10::nat) then butlast s else s)"

definition int_suffix :: "string \<Rightarrow> (string \<times> string) option" where
  "int_suffix name =
     (let s = strip_newline name; ds = rev (takeWhile is_digit (rev s))
      in if ds = [] then None else Some (take (length s - length ds) s, ds))"

definition bump_name :: "string \<Rightarrow> string" where
  "bump_name name = (case int_suffix name of
       Some (base, ds) \<Rightarrow> base @ dec_str (dec_value ds + 1)
     | None \<Rightarrow> (name @ ''_'') @ dec_str (0 + 1))"

text \<open>The while loop, with fuel; \<open>uniquify_name\<close> gives it enough (\<open>uniquify_name_unique\<close>).\<close>

fun uniquify_loop :: "nat \<Rightarrow> string \<Rightarrow> string list \<Rightarrow> string option" where
  "uniquify_loop 0 name others = None"
| "uniquify_loop (Suc fuel) name others =
     (if name \<in> set others then uniquify_loop fuel (bump_name name) others else Some name)"

definition uniquify_name :: "string \<Rightarrow> string list \<Rightarrow> string option" where
  "uniquify_name name others = uniquify_loop (length others + 2) name others"

subsection \<open>The matcher\<close>

lemma find_all_prefixes:
  "find_all items prefix = Inr ms \<Longrightarrow> m \<in> set ms \<Longrightarrow> m \<in> set items \<and> starts_with m prefix"
  by (auto simp: find_all_def starts_with_def split: if_splits)

lemma distinct_singleton_set: 
  assumes "distinct xs"
  shows "xs = [m] \<longleftrightarrow> set xs = {m}"
proof
  assume "set xs = {m}"
  then have "length xs = 1" using assms distinct_card [of xs] by simp
  then obtain x where x: "xs = [x]" by (cases xs) simp_all
  show "xs = [m]" using \<open>set xs = {m}\<close> unfolding x by simp
next
  assume x: "xs = [m]"
  show "set xs = {m}" unfolding x by simp
qed

text \<open>
  For a non-empty prefix, \<open>find_one\<close> returns an item exactly when the prefix is itself an
  item, or is the prefix of that one item and of no other.
\<close>

theorem find_one_unique:
  assumes "prefix \<noteq> []" and "distinct items"
  shows "find_one items prefix = Inr (Some m) \<longleftrightarrow>
    (if prefix \<in> set items then m = prefix
     else {i \<in> set items. starts_with i prefix} = {m})"
proof (cases "prefix \<in> set items")
  case True
  with assms(1) show ?thesis by (auto simp: find_one_def find_all_def)
next
  case False
  define f where "f = filter (\<lambda>i. starts_with i prefix) items"
  have d: "distinct f" and st: "set f = {i \<in> set items. starts_with i prefix}"
    using assms(2) by (auto simp: f_def)
  have one: "find_one items prefix = Inr (Some m) \<longleftrightarrow> f = [m]"
    using assms(1) False by (cases f) (auto simp: find_one_def find_all_def simp flip: f_def)
  have "f = [m] \<longleftrightarrow> set f = {m}"
    by (rule distinct_singleton_set [OF d])
  then show ?thesis unfolding one st using False by simp
qed

theorem find_one_unique_witness:
  "find_one [''reset'', ''read'', ''go''] ''g'' = Inr (Some ''go'') \<longleftrightarrow>
    (if ''g'' \<in> set [''reset'', ''read'', ''go''] then ''go'' = ''g''
     else {i \<in> set [''reset'', ''read'', ''go'']. starts_with i ''g''} = {''go''})"
  by (rule find_one_unique) simp_all

subsection \<open>Decimal digits\<close>

lemma digit_char_facts:
  "d < 10 \<Longrightarrow> is_digit (digit_char d)" "d < 10 \<Longrightarrow> (of_char (digit_char d) :: nat) = 48 + d"
  "d < 10 \<Longrightarrow> digit_char d \<noteq> char_of (10::nat)"
proof -
  assume "d < 10"
  then have v: "(of_char (digit_char d) :: nat) = 48 + d"
    by (simp add: digit_char_def of_char_of)
  with \<open>d < 10\<close> show "is_digit (digit_char d)" "(of_char (digit_char d) :: nat) = 48 + d"
    by (simp_all add: is_digit_def)
  show "digit_char d \<noteq> char_of (10::nat)"
  proof
    assume "digit_char d = char_of (10::nat)"
    then have "(of_char (digit_char d) :: nat) = of_char (char_of (10::nat) :: char)" by simp
    with v show False by (simp add: of_char_of)
  qed
qed

lemma dec_str_nonempty [simp]: "dec_str n \<noteq> []"
  by (subst dec_str.simps) simp

lemma dec_str_digits: "c \<in> set (dec_str n) \<Longrightarrow> is_digit c"
proof (induction n rule: dec_str.induct)
  case (1 n)
  then show ?case
    by (auto simp: dec_str.simps [of n] digit_char_facts split: if_splits)
qed

lemma last_dec_str: "last (dec_str n) \<noteq> char_of (10::nat)"
  by (subst dec_str.simps) (simp add: digit_char_facts)

lemma dec_value_append: "dec_value (s @ [c]) = 10 * dec_value s + (of_char c - 48)"
  by (simp add: dec_value_def)

lemma dec_value_str [simp]: "dec_value (dec_str n) = n"
proof (induction n rule: dec_str.induct)
  case (1 n)
  show ?case
  proof (cases "n < 10")
    case True
    then show ?thesis by (simp add: dec_str.simps [of n] dec_value_def digit_char_facts)
  next
    case False
    with 1 show ?thesis
      by (simp add: dec_str.simps [of n] dec_value_append digit_char_facts)
  qed
qed

lemma dec_str_inj: "dec_str m = dec_str n \<Longrightarrow> m = n"
  by (metis dec_value_str)

subsection \<open>The generated names are all different\<close>

lemma int_suffix_dec:
  assumes "base = [] \<or> \<not> is_digit (last base)"
  shows "int_suffix (base @ dec_str n) = Some (base, dec_str n)"
proof -
  have s: "strip_newline (base @ dec_str n) = base @ dec_str n"
    using last_dec_str [of n] by (simp add: strip_newline_def)
  have "takeWhile is_digit (rev (dec_str n) @ rev base) = rev (dec_str n)"
    using assms dec_str_digits [of _ n]
    by (cases base rule: rev_cases) (auto simp: takeWhile_append2 takeWhile_append)
  with s show ?thesis by (simp add: int_suffix_def Let_def)
qed

lemma bump_dec:
  "base = [] \<or> \<not> is_digit (last base) \<Longrightarrow> bump_name (base @ dec_str n) = base @ dec_str (n + 1)"
  by (simp add: bump_name_def int_suffix_dec)

lemma int_suffix_base:
  assumes "int_suffix name = Some (base, ds)"
  shows "base = [] \<or> \<not> is_digit (last base)"
proof -
  define s where "s = strip_newline name"
  have b: "base = take (length s - length (takeWhile is_digit (rev s))) s"
    using assms by (auto simp: int_suffix_def Let_def s_def split: if_splits)
  have "rev base = dropWhile is_digit (rev s)"
    using length_takeWhile_le [of is_digit "rev s"]
    unfolding b by (simp add: rev_take dropWhile_eq_drop)
  then have "base = rev (dropWhile is_digit (rev s))" by (metis rev_rev_ident)
  then show ?thesis
    using hd_dropWhile [of is_digit "rev s"] by (auto simp: last_rev)
qed

lemma bump_form: "\<exists>base k. (base = [] \<or> \<not> is_digit (last base)) \<and> bump_name name = base @ dec_str k"
proof (cases "int_suffix name")
  case None
  have "\<not> is_digit (last (name @ ''_''))" by (simp add: is_digit_def)
  moreover have "bump_name name = (name @ ''_'') @ dec_str 1" using None by (simp add: bump_name_def)
  ultimately show ?thesis by blast
next
  case (Some p)
  then show ?thesis
    using int_suffix_base [of name "fst p" "snd p"]
    by (cases p) (auto simp: bump_name_def)
qed

lemma bump_iter:
  assumes "base = [] \<or> \<not> is_digit (last base)"
  shows "(bump_name ^^ i) (base @ dec_str k) = base @ dec_str (k + i)"
  by (induction i) (simp_all add: bump_dec [OF assms, simplified])

lemma uniquify_loop_None:
  "uniquify_loop fuel name others = None \<longleftrightarrow> (\<forall>i < fuel. (bump_name ^^ i) name \<in> set others)"
proof (induction fuel arbitrary: name)
  case (Suc fuel)
  show ?case
    using Suc [of "bump_name name"]
    by (auto simp: All_less_Suc2 funpow_swap1)
qed simp

lemma uniquify_loop_Some:
  "uniquify_loop fuel name others = Some n \<Longrightarrow> n \<notin> set others"
  by (induction fuel arbitrary: name) (auto split: if_splits)

text \<open>
  C33. \<open>uniquify_name\<close> always returns, the name it returns is none of the others, and a name
  that is already unique is returned unchanged.
\<close>

theorem uniquify_name_unique:
  "\<exists>n. uniquify_name name others = Some n \<and> (if name \<in> set others then n \<notin> set others else n = name)"
proof -
  have "uniquify_name name others \<noteq> None"
  proof
    assume "uniquify_name name others = None"
    then have all: "\<And>i. i < length others + 2 \<Longrightarrow> (bump_name ^^ i) name \<in> set others"
      unfolding uniquify_name_def uniquify_loop_None by blast
    obtain base k where base: "base = [] \<or> \<not> is_digit (last base)"
      and k: "bump_name name = base @ dec_str k"
      using bump_form by blast
    have "base @ dec_str (k + i) \<in> set others" if "i < length others + 1" for i
      using all [of "Suc i"] that bump_iter [OF base, of i k] by (simp add: funpow_swap1 k)
    then have "(\<lambda>i. base @ dec_str (k + i)) ` {..<length others + 1} \<subseteq> set others" by auto
    then have "card ((\<lambda>i. base @ dec_str (k + i)) ` {..<length others + 1}) \<le> length others"
      by (meson card_length card_mono finite_set order_trans)
    moreover have "inj_on (\<lambda>i. base @ dec_str (k + i)) {..<length others + 1}"
      by (auto intro!: inj_onI dest: dec_str_inj)
    ultimately show False by (simp add: card_image)
  qed
  then obtain n where n: "uniquify_name name others = Some n" by blast
  moreover have "n \<notin> set others"
    using n unfolding uniquify_name_def by (rule uniquify_loop_Some)
  moreover have "name \<notin> set others \<Longrightarrow> n = name"
    using n by (simp add: uniquify_name_def)
  ultimately show ?thesis by auto
qed

end
