(* ===== verification/Memory_Range.thy ===== *)
theory Memory_Range
  imports Prelude
begin

text \<open>
  Address ranges: \<open>check_range\<close>, \<open>MemoryRangeBase\<close> and \<open>MemoryRange\<close> of
  \<open>pyocd/core/memory_map.py\<close>.  A range is its two inclusive bounds; an empty range has its
  end one below its start.
\<close>

record mem_range =
  r_start :: int
  r_end :: int

definition MemoryRangeBase :: "int \<Rightarrow> int \<Rightarrow> int option \<Rightarrow> exn + mem_range" where
  "MemoryRangeBase start stop len =
     (let e = (case len of Some l \<Rightarrow> start + l - 1 | None \<Rightarrow> stop)
      in if e \<ge> start - 1 then Inr \<lparr>r_start = start, r_end = e\<rparr> else Inl AssertionError)"

text \<open>The first argument of the range methods: nothing, an address, or a range.\<close>

datatype start_arg = NoStart | At int | Range mem_range

definition check_range ::
  "start_arg \<Rightarrow> int option \<Rightarrow> int option \<Rightarrow> mem_range option \<Rightarrow> exn + int \<times> int" where
  "check_range start stop len rng =
     (if rng \<noteq> None \<or> (start \<noteq> NoStart
           \<and> ((case start of Range _ \<Rightarrow> True | _ \<Rightarrow> False) \<or> ((stop \<noteq> None) \<noteq> (len \<noteq> None))))
      then (let r = (case start of Range r \<Rightarrow> Some r | _ \<Rightarrow> rng)
            in case r of
                 Some r' \<Rightarrow> Inr (r_start r', r_end r')
               | None \<Rightarrow> (case start of
                     At a \<Rightarrow> (case stop of
                         None \<Rightarrow> (case len of Some l \<Rightarrow> Inr (a, a + l - 1) | None \<Rightarrow> Inl AssertionError)
                       | Some e \<Rightarrow> Inr (a, e))
                   | _ \<Rightarrow> Inl AssertionError))
      else Inl AssertionError)"

definition range_length :: "'a mem_range_scheme \<Rightarrow> int" where
  "range_length r = r_end r - r_start r + 1"

definition is_empty_range :: "'a mem_range_scheme \<Rightarrow> bool" where
  "is_empty_range r \<longleftrightarrow> range_length r = 0"

definition contains_address :: "'a mem_range_scheme \<Rightarrow> int \<Rightarrow> bool" where
  "contains_address r address \<longleftrightarrow> address \<ge> r_start r \<and> address \<le> r_end r"

text \<open>
  The range methods after \<open>check_range\<close> has resolved their arguments to a start and an end.
\<close>

definition contains_bounds :: "'a mem_range_scheme \<Rightarrow> int \<times> int \<Rightarrow> bool" where
  "contains_bounds r se = (case se of (s, e) \<Rightarrow> contains_address r s \<and> contains_address r e)"

definition contained_by_bounds :: "'a mem_range_scheme \<Rightarrow> int \<times> int \<Rightarrow> bool" where
  "contained_by_bounds r se = (case se of (s, e) \<Rightarrow> s \<le> r_start r \<and> e \<ge> r_end r)"

definition intersects_bounds :: "'a mem_range_scheme \<Rightarrow> int \<times> int \<Rightarrow> bool" where
  "intersects_bounds r se = (case se of (s, e) \<Rightarrow>
     (s \<le> r_start r \<and> e \<ge> r_start r) \<or> (s \<le> r_end r \<and> e \<ge> r_end r)
       \<or> (s \<ge> r_start r \<and> e \<le> r_end r))"

definition contains_range ::
  "'a mem_range_scheme \<Rightarrow> start_arg \<Rightarrow> int option \<Rightarrow> int option \<Rightarrow> mem_range option \<Rightarrow> exn + bool" where
  "contains_range r start stop len rng =
     res_bind (check_range start stop len rng) (\<lambda>se. Inr (contains_bounds r se))"

definition contained_by_range ::
  "'a mem_range_scheme \<Rightarrow> start_arg \<Rightarrow> int option \<Rightarrow> int option \<Rightarrow> mem_range option \<Rightarrow> exn + bool" where
  "contained_by_range r start stop len rng =
     res_bind (check_range start stop len rng) (\<lambda>se. Inr (contained_by_bounds r se))"

definition intersects_range ::
  "'a mem_range_scheme \<Rightarrow> start_arg \<Rightarrow> int option \<Rightarrow> int option \<Rightarrow> mem_range option \<Rightarrow> exn + bool" where
  "intersects_range r start stop len rng =
     res_bind (check_range start stop len rng) (\<lambda>se. Inr (intersects_bounds r se))"

text \<open>The generator's loop; \<open>MemoryRange(start, end)\<close> cannot fail here, its end is no lower than its start.\<close>

fun split_loop :: "int \<Rightarrow> int \<Rightarrow> int list \<Rightarrow> mem_range list" where
  "split_loop prev stop [] = (if prev \<le> stop then [\<lparr>r_start = prev, r_end = stop\<rparr>] else [])"
| "split_loop prev stop (a # as) =
     (if a > prev then \<lparr>r_start = prev, r_end = a - 1\<rparr> # split_loop a stop as
      else split_loop a stop as)"

definition iter_split_by_address :: "'a mem_range_scheme \<Rightarrow> int list \<Rightarrow> mem_range list" where
  "iter_split_by_address r addresses =
     split_loop (r_start r) (r_end r) (sort (filter (contains_address r) addresses))"

definition iter_split_by_range :: "'a mem_range_scheme \<Rightarrow> 'b mem_range_scheme \<Rightarrow> mem_range list" where
  "iter_split_by_range r other = iter_split_by_address r [r_start other, r_end other + 1]"

definition range_eq :: "'a mem_range_scheme \<Rightarrow> 'b mem_range_scheme \<Rightarrow> bool" where
  "range_eq r other \<longleftrightarrow> r_start r = r_start other \<and> range_length r = range_length other"

definition range_lt :: "'a mem_range_scheme \<Rightarrow> 'b mem_range_scheme \<Rightarrow> bool" where
  "range_lt r other \<longleftrightarrow> r_start r < r_start other
     \<or> (r_start r = r_start other \<and> range_length r = range_length other)"

subsection \<open>What the predicates mean\<close>

definition addrs :: "'a mem_range_scheme \<Rightarrow> int set" where
  "addrs r = {a. contains_address r a}"

lemma addrs_eq: "addrs r = {r_start r..r_end r}"
  by (auto simp: addrs_def contains_address_def)

text \<open>
  C38. For non-empty ranges the range predicates mean what their names say of the addresses:
  containment is inclusion one way or the other, and two ranges intersect exactly when they
  share an address.
\<close>

theorem range_predicates_correct:
  assumes "s \<le> e" and "r_start r \<le> r_end r"
  shows "(contains_bounds r (s, e) \<longleftrightarrow> {s..e} \<subseteq> addrs r)
    \<and> (contained_by_bounds r (s, e) \<longleftrightarrow> addrs r \<subseteq> {s..e})
    \<and> (intersects_bounds r (s, e) \<longleftrightarrow> addrs r \<inter> {s..e} \<noteq> {})"
proof (intro conjI)
  show "contains_bounds r (s, e) \<longleftrightarrow> {s..e} \<subseteq> addrs r"
    using assms by (auto simp: contains_bounds_def contains_address_def addrs_eq)
  show "contained_by_bounds r (s, e) \<longleftrightarrow> addrs r \<subseteq> {s..e}"
    using assms by (auto simp: contained_by_bounds_def addrs_eq)
  have "intersects_bounds r (s, e) \<longleftrightarrow> s \<le> r_end r \<and> r_start r \<le> e"
    using assms by (auto simp: intersects_bounds_def)
  also have "\<dots> \<longleftrightarrow> max s (r_start r) \<in> addrs r \<inter> {s..e}"
    using assms by (auto simp: addrs_eq)
  also have "\<dots> \<longleftrightarrow> addrs r \<inter> {s..e} \<noteq> {}"
    using assms by (auto simp: addrs_eq)
  finally show "intersects_bounds r (s, e) \<longleftrightarrow> addrs r \<inter> {s..e} \<noteq> {}" .
qed

theorem range_predicates_correct_witness:
  "(contains_bounds \<lparr>r_start = 0, r_end = 9\<rparr> (5, 12) \<longleftrightarrow> {5..12} \<subseteq> addrs \<lparr>r_start = 0, r_end = 9\<rparr>)
    \<and> (contained_by_bounds \<lparr>r_start = 0, r_end = 9\<rparr> (5, 12)
        \<longleftrightarrow> addrs \<lparr>r_start = 0, r_end = 9\<rparr> \<subseteq> {5..12})
    \<and> (intersects_bounds \<lparr>r_start = 0, r_end = 9\<rparr> (5, 12)
        \<longleftrightarrow> addrs \<lparr>r_start = 0, r_end = 9\<rparr> \<inter> {5..12} \<noteq> {})"
  by (rule range_predicates_correct) simp_all

subsection \<open>Splitting\<close>

text \<open>
  A list of ranges that covers \<open>[start, stop]\<close> without gap or overlap, none of them empty.
\<close>

fun tiles :: "int \<Rightarrow> int \<Rightarrow> mem_range list \<Rightarrow> bool" where
  "tiles start stop [] \<longleftrightarrow> start = stop + 1"
| "tiles start stop (r # rs) \<longleftrightarrow> r_start r = start \<and> start \<le> r_end r \<and> tiles (r_end r + 1) stop rs"

lemma split_loop_tiles:
  assumes "sorted as" and "\<forall>a \<in> set as. prev \<le> a \<and> a \<le> stop" and "prev \<le> stop + 1"
  shows "tiles prev stop (split_loop prev stop as)"
  using assms
proof (induction prev stop as rule: split_loop.induct)
  case (2 prev stop a as)
  then have "tiles a stop (split_loop a stop as)" by auto
  with 2 show ?case by auto
qed auto

lemma split_loop_starts:
  assumes "sorted as" and "\<forall>a \<in> set as. prev \<le> a \<and> a \<le> stop" and "prev \<le> stop"
  shows "set (map r_start (split_loop prev stop as)) = insert prev (set as)"
  using assms
proof (induction prev stop as rule: split_loop.induct)
  case (2 prev stop a as)
  then have "set (map r_start (split_loop a stop as)) = insert a (set as)" by auto
  with 2 show ?case by auto
qed auto

text \<open>
  C37. Splitting a non-empty range at a list of addresses in any order tiles the range: the
  pieces are non-empty, adjacent and in order, and they start exactly at the range's start and
  at those of the addresses that it contains.
\<close>

theorem iter_split_by_address_tiles:
  assumes "r_start r \<le> r_end r"
  shows "tiles (r_start r) (r_end r) (iter_split_by_address r addresses)
    \<and> set (map r_start (iter_split_by_address r addresses))
        = insert (r_start r) (set addresses \<inter> addrs r)"
proof -
  let ?as = "sort (filter (contains_address r) addresses)"
  have in_r: "\<forall>a \<in> set ?as. r_start r \<le> a \<and> a \<le> r_end r"
    by (auto simp: contains_address_def)
  have "set ?as = set addresses \<inter> addrs r" by (auto simp: addrs_def)
  then show ?thesis
    using split_loop_tiles [OF _ in_r] split_loop_starts [OF _ in_r] assms
    by (simp add: iter_split_by_address_def)
qed

theorem iter_split_by_address_tiles_witness:
  "tiles 0 9 (iter_split_by_address \<lparr>r_start = 0, r_end = 9\<rparr> [4, 12, 2])
    \<and> set (map r_start (iter_split_by_address \<lparr>r_start = 0, r_end = 9\<rparr> [4, 12, 2]))
        = insert 0 (set [4, 12, 2] \<inter> addrs \<lparr>r_start = 0, r_end = 9\<rparr>)"
  using iter_split_by_address_tiles [of "\<lparr>r_start = 0, r_end = 9\<rparr>" "[4, 12, 2]"] by simp

text \<open>A range that does not meet the other is yielded whole, where the comment says nothing is.\<close>

lemma split_by_disjoint_range:
  assumes "r_start r \<le> r_end r" and "r_end r < r_start other" and "r_start other \<le> r_end other"
  shows "iter_split_by_range r other = [\<lparr>r_start = r_start r, r_end = r_end r\<rparr>]"
  using assms by (simp add: iter_split_by_range_def iter_split_by_address_def contains_address_def)

text \<open>\<open>range_lt\<close> is no strict order: ranges with equal bounds are each less than the other.\<close>

lemma range_lt_not_irreflexive: "range_lt r r"
  by (simp add: range_lt_def)

end
