(* ===== verification/Memory_Map.thy ===== *)
theory Memory_Map
  imports Memory_Range Names "HOL-Library.Multiset"
begin

text \<open>
  Memory regions with their attribute dictionaries, and the memory map:
  \<open>MemoryRegion\<close>, its subclasses and \<open>MemoryMap\<close> of \<open>pyocd/core/memory_map.py\<close>.
  Objects have an identity (\<open>rg_id\<close>).  The nested sub-map, the back pointer to the map, the
  alias references resolved through it, and printing are left out.
\<close>

subsection \<open>Attributes\<close>

datatype mem_type = OTHER | RAM | ROM | FLASH | DEVICE

text \<open>The computed attribute values of the code, lambdas over the region.\<close>

datatype dyn_attr =
    TypeName
  | IsType mem_type
  | HasAccess char
  | NotSecure
  | SameAs string

text \<open>Attribute values; \<open>AObj\<close> is any other Python object, by identity.\<close>

datatype attr =
    ANone
  | ABool bool
  | AInt int
  | AStr string
  | AType mem_type
  | AObj nat
  | ADyn dyn_attr

definition truthy :: "attr \<Rightarrow> bool" where
  "truthy a = (case a of ANone \<Rightarrow> False | ABool b \<Rightarrow> b | AInt i \<Rightarrow> i \<noteq> 0 | AStr s \<Rightarrow> s \<noteq> [] | _ \<Rightarrow> True)"

text \<open>Python's \<open>==\<close>: a bool equals the integer 0 or 1.\<close>

fun attr_eq :: "attr \<Rightarrow> attr \<Rightarrow> bool" where
  "attr_eq (ABool b) (AInt i) = (of_bool b = i)"
| "attr_eq (AInt i) (ABool b) = (i = of_bool b)"
| "attr_eq a b = (a = b)"

datatype region_class = MemoryRegionC | RamRegionC | RomRegionC | FlashRegionC | DeviceRegionC

record region = mem_range +
  rg_id :: nat
  rg_class :: region_class
  rg_type :: mem_type
  rg_attrs :: "(string \<times> attr) list"
  rg_algo :: attr
  rg_flm :: attr
  rg_flash_class :: attr

definition type_name_lower :: "mem_type \<Rightarrow> string" where
  "type_name_lower t = (case t of OTHER \<Rightarrow> ''other'' | RAM \<Rightarrow> ''ram'' | ROM \<Rightarrow> ''rom''
     | FLASH \<Rightarrow> ''flash'' | DEVICE \<Rightarrow> ''device'')"

definition default_attrs :: "(string \<times> attr) list" where
  "default_attrs = [
     (''name'', ADyn TypeName), (''access'', AStr ''rwx''), (''alias'', ANone),
     (''is_boot_memory'', ABool False), (''is_default'', ABool True),
     (''is_powered_on_boot'', ABool True), (''is_cacheable'', ABool True),
     (''invalidate_cache_on_run'', ABool True), (''is_testable'', ABool True),
     (''is_external'', ABool False), (''is_ram'', ADyn (IsType RAM)),
     (''is_rom'', ADyn (IsType ROM)), (''is_flash'', ADyn (IsType FLASH)),
     (''is_device'', ADyn (IsType DEVICE)), (''is_readable'', ADyn (HasAccess (CHR ''r''))),
     (''is_writable'', ADyn (HasAccess (CHR ''w''))),
     (''is_executable'', ADyn (HasAccess (CHR ''x''))), (''is_erasable'', ABool True),
     (''is_secure'', ADyn (HasAccess (CHR ''s''))), (''is_nonsecure'', ADyn NotSecure)]"

definition rom_default_attrs :: "(string \<times> attr) list" where
  "rom_default_attrs = od_update default_attrs [(''access'', AStr ''rx'')]"

text \<open>The float weights are opaque objects.\<close>

definition flash_default_attrs :: "(string \<times> attr) list" where
  "flash_default_attrs = od_update default_attrs [
     (''blocksize'', ADyn (SameAs ''sector_size'')), (''sector_size'', ADyn (SameAs ''blocksize'')),
     (''page_size'', ADyn (SameAs ''blocksize'')), (''phrase_size'', ADyn (SameAs ''page_size'')),
     (''erase_all_weight'', AObj 174), (''erase_sector_weight'', AObj 48),
     (''program_page_weight'', AObj 130), (''erased_byte_value'', AInt 0xff),
     (''access'', AStr ''rx''), (''are_erased_sectors_readable'', ABool True)]"

definition device_default_attrs :: "(string \<times> attr) list" where
  "device_default_attrs = od_update default_attrs [
     (''access'', AStr ''rw''), (''is_cacheable'', ABool False), (''is_testable'', ABool False)]"

definition class_defaults :: "region_class \<Rightarrow> (string \<times> attr) list" where
  "class_defaults c = (case c of MemoryRegionC \<Rightarrow> default_attrs | RamRegionC \<Rightarrow> default_attrs
     | RomRegionC \<Rightarrow> rom_default_attrs | FlashRegionC \<Rightarrow> flash_default_attrs
     | DeviceRegionC \<Rightarrow> device_default_attrs)"

definition fill_defaults :: "(string \<times> attr) list \<Rightarrow> (string \<times> attr) list \<Rightarrow> (string \<times> attr) list" where
  "fill_defaults attrs defaults =
     attrs @ filter (\<lambda>(k, v). k \<notin> set (od_keys attrs)) defaults"

subsection \<open>Constructors\<close>

definition MemoryRegion ::
  "nat \<Rightarrow> region_class \<Rightarrow> mem_type \<Rightarrow> int \<Rightarrow> int \<Rightarrow> int option \<Rightarrow> (string \<times> attr) list \<Rightarrow> exn + region" where
  "MemoryRegion oid cls type start stop len attrs =
     res_bind (MemoryRangeBase start stop len) (\<lambda>r.
       if range_length r > 0 then
         Inr \<lparr>r_start = r_start r, r_end = r_end r, rg_id = oid, rg_class = cls, rg_type = type,
              rg_attrs = fill_defaults attrs (class_defaults cls),
              rg_algo = ANone, rg_flm = ANone, rg_flash_class = ANone\<rparr>
       else Inl AssertionError)"

definition RamRegion where
  "RamRegion oid start stop len attrs =
     MemoryRegion oid RamRegionC RAM start stop len (od_del ''type'' attrs)"

definition RomRegion where
  "RomRegion oid start stop len attrs =
     MemoryRegion oid RomRegionC ROM start stop len (od_del ''type'' attrs)"

definition DeviceRegion where
  "DeviceRegion oid start stop len attrs =
     MemoryRegion oid DeviceRegionC DEVICE start stop len (od_del ''type'' attrs)"

definition attr_get :: "(string \<times> attr) list \<Rightarrow> string \<Rightarrow> attr" where
  "attr_get attrs k = (case map_of attrs k of Some v \<Rightarrow> v | None \<Rightarrow> ANone)"

text \<open>\<open>AObj 0\<close> is the class \<open>Flash\<close>; the assertion that a given class is a subclass is left out.\<close>

definition FlashRegion ::
  "nat \<Rightarrow> int \<Rightarrow> int \<Rightarrow> int option \<Rightarrow> (string \<times> attr) list \<Rightarrow> exn + region" where
  "FlashRegion oid start stop len attrs =
     (let ks = od_keys attrs
      in if \<not> (''blocksize'' \<in> set ks \<or> ''sector_size'' \<in> set ks \<or> ''flm'' \<in> set ks)
         then Inl AssertionError
         else res_bind (MemoryRegion oid FlashRegionC FLASH start stop len (od_del ''type'' attrs)) (\<lambda>r.
           Inr (r\<lparr>rg_algo := attr_get attrs ''algo'', rg_flm := attr_get attrs ''flm'',
                  rg_flash_class := (if attr_get attrs ''flash_class'' \<noteq> ANone
                                     then attr_get attrs ''flash_class'' else AObj 0),
                  rg_attrs := od_del ''flm'' (od_del ''flash_class'' (od_del ''algo'' (rg_attrs r)))\<rparr>)))"

subsection \<open>Attribute access\<close>

text \<open>
  \<open>getattr\<close> on a region, for the names that are not methods nor the alias reference: the
  properties of the class first, then the attribute dictionary, whose callable values are
  called.  \<open>blocksize\<close> and \<open>sector_size\<close> default to each other, so the lookup may recurse
  forever; Python then raises RecursionError.  A lookup that ends visits no attribute twice, so
  fuel for more steps than there are attributes is enough for it.
\<close>

fun getattr_fuel :: "nat \<Rightarrow> region \<Rightarrow> string \<Rightarrow> exn + attr" where
  "getattr_fuel 0 r k = Inl RecursionError"
| "getattr_fuel (Suc fuel) r k =
     (if k = ''type'' then Inr (AType (rg_type r))
      else if k = ''start'' then Inr (AInt (r_start r))
      else if k = ''end'' then Inr (AInt (r_end r))
      else if k = ''length'' then Inr (AInt (range_length r))
      else if rg_class r = FlashRegionC \<and> k = ''algo'' then Inr (rg_algo r)
      else if rg_class r = FlashRegionC \<and> k = ''flm'' then Inr (rg_flm r)
      else if rg_class r = FlashRegionC \<and> k = ''flash_class'' then Inr (rg_flash_class r)
      else case map_of (rg_attrs r) k of
          None \<Rightarrow> Inl AttributeError
        | Some (ADyn d) \<Rightarrow> (case d of
              TypeName \<Rightarrow> Inr (AStr (type_name_lower (rg_type r)))
            | IsType t \<Rightarrow> Inr (ABool (rg_type r = t))
            | HasAccess c \<Rightarrow> res_bind (getattr_fuel fuel r ''access'') (\<lambda>a.
                (case a of AStr s \<Rightarrow> Inr (ABool (c \<in> set s)) | _ \<Rightarrow> Inl TypeError))
            | NotSecure \<Rightarrow> res_bind (getattr_fuel fuel r ''is_secure'') (\<lambda>a. Inr (ABool (\<not> truthy a)))
            | SameAs k' \<Rightarrow> getattr_fuel fuel r k')
        | Some v \<Rightarrow> Inr v)"

definition getattr :: "region \<Rightarrow> string \<Rightarrow> exn + attr" where
  "getattr r k = getattr_fuel (length (rg_attrs r) + 4) r k"

text \<open>\<open>region.name = value\<close>: an attribute in the dictionary is set there.\<close>

definition setattr :: "region \<Rightarrow> string \<Rightarrow> attr \<Rightarrow> region" where
  "setattr r k v =
     (if k \<in> set (od_keys (rg_attrs r)) then r\<lparr>rg_attrs := od_set k v (rg_attrs r)\<rparr> else r)"

definition attributes_for_clone :: "region \<Rightarrow> (string \<times> attr) list" where
  "attributes_for_clone r =
     (if rg_class r = FlashRegionC
      then od_update (rg_attrs r) [(''algo'', rg_algo r), (''flash_class'', rg_flash_class r),
                                   (''flm'', rg_flm r)]
      else rg_attrs r)"

text \<open>
  \<open>clone_with_changes\<close> for changes of attributes (not of the bounds): the constructor of the
  object's class is called again.  A plain \<open>MemoryRegion\<close> gets its type back from the
  constructor's default, since the type is no attribute.
\<close>

definition clone_with_changes :: "nat \<Rightarrow> region \<Rightarrow> (string \<times> attr) list \<Rightarrow> exn + region" where
  "clone_with_changes oid r modified =
     (let attrs = od_update (attributes_for_clone r) modified; s = r_start r; l = Some (range_length r)
      in case rg_class r of
           MemoryRegionC \<Rightarrow> MemoryRegion oid MemoryRegionC OTHER s 0 l attrs
         | RamRegionC \<Rightarrow> RamRegion oid s 0 l attrs
         | RomRegionC \<Rightarrow> RomRegion oid s 0 l attrs
         | FlashRegionC \<Rightarrow> FlashRegion oid s 0 l attrs
         | DeviceRegionC \<Rightarrow> DeviceRegion oid s 0 l attrs)"

definition dict_eq :: "(string \<times> attr) list \<Rightarrow> (string \<times> attr) list \<Rightarrow> bool" where
  "dict_eq d e \<longleftrightarrow> list_all (\<lambda>k. map_of d k = map_of e k) (od_keys d @ od_keys e)"

definition region_eq :: "region \<Rightarrow> region \<Rightarrow> bool" where
  "region_eq r s \<longleftrightarrow> r_start r = r_start s \<and> range_length r = range_length s
     \<and> rg_type r = rg_type s \<and> dict_eq (rg_attrs r) (rg_attrs s)
     \<and> (rg_class r = FlashRegionC \<longrightarrow> rg_algo r = rg_algo s
          \<and> rg_flash_class r = rg_flash_class s \<and> rg_flm r = rg_flm s)"

fun is_data_erased :: "int \<Rightarrow> int list \<Rightarrow> bool" where
  "is_data_erased erased_byte [] = True"
| "is_data_erased erased_byte (b # d) = (if b \<noteq> erased_byte then False else is_data_erased erased_byte d)"

definition set_flm :: "region \<Rightarrow> attr \<Rightarrow> region" where
  "set_flm r path = r\<lparr>rg_flm := path, rg_algo := ANone\<rparr>"


subsection \<open>The map\<close>

text \<open>
  A map is itself a range, with its regions and the validator of the constructor.
\<close>

record mmap = mem_range +
  mm_regions :: "region list"
  mm_validator :: "region \<Rightarrow> bool"

fun map_res :: "('a \<Rightarrow> exn + 'b) \<Rightarrow> 'a list \<Rightarrow> exn + 'b list" where
  "map_res f [] = Inr []"
| "map_res f (x # xs) = res_bind (f x) (\<lambda>y. res_bind (map_res f xs) (\<lambda>ys. Inr (y # ys)))"

definition astr_names :: "attr list \<Rightarrow> string list" where
  "astr_names as = concat (map (\<lambda>a. case a of AStr s \<Rightarrow> [s] | _ \<Rightarrow> []) as)"

text \<open>
  The region that \<open>add_region\<close> puts in the map: the one given, or a copy of it (the new
  object \<open>oid\<close>) with another name when a region of the map has its name.  The regular
  expression of \<open>uniquify_name\<close> raises TypeError on a name that is no string.
\<close>

definition renamed_region :: "nat \<Rightarrow> region list \<Rightarrow> region \<Rightarrow> exn + region" where
  "renamed_region oid rs r =
     res_bind (map_res (\<lambda>r'. getattr r' ''name'') rs) (\<lambda>existing.
     res_bind (getattr r ''name'') (\<lambda>nm.
       if truthy nm \<and> list_ex (attr_eq nm) existing
       then (case nm of
           AStr s \<Rightarrow> (case uniquify_name s (astr_names existing) of
               Some n \<Rightarrow> clone_with_changes oid r [(''name'', AStr n)]
             | None \<Rightarrow> Inl RecursionError)
         | _ \<Rightarrow> Inl TypeError)
       else Inr r))"

definition add_region :: "nat \<Rightarrow> region \<Rightarrow> (mmap, unit) exec" where
  "add_region oid r m =
     (case renamed_region oid (mm_regions m) r of
        Inl e \<Rightarrow> (Inl e, m)
      | Inr r' \<Rightarrow>
          if \<not> contains_bounds m (r_start r', r_end r') then (Inl ValueError, m)
          else if \<not> mm_validator m r' then (Inl ValueError, m)
          else (Inr (), m\<lparr>mm_regions := py_sort range_lt (mm_regions m @ [r'])\<rparr>))"

text \<open>Adding several: each copy made gets the next free identity.\<close>

fun add_regions :: "nat \<Rightarrow> region list \<Rightarrow> (mmap, unit) exec" where
  "add_regions oid [] = ret ()"
| "add_regions oid (r # rs) = bind (add_region oid r) (\<lambda>_. add_regions (Suc oid) rs)"

definition MemoryMap ::
  "int \<Rightarrow> int \<Rightarrow> int option \<Rightarrow> (region \<Rightarrow> bool) \<Rightarrow> nat \<Rightarrow> region list \<Rightarrow> exn + mmap" where
  "MemoryMap start stop len validator oid rs =
     res_bind (MemoryRangeBase start stop len) (\<lambda>b.
       (case add_regions oid rs \<lparr>r_start = r_start b, r_end = r_end b, mm_regions = [], mm_validator = validator\<rparr> of
          (Inl e, m) \<Rightarrow> Inl e
        | (Inr _, m) \<Rightarrow> Inr m))"

text \<open>
  The loop of \<open>remove_region\<close> goes on after a deletion, with its index one ahead of the
  list: the region after a removed one is not looked at.
\<close>

fun remove_loop :: "nat \<Rightarrow> region list \<Rightarrow> region list" where
  "remove_loop oid [] = []"
| "remove_loop oid (r # rs) =
     (if rg_id r = oid then (case rs of [] \<Rightarrow> [] | r' # rs' \<Rightarrow> r' # remove_loop oid rs')
      else r # remove_loop oid rs)"

definition remove_region :: "region \<Rightarrow> mmap \<Rightarrow> mmap" where
  "remove_region r m = m\<lparr>mm_regions := remove_loop (rg_id r) (mm_regions m)\<rparr>"

text \<open>Copies of all the regions, under the identities from \<open>oid\<close> on, in a map with the default bounds.\<close>

fun copy_regions :: "nat \<Rightarrow> region list \<Rightarrow> exn + region list" where
  "copy_regions oid [] = Inr []"
| "copy_regions oid (r # rs) =
     res_bind (clone_with_changes oid r []) (\<lambda>c. res_bind (copy_regions (Suc oid) rs) (\<lambda>cs. Inr (c # cs)))"

definition clone_map :: "nat \<Rightarrow> mmap \<Rightarrow> exn + mmap" where
  "clone_map oid m =
     res_bind (copy_regions oid (mm_regions m)) (\<lambda>cs.
       MemoryMap 0 0xffffffff None (\<lambda>_. True) (oid + length cs) cs)"

subsection \<open>Queries\<close>

fun boot_loop :: "region list \<Rightarrow> exn + region option" where
  "boot_loop [] = Inr None"
| "boot_loop (r # rs) =
     res_bind (getattr r ''is_boot_memory'') (\<lambda>b. if truthy b then Inr (Some r) else boot_loop rs)"

definition get_boot_memory :: "mmap \<Rightarrow> exn + region option" where
  "get_boot_memory m = boot_loop (mm_regions m)"

text \<open>The processor filter: a region without a \<open>pname\<close> matches every processor.\<close>

definition pname_ok :: "string option \<Rightarrow> region \<Rightarrow> bool" where
  "pname_ok pname r = (case pname of None \<Rightarrow> True
     | Some p \<Rightarrow> attr_get (rg_attrs r) ''pname'' \<in> {ANone, AStr p})"

fun address_loop :: "region list \<Rightarrow> int \<Rightarrow> string option \<Rightarrow> region option" where
  "address_loop [] address pname = None"
| "address_loop (r # rs) address pname =
     (if \<not> pname_ok pname r then address_loop rs address pname
      else if contains_address r address then Some r
      else address_loop rs address pname)"

definition get_region_for_address :: "mmap \<Rightarrow> int \<Rightarrow> string option \<Rightarrow> region option" where
  "get_region_for_address m address pname = address_loop (mm_regions m) address pname"

definition is_valid_address :: "mmap \<Rightarrow> int \<Rightarrow> bool" where
  "is_valid_address m address \<longleftrightarrow> get_region_for_address m address None \<noteq> None"

definition get_contained_regions ::
  "mmap \<Rightarrow> start_arg \<Rightarrow> int option \<Rightarrow> int option \<Rightarrow> mem_range option \<Rightarrow> exn + region list" where
  "get_contained_regions m start stop len rng =
     res_bind (check_range start stop len rng) (\<lambda>se.
       Inr (filter (\<lambda>r. contained_by_bounds r se) (mm_regions m)))"

definition get_intersecting_regions ::
  "mmap \<Rightarrow> start_arg \<Rightarrow> int option \<Rightarrow> int option \<Rightarrow> mem_range option \<Rightarrow> exn + region list" where
  "get_intersecting_regions m start stop len rng =
     res_bind (check_range start stop len rng) (\<lambda>se.
       Inr (filter (\<lambda>r. intersects_bounds r se) (mm_regions m)))"

text \<open>
  Whether a region has every attribute value asked for.  A missing attribute is a mismatch;
  any other exception of the attribute's function leaves the generator.
\<close>

fun matches_attrs :: "region \<Rightarrow> (string \<times> attr) list \<Rightarrow> exn + bool" where
  "matches_attrs r [] = Inr True"
| "matches_attrs r ((k, v) # kvs) =
     (case getattr r k of
        Inr a \<Rightarrow> if attr_eq a v then matches_attrs r kvs else Inr False
      | Inl AttributeError \<Rightarrow> Inr False
      | Inl e \<Rightarrow> Inl e)"

text \<open>The regions the generator yields, and the exception it ends with, if any.\<close>

fun matching_loop ::
  "region list \<Rightarrow> string option \<Rightarrow> (string \<times> attr) list \<Rightarrow> region list \<times> exn option" where
  "matching_loop [] pname kvs = ([], None)"
| "matching_loop (r # rs) pname kvs =
     (if \<not> pname_ok pname r then matching_loop rs pname kvs
      else (case matches_attrs r kvs of
          Inl e \<Rightarrow> ([], Some e)
        | Inr False \<Rightarrow> matching_loop rs pname kvs
        | Inr True \<Rightarrow> (let (ys, e) = matching_loop rs pname kvs in (r # ys, e))))"

definition iter_matching_regions ::
  "mmap \<Rightarrow> string option \<Rightarrow> (string \<times> attr) list \<Rightarrow> region list \<times> exn option" where
  "iter_matching_regions m pname kvs = matching_loop (mm_regions m) pname kvs"

definition get_first_matching_region ::
  "mmap \<Rightarrow> string option \<Rightarrow> (string \<times> attr) list \<Rightarrow> exn + region option" where
  "get_first_matching_region m pname kvs =
     (case iter_matching_regions m pname kvs of
        (r # _, _) \<Rightarrow> Inr (Some r)
      | ([], None) \<Rightarrow> Inr None
      | ([], Some e) \<Rightarrow> Inl e)"

definition get_default_region_of_type :: "mmap \<Rightarrow> mem_type \<Rightarrow> exn + region option" where
  "get_default_region_of_type m t =
     get_first_matching_region m None [(''type'', AType t), (''is_default'', ABool True)]"

datatype map_key = Index int | Named string

definition getitem :: "mmap \<Rightarrow> map_key \<Rightarrow> exn + region" where
  "getitem m key = (case key of
       Named s \<Rightarrow> res_bind (get_first_matching_region m None [(''name'', AStr s)]) (\<lambda>r.
         case r of None \<Rightarrow> Inl IndexError | Some x \<Rightarrow> Inr x)
     | Index i \<Rightarrow> py_index (mm_regions m) i)"

datatype contains_key = Address int | Name string | Region region

definition map_contains :: "mmap \<Rightarrow> contains_key \<Rightarrow> exn + bool" where
  "map_contains m key = (case key of
       Address a \<Rightarrow> Inr (is_valid_address m a)
     | Name s \<Rightarrow> res_bind (get_first_matching_region m None [(''name'', AStr s)]) (\<lambda>r. Inr (r \<noteq> None))
     | Region x \<Rightarrow> Inr (list_ex (\<lambda>r. rg_id r = rg_id x \<or> region_eq r x) (mm_regions m)))"


subsection \<open>Regions\<close>

lemma mset_insert_rev [simp]: "mset (insert_rev lt x ys) = add_mset x (mset ys)"
  by (induction ys) auto

lemma mset_py_sort [simp]: "mset (py_sort lt xs) = mset xs"
proof -
  have "mset (foldl (\<lambda>acc x. insert_rev lt x acc) acc xs) = mset acc + mset xs" for acc
    by (induction xs arbitrary: acc) auto
  from this [of "[]"] show ?thesis by (simp add: py_sort_def)
qed

lemma MemoryRegion_Inr:
  "MemoryRegion oid cls t start stop (Some len) attrs = Inr r \<Longrightarrow>
     r_start r = start \<and> range_length r = len \<and> 0 < len \<and> rg_id r = oid \<and> rg_class r = cls
     \<and> rg_type r = t \<and> rg_attrs r = fill_defaults attrs (class_defaults cls)"
  by (auto simp: MemoryRegion_def MemoryRangeBase_def range_length_def res_bind_Inr_iff
      split: if_splits)

lemma map_of_fill_defaults:
  "map_of (fill_defaults attrs defaults) k =
     (case map_of attrs k of Some v \<Rightarrow> Some v | None \<Rightarrow> map_of defaults k)"
proof -
  have "map_of (filter (\<lambda>(k, v). k \<notin> S) defaults) k = (if k \<in> S then None else map_of defaults k)" for S
    by (induction defaults) auto
  from this [of "set (od_keys attrs)"] show ?thesis
    by (simp add: fill_defaults_def map_add_def in_od_keys split: option.splits)
qed

text \<open>A copy has the bounds of the region and, of the changes, every one to an ordinary attribute.\<close>

lemma clone_with_changes_Inr:
  assumes "clone_with_changes oid r modified = Inr c"
  shows "r_start c = r_start r" "r_end c = r_end r" "rg_id c = oid" "rg_class c = rg_class r"
    and "k \<notin> {''type'', ''algo'', ''flm'', ''flash_class''} \<Longrightarrow> map_of (rev modified) k = Some v
      \<Longrightarrow> map_of (rg_attrs c) k = Some v"
proof -
  have base: "r_start c = r_start r \<and> range_length c = range_length r \<and> rg_id c = oid \<and> rg_class c = rg_class r
      \<and> (k \<notin> {''type'', ''algo'', ''flm'', ''flash_class''} \<longrightarrow> map_of (rev modified) k = Some v
          \<longrightarrow> map_of (rg_attrs c) k = Some v)"
    using assms
    by (cases "rg_class r")
      (auto simp: clone_with_changes_def Let_def RamRegion_def RomRegion_def DeviceRegion_def FlashRegion_def
        res_bind_Inr_iff map_of_fill_defaults map_of_od_update range_length_def
        dest!: MemoryRegion_Inr split: if_splits)
  then show "r_start c = r_start r" "rg_id c = oid" "rg_class c = rg_class r"
    "k \<notin> {''type'', ''algo'', ''flm'', ''flash_class''} \<Longrightarrow> map_of (rev modified) k = Some v
      \<Longrightarrow> map_of (rg_attrs c) k = Some v" by auto
  from base show "r_end c = r_end r" by (simp add: range_length_def)
qed

lemma getattr_Suc: "getattr r k = getattr_fuel (Suc (Suc (Suc (Suc (length (rg_attrs r)))))) r k"
  by (simp add: getattr_def numeral_eq_Suc)

lemma getattr_const:
  assumes "map_of (rg_attrs r) k = Some v" and "\<nexists>d. v = ADyn d"
    and "k \<notin> {''type'', ''start'', ''end'', ''length'', ''algo'', ''flm'', ''flash_class''}"
  shows "getattr r k = Inr v"
  using assms by (simp add: getattr_Suc split: attr.split)

lemma clone_name: "clone_with_changes oid r [(''name'', AStr n)] = Inr c \<Longrightarrow> getattr c ''name'' = Inr (AStr n)"
  by (rule getattr_const) (simp_all add: clone_with_changes_Inr(5) [where k = "''name''"])


subsection \<open>The invariant of the map\<close>

definition name_of :: "region \<Rightarrow> string option" where
  "name_of r = (case getattr r ''name'' of Inr (AStr s) \<Rightarrow> (if s = [] then None else Some s) | _ \<Rightarrow> None)"

text \<open>
  The regions are sorted by start address, lie in the map's bounds, satisfy its validator, and
  no two named ones have the same name.
\<close>

definition map_inv :: "mmap \<Rightarrow> bool" where
  "map_inv m \<longleftrightarrow> sorted (map r_start (mm_regions m))
     \<and> list_all (\<lambda>r. contains_bounds m (r_start r, r_end r) \<and> mm_validator m r) (mm_regions m)
     \<and> distinct (filter (\<lambda>n. n \<noteq> None) (map name_of (mm_regions m)))"

lemma map_res_Inr: "map_res f xs = Inr ys \<Longrightarrow> x \<in> set xs \<Longrightarrow> \<exists>y. f x = Inr y \<and> y \<in> set ys"
  by (induction xs arbitrary: ys) (auto simp: res_bind_Inr_iff)

lemma astr_names_set: "s \<in> set (astr_names as) \<longleftrightarrow> AStr s \<in> set as"
  by (auto simp: astr_names_def split: attr.splits)

lemma attr_eq_AStr [simp]: "attr_eq (AStr s) a \<longleftrightarrow> a = AStr s"
  by (cases a) auto

lemma renamed_region_Inr:
  assumes "renamed_region oid rs r = Inr r'"
  shows "r_start r' = r_start r" "r_end r' = r_end r" "r' = r \<or> rg_id r' = oid"
    and "name_of r' = None \<or> name_of r' \<notin> name_of ` set rs"
proof -
  obtain existing nm where ex: "map_res (\<lambda>r'. getattr r' ''name'') rs = Inr existing"
    and nm: "getattr r ''name'' = Inr nm"
    using assms by (auto simp: renamed_region_def res_bind_Inr_iff)
  have in_ex: "AStr s \<in> set existing" if "name_of x = Some s" "x \<in> set rs" for x s
    using map_res_Inr [OF ex that(2)] that(1)
    by (auto simp: name_of_def split: attr.splits if_splits)
  have "r_start r' = r_start r \<and> r_end r' = r_end r \<and> (r' = r \<or> rg_id r' = oid)
      \<and> (name_of r' = None \<or> name_of r' \<notin> name_of ` set rs)"
  proof (cases "truthy nm \<and> list_ex (attr_eq nm) existing")
    case True
    then obtain s n where un: "uniquify_name s (astr_names existing) = Some n"
      and c: "clone_with_changes oid r [(''name'', AStr n)] = Inr r'"
      using assms by (auto simp: renamed_region_def ex nm split: attr.splits option.splits)
    have "n \<notin> set (astr_names existing)"
      using un unfolding uniquify_name_def by (rule uniquify_loop_Some)
    then have "AStr n \<notin> set existing" by (simp add: astr_names_set)
    then have "name_of r' = None \<or> name_of r' \<notin> name_of ` set rs"
      using in_ex clone_name [OF c] by (force simp: name_of_def split: if_splits)
    then show ?thesis using clone_with_changes_Inr(1-3) [OF c] by simp
  next
    case False
    have "r' = r" using assms unfolding renamed_region_def ex nm res_bind_simps if_not_P [OF False] by simp
    moreover have "name_of r = None \<or> name_of r \<notin> name_of ` set rs"
      using False in_ex nm by (fastforce simp: name_of_def truthy_def list_ex_iff split: attr.splits if_splits)
    ultimately show ?thesis by simp
  qed
  then show "r_start r' = r_start r" "r_end r' = r_end r" "r' = r \<or> rg_id r' = oid"
    "name_of r' = None \<or> name_of r' \<notin> name_of ` set rs" by auto
qed

lemma sorted_regions: "sorted (map r_start (py_sort range_lt rs))"
  by (rule sorted_py_sort) (auto simp: range_lt_def)

lemma distinct_names_sort:
  "distinct (filter P (map f (py_sort lt xs))) \<longleftrightarrow> distinct (filter P (map f xs))"
  by (rule mset_eq_imp_distinct_iff) (simp add: mset_filter)

lemma add_region_Inr:
  assumes "add_region oid r m = (Inr (), m')"
  obtains r' where "renamed_region oid (mm_regions m) r = Inr r'"
    and "contains_bounds m (r_start r', r_end r')" and "mm_validator m r'"
    and "m' = m\<lparr>mm_regions := py_sort range_lt (mm_regions m @ [r'])\<rparr>"
  using assms by (auto simp: add_region_def split: sum.splits if_splits)

lemma add_region_inv:
  assumes "map_inv m" and "add_region oid r m = (Inr (), m')"
  shows "map_inv m'"
  using assms(2)
proof (rule add_region_Inr)
  fix r' assume r': "renamed_region oid (mm_regions m) r = Inr r'"
    and b: "contains_bounds m (r_start r', r_end r')" and v: "mm_validator m r'"
    and m': "m' = m\<lparr>mm_regions := py_sort range_lt (mm_regions m @ [r'])\<rparr>"
  have nm: "name_of r' = None \<or> name_of r' \<notin> name_of ` set (mm_regions m)"
    by (rule renamed_region_Inr(4) [OF r'])
  have "distinct (filter (\<lambda>n. n \<noteq> None) (map name_of (mm_regions m @ [r'])))"
    using assms(1) nm by (auto simp: map_inv_def)
  then show ?thesis
    using assms(1) b v sorted_regions
    by (auto simp: map_inv_def m' distinct_names_sort list_all_iff contains_bounds_def contains_address_def
        simp del: map_append filter_append)
qed

lemma add_region_Inl: "add_region oid r m = (Inl e, m') \<Longrightarrow> m' = m"
  by (auto simp: add_region_def split: sum.splits if_splits)

lemma add_regions_inv: "map_inv m \<Longrightarrow> map_inv (snd (add_regions oid rs m))"
proof (induction oid rs arbitrary: m rule: add_regions.induct)
  case (2 oid r rs)
  show ?case
  proof (cases "add_region oid r m")
    case (Pair res m')
    then show ?thesis
      using 2 add_region_inv [of m oid r m'] add_region_Inl [of oid r m _ m']
      by (cases res) (auto simp: bind_def)
  qed
qed simp


text \<open>
  C7. Adding a region keeps the map's invariant, and adds exactly one region with the bounds of
  the one given: that region itself, or a copy of it under a name no other region has.  When it
  raises, the map is left as it was.
\<close>

theorem add_region_correct:
  assumes "map_inv m"
  shows "case add_region oid r m of
      (Inl e, m') \<Rightarrow> m' = m
    | (Inr _, m') \<Rightarrow> map_inv m' \<and> (\<exists>r'. mset (mm_regions m') = add_mset r' (mset (mm_regions m))
        \<and> r_start r' = r_start r \<and> r_end r' = r_end r \<and> (r' = r \<or> rg_id r' = oid))"
proof (cases "add_region oid r m")
  case (Pair res m')
  show ?thesis
  proof (cases res)
    case (Inl e)
    with Pair show ?thesis using add_region_Inl by auto
  next
    case (Inr u)
    then have add: "add_region oid r m = (Inr (), m')" using Pair by simp
    obtain r' where r': "renamed_region oid (mm_regions m) r = Inr r'"
      and m': "m' = m\<lparr>mm_regions := py_sort range_lt (mm_regions m @ [r'])\<rparr>"
      by (rule add_region_Inr [OF add])
    have "mset (mm_regions m') = add_mset r' (mset (mm_regions m))" by (simp add: m')
    with add_region_inv [OF assms add] renamed_region_Inr(1-3) [OF r'] show ?thesis
      by (auto simp: add)
  qed
qed

definition demo_ram :: region where
  "demo_ram = \<lparr>r_start = 0x20000000, r_end = 0x20000fff, rg_id = 1, rg_class = RamRegionC, rg_type = RAM,
     rg_attrs = default_attrs, rg_algo = ANone, rg_flm = ANone, rg_flash_class = ANone\<rparr>"

definition demo_map :: mmap where
  "demo_map = \<lparr>r_start = 0, r_end = 0xffffffff, mm_regions = [demo_ram], mm_validator = (\<lambda>_. True)\<rparr>"

lemma demo_map_inv: "map_inv demo_map"
  by (simp add: map_inv_def demo_map_def demo_ram_def contains_bounds_def contains_address_def)

theorem add_region_correct_witness:
  "case add_region 2 demo_ram demo_map of
      (Inl e, m') \<Rightarrow> m' = demo_map
    | (Inr _, m') \<Rightarrow> map_inv m' \<and> (\<exists>r'. mset (mm_regions m') = add_mset r' (mset (mm_regions demo_map))
        \<and> r_start r' = r_start demo_ram \<and> r_end r' = r_end demo_ram \<and> (r' = demo_ram \<or> rg_id r' = 2))"
  by (rule add_region_correct) (rule demo_map_inv)

lemma remove_loop_filter:
  "distinct (map rg_id rs) \<Longrightarrow> remove_loop oid rs = filter (\<lambda>r. rg_id r \<noteq> oid) rs"
proof (induction oid rs rule: remove_loop.induct)
  case (2 oid r rs)
  have no: "remove_loop oid xs = xs \<and> filter (\<lambda>r. rg_id r \<noteq> oid) xs = xs" if "oid \<notin> rg_id ` set xs" for xs
    using that by (induction xs) auto
  show ?case using 2 no [of rs] no [of "tl rs"] by (auto split: list.split)
qed simp

lemma distinct_filter_map_filter:
  "distinct (filter P (map f xs)) \<Longrightarrow> distinct (filter P (map f (filter Q xs)))"
  by (induction xs) auto

text \<open>
  C35. Removing a region, from a map whose regions are different objects, takes out exactly that
  object and keeps the order of the others and the map's invariant.
\<close>

theorem remove_region_correct:
  assumes "map_inv m" and "distinct (map rg_id (mm_regions m))"
  shows "map_inv (remove_region r m)
    \<and> mm_regions (remove_region r m) = filter (\<lambda>x. rg_id x \<noteq> rg_id r) (mm_regions m)"
proof -
  have eq: "mm_regions (remove_region r m) = filter (\<lambda>x. rg_id x \<noteq> rg_id r) (mm_regions m)"
    by (simp add: remove_region_def remove_loop_filter [OF assms(2)])
  have "sorted (map r_start (filter (\<lambda>x. rg_id x \<noteq> rg_id r) (mm_regions m)))"
    using assms(1) by (simp add: map_inv_def sorted_filter)
  then have "map_inv (remove_region r m)"
    using assms(1) distinct_filter_map_filter [of "\<lambda>n. n \<noteq> None" name_of "mm_regions m"]
    unfolding map_inv_def eq
    by (auto simp: list_all_iff remove_region_def contains_bounds_def contains_address_def)
  with eq show ?thesis by blast
qed

theorem remove_region_correct_witness:
  "map_inv (remove_region demo_ram demo_map)
    \<and> mm_regions (remove_region demo_ram demo_map)
        = filter (\<lambda>x. rg_id x \<noteq> rg_id demo_ram) (mm_regions demo_map)"
  by (rule remove_region_correct) (rule demo_map_inv, simp add: demo_map_def)

text \<open>The same region listed twice: the second is passed over.\<close>

lemma remove_skips_next: "remove_loop (rg_id r) [r, r] = [r]"
  by simp

subsection \<open>Lookup by address\<close>

lemma address_loop_None:
  "address_loop rs a p = None \<longleftrightarrow> (\<forall>r \<in> set rs. \<not> (pname_ok p r \<and> contains_address r a))"
  by (induction rs) auto

lemma address_loop_Some:
  "address_loop rs a p = Some r \<Longrightarrow> r \<in> set rs \<and> pname_ok p r \<and> contains_address r a"
  by (induction rs) (auto split: if_splits)

lemma address_loop_lowest:
  "address_loop rs a p = Some r \<Longrightarrow> sorted (map r_start rs) \<Longrightarrow> x \<in> set rs \<Longrightarrow> pname_ok p x
    \<Longrightarrow> contains_address x a \<Longrightarrow> r_start r \<le> r_start x"
  by (induction rs) (auto split: if_splits dest: address_loop_Some)

text \<open>
  C26. Looking an address up, for any processor or one of them, returns a region of the map that
  is visible to the processor and contains the address, with the lowest start address of all
  those; it returns nothing only when there is none.
\<close>

theorem get_region_for_address_correct:
  assumes "map_inv m"
  shows "case get_region_for_address m a p of
      None \<Rightarrow> {r \<in> set (mm_regions m). pname_ok p r \<and> contains_address r a} = {}
    | Some r \<Rightarrow> r \<in> set (mm_regions m) \<and> pname_ok p r \<and> contains_address r a
        \<and> r_start r = Min (r_start ` {x \<in> set (mm_regions m). pname_ok p x \<and> contains_address x a})"
proof (cases "get_region_for_address m a p")
  case None
  then have "{r \<in> set (mm_regions m). pname_ok p r \<and> contains_address r a} = {}"
    by (auto simp: get_region_for_address_def address_loop_None)
  with None show ?thesis by simp
next
  case (Some r)
  then have l: "address_loop (mm_regions m) a p = Some r" by (simp add: get_region_for_address_def)
  have "Min (r_start ` {x \<in> set (mm_regions m). pname_ok p x \<and> contains_address x a}) = r_start r"
    using address_loop_Some [OF l] address_loop_lowest [OF l] assms
    by (intro Min_eqI) (auto simp: map_inv_def)
  with Some address_loop_Some [OF l] show ?thesis by simp
qed

theorem get_region_for_address_correct_witness:
  "case get_region_for_address demo_map 0x20000010 None of
      None \<Rightarrow> {r \<in> set (mm_regions demo_map). pname_ok None r \<and> contains_address r 0x20000010} = {}
    | Some r \<Rightarrow> r \<in> set (mm_regions demo_map) \<and> pname_ok None r \<and> contains_address r 0x20000010
        \<and> r_start r = Min (r_start ` {x \<in> set (mm_regions demo_map).
            pname_ok None x \<and> contains_address x 0x20000010})"
  by (rule get_region_for_address_correct) (rule demo_map_inv)

subsection \<open>Flash geometry\<close>

lemma FlashRegion_attrs:
  assumes "FlashRegion oid start stop (Some len) attrs = Inr r"
    and "k \<notin> {''type'', ''algo'', ''flm'', ''flash_class''}"
  shows "map_of (rg_attrs r) k = (case map_of attrs k of Some v \<Rightarrow> Some v | None \<Rightarrow> map_of flash_default_attrs k)"
    and "rg_type r = FLASH" and "rg_class r = FlashRegionC"
  using assms
  by (auto simp: FlashRegion_def Let_def res_bind_Inr_iff map_of_fill_defaults class_defaults_def
      dest!: MemoryRegion_Inr split: if_splits)

lemma flash_blocksize_loop:
  assumes "map_of (rg_attrs r) ''blocksize'' = Some (ADyn (SameAs ''sector_size''))"
    and "map_of (rg_attrs r) ''sector_size'' = Some (ADyn (SameAs ''blocksize''))"
  shows "getattr_fuel n r ''blocksize'' = Inl RecursionError \<and> getattr_fuel n r ''sector_size'' = Inl RecursionError"
  using assms by (induction n) auto



end
