(* ===== verification/Memory_Interface.thy ===== *)
theory Memory_Interface
  imports Conversion
begin

text \<open>
  The memory interface: \<open>pyocd/core/memory_interface.py\<close>.  The byte-block operations are
  built from the single and the word-block accesses of the class that implements the interface;
  the locales state what those accesses promise of the memory behind them, and what the
  byte-block operations then do.
\<close>

subsection \<open>The code\<close>

text \<open>
  \<open>rd addr transfer_size\<close> and \<open>wr addr data transfer_size\<close> are \<open>read_memory\<close> (with
  \<open>now\<close>) and \<open>write_memory\<close> of the implementing class, \<open>rb\<close> and \<open>wb\<close> its
  \<open>read_memory_block32\<close> and \<open>write_memory_block32\<close>.
\<close>

definition write64 where "write64 wr addr v = wr addr v (64::int)"
definition write32 where "write32 wr addr v = wr addr v (32::int)"
definition write16 where "write16 wr addr v = wr addr v (16::int)"
definition write8 where "write8 wr addr v = wr addr v (8::int)"
definition read64 where "read64 rd addr = rd addr (64::int)"
definition read32 where "read32 rd addr = rd addr (32::int)"
definition read16 where "read16 rd addr = rd addr (16::int)"
definition read8 where "read8 rd addr = rd addr (8::int)"

lemmas sized_defs = write64_def write32_def write16_def write8_def
  read64_def read32_def read16_def read8_def

text \<open>The steps of \<open>read_memory_block8\<close> take the state of its loop-free body: result, address, size.\<close>

type_synonym block_state = "int list \<times> int \<times> int"

definition read_step8 :: "(int \<Rightarrow> int \<Rightarrow> ('s, int) exec) \<Rightarrow> bool \<Rightarrow> block_state \<Rightarrow> ('s, block_state) exec" where
  "read_step8 rd guard st = (case st of (res, addr, sz) \<Rightarrow>
     if sz > 0 \<and> guard
     then bind (read8 rd addr) (\<lambda>mem. ret (res @ [mem], addr + 1, sz - 1))
     else ret st)"

definition read_step16 :: "(int \<Rightarrow> int \<Rightarrow> ('s, int) exec) \<Rightarrow> bool \<Rightarrow> block_state \<Rightarrow> ('s, block_state) exec" where
  "read_step16 rd guard st = (case st of (res, addr, sz) \<Rightarrow>
     if sz > 1 \<and> guard
     then bind (read16 rd addr) (\<lambda>mem.
       ret (res @ [mem AND 0xff, drop_bit 8 mem AND 0xff], addr + 2, sz - 2))
     else ret st)"

definition read_step32 :: "(int \<Rightarrow> int \<Rightarrow> ('s, int list) exec) \<Rightarrow> block_state \<Rightarrow> ('s, block_state) exec" where
  "read_step32 rb st = (case st of (res, addr, sz) \<Rightarrow>
     if sz \<ge> 4
     then bind (rb addr (sz div 4)) (\<lambda>data32.
       ret (res @ u32le_list_to_byte_list data32,
            addr + 4 * int (length data32), sz - 4 * int (length data32)))
     else ret st)"

definition read_memory_block8 ::
  "(int \<Rightarrow> int \<Rightarrow> ('s, int) exec) \<Rightarrow> (int \<Rightarrow> int \<Rightarrow> ('s, int list) exec)
    \<Rightarrow> int \<Rightarrow> int \<Rightarrow> ('s, int list) exec" where
  "read_memory_block8 rd rb addr sz =
     bind (read_step8 rd (addr AND 1 \<noteq> 0) ([], addr, sz)) (\<lambda>st1.
     bind (read_step16 rd (fst (snd st1) AND 2 \<noteq> 0) st1) (\<lambda>st2.
     bind (read_step32 rb st2) (\<lambda>st3.
     bind (read_step16 rd True st3) (\<lambda>st4.
     bind (read_step8 rd True st4) (\<lambda>st5. ret (fst st5))))))"

text \<open>
  In \<open>write_memory_block8\<close> the data left to write stands for \<open>data[idx:]\<close>, and its length
  for \<open>size\<close>.
\<close>

type_synonym write_state = "int \<times> int list"

definition write_step8 :: "(int \<Rightarrow> int \<Rightarrow> int \<Rightarrow> ('s, unit) exec) \<Rightarrow> bool \<Rightarrow> write_state \<Rightarrow> ('s, write_state) exec" where
  "write_step8 wr guard st = (case st of (addr, data) \<Rightarrow>
     if guard then (case data of
         b # rest \<Rightarrow> bind (write8 wr addr b) (\<lambda>_. ret (addr + 1, rest))
       | [] \<Rightarrow> ret st)
     else ret st)"

definition write_step16 :: "(int \<Rightarrow> int \<Rightarrow> int \<Rightarrow> ('s, unit) exec) \<Rightarrow> bool \<Rightarrow> write_state \<Rightarrow> ('s, write_state) exec" where
  "write_step16 wr guard st = (case st of (addr, data) \<Rightarrow>
     if guard then (case data of
         b # c # rest \<Rightarrow> bind (write16 wr addr (b OR push_bit 8 c)) (\<lambda>_. ret (addr + 2, rest))
       | _ \<Rightarrow> ret st)
     else ret st)"

definition write_step32 :: "(int \<Rightarrow> int list \<Rightarrow> ('s, unit) exec) \<Rightarrow> write_state \<Rightarrow> ('s, write_state) exec" where
  "write_step32 wb st = (case st of (addr, data) \<Rightarrow>
     if length data \<ge> 4
     then (let n = length data div 4 * 4 in
       bind (wb addr (byte_list_to_u32le_list (take n data) 0)) (\<lambda>_. ret (addr + int n, drop n data)))
     else ret st)"

definition write_memory_block8 ::
  "(int \<Rightarrow> int \<Rightarrow> int \<Rightarrow> ('s, unit) exec) \<Rightarrow> (int \<Rightarrow> int list \<Rightarrow> ('s, unit) exec)
    \<Rightarrow> int \<Rightarrow> int list \<Rightarrow> ('s, unit) exec" where
  "write_memory_block8 wr wb addr data =
     bind (write_step8 wr (addr AND 1 \<noteq> 0) (addr, data)) (\<lambda>st1.
     bind (write_step16 wr (fst st1 AND 2 \<noteq> 0) st1) (\<lambda>st2.
     bind (write_step32 wb st2) (\<lambda>st3.
     bind (write_step16 wr True st3) (\<lambda>st4.
     bind (write_step8 wr True st4) (\<lambda>_. ret ())))))"

subsection \<open>Byte-addressed memory\<close>

type_synonym memory = "int \<Rightarrow> int"

definition mem_bytes :: "memory \<Rightarrow> int \<Rightarrow> nat \<Rightarrow> int list" where
  "mem_bytes m a n = map (\<lambda>i. m (a + int i)) [0..<n]"

definition mem_write :: "memory \<Rightarrow> int \<Rightarrow> int list \<Rightarrow> memory" where
  "mem_write m a bs = (\<lambda>x. if a \<le> x \<and> x < a + int (length bs) then bs ! nat (x - a) else m x)"

lemma length_mem_bytes [simp]: "length (mem_bytes m a n) = n"
  by (simp add: mem_bytes_def)

lemma mem_bytes_0 [simp]: "mem_bytes m a 0 = []"
  by (simp add: mem_bytes_def)

lemma mem_bytes_Suc: "mem_bytes m a (Suc n) = m a # mem_bytes m (a + 1) n"
proof -
  have "map (\<lambda>i. m (a + int i)) (map Suc [0..<n]) = map (\<lambda>i. m (a + 1 + int i)) [0..<n]"
    by (simp add: ac_simps)
  then show ?thesis by (simp add: mem_bytes_def upt_conv_Cons map_Suc_upt [symmetric] del: upt_Suc)
qed

lemma mem_bytes_add: "mem_bytes m a (k + n) = mem_bytes m a k @ mem_bytes m (a + int k) n"
  by (induction k arbitrary: a) (simp_all add: mem_bytes_Suc ac_simps)

lemma mem_bytes_split: "k \<le> n \<Longrightarrow> mem_bytes m a n = mem_bytes m a k @ mem_bytes m (a + int k) (n - k)"
  using mem_bytes_add [of m a k "n - k"] by simp

lemma take_mem_bytes: "take k (mem_bytes m a n) = mem_bytes m a (min k n)"
  by (rule nth_equalityI) (auto simp: mem_bytes_def)

lemma drop_mem_bytes: "drop k (mem_bytes m a n) = mem_bytes m (a + int k) (n - k)"
  by (rule nth_equalityI) (auto simp: mem_bytes_def add.assoc)

lemma mem_bytes_cong: "(\<And>x. a \<le> x \<Longrightarrow> x < a + int n \<Longrightarrow> m x = m' x) \<Longrightarrow> mem_bytes m a n = mem_bytes m' a n"
  by (auto simp: mem_bytes_def)

lemma mem_write_Nil [simp]: "mem_write m a [] = m"
  by (simp add: mem_write_def fun_eq_iff)

lemma mem_write_append:
  "mem_write m a (xs @ ys) = mem_write (mem_write m a xs) (a + int (length xs)) ys"
proof -
  have aux: "\<not> x < a + int k \<Longrightarrow> nat (x - a) - k = nat (x - (a + int k))" for x k
    by linarith
  show ?thesis by (auto simp: mem_write_def fun_eq_iff nth_append aux)
qed

lemma mem_bytes_write [simp]: "mem_bytes (mem_write m a bs) a (length bs) = bs"
  by (rule nth_equalityI) (simp_all add: mem_bytes_def mem_write_def)

lemma mem_bytes_patch:
  assumes "lo \<le> a" and "a + int (length bs) \<le> hi"
  shows "mem_bytes (mem_write m a bs) lo (nat (hi - lo))
    = mem_bytes m lo (nat (a - lo)) @ bs @ mem_bytes m (a + int (length bs)) (nat (hi - (a + int (length bs))))"
proof -
  have n: "nat (hi - lo) = nat (a - lo) + (length bs + nat (hi - (a + int (length bs))))"
    using assms by linarith
  have "mem_bytes (mem_write m a bs) lo (nat (a - lo)) = mem_bytes m lo (nat (a - lo))"
    using assms(1) by (intro mem_bytes_cong) (auto simp: mem_write_def)
  moreover have "mem_bytes (mem_write m a bs) (a + int (length bs)) k = mem_bytes m (a + int (length bs)) k" for k
    by (intro mem_bytes_cong) (auto simp: mem_write_def)
  moreover have "lo + int (nat (a - lo)) = a" using assms(1) by simp
  ultimately show ?thesis unfolding n mem_bytes_add by simp
qed

lemma mem_bytes_write_apart:
  assumes "lo + int n \<le> a \<or> a + int (length bs) \<le> lo"
  shows "mem_bytes (mem_write m a bs) lo n = mem_bytes m lo n"
  using assms by (intro mem_bytes_cong) (auto simp: mem_write_def)

lemma mem_write_same: "mem_write m a (mem_bytes m a n) = m"
  by (auto simp: mem_write_def mem_bytes_def fun_eq_iff)

text \<open>Bytes as a little-endian number.\<close>

lemma le_word_at_shift: "le_word_at (Suc i) bs = 256 * le_word_at i bs"
  by (induction bs arbitrary: i) (simp_all add: push_bit_eq_mult power_add algebra_simps)

lemma le_word_Cons: "le_word (b # bs) = b + 256 * le_word bs"
  using le_word_at_shift [of 0 bs] by (simp add: le_word_def)

lemma le_word_Nil [simp]: "le_word [] = 0"
  by (simp add: le_word_def)

lemma le_word_bytes2:
  assumes "is_byte a" "is_byte b"
  shows "[le_word [a, b] AND 0xff, drop_bit 8 (le_word [a, b]) AND 0xff] = [a, b]"
  using assms byte_horner [of a b]
  by (simp add: le_word_Cons and_255_mod drop_bit_eq_div is_byte_def)

lemma or_bytes2: "is_byte a \<Longrightarrow> a OR push_bit 8 b = le_word [a, b]"
  by (simp add: or_byte_shift le_word_Cons)


subsection \<open>Alignment\<close>

lemma and_2_iff: "(x::int) AND 2 \<noteq> 0 \<longleftrightarrow> x mod 4 \<ge> 2"
proof -
  have "x AND 2 = (x AND 3) AND 2" by (simp add: and.assoc)
  moreover have "x mod 4 \<in> {0, 1, 2, 3}" by auto
  ultimately show ?thesis unfolding and_3_mod by auto
qed

lemma and_1_iff: "(x::int) AND 1 \<noteq> 0 \<longleftrightarrow> x mod 2 = 1"
  by (simp add: and_1_mod)

lemma mod_4_even: "(x::int) mod 4 = 0 \<Longrightarrow> x mod 2 = 0" "(x::int) mod 4 = 0 \<Longrightarrow> (x + 4 * k) mod 2 = 0"
  by presburger+

subsection \<open>Reading\<close>

text \<open>
  What a provider of reads promises of the memory behind it, \<open>view s\<close>, in the address space
  below \<open>space\<close>: an access that returns leaves the memory and the provider's own invariant
  as they are, and returns what is there; one that raises ends in \<open>fail\<close>.
\<close>

definition aligned_in :: "int \<Rightarrow> int \<Rightarrow> int \<Rightarrow> bool" where
  "aligned_in space n a \<longleftrightarrow> 0 \<le> a \<and> a + n \<le> space \<and> a mod n = 0"

definition access_width :: "int \<Rightarrow> bool" where
  "access_width w \<longleftrightarrow> w = 8 \<or> w = 16 \<or> w = 32"

lemma access_widths [simp]: "access_width 8" "access_width 16" "access_width 32"
  by (simp_all add: access_width_def)

locale memory_view =
  fixes view :: "'s \<Rightarrow> memory" and inv :: "'s \<Rightarrow> bool" and space :: int
    and fail :: "exn \<Rightarrow> 's \<Rightarrow> bool"
  assumes view_byte: "inv s \<Longrightarrow> is_byte (view s a)"
begin

lemma view_bytes: "inv s \<Longrightarrow> all_bytes (mem_bytes (view s) a n)"
  by (auto simp: mem_bytes_def all_bytes_def list_all_iff view_byte)

end

locale memory_reader = memory_view view inv space fail
  for view :: "'s \<Rightarrow> memory" and inv :: "'s \<Rightarrow> bool" and space :: int
    and fail :: "exn \<Rightarrow> 's \<Rightarrow> bool" +
  fixes rd :: "int \<Rightarrow> int \<Rightarrow> ('s, int) exec" and rb :: "int \<Rightarrow> int \<Rightarrow> ('s, int list) exec"
  assumes rd_law: "inv s \<Longrightarrow> access_width w \<Longrightarrow> aligned_in space (w div 8) a \<Longrightarrow>
      wp (rd a w) (\<lambda>v s'. inv s' \<and> view s' = view s \<and> v = le_word (mem_bytes (view s) a (nat (w div 8))))
        fail s"
    and rb_law: "inv s \<Longrightarrow> a mod 4 = 0 \<Longrightarrow> 0 \<le> a \<Longrightarrow> 0 < n \<Longrightarrow> a + 4 * n \<le> space \<Longrightarrow>
      wp (rb a n) (\<lambda>ws s'. inv s' \<and> view s' = view s \<and>
          u32le_list_to_byte_list ws = mem_bytes (view s) a (4 * nat n))
        fail s"
begin

text \<open>
  The state of \<open>read_memory_block8\<close>: the bytes read so far, and the address and count of those
  left, make up the whole request.
\<close>

definition reading :: "'s \<Rightarrow> int \<Rightarrow> int \<Rightarrow> block_state \<Rightarrow> 's \<Rightarrow> bool" where
  "reading s a n st s' \<longleftrightarrow> (case st of (res, addr, sz) \<Rightarrow>
     inv s' \<and> view s' = view s \<and> 0 \<le> sz \<and> addr + sz = a + n \<and> a \<le> addr
     \<and> res = mem_bytes (view s) a (nat (addr - a)))"

lemma reading_more:
  assumes "reading s a n (res, addr, sz) s'" and "inv s''" and "view s'' = view s'"
    and "bs = mem_bytes (view s) addr (nat k)" and "0 \<le> k" and "k \<le> sz"
  shows "reading s a n (res @ bs, addr + k, sz - k) s''"
proof -
  have "mem_bytes (view s) a (nat (addr + k - a)) = mem_bytes (view s) a (nat (addr - a) + nat k)"
    using assms by (simp add: reading_def nat_add_distrib [symmetric] algebra_simps)
  then show ?thesis using assms by (simp add: reading_def mem_bytes_add)
qed

lemma rd_wp:
  assumes "inv s" "access_width w" "aligned_in space (w div 8) a"
    and "\<And>s'. inv s' \<Longrightarrow> view s' = view s \<Longrightarrow> Q (le_word (mem_bytes (view s) a (nat (w div 8)))) s'"
  shows "wp (rd a w) Q fail s"
  by (rule wp_mono [OF rd_law [OF assms(1-3)]]) (use assms(4) in auto)

lemma read_step8_wp:
  assumes "reading s a n (res, addr, sz) s'" and "0 \<le> a" "a + n \<le> space"
  shows "wp (read_step8 rd guard (res, addr, sz))
    (\<lambda>st s''. reading s a n st s'' \<and> (if sz > 0 \<and> guard then snd st = (addr + 1, sz - 1) else snd st = (addr, sz)))
    fail s'"
proof (cases "sz > 0 \<and> guard")
  case True
  have "wp (rd addr 8) (\<lambda>v s''. reading s a n (res @ [v], addr + 1, sz - 1) s'')
      fail s'"
  proof (rule rd_wp)
    fix s'' assume "inv s''" "view s'' = view s'"
    with assms True show "reading s a n (res @ [le_word (mem_bytes (view s') addr (nat (8 div 8)))], addr + 1, sz - 1) s''"
      by (intro reading_more [OF assms(1)]) (auto simp: reading_def mem_bytes_Suc le_word_Cons)
  qed (use assms True in \<open>auto simp: reading_def aligned_in_def\<close>)
  then show ?thesis using True by (auto simp: read_step8_def sized_defs)
qed (use assms in \<open>auto simp: read_step8_def reading_def\<close>)

lemma read_step16_wp:
  assumes "reading s a n (res, addr, sz) s'" and "0 \<le> a" "a + n \<le> space" and "sz > 1 \<Longrightarrow> addr mod 2 = 0"
  shows "wp (read_step16 rd guard (res, addr, sz))
    (\<lambda>st s''. reading s a n st s'' \<and> (if sz > 1 \<and> guard then snd st = (addr + 2, sz - 2) else snd st = (addr, sz)))
    fail s'"
proof (cases "sz > 1 \<and> guard")
  case True
  have "wp (rd addr 16) (\<lambda>v s''. reading s a n (res @ [v AND 0xff, drop_bit 8 v AND 0xff], addr + 2, sz - 2) s'')
      fail s'"
  proof (rule rd_wp)
    fix s'' assume "inv s''" "view s'' = view s'"
    let ?v = "le_word (mem_bytes (view s') addr (nat (16 div 8)))"
    have "[?v AND 0xff, drop_bit 8 ?v AND 0xff] = [view s' addr, view s' (addr + 1)]"
      using le_word_bytes2 [OF view_byte view_byte, of s' s' addr "addr + 1"] assms(1)
      by (simp add: reading_def mem_bytes_Suc numeral_2_eq_2)
    with assms True \<open>inv s''\<close> \<open>view s'' = view s'\<close>
    show "reading s a n (res @ [?v AND 0xff, drop_bit 8 ?v AND 0xff], addr + 2, sz - 2) s''"
      by (intro reading_more [OF assms(1)]) (auto simp: reading_def mem_bytes_Suc numeral_2_eq_2)
  qed (use assms True in \<open>auto simp: reading_def aligned_in_def\<close>)
  then show ?thesis using True by (auto simp: read_step16_def sized_defs)
qed (use assms in \<open>auto simp: read_step16_def reading_def\<close>)

lemma read_step32_wp:
  assumes "reading s a n (res, addr, sz) s'" and "0 \<le> a" "a + n \<le> space" and "sz \<ge> 4 \<Longrightarrow> addr mod 4 = 0"
  shows "wp (read_step32 rb (res, addr, sz))
    (\<lambda>st s''. reading s a n st s'' \<and> (if sz \<ge> 4 then snd st = (addr + 4 * (sz div 4), sz mod 4) else snd st = (addr, sz)))
    fail s'"
proof (cases "sz \<ge> 4")
  case True
  have r: "inv s'" "view s' = view s" "a \<le> addr" "addr + sz = a + n" using assms(1) by (auto simp: reading_def)
  have "wp (rb addr (sz div 4))
      (\<lambda>d s''. reading s a n (res @ u32le_list_to_byte_list d, addr + 4 * int (length d), sz - 4 * int (length d)) s''
        \<and> int (length d) = sz div 4)
      fail s'"
  proof (rule wp_mono [OF rb_law])
    fix d s'' assume d: "inv s'' \<and> view s'' = view s' \<and>
        u32le_list_to_byte_list d = mem_bytes (view s') addr (4 * nat (sz div 4))"
    then have "4 * length d = 4 * nat (sz div 4)" by (metis length_u32le length_mem_bytes)
    then have len: "int (length d) = sz div 4" using True by simp
    have "reading s a n (res @ u32le_list_to_byte_list d, addr + 4 * (sz div 4), sz - 4 * (sz div 4)) s''"
      using d True r by (intro reading_more [OF assms(1)]) (auto simp: nat_mult_distrib)
    then show "reading s a n (res @ u32le_list_to_byte_list d, addr + 4 * int (length d), sz - 4 * int (length d)) s''
        \<and> int (length d) = sz div 4" by (simp add: len)
  qed (use assms True r in auto)
  then show ?thesis using True
    by (auto simp: read_step32_def minus_mult_div_eq_mod elim!: wp_mono)
qed (use assms in \<open>auto simp: read_step32_def reading_def\<close>)

lemma read_block8_wp:
  assumes "inv s" and "0 \<le> a" "0 \<le> n" "a + n \<le> space"
  shows "wp (read_memory_block8 rd rb a n)
    (\<lambda>bs s'. inv s' \<and> view s' = view s \<and> bs = mem_bytes (view s) a (nat n))
    fail s"
proof -
  have 0: "reading s a n ([], a, n) s" using assms by (simp add: reading_def)
  have 5: "wp (read_step8 rd True st) (\<lambda>st' s''. reading s a n st' s'' \<and> snd (snd st') = 0) fail s'"
    if "reading s a n st s' \<and> snd (snd st) \<le> 1" for st s'
    using that read_step8_wp [of s a n "fst st" "fst (snd st)" "snd (snd st)" s' True] assms
    by (auto elim!: wp_mono simp: reading_def split: if_splits)
  have 4: "wp (read_step16 rd True st) (\<lambda>st' s''. reading s a n st' s'' \<and> snd (snd st') \<le> 1) fail s'"
    if "reading s a n st s' \<and> snd (snd st) < 4 \<and> (1 < snd (snd st) \<longrightarrow> fst (snd st) mod 2 = 0)" for st s'
    using that read_step16_wp [of s a n "fst st" "fst (snd st)" "snd (snd st)" s' True] assms
    by (auto elim!: wp_mono split: if_splits)
  have 3: "wp (read_step32 rb st) (\<lambda>st' s''. reading s a n st' s'' \<and> snd (snd st') < 4
        \<and> (1 < snd (snd st') \<longrightarrow> fst (snd st') mod 2 = 0)) fail s'"
    if "reading s a n st s' \<and> (1 < snd (snd st) \<longrightarrow> fst (snd st) mod 4 = 0)" for st s'
    using that read_step32_wp [of s a n "fst st" "fst (snd st)" "snd (snd st)" s'] assms
    by (auto elim!: wp_mono simp: mod_4_even split: if_splits)
  show ?thesis
    unfolding read_memory_block8_def wp_bind
  proof (rule wp_mono [OF read_step8_wp [OF 0 assms(2,4)]])
    fix st s' assume 1: "reading s a n st s' \<and> (if 0 < n \<and> a AND 1 \<noteq> 0 then snd st = (a + 1, n - 1) else snd st = (a, n))"
    obtain res addr sz where st: "st = (res, addr, sz)" by (cases st)
    have al: "1 < sz \<longrightarrow> addr mod 2 = 0"
      using 1 assms(3) unfolding st and_1_iff by (auto split: if_splits) presburger+
    show "wp (read_step16 rd (fst (snd st) AND 2 \<noteq> 0) st)
      (\<lambda>x. wp (read_step32 rb x) (\<lambda>x. wp (read_step16 rd True x) (\<lambda>x. wp (read_step8 rd True x)
        (\<lambda>x. wp (ret (fst x)) (\<lambda>bs s'. inv s' \<and> view s' = view s \<and> bs = mem_bytes (view s) a (nat n)) fail) fail) fail) fail) fail s'"
      unfolding st fst_conv snd_conv wp_ret
    proof (rule wp_mono [OF read_step16_wp [OF _ assms(2,4)]])
      show "reading s a n (res, addr, sz) s'" using 1 by (simp add: st)
      show "1 < sz \<Longrightarrow> addr mod 2 = 0" using al by simp
      fix st2 s2 assume 2: "reading s a n st2 s2 \<and> (if 1 < sz \<and> addr AND 2 \<noteq> 0 then snd st2 = (addr + 2, sz - 2) else snd st2 = (addr, sz))"
      have "1 < snd (snd st2) \<longrightarrow> fst (snd st2) mod 4 = 0"
        using 2 al unfolding and_2_iff by (cases st2) (auto split: if_splits; presburger)
      then show "wp (read_step32 rb st2) (\<lambda>x. wp (read_step16 rd True x) (\<lambda>x. wp (read_step8 rd True x)
        (\<lambda>x s'. inv s' \<and> view s' = view s \<and> fst x = mem_bytes (view s) a (nat n)) fail) fail) fail s2"
        using 2
        by (auto intro!: wp_mono [OF 3] wp_mono [OF 4] wp_mono [OF 5] simp: reading_def split: prod.splits)
    qed auto
  qed auto
qed

end

subsection \<open>Writing\<close>

text \<open>
  A provider of writes: an access that returns has written its bytes, in little-endian order,
  and changed no other; one that raises ends in \<open>fail\<close>.
\<close>

locale memory_writer = memory_view view inv space fail
  for view :: "'s \<Rightarrow> memory" and inv :: "'s \<Rightarrow> bool" and space :: int
    and fail :: "exn \<Rightarrow> 's \<Rightarrow> bool" +
  fixes wr :: "int \<Rightarrow> int \<Rightarrow> int \<Rightarrow> ('s, unit) exec" and wb :: "int \<Rightarrow> int list \<Rightarrow> ('s, unit) exec"
  assumes wr_law: "inv s \<Longrightarrow> access_width w \<Longrightarrow> aligned_in space (w div 8) a \<Longrightarrow> is_uint (nat w) v \<Longrightarrow>
      wp (wr a v w) (\<lambda>_ s'. inv s' \<and> view s' = mem_write (view s) a (word_bytes (nat (w div 8)) v))
        fail s"
    and wb_law: "inv s \<Longrightarrow> a mod 4 = 0 \<Longrightarrow> 0 \<le> a \<Longrightarrow> ws \<noteq> [] \<Longrightarrow> all_uints 32 ws
      \<Longrightarrow> a + 4 * int (length ws) \<le> space \<Longrightarrow>
      wp (wb a ws) (\<lambda>_ s'. inv s' \<and> view s' = mem_write (view s) a (u32le_list_to_byte_list ws))
        fail s"

lemma word_bytes_le_word1: "is_byte b \<Longrightarrow> word_bytes (Suc 0) b = [b]"
  by (simp add: word_bytes_def and_255_mod is_byte_def)

lemma word_bytes_le_word2:
  assumes "is_byte a" "is_byte b"
  shows "word_bytes 2 (a OR push_bit 8 b) = [a, b]"
  using le_word_bytes2 [OF assms] by (simp add: word_bytes_def or_bytes2 assms numeral_2_eq_2)

lemma is_uint_bytes2: "is_byte a \<Longrightarrow> is_byte b \<Longrightarrow> is_uint 16 (a OR push_bit 8 b)"
  by (simp add: or_bytes2 le_word_Cons is_byte_def is_uint_def)

lemma all_uints_u32le: "all_bytes bs \<Longrightarrow> 4 dvd length bs \<Longrightarrow> all_uints 32 (byte_list_to_u32le_list bs pad)"
proof (induction bs pad rule: byte_list_to_u32le_list.induct)
  case (1 a b c d data pad)
  then have "a + 256 * (b + 256 * (c + 256 * d)) < 2 ^ 32" "0 \<le> a + 256 * (b + 256 * (c + 256 * d))"
    by (auto simp: is_byte_def)
  moreover have "u32_of_bytes [a, b, c, d] = a + 256 * (b + 256 * (c + 256 * d))"
    using 1 by (intro u32_of_bytes_horner) simp_all
  moreover have "4 dvd length data" using "1.prems"(2) by (simp add: four_dvd_Suc)
  ultimately show ?case using 1 by (simp add: is_uint_def del: u32_of_bytes.simps)
qed (simp_all add: four_dvd_Suc)

lemma length_bytes_to_u32: "4 dvd length bs \<Longrightarrow> length (byte_list_to_u32le_list bs pad) = length bs div 4"
  by (induction bs pad rule: byte_list_to_u32le_list.induct) (simp_all add: four_dvd_Suc)

context memory_writer
begin

text \<open>Of the data \<open>all\<close> to be written at \<open>a\<close>, what is not left in the state is in the memory.\<close>

definition writing :: "'s \<Rightarrow> int \<Rightarrow> int list \<Rightarrow> write_state \<Rightarrow> 's \<Rightarrow> bool" where
  "writing s a all st s' \<longleftrightarrow> (case st of (addr, data) \<Rightarrow> \<exists>done.
     all = done @ data \<and> addr = a + int (length done) \<and> inv s' \<and> view s' = mem_write (view s) a done)"

lemma writing_more:
  assumes "writing s a all (addr, bs @ data) s'" and "inv s''" and "view s'' = mem_write (view s') addr bs"
  shows "writing s a all (addr + int (length bs), data) s''"
proof -
  obtain done' where "all = done' @ bs @ data" "addr = a + int (length done')"
    "view s' = mem_write (view s) a done'"
    using assms(1) by (auto simp: writing_def)
  with assms(2,3) show ?thesis
    by (auto simp: writing_def mem_write_append intro!: exI [of _ "done' @ bs"])
qed

lemma write_step8_wp:
  assumes "writing s a all (addr, data) s'" and "all_bytes all" "0 \<le> a" "a + int (length all) \<le> space"
  shows "wp (write_step8 wr guard (addr, data))
    (\<lambda>st s''. writing s a all st s'' \<and>
       (if data \<noteq> [] \<and> guard then st = (addr + 1, tl data) else st = (addr, data)))
    fail s'"
proof (cases "data \<noteq> [] \<and> guard")
  case True
  then obtain b rest where data: "data = b # rest" by (cases data) auto
  have b: "is_byte b" "inv s'" "aligned_in space (8 div 8) addr"
    using assms by (auto simp: writing_def data aligned_in_def)
  then have u: "is_uint 8 b" by (simp add: is_byte_uint)
  have "wp (wr addr b 8) (\<lambda>_ s''. writing s a all (addr + 1, rest) s'') fail s'"
    by (rule wp_mono [OF wr_law])
      (use b u assms writing_more [of s a all addr "[b]" rest s'] in \<open>auto simp: data word_bytes_le_word1\<close>)
  then show ?thesis using True by (auto simp: write_step8_def sized_defs data)
qed (use assms in \<open>auto simp: write_step8_def writing_def split: list.split\<close>)

lemma write_step16_wp:
  assumes "writing s a all (addr, data) s'" and "all_bytes all" "0 \<le> a" "a + int (length all) \<le> space"
    and "length data > 1 \<Longrightarrow> addr mod 2 = 0"
  shows "wp (write_step16 wr guard (addr, data))
    (\<lambda>st s''. writing s a all st s'' \<and>
       (if length data > 1 \<and> guard then st = (addr + 2, drop 2 data) else st = (addr, data)))
    fail s'"
proof (cases "length data > 1 \<and> guard")
  case True
  then obtain b c rest where data: "data = b # c # rest" by (cases data; cases "tl data") auto
  have b: "is_byte b" "is_byte c" "inv s'" "aligned_in space (16 div 8) addr"
    using assms by (auto simp: writing_def data aligned_in_def)
  have "wp (wr addr (b OR push_bit 8 c) 16) (\<lambda>_ s''. writing s a all (addr + 2, rest) s'') fail s'"
    by (rule wp_mono [OF wr_law])
      (use b assms writing_more [of s a all addr "[b, c]" rest s']
        in \<open>auto simp: is_uint_bytes2 data word_bytes_le_word2\<close>)
  then show ?thesis using True by (auto simp: write_step16_def sized_defs data)
qed (use assms in \<open>auto simp: write_step16_def writing_def split: list.split\<close>)

lemma write_step32_wp:
  assumes "writing s a all (addr, data) s'" and "all_bytes all" "0 \<le> a" "a + int (length all) \<le> space"
    and "length data \<ge> 4 \<Longrightarrow> addr mod 4 = 0"
  shows "wp (write_step32 wb (addr, data))
    (\<lambda>st s''. writing s a all st s'' \<and>
       (if length data \<ge> 4 then st = (addr + int (length data div 4 * 4), drop (length data div 4 * 4) data)
        else st = (addr, data)))
    fail s'"
proof (cases "length data \<ge> 4")
  case True
  define n where "n = length data div 4 * 4"
  let ?ws = "byte_list_to_u32le_list (take n data) 0"
  have n: "n \<le> length data" "0 < n" "4 dvd n" using True by (auto simp: n_def)
  then have len: "length (take n data) = n" by simp
  have bs: "all_bytes (take n data)" "inv s'" "addr \<ge> 0" "addr + int (length data) \<le> space"
    using assms by (auto simp: writing_def intro: all_bytes_take)
  have ws: "u32le_list_to_byte_list ?ws = take n data" "all_uints 32 ?ws" "length ?ws = n div 4"
    using bs(1) n(3) len by (simp_all add: bytes_to_u32_to_bytes all_uints_u32le length_bytes_to_u32)
  have "wp (wb addr ?ws) (\<lambda>_ s''. writing s a all (addr + int n, drop n data) s'') fail s'"
  proof (rule wp_mono [OF wb_law])
    show "addr + 4 * int (length ?ws) \<le> space" using bs(4) n unfolding ws(3) by auto
    show "?ws \<noteq> []" using ws(3) n by auto
    fix s'' assume "inv s'' \<and> view s'' = mem_write (view s') addr (u32le_list_to_byte_list ?ws)"
    then show "writing s a all (addr + int n, drop n data) s''"
      using writing_more [of s a all addr "take n data" "drop n data" s' s''] assms(1) len
      by (simp add: ws(1))
  qed (use bs ws assms True in auto)
  then show ?thesis using True by (simp add: write_step32_def n_def [symmetric])
qed (use assms in \<open>auto simp: write_step32_def writing_def\<close>)

lemma write_block8_wp:
  assumes "inv s" and "all_bytes data" and "0 \<le> a" "a + int (length data) \<le> space"
  shows "wp (write_memory_block8 wr wb a data)
    (\<lambda>_ s'. inv s' \<and> view s' = mem_write (view s) a data) fail s"
proof -
  let ?W = "\<lambda>P st s'. writing s a data st s' \<and> P (fst st) (length (snd st))"
  let ?Q = "\<lambda>_ s'. inv s' \<and> view s' = mem_write (view s) a data"
  have 0: "writing s a data (a, data) s" using assms by (simp add: writing_def)
  have 6: "inv s' \<and> view s' = mem_write (view s) a data" if "writing s a data (x, []) s'" for x s'
    using that by (auto simp: writing_def)
  have tl0: "tl xs = []" if "length xs \<le> 1" for xs :: "int list"
    using that by (cases xs) auto
  have 5: "wp (write_step8 wr True st) (?W (\<lambda>_ n. n = 0)) fail s'"
    if "?W (\<lambda>_ n. n \<le> 1) st s'" for st s'
    using that write_step8_wp [of s a data "fst st" "snd st" s' True] assms tl0 [of "snd st"]
    by (auto elim!: wp_mono split: if_splits)
  have 4: "wp (write_step16 wr True st) (?W (\<lambda>_ n. n \<le> 1)) fail s'"
    if "?W (\<lambda>x n. n < 4 \<and> (1 < n \<longrightarrow> x mod 2 = 0)) st s'" for st s'
    using that write_step16_wp [of s a data "fst st" "snd st" s' True] assms
    by (auto elim!: wp_mono split: if_splits)
  have small: "n - n div 4 * 4 < (4::nat)" for n by (simp add: minus_div_mult_eq_mod)
  have al: "(x + int (k * 4)) mod 2 = 0" if "x mod 4 = 0" for x k
    using that by presburger
  have 3: "wp (write_step32 wb st) (?W (\<lambda>x n. n < 4 \<and> (1 < n \<longrightarrow> x mod 2 = 0))) fail s'"
    if "?W (\<lambda>x n. 1 < n \<longrightarrow> x mod 4 = 0) st s'" for st s'
    using that write_step32_wp [of s a data "fst st" "snd st" s'] assms
    by (auto elim!: wp_mono simp: mod_4_even(1) small al split: if_splits)
  show ?thesis
    unfolding write_memory_block8_def wp_bind
  proof (rule wp_mono [OF write_step8_wp [OF 0 assms(2,3,4)]])
    fix st s' assume 1: "writing s a data st s' \<and> (if data \<noteq> [] \<and> a AND 1 \<noteq> 0 then st = (a + 1, tl data) else st = (a, data))"
    obtain addr rest where st: "st = (addr, rest)" by (cases st)
    have pos: "data \<noteq> [] \<Longrightarrow> 0 < length data" by simp
    have al1: "1 < length rest \<Longrightarrow> addr mod 2 = 0"
      using 1 unfolding st and_1_iff by (auto split: if_splits) presburger+
    show "wp (write_step16 wr (fst st AND 2 \<noteq> 0) st) (\<lambda>x. wp (write_step32 wb x) (\<lambda>x. wp (write_step16 wr True x)
        (\<lambda>x. wp (write_step8 wr True x) (\<lambda>_. wp (ret ()) ?Q fail) fail) fail) fail) fail s'"
      unfolding st fst_conv wp_ret
    proof (rule wp_mono [OF write_step16_wp [OF _ assms(2,3,4) al1]])
      show "writing s a data (addr, rest) s'" using 1 by (simp add: st)
      fix st2 s2 assume 2: "writing s a data st2 s2 \<and> (if 1 < length rest \<and> addr AND 2 \<noteq> 0 then st2 = (addr + 2, drop 2 rest) else st2 = (addr, rest))"
      have "?W (\<lambda>x n. 1 < n \<longrightarrow> x mod 4 = 0) st2 s2"
        using 2 al1 unfolding and_2_iff by (cases st2) (auto split: if_splits; presburger)
      then show "wp (write_step32 wb st2) (\<lambda>x. wp (write_step16 wr True x) (\<lambda>x. wp (write_step8 wr True x) (\<lambda>_. ?Q ()) fail) fail) fail s2"
        by (intro wp_mono [OF 3]) (auto intro!: wp_mono [OF 4] wp_mono [OF 5] dest!: 6)
    qed auto
  qed auto
qed

end

subsection \<open>Blocks\<close>

text \<open>
  What a user of whole blocks relies on, whatever provides them: reads return the bytes of the
  memory, writes store them.
\<close>

locale block_memory = memory_view view inv space fail
  for view :: "'s \<Rightarrow> memory" and inv :: "'s \<Rightarrow> bool" and space :: int
    and fail :: "exn \<Rightarrow> 's \<Rightarrow> bool" +
  fixes rb8 :: "int \<Rightarrow> int \<Rightarrow> ('s, int list) exec" and wb8 :: "int \<Rightarrow> int list \<Rightarrow> ('s, unit) exec"
  assumes rb8_law: "inv s \<Longrightarrow> 0 \<le> a \<Longrightarrow> 0 \<le> n \<Longrightarrow> a + n \<le> space \<Longrightarrow>
      wp (rb8 a n) (\<lambda>bs s'. inv s' \<and> view s' = view s \<and> bs = mem_bytes (view s) a (nat n)) fail s"
    and wb8_law: "inv s \<Longrightarrow> all_bytes data \<Longrightarrow> 0 \<le> a \<Longrightarrow> a + int (length data) \<le> space \<Longrightarrow>
      wp (wb8 a data) (\<lambda>_ s'. inv s' \<and> view s' = mem_write (view s) a data) fail s"

locale memory_provider = memory_reader view inv space fail rd rb + memory_writer view inv space fail wr wb
  for view :: "'s \<Rightarrow> memory" and inv :: "'s \<Rightarrow> bool" and space :: int
    and fail :: "exn \<Rightarrow> 's \<Rightarrow> bool" and rd rb wr wb

sublocale memory_provider \<subseteq> blk: block_memory view inv space fail "read_memory_block8 rd rb" "write_memory_block8 wr wb"
  by unfold_locales (rule read_block8_wp write_block8_wp; assumption)+

end
