(* ===== verification/Mem_Ap.thy ===== *)
theory Mem_Ap
  imports Memory_Interface
begin

text \<open>
  Access ports: AP addresses, the choice of the AP class from the IDR, and the MEM-AP with its
  cached control word, single transfers with byte lanes, and block transfers split at the
  auto-increment boundary (\<open>pyocd/coresight/ap.py\<close>).  The DebugPort's operations are
  parameters.  A deferred read (\<open>now=False\<close>) and its callback are one operation here, the
  probe lock and the trace log are left out.
\<close>

subsection \<open>AP addresses\<close>

datatype ap_version = APv1 | APv2

record ap_address =
  aa_version :: ap_version
  aa_nominal :: int
  aa_dp :: int
  aa_apid :: int

definition ap_base :: "ap_address \<Rightarrow> int" where
  "ap_base a = (case aa_version a of APv1 \<Rightarrow> push_bit 24 (aa_nominal a) | APv2 \<Rightarrow> aa_nominal a)"

definition ap_idr_address :: "ap_address \<Rightarrow> int" where
  "ap_idr_address a = (case aa_version a of APv1 \<Rightarrow> 0xFC | APv2 \<Rightarrow> 0xDFC)"

definition ap_address_eq :: "ap_address \<Rightarrow> ap_address \<Rightarrow> bool" where
  "ap_address_eq a b \<longleftrightarrow> aa_nominal a = aa_nominal b \<and> aa_dp a = aa_dp b"

definition ap_address_lt :: "ap_address \<Rightarrow> ap_address \<Rightarrow> bool" where
  "ap_address_lt a b \<longleftrightarrow> aa_nominal a < aa_nominal b \<and> aa_dp a < aa_dp b"

text \<open>
  The documented order compares the DP index for equal nominal addresses; two APs of one DP are
  never ordered by the code.
\<close>

lemma ap_address_lt_same_dp: "aa_dp a = aa_dp b \<Longrightarrow> \<not> ap_address_lt a b \<and> \<not> ap_address_lt b a"
  by (simp add: ap_address_lt_def)

lemma ap_address_lt_equal_nominal: "aa_nominal a = aa_nominal b \<Longrightarrow> \<not> ap_address_lt a b"
  by (simp add: ap_address_lt_def)

subsection \<open>The class of an AP\<close>

datatype ap_class = AccessPort | MEM_AP | AHB_AP | APB_AP | AXI_AP

definition AP_4K_WRAP :: int where "AP_4K_WRAP = 0x1"
definition AP_MSTRTYPE :: int where "AP_MSTRTYPE = 0x2"
definition AP_DBGSWEN :: int where "AP_DBGSWEN = 0x4"
definition AP_HPROT_EXT :: int where "AP_HPROT_EXT = 0x8"
definition AP_NONSECURE :: int where "AP_NONSECURE = 0x10"

lemmas ap_flag_defs = AP_4K_WRAP_def AP_MSTRTYPE_def AP_DBGSWEN_def AP_HPROT_EXT_def AP_NONSECURE_def

type_synonym ap_key = "int \<times> int \<times> int \<times> int"

definition AP_TYPE_MAP :: "(ap_key \<times> string \<times> ap_class \<times> int) list" where
  "AP_TYPE_MAP = [
     ((0x23b, 0x0, 0, 0), (''JTAG-AP'', AccessPort, 0)),
     ((0x23b, 0x1, 0, 0), (''SDC-600'', AccessPort, 0)),
     ((0x23b, 0x8, 0, 0x1), (''AHB-AP'', AHB_AP, AP_NONSECURE)),
     ((0x23b, 0x8, 1, 0x1), (''AHB-AP'', AHB_AP, AP_4K_WRAP OR AP_MSTRTYPE)),
     ((0x23b, 0x8, 2, 0x1), (''AHB-AP'', AHB_AP, 0)),
     ((0x23b, 0x8, 3, 0x1), (''AHB-AP'', AHB_AP, 0)),
     ((0x23b, 0x8, 4, 0x1), (''AHB-AP'', AHB_AP, 0)),
     ((0x23b, 0x8, 0, 0x2), (''APB-AP'', APB_AP, AP_DBGSWEN)),
     ((0x23b, 0x8, 0, 0x4), (''AXI-AP'', AXI_AP, AP_NONSECURE)),
     ((0x23b, 0x8, 0, 0x5), (''AHB5-AP'', AHB_AP, AP_NONSECURE)),
     ((0x23b, 0x8, 1, 0x5), (''AHB5-AP'', AHB_AP, 0)),
     ((0x23b, 0x8, 2, 0x5), (''AHB5-AP'', AHB_AP, 0)),
     ((0x23b, 0x8, 0, 0x6), (''APB5-AP'', APB_AP, AP_DBGSWEN)),
     ((0x23b, 0x8, 0, 0x7), (''AXI5-AP'', AXI_AP, AP_NONSECURE)),
     ((0x23b, 0x8, 1, 0x7), (''AXI5-AP'', AXI_AP, AP_NONSECURE)),
     ((0x23b, 0x8, 0, 0x8), (''AHB5-AP'', AHB_AP, AP_NONSECURE OR AP_HPROT_EXT)),
     ((0x575, 0x8, 1, 0x5), (''AHB5-AP'', AHB_AP, 0))]"

definition idr_key :: "int \<Rightarrow> ap_key" where
  "idr_key idr = (drop_bit 17 (idr AND 0x0ffe0000), drop_bit 13 (idr AND 0x0001e000),
                  drop_bit 4 (idr AND 0x000000f0), idr AND 0x0000000f)"

text \<open>The name, class and flags that \<open>AccessPort.create\<close> chooses for an IDR.\<close>

definition classify_ap :: "int \<Rightarrow> exn + string option \<times> ap_class \<times> int" where
  "classify_ap idr =
     (if idr = 0 then Inl TargetError
      else let key = idr_key idr; (designer, apClass, variant, apType) = key
        in case map_of AP_TYPE_MAP key of
            Some (name, klass, flags) \<Rightarrow> Inr (Some name, klass, flags)
          | None \<Rightarrow>
              if apClass = 0x8 \<and> designer = 0x23b then
                (if apType = 0x1 then Inr (Some ''AHB-AP'', AHB_AP, 0)
                 else if apType = 0x5 \<or> apType = 0x8 then Inr (Some ''AHB5-AP'', AHB_AP, 0)
                 else if apType = 0x2 then Inr (Some ''APB-AP'', APB_AP, 0)
                 else if apType = 0x6 then Inr (Some ''APB5-AP'', APB_AP, 0)
                 else if apType = 0x4 then Inr (Some ''AXI-AP'', AXI_AP, 0)
                 else if apType = 0x7 then Inr (Some ''AXI5-AP'', AXI_AP, 0)
                 else Inr (Some ''MEM-AP'', MEM_AP, 0))
              else Inr (None, AccessPort, 0))"

subsection \<open>The MEM-AP object\<close>

text \<open>
  The DebugPort operations the AP calls.  \<open>dp_handle_error\<close> is \<open>_handle_error\<close>, which may
  itself raise.
\<close>

record 'p dp_ops =
  dp_read_ap :: "int \<Rightarrow> ('p, int) exec"
  dp_write_ap :: "int \<Rightarrow> int \<Rightarrow> ('p, unit) exec"
  dp_read_ap_multiple :: "int \<Rightarrow> int \<Rightarrow> ('p, int list) exec"
  dp_write_ap_multiple :: "int \<Rightarrow> int list \<Rightarrow> ('p, unit) exec"
  dp_handle_error :: "exn \<Rightarrow> ('p, unit) exec"

record 'p mem_ap =
  ma_class :: ap_class
  ma_address :: ap_address
  ma_flags :: int
  ma_reg_offset :: int
  ma_csw :: int
  ma_cached_csw :: int
  ma_original_csw :: "int option"
  ma_hprot :: int
  ma_hnonsec :: int
  ma_mask_hprot :: int
  ma_mask_hnonsec :: int
  ma_impl_hprot :: int
  ma_impl_hnonsec :: int
  ma_transfer_sizes :: "int list"
  ma_page_size :: int
  ma_dar_count :: int
  ma_address_mask :: int
  ma_large_data :: bool
  ma_rom_addr :: int
  ma_has_rom_table :: bool
  ma_dp :: 'p

lemma mem_ap_update_order:
  "ap\<lparr>ma_dp := p, ma_cached_csw := c\<rparr> = ap\<lparr>ma_cached_csw := c, ma_dp := p\<rparr>"
  "ap\<lparr>ma_cached_csw := c, ma_dp := p, ma_cached_csw := c'\<rparr> = ap\<lparr>ma_cached_csw := c', ma_dp := p\<rparr>"
  by simp_all

text \<open>A call of the DebugPort: it works on the part of the state behind \<open>self.dp\<close>.\<close>

definition on_dp :: "('p, 'a) exec \<Rightarrow> ('p mem_ap, 'a) exec" where
  "on_dp m ap = (case m (ma_dp ap) of (r, p) \<Rightarrow> (r, ap\<lparr>ma_dp := p\<rparr>))"

lemma wp_on_dp [simp]:
  "wp (on_dp m) Q E = (\<lambda>ap. wp m (\<lambda>x p. Q x (ap\<lparr>ma_dp := p\<rparr>)) (\<lambda>e p. E e (ap\<lparr>ma_dp := p\<rparr>)) (ma_dp ap))"
  by (auto simp: wp_def on_dp_def fun_eq_iff split: prod.splits sum.splits)


text \<open>The constructors of \<open>MEM_AP\<close> and its subclasses, for a probe without its own memory interface.\<close>

definition init_hprot_mask :: "ap_class \<Rightarrow> int \<Rightarrow> int" where
  "init_hprot_mask klass flags =
     (case klass of
        AHB_AP \<Rightarrow> (if flags AND AP_HPROT_EXT \<noteq> 0 then 0x5f else 0x0f)
      | APB_AP \<Rightarrow> 0
      | _ \<Rightarrow> drop_bit 24 0x7f000000)"

definition new_mem_ap :: "ap_class \<Rightarrow> ap_address \<Rightarrow> int \<Rightarrow> 'p \<Rightarrow> 'p mem_ap" where
  "new_mem_ap klass addr flags p =
     \<lparr>ma_class = klass, ma_address = addr, ma_flags = flags,
      ma_reg_offset = (case aa_version addr of APv1 \<Rightarrow> 0 | APv2 \<Rightarrow> 0xD00),
      ma_csw = 0x10 OR (if flags AND AP_DBGSWEN \<noteq> 0 then 0x80000000 else 0)
                    OR (if klass = AHB_AP \<and> flags AND AP_MSTRTYPE \<noteq> 0 then 0x20000000 else 0),
      ma_cached_csw = - 1, ma_original_csw = None,
      ma_hprot = (case klass of AHB_AP \<Rightarrow> 0x01 OR 0x02 | AXI_AP \<Rightarrow> 0x00 OR 0x10 | _ \<Rightarrow> 0),
      ma_hnonsec = 0,
      ma_mask_hprot = init_hprot_mask klass flags,
      ma_mask_hnonsec = (if klass = AHB_AP then 0x01 else 0),
      ma_impl_hprot = 0, ma_impl_hnonsec = 0,
      ma_transfer_sizes = (case klass of AHB_AP \<Rightarrow> [8, 16, 32] | AXI_AP \<Rightarrow> [8, 16, 32] | _ \<Rightarrow> [32]),
      ma_page_size = (if flags AND AP_4K_WRAP \<noteq> 0 then 0x1000 else 0x400),
      ma_dar_count = 0, ma_address_mask = 0xffffffff, ma_large_data = False,
      ma_rom_addr = 0, ma_has_rom_table = False, ma_dp = p\<rparr>"

subsection \<open>The control word\<close>

definition csw_encode_hprot :: "ap_class \<Rightarrow> int \<Rightarrow> int \<Rightarrow> int \<Rightarrow> int" where
  "csw_encode_hprot klass flags csw v =
     (case klass of
        AHB_AP \<Rightarrow>
          (if flags AND AP_HPROT_EXT \<noteq> 0
           then (csw AND NOT (0x1f000000 OR 0x00008000)) OR (push_bit 24 v AND 0x1f000000)
                  OR (push_bit (15 - 6) v AND 0x00008000)
           else (csw AND NOT 0x0f000000) OR (push_bit 24 v AND 0x0f000000))
      | _ \<Rightarrow> (csw AND NOT 0x7f000000) OR (push_bit 24 v AND 0x7f000000))"

definition csw_decode_hprot :: "ap_class \<Rightarrow> int \<Rightarrow> int \<Rightarrow> int" where
  "csw_decode_hprot klass flags csw =
     (case klass of
        AHB_AP \<Rightarrow>
          (if flags AND AP_HPROT_EXT \<noteq> 0
           then drop_bit 24 (csw AND 0x1f000000) OR drop_bit (15 - 6) (csw AND 0x00008000)
           else drop_bit 24 (csw AND 0x0f000000))
      | _ \<Rightarrow> drop_bit 24 (csw AND 0x7f000000))"

definition csw_encode_hnonsec :: "ap_class \<Rightarrow> int \<Rightarrow> int \<Rightarrow> int" where
  "csw_encode_hnonsec klass csw v =
     (if klass = AHB_AP then (csw AND NOT 0x40000000) OR (push_bit 30 v AND 0x40000000) else csw)"

definition csw_decode_hnonsec :: "ap_class \<Rightarrow> int \<Rightarrow> int" where
  "csw_decode_hnonsec klass csw =
     (if klass = AHB_AP then drop_bit 30 (csw AND 0x40000000) else 0)"

definition set_hprot :: "int \<Rightarrow> 'p mem_ap \<Rightarrow> 'p mem_ap" where
  "set_hprot v ap =
     (let h = v AND ma_mask_hprot ap
      in ap\<lparr>ma_hprot := h, ma_csw := csw_encode_hprot (ma_class ap) (ma_flags ap) (ma_csw ap) h\<rparr>)"

definition set_hnonsec :: "int \<Rightarrow> 'p mem_ap \<Rightarrow> 'p mem_ap" where
  "set_hnonsec v ap =
     (let h = v AND ma_mask_hnonsec ap
      in ap\<lparr>ma_hnonsec := h, ma_csw := csw_encode_hnonsec (ma_class ap) (ma_csw ap) h\<rparr>)"

definition set_cacheable :: "'p mem_ap \<Rightarrow> 'p mem_ap" where
  "set_cacheable ap =
     (if ma_class ap = AHB_AP
      then (if ma_flags ap AND AP_HPROT_EXT \<noteq> 0
            then set_hprot (ma_hprot ap OR (0x08 OR 0x10 OR 0x40)) ap
            else set_hprot (ma_hprot ap OR 0x08) ap)
      else ap)"

text \<open>\<open>with ap.hprot_lock(h)\<close> and the like: the attributes are put back, also after an exception.\<close>

definition with_attrs :: "int option \<Rightarrow> int option \<Rightarrow> ('p mem_ap, 'a) exec \<Rightarrow> ('p mem_ap, 'a) exec" where
  "with_attrs hprot hnonsec body ap =
     (let ap1 = (case hprot of None \<Rightarrow> ap | Some h \<Rightarrow> set_hprot h ap);
          ap2 = (case hnonsec of None \<Rightarrow> ap1 | Some h \<Rightarrow> set_hnonsec h ap1);
          (r, ap3) = body ap2;
          ap4 = (case hprot of None \<Rightarrow> ap3 | Some _ \<Rightarrow> set_hprot (ma_hprot ap) ap3);
          ap5 = (case hnonsec of None \<Rightarrow> ap4 | Some _ \<Rightarrow> set_hnonsec (ma_hnonsec ap1) ap4)
      in (r, ap5))"

subsection \<open>Registers\<close>

definition raw_read_reg :: "'p dp_ops \<Rightarrow> int \<Rightarrow> ('p mem_ap, int) exec" where
  "raw_read_reg D addr ap = on_dp (dp_read_ap D (ap_base (ma_address ap) + addr)) ap"

definition raw_write_reg :: "'p dp_ops \<Rightarrow> int \<Rightarrow> int \<Rightarrow> ('p mem_ap, unit) exec" where
  "raw_write_reg D addr data ap = on_dp (dp_write_ap D (ap_base (ma_address ap) + addr) data) ap"

definition invalidate_cache :: "'p mem_ap \<Rightarrow> 'p mem_ap" where
  "invalidate_cache ap = ap\<lparr>ma_cached_csw := - 1\<rparr>"

text \<open>\<open>read_reg\<close>; a deferred read (\<open>now\<close> false) does not use the cached control word.\<close>

definition read_reg :: "'p dp_ops \<Rightarrow> int \<Rightarrow> bool \<Rightarrow> ('p mem_ap, int) exec" where
  "read_reg D addr now ap =
     (if addr AND 0xffc = ma_reg_offset ap + 0x00 \<and> ma_cached_csw ap \<noteq> - 1 \<and> now
      then ret (ma_cached_csw ap) ap
      else raw_read_reg D addr ap)"

definition write_reg :: "'p dp_ops \<Rightarrow> int \<Rightarrow> int \<Rightarrow> ('p mem_ap, unit) exec" where
  "write_reg D addr data ap =
     (let is_csw = (addr AND 0xffc = ma_reg_offset ap + 0x00)
      in if is_csw \<and> data = ma_cached_csw ap then ret () ap
         else let ap1 = (if is_csw then ap\<lparr>ma_cached_csw := data\<rparr> else ap)
              in catch (raw_write_reg D addr data) is_probe_error
                   (\<lambda>e. bind (modify (if is_csw then invalidate_cache else id)) (\<lambda>_. raise e)) ap1)"

definition restore_original_csw_if_cached_modified :: "'p dp_ops \<Rightarrow> ('p mem_ap, unit) exec" where
  "restore_original_csw_if_cached_modified D ap =
     (case ma_original_csw ap of
        None \<Rightarrow> ret () ap
      | Some orig \<Rightarrow>
          if ma_cached_csw ap \<noteq> - 1 \<and> ma_cached_csw ap \<noteq> orig
          then bind (write_reg D (ma_reg_offset ap + 0x00) orig)
                 (\<lambda>_. modify (\<lambda>a. a\<lparr>ma_cached_csw := orig\<rparr>)) ap
          else ret () ap)"

definition reset_did_occur :: "'p mem_ap \<Rightarrow> 'p mem_ap" where
  "reset_did_occur ap = invalidate_cache ap"

text \<open>Whether transfers of a security state are allowed, from the control word the AP holds now.\<close>

datatype security_state = NONSECURE_STATE | SECURE_STATE

definition is_enabled_for :: "'p dp_ops \<Rightarrow> security_state \<Rightarrow> ('p mem_ap, bool) exec" where
  "is_enabled_for D st =
     bind get_state (\<lambda>ap. bind (raw_read_reg D (ma_reg_offset ap + 0x00)) (\<lambda>csw.
       ret (case st of NONSECURE_STATE \<Rightarrow> csw AND (0x40 OR 0x00800000) \<noteq> 0
                     | SECURE_STATE \<Rightarrow> csw AND 0x00800000 \<noteq> 0)))"

subsection \<open>Error handling\<close>

definition handle_error :: "'p dp_ops \<Rightarrow> exn \<Rightarrow> ('p mem_ap, unit) exec" where
  "handle_error D e = bind (on_dp (dp_handle_error D e)) (\<lambda>_. modify invalidate_cache)"

text \<open>Faults are annotated with the address and length of the access.\<close>

fun annotate :: "int \<Rightarrow> int \<Rightarrow> exn \<Rightarrow> exn" where
  "annotate addr len (TransferFaultError _ _) = TransferFaultError (Some addr) (Some len)"
| "annotate addr len e = e"

definition guard_access :: "'p dp_ops \<Rightarrow> int \<Rightarrow> int \<Rightarrow> ('p mem_ap, 'a) exec \<Rightarrow> ('p mem_ap, 'a) exec" where
  "guard_access D addr len m =
     catch m is_pyocd_error (\<lambda>e. bind (handle_error D e) (\<lambda>_. raise (annotate addr len e)))"


subsection \<open>Initialisation\<close>

text \<open>The nested functions of \<open>MEM_AP.init\<close>.\<close>

definition init_cfg :: "'p dp_ops \<Rightarrow> ('p mem_ap, unit) exec" where
  "init_cfg D =
     bind get_state (\<lambda>ap. bind (read_reg D (ma_reg_offset ap + 0xF4) True) (\<lambda>cfg.
     bind (modify (\<lambda>a. if cfg AND 0x2 \<noteq> 0 then a\<lparr>ma_address_mask := 0xffffffffffffffff\<rparr> else a)) (\<lambda>_.
     bind (modify (\<lambda>a. if cfg AND 0x4 \<noteq> 0 then a\<lparr>ma_large_data := True\<rparr> else a)) (\<lambda>_.
     if aa_version (ma_address ap) = APv2 then
       (let tarinc = drop_bit 16 (cfg AND 0xf0000); err = drop_bit 8 (cfg AND 0xf00);
            darsize = drop_bit 4 (cfg AND 0xf0)
        in bind (modify (\<lambda>a. if tarinc \<noteq> 0 then a\<lparr>ma_page_size := push_bit (nat (9 + tarinc)) 1\<rparr> else a)) (\<lambda>_.
           bind (if err = 1
                 then bind (modify (\<lambda>a. a\<lparr>ma_csw := ma_csw a AND NOT (0x20000 OR 0x10000)\<rparr>)) (\<lambda>_.
                        write_reg D (ma_reg_offset ap + 0x24) 1)
                 else ret ()) (\<lambda>_.
           modify (\<lambda>a. a\<lparr>ma_dar_count := push_bit (nat darsize) 1 div 4\<rparr>))))
     else ret ()))))"

definition test_transfer_size :: "'p dp_ops \<Rightarrow> int \<Rightarrow> int \<Rightarrow> ('p mem_ap, bool) exec" where
  "test_transfer_size D original sz =
     bind get_state (\<lambda>ap.
     bind (raw_write_reg D (ma_reg_offset ap + 0x00) ((original AND NOT 7) OR sz)) (\<lambda>_.
     bind (raw_read_reg D (ma_reg_offset ap + 0x00)) (\<lambda>csw. ret (csw AND 7 = sz))))"

fun test_sizes :: "'p dp_ops \<Rightarrow> int \<Rightarrow> int list \<Rightarrow> ('p mem_ap, int list) exec" where
  "test_sizes D original [] = ret []"
| "test_sizes D original (sz # szs) =
     bind (test_transfer_size D original sz) (\<lambda>ok.
     bind (test_sizes D original szs) (\<lambda>rest.
       ret (if ok then 8 * push_bit (nat sz) 1 # rest else rest)))"

definition init_transfer_sizes :: "'p dp_ops \<Rightarrow> int \<Rightarrow> ('p mem_ap, unit) exec" where
  "init_transfer_sizes D original =
     bind get_state (\<lambda>ap.
       if ma_large_data ap then
         bind (test_sizes D original [0, 1, 3, 4, 5]) (\<lambda>szs.
           modify (\<lambda>a. a\<lparr>ma_transfer_sizes := 32 # szs\<rparr>))
       else if set (ma_transfer_sizes ap) = {32} then
         bind (test_transfer_size D original 1) (\<lambda>ok.
           modify (\<lambda>a. if ok then a\<lparr>ma_transfer_sizes := [8, 16, 32]\<rparr> else a))
       else ret ())"

definition init_hprot :: "'p dp_ops \<Rightarrow> int \<Rightarrow> ('p mem_ap, unit) exec" where
  "init_hprot D original =
     bind get_state (\<lambda>ap.
       (let csw1 = csw_encode_hprot (ma_class ap) (ma_flags ap) original (ma_mask_hprot ap);
            csw2 = csw_encode_hnonsec (ma_class ap) csw1 (ma_mask_hnonsec ap)
        in bind (raw_write_reg D (ma_reg_offset ap + 0x00) csw2) (\<lambda>_.
           bind (raw_read_reg D (ma_reg_offset ap + 0x00)) (\<lambda>csw.
           modify (\<lambda>a.
             (let a1 = a\<lparr>ma_impl_hprot := csw_decode_hprot (ma_class a) (ma_flags a) csw,
                          ma_impl_hnonsec := csw_decode_hnonsec (ma_class a) csw\<rparr>;
                  a2 = set_hprot (ma_hprot a1 AND ma_impl_hprot a1) a1
              in set_hnonsec (ma_hnonsec a2 AND ma_impl_hnonsec a2) a2))))))"

text \<open>The ROM table's presence and address, from the BASE register.\<close>

definition decode_base :: "int \<Rightarrow> exn + bool \<times> int" where
  "decode_base base =
     (let is_adiv5 = (base AND 0x2 \<noteq> 0); present = (base AND 0x1 \<noteq> 0)
      in if \<not> is_adiv5 \<and> \<not> present then Inr (True, base AND 0xfffff000)
         else if base = 0xffffffff \<or> \<not> present then Inr (False, 0)
         else if is_adiv5 \<and> present then Inr (True, base AND 0xfffffffc)
         else Inl TargetError)"

definition init_rom_table_base :: "'p dp_ops \<Rightarrow> ('p mem_ap, unit) exec" where
  "init_rom_table_base D =
     bind get_state (\<lambda>ap. bind (read_reg D (ma_reg_offset ap + 0xF8) True) (\<lambda>base.
     bind (lift_res (decode_base base)) (\<lambda>(has, addr).
       modify (\<lambda>a. a\<lparr>ma_has_rom_table := has, ma_rom_addr := addr\<rparr>))))"

definition init_mem_ap :: "'p dp_ops \<Rightarrow> ('p mem_ap, unit) exec" where
  "init_mem_ap D =
     bind get_state (\<lambda>ap. bind (raw_read_reg D (ma_reg_offset ap + 0x00)) (\<lambda>original.
     bind (modify (\<lambda>a. a\<lparr>ma_original_csw := Some original\<rparr>)) (\<lambda>_.
     bind (init_cfg D) (\<lambda>_.
     bind (init_transfer_sizes D original) (\<lambda>_.
     bind (init_hprot D original) (\<lambda>_.
     bind (init_rom_table_base D) (\<lambda>_.
     raw_write_reg D (ma_reg_offset ap + 0x00) original)))))))"

text \<open>The subclasses' \<open>init\<close>: the security attribute and, for AXI, the DOMAIN bits.\<close>

definition init_ap :: "'p dp_ops \<Rightarrow> ('p mem_ap, unit) exec" where
  "init_ap D =
     bind (init_mem_ap D) (\<lambda>_. modify (\<lambda>a.
       (let original = (case ma_original_csw a of Some c \<Rightarrow> c | None \<Rightarrow> 0)
        in case ma_class a of
             AHB_AP \<Rightarrow> (if ma_flags a AND AP_NONSECURE \<noteq> 0 \<and> original AND 0x00800000 = 0
                        then set_hnonsec 1 a else a)
           | AXI_AP \<Rightarrow>
               (let a1 = a\<lparr>ma_csw := (ma_csw a AND NOT 0x6000) OR (original AND 0x6000)\<rparr>
                in if ma_flags a AND AP_NONSECURE \<noteq> 0 \<and> original AND 0x00800000 = 0
                   then set_hprot (ma_hprot a1 OR 0x20) a1 else a1)
           | _ \<Rightarrow> a)))"

subsection \<open>Memory accesses\<close>

definition transfer_size_code :: "int \<Rightarrow> exn + int" where
  "transfer_size_code w = (case map_of [(8, 0), (16, 1), (32, 2), (64, 3), (128, 4), (256, 5)] w of
      Some c \<Rightarrow> Inr c | None \<Rightarrow> Inl KeyError)"

text \<open>The check of the address, its mask and the check of the size, common to reads and writes.\<close>

definition check_access :: "int \<Rightarrow> int \<Rightarrow> ('p mem_ap, int) exec" where
  "check_access addr w ap =
     (if addr AND (w div 8 - 1) \<noteq> 0 then raise AssertionError ap
      else if w \<notin> set (ma_transfer_sizes ap) then raise TransferError ap
      else ret (addr AND ma_address_mask ap) ap)"

definition select_size :: "'p dp_ops \<Rightarrow> int \<Rightarrow> ('p mem_ap, unit) exec" where
  "select_size D w =
     bind (lift_res (transfer_size_code w)) (\<lambda>c.
     bind get_state (\<lambda>ap. write_reg D (ma_reg_offset ap + 0x00) (ma_csw ap OR c)))"

text \<open>Where the data of an access below 32 bits lies in the data register.\<close>

definition to_lane :: "int \<Rightarrow> int \<Rightarrow> int \<Rightarrow> int" where
  "to_lane addr w data =
     (if w = 8 then push_bit (nat (push_bit 3 (addr AND 3))) data
      else if w = 16 then push_bit (nat (push_bit 3 (addr AND 2))) data
      else data)"

definition from_lane :: "int \<Rightarrow> int \<Rightarrow> int \<Rightarrow> int" where
  "from_lane addr w res =
     (if w = 8 then drop_bit (nat (push_bit 3 (addr AND 3))) res AND 0xff
      else if w = 16 then drop_bit (nat (push_bit 3 (addr AND 2))) res AND 0xffff
      else res)"

definition write_memory :: "'p dp_ops \<Rightarrow> int \<Rightarrow> int \<Rightarrow> int \<Rightarrow> ('p mem_ap, unit) exec" where
  "write_memory D addr0 data w =
     bind (check_access addr0 w) (\<lambda>addr.
     bind (select_size D w) (\<lambda>_.
     bind get_state (\<lambda>ap.
     guard_access D addr (w div 8)
       (bind (write_reg D (ma_reg_offset ap + 0x04) addr) (\<lambda>_.
        if w \<le> 32 then write_reg D (ma_reg_offset ap + 0x0C) (to_lane addr w data)
        else on_dp (dp_write_ap_multiple D (ap_base (ma_address ap) + ma_reg_offset ap + 0x0C)
               (map (\<lambda>i. drop_bit (32 * i) data AND 0xffffffff) [0..<nat (w div 32)])))))))"

fun sum_words :: "nat \<Rightarrow> int list \<Rightarrow> int" where
  "sum_words i [] = 0"
| "sum_words i (x # xs) = push_bit (32 * i) x + sum_words (Suc i) xs"

definition read_memory :: "'p dp_ops \<Rightarrow> int \<Rightarrow> int \<Rightarrow> ('p mem_ap, int) exec" where
  "read_memory D addr0 w =
     bind (check_access addr0 w) (\<lambda>addr.
     bind get_state (\<lambda>ap.
     guard_access D addr (w div 8)
       (bind (select_size D w) (\<lambda>_.
        bind (write_reg D (ma_reg_offset ap + 0x04) addr) (\<lambda>_.
        if w \<le> 32
        then bind (read_reg D (ma_reg_offset ap + 0x0C) False) (\<lambda>res. ret (from_lane addr w res))
        else bind (on_dp (dp_read_ap_multiple D (ap_base (ma_address ap) + ma_reg_offset ap + 0x0C) (w div 32)))
               (\<lambda>res_mw. ret (sum_words 0 res_mw)))))))"

text \<open>One transaction of words inside an auto-increment page.\<close>

definition write_block32_page :: "'p dp_ops \<Rightarrow> int \<Rightarrow> int list \<Rightarrow> ('p mem_ap, unit) exec" where
  "write_block32_page D addr data =
     bind (assert_that (addr AND 3 = 0)) (\<lambda>_.
     bind get_state (\<lambda>ap.
     bind (write_reg D (ma_reg_offset ap + 0x00) (ma_csw ap OR 2)) (\<lambda>_.
     bind (write_reg D (ma_reg_offset ap + 0x04) addr) (\<lambda>_.
     guard_access D addr (int (length data) * 4)
       (on_dp (dp_write_ap_multiple D (ap_base (ma_address ap) + ma_reg_offset ap + 0x0C) data))))))"

definition read_block32_page :: "'p dp_ops \<Rightarrow> int \<Rightarrow> int \<Rightarrow> ('p mem_ap, int list) exec" where
  "read_block32_page D addr n =
     bind (assert_that (addr AND 3 = 0)) (\<lambda>_.
     bind get_state (\<lambda>ap.
     bind (write_reg D (ma_reg_offset ap + 0x00) (ma_csw ap OR 2)) (\<lambda>_.
     bind (write_reg D (ma_reg_offset ap + 0x04) addr) (\<lambda>_.
     guard_access D addr (n * 4)
       (on_dp (dp_read_ap_multiple D (ap_base (ma_address ap) + ma_reg_offset ap + 0x0C) n))))))"

text \<open>
  The bytes of the next transaction: up to the end of the page, or all that are left.  The
  loops take a word at least in each turn, so fuel for as many turns as words is enough.
\<close>

definition page_bytes :: "int \<Rightarrow> int \<Rightarrow> int \<Rightarrow> int" where
  "page_bytes page addr words =
     (let n = page - (addr AND (page - 1))
      in if words * 4 < n then (words * 4) AND 0xfffffffc else n)"

fun write_blocks :: "nat \<Rightarrow> 'p dp_ops \<Rightarrow> int \<Rightarrow> int list \<Rightarrow> int \<Rightarrow> ('p mem_ap, unit) exec" where
  "write_blocks fuel D addr data n_left ap =
     (if n_left > 0 then
        (case fuel of 0 \<Rightarrow> raise RecursionError ap
         | Suc fuel' \<Rightarrow>
             (let n = page_bytes (ma_page_size ap) addr n_left
              in bind (write_block32_page D addr (py_upto data (n div 4))) (\<lambda>_.
                   write_blocks fuel' D (addr + n) (py_from data (n div 4)) (n_left - n div 4)) ap))
      else ret () ap)"

definition write_memory_block32 :: "'p dp_ops \<Rightarrow> int \<Rightarrow> int list \<Rightarrow> ('p mem_ap, unit) exec" where
  "write_memory_block32 D addr data =
     bind (assert_that (addr AND 3 = 0)) (\<lambda>_. bind get_state (\<lambda>ap.
       write_blocks (length data) D (addr AND ma_address_mask ap) data (int (length data))))"

fun read_blocks :: "nat \<Rightarrow> 'p dp_ops \<Rightarrow> int \<Rightarrow> int list \<Rightarrow> int \<Rightarrow> ('p mem_ap, int list) exec" where
  "read_blocks fuel D addr resp n_left ap =
     (if n_left > 0 then
        (case fuel of 0 \<Rightarrow> raise RecursionError ap
         | Suc fuel' \<Rightarrow>
             (let n = page_bytes (ma_page_size ap) addr n_left
              in bind (read_block32_page D addr (n div 4)) (\<lambda>ws.
                   read_blocks fuel' D (addr + n) (resp @ ws) (n_left - n div 4)) ap))
      else ret resp ap)"

definition read_memory_block32 :: "'p dp_ops \<Rightarrow> int \<Rightarrow> int \<Rightarrow> ('p mem_ap, int list) exec" where
  "read_memory_block32 D addr n_words =
     bind (assert_that (addr AND 3 = 0)) (\<lambda>_. bind get_state (\<lambda>ap.
       read_blocks (nat n_words) D (addr AND ma_address_mask ap) [] n_words))"

declare write_blocks.simps [simp del] read_blocks.simps [simp del]


subsection \<open>Sizes and lanes\<close>

lemma csw_size_field:
  assumes "x AND 0x37 = (0x10::int)" and "c \<in> {0, 1, 2}"
  shows "(x OR c) AND 7 = c" "(x OR c) AND 0x37 = 0x10 OR c" "x OR c \<noteq> - 1"
proof -
  show f: "(x OR c) AND 0x37 = 0x10 OR c"
    using assms by (auto simp: bit.conj_disj_distrib2)
  have "(x OR c) AND 7 = ((x OR c) AND 0x37) AND 7" by (simp add: and.assoc)
  then show "(x OR c) AND 7 = c" using assms(2) unfolding f by auto
  show "x OR c \<noteq> - 1"
  proof
    assume "x OR c = - 1"
    then show False using f assms(2) by auto
  qed
qed

lemma and_2_even: "x mod 2 = 0 \<Longrightarrow> (x::int) AND 2 = x mod 4"
proof -
  assume "x mod 2 = 0"
  moreover have "x AND 2 = (x AND 3) AND 2" by (simp add: and.assoc)
  moreover have "x mod 4 \<in> {0, 1, 2, 3}" by auto
  moreover have "x mod 4 mod 2 = x mod 2" by (simp add: mod_mod_cancel)
  ultimately show ?thesis unfolding and_3_mod by auto
qed

lemma access_cases:
  assumes "access_width w"
  obtains k where "w = 8 * 2 ^ k" "k \<le> 2" "transfer_size_code w = Inr (int k)" "int k \<in> {0, 1, 2}"
    "w div 8 = 2 ^ k"
proof -
  have "w = 8 * 2 ^ 0 \<or> w = 8 * 2 ^ 1 \<or> w = 8 * 2 ^ (2::nat)" using assms by (auto simp: access_width_def)
  then show ?thesis
    by (elim disjE) (rule that, auto simp: transfer_size_code_def)+
qed

lemma lane_eq:
  assumes "access_width w" and "addr mod (w div 8) = 0"
  shows "to_lane addr w data = push_bit (nat (8 * (addr mod 4))) data"
    and "is_uint 32 res \<Longrightarrow> from_lane addr w res = take_bit (nat w) (drop_bit (nat (8 * (addr mod 4))) res)"
  using assms
  by (auto simp: access_width_def to_lane_def from_lane_def and_3_mod and_2_even push_bit_eq_mult and_255_mod
      and_65535_mod take_bit_eq_mod is_uint_def mult.commute)

lemma lane_uint:
  assumes "access_width w" and "addr mod (w div 8) = 0" and "is_uint (nat w) data"
  shows "is_uint 32 (push_bit (nat (8 * (addr mod 4))) data)"
proof -
  have "nat (8 * (addr mod 4)) + nat w \<le> 32"
  proof -
    have "addr mod 4 \<le> 2" if "addr mod 2 = 0" using that by presburger
    moreover have "addr mod 4 \<le> 3" "0 \<le> addr mod 4" by simp_all
    ultimately show ?thesis using assms(1,2) unfolding access_width_def by (elim disjE) simp_all
  qed
  moreover have "data * 2 ^ nat (8 * (addr mod 4)) < 2 ^ nat w * 2 ^ nat (8 * (addr mod 4))"
    using assms(3) by (intro mult_strict_right_mono) (auto simp: is_uint_def)
  moreover have "(2::int) ^ (nat w + nat (8 * (addr mod 4))) \<le> 2 ^ 32"
    by (rule power_increasing) (use calculation(1) in auto)
  ultimately have "data * 2 ^ nat (8 * (addr mod 4)) < 2 ^ 32"
    unfolding power_add by (elim order.strict_trans2)
  then show ?thesis
    using assms(3) by (simp add: is_uint_def push_bit_eq_mult)
qed

lemma alignment_check: "access_width w \<Longrightarrow> addr AND (w div 8 - 1) = 0 \<longleftrightarrow> addr mod (w div 8) = 0"
  by (auto simp: access_width_def and_1_mod and_3_mod)

lemma drop_push [simp]: "drop_bit n (push_bit n x) = (x::int)"
  by (simp add: drop_bit_eq_div push_bit_eq_mult)

lemma mask_low: "0 \<le> a \<Longrightarrow> a < 2 ^ m \<Longrightarrow> a AND (2 ^ m - 1) = (a::int)"
  by (simp add: and_low_mask)

lemma page_bytes_words:
  assumes "page = 2 ^ k" and "2 \<le> k" "k \<le> 31" and "addr mod 4 = 0" and "0 < words"
  obtains m where "page_bytes page addr words = 4 * m" "0 < m" "m \<le> words" "addr mod page + 4 * m \<le> page"
proof -
  have md: "addr AND (page - 1) = addr mod page" unfolding assms(1) by (rule and_low_mask)
  have four: "(4::int) dvd page" unfolding assms(1) using le_imp_power_dvd [OF assms(2), of "2::int"] by simp
  have pos: "0 < page" "page \<le> 2 ^ 31" using assms(1,3) power_increasing [of k 31 "2::int"] by simp_all
  have lt: "addr mod page < page" using pos by simp
  have "(addr mod page) mod 4 = 0" using assms(4) four by (simp add: mod_mod_cancel)
  then have rest4: "4 dvd page - addr mod page" using four by (simp add: dvd_eq_mod_eq_0 [symmetric])
  show ?thesis
  proof (cases "words * 4 < page - addr mod page")
    case True
    have "0 \<le> addr mod page" using pos by simp
    with True pos assms(5) have lim: "words * 4 < 2 ^ 32" "0 \<le> words * 4" by auto
    have "(words * 4) AND 0xfffffffc = words * 4"
    proof -
      have "(0xfffffffc::int) = push_bit 2 (mask 30)" by (simp add: mask_eq_exp_minus_1 push_bit_eq_mult)
      moreover have "words * 4 = push_bit 2 words" by (simp add: push_bit_eq_mult)
      moreover have "push_bit 2 words AND push_bit 2 (mask 30) = push_bit 2 (words AND mask 30)" by (simp add: push_bit_and)
      moreover have "words AND mask 30 = words"
        using lim assms(5) by (simp add: take_bit_eq_mask [symmetric] take_bit_int_eq_self)
      ultimately show ?thesis by simp
    qed
    then have "page_bytes page addr words = 4 * words" using True by (simp add: page_bytes_def Let_def md)
    then show ?thesis using True assms(5) by (intro that [of words]) auto
  next
    case False
    obtain m where m: "page - addr mod page = 4 * m" using rest4 by blast
    have "page_bytes page addr words = 4 * m" using False by (simp add: page_bytes_def Let_def md m)
    moreover have "0 < m" using lt m by linarith
    moreover have "m \<le> words" using False m by linarith
    ultimately show ?thesis using m by (intro that [of m]) auto
  qed
qed

lemma in_larger_page:
  assumes "a mod page + n \<le> page" and "page dvd hpage" and "0 < hpage" and "0 < page"
  shows "a mod hpage + n \<le> (hpage::int)"
proof -
  obtain h where h: "hpage = page * h" using assms(2) by blast
  let ?x = "a mod hpage"
  have "?x < hpage" "0 \<le> ?x" using assms(3) by simp_all
  have m: "?x mod page = a mod page" using assms(2) by (simp add: mod_mod_cancel)
  have "page * (?x div page) + ?x mod page = ?x" by (rule mult_div_mod_eq)
  moreover have "0 \<le> ?x mod page" using assms(4) by simp
  moreover have "?x div page < h"
  proof (rule ccontr)
    assume "\<not> ?x div page < h"
    then have "page * h \<le> page * (?x div page)" using assms(4) by (intro mult_left_mono) auto
    then have "hpage \<le> page * (?x div page)" by (simp only: h)
    with calculation \<open>?x < hpage\<close> show False by linarith
  qed
  then have "page * (?x div page) \<le> page * (h - 1)" using assms(4) by (intro mult_left_mono) auto
  then have "page * (?x div page) \<le> hpage - page" by (simp add: h right_diff_distrib)
  ultimately show ?thesis using assms(1) m by linarith
qed

subsection \<open>What a MEM-AP does\<close>

text \<open>
  The AP object in step with the hardware: the cached control word is the AP's, the base control
  word leaves the size field free and selects single increment, the page size divides the
  hardware's, and the address mask covers the space.
\<close>

definition ap_ok :: "('p \<Rightarrow> int) \<Rightarrow> ('p \<Rightarrow> bool) \<Rightarrow> int \<Rightarrow> int \<Rightarrow> int \<Rightarrow> 'p mem_ap \<Rightarrow> bool" where
  "ap_ok hcsw hinv base hpage space ap \<longleftrightarrow> hinv (ma_dp ap) \<and> ap_base (ma_address ap) + ma_reg_offset ap = base
     \<and> ma_reg_offset ap \<in> {0, 0xD00} \<and> ma_csw ap AND 0x37 = 0x10
     \<and> (ma_cached_csw ap = - 1 \<or> ma_cached_csw ap = hcsw (ma_dp ap))
     \<and> (\<exists>k. ma_page_size ap = 2 ^ k \<and> 2 \<le> k \<and> k \<le> 31) \<and> ma_page_size ap dvd hpage \<and> 0 < hpage
     \<and> (\<exists>m. ma_address_mask ap = 2 ^ m - 1 \<and> space \<le> 2 ^ m)
     \<and> {8, 16, 32} \<subseteq> set (ma_transfer_sizes ap)"

text \<open>
  The architecture of the AP behind the DebugPort (Arm Debug Interface): the control word and
  the transfer address are registers; reading or writing DRW accesses the memory at the transfer
  address, in the byte lanes of the address; a multiple access with single increment works
  through consecutive words as long as it stays in the auto-increment page.  An access may fail
  with one of pyOCD's errors; nothing is assumed of the state after that.
\<close>

locale mem_ap_hw =
  fixes D :: "'p dp_ops" and base :: int and hcsw htar :: "'p \<Rightarrow> int" and hmem :: "'p \<Rightarrow> memory"
    and hinv :: "'p \<Rightarrow> bool" and hpage space :: int
  assumes hmem_byte: "hinv p \<Longrightarrow> is_byte (hmem p a)"
    and csw_write: "hinv p \<Longrightarrow> wp (dp_write_ap D base v)
      (\<lambda>_ p'. hinv p' \<and> hcsw p' = v \<and> htar p' = htar p \<and> hmem p' = hmem p) (\<lambda>e _. is_pyocd_error e) p"
    and tar_write: "hinv p \<Longrightarrow> wp (dp_write_ap D (base + 4) v)
      (\<lambda>_ p'. hinv p' \<and> hcsw p' = hcsw p \<and> htar p' = v \<and> hmem p' = hmem p) (\<lambda>e _. is_pyocd_error e) p"
    and drw_read: "hinv p \<Longrightarrow> hcsw p AND 7 = int k \<Longrightarrow> k \<le> 2 \<Longrightarrow> aligned_in space (2 ^ k) (htar p) \<Longrightarrow>
      wp (dp_read_ap D (base + 12))
        (\<lambda>x p'. hinv p' \<and> hcsw p' = hcsw p \<and> hmem p' = hmem p \<and> is_uint 32 x
          \<and> take_bit (8 * 2 ^ k) (drop_bit (nat (8 * (htar p mod 4))) x) = le_word (mem_bytes (hmem p) (htar p) (2 ^ k)))
        (\<lambda>e _. is_pyocd_error e) p"
    and drw_write: "hinv p \<Longrightarrow> hcsw p AND 7 = int k \<Longrightarrow> k \<le> 2 \<Longrightarrow> aligned_in space (2 ^ k) (htar p) \<Longrightarrow>
      is_uint 32 v \<Longrightarrow>
      wp (dp_write_ap D (base + 12) v)
        (\<lambda>_ p'. hinv p' \<and> hcsw p' = hcsw p \<and>
          hmem p' = mem_write (hmem p) (htar p) (word_bytes (2 ^ k) (drop_bit (nat (8 * (htar p mod 4))) v)))
        (\<lambda>e _. is_pyocd_error e) p"
    and multi_read: "hinv p \<Longrightarrow> hcsw p AND 0x37 = 0x12 \<Longrightarrow> htar p mod 4 = 0 \<Longrightarrow> 0 \<le> htar p \<Longrightarrow> 0 < n \<Longrightarrow>
      htar p mod hpage + 4 * n \<le> hpage \<Longrightarrow> htar p + 4 * n \<le> space \<Longrightarrow>
      wp (dp_read_ap_multiple D (base + 12) n)
        (\<lambda>ws p'. hinv p' \<and> hcsw p' = hcsw p \<and> hmem p' = hmem p
          \<and> u32le_list_to_byte_list ws = mem_bytes (hmem p) (htar p) (4 * nat n))
        (\<lambda>e _. is_pyocd_error e) p"
    and multi_write: "hinv p \<Longrightarrow> hcsw p AND 0x37 = 0x12 \<Longrightarrow> htar p mod 4 = 0 \<Longrightarrow> 0 \<le> htar p \<Longrightarrow> ws \<noteq> [] \<Longrightarrow>
      all_uints 32 ws \<Longrightarrow> htar p mod hpage + 4 * int (length ws) \<le> hpage \<Longrightarrow> htar p + 4 * int (length ws) \<le> space \<Longrightarrow>
      wp (dp_write_ap_multiple D (base + 12) ws)
        (\<lambda>_ p'. hinv p' \<and> hcsw p' = hcsw p \<and> hmem p' = mem_write (hmem p) (htar p) (u32le_list_to_byte_list ws))
        (\<lambda>e _. is_pyocd_error e) p"
    and error_handler: "wp (dp_handle_error D e) (\<lambda>_ _. True) (\<lambda>e _. is_pyocd_error e) p"
begin

abbreviation ok :: "'p mem_ap \<Rightarrow> bool" where
  "ok \<equiv> ap_ok hcsw hinv base hpage space"

abbreviation ap_mem :: "'p mem_ap \<Rightarrow> memory" where
  "ap_mem ap \<equiv> hmem (ma_dp ap)"

abbreviation pyocd_fail :: "exn \<Rightarrow> 'p mem_ap \<Rightarrow> bool" where
  "pyocd_fail \<equiv> \<lambda>e _. is_pyocd_error e"

text \<open>An operation leaves the configuration of the AP alone.\<close>

definition ap_step :: "'p mem_ap \<Rightarrow> 'p mem_ap \<Rightarrow> bool" where
  "ap_step ap ap' \<longleftrightarrow> ma_csw ap' = ma_csw ap \<and> ma_reg_offset ap' = ma_reg_offset ap
     \<and> ma_address ap' = ma_address ap \<and> ma_page_size ap' = ma_page_size ap
     \<and> ma_address_mask ap' = ma_address_mask ap \<and> ma_transfer_sizes ap' = ma_transfer_sizes ap"

lemma ap_step_refl [simp]: "ap_step ap ap"
  by (simp add: ap_step_def)

lemma ap_step_fields:
  "ap_step ap ap' \<Longrightarrow> ma_csw ap' = ma_csw ap" "ap_step ap ap' \<Longrightarrow> ma_reg_offset ap' = ma_reg_offset ap"
  "ap_step ap ap' \<Longrightarrow> ma_address ap' = ma_address ap" "ap_step ap ap' \<Longrightarrow> ma_page_size ap' = ma_page_size ap"
  "ap_step ap ap' \<Longrightarrow> ma_address_mask ap' = ma_address_mask ap"
  "ap_step ap ap' \<Longrightarrow> ma_transfer_sizes ap' = ma_transfer_sizes ap"
  by (simp_all add: ap_step_def)

lemma ap_step_trans: "ap_step ap ap' \<Longrightarrow> ap_step ap' ap'' \<Longrightarrow> ap_step ap ap''"
  by (simp add: ap_step_def)

lemma ap_ok_step:
  "ok ap \<Longrightarrow> ap_step ap ap' \<Longrightarrow> hinv (ma_dp ap') \<Longrightarrow>
    (ma_cached_csw ap' = - 1 \<or> ma_cached_csw ap' = hcsw (ma_dp ap')) \<Longrightarrow> ok ap'"
  by (simp add: ap_ok_def ap_step_fields)

lemma wp_write_reg:
  "wp (write_reg D a v) Q E ap =
    (let is_csw = (a AND 0xffc = ma_reg_offset ap) in
     if is_csw \<and> v = ma_cached_csw ap then Q () ap
     else wp (dp_write_ap D (ap_base (ma_address ap) + a) v)
       (\<lambda>_ p. Q () ((if is_csw then ap\<lparr>ma_cached_csw := v\<rparr> else ap)\<lparr>ma_dp := p\<rparr>))
       (\<lambda>e p. if is_probe_error e
          then E e ((if is_csw then ap\<lparr>ma_cached_csw := - 1\<rparr> else ap)\<lparr>ma_dp := p\<rparr>)
          else E e ((if is_csw then ap\<lparr>ma_cached_csw := v\<rparr> else ap)\<lparr>ma_dp := p\<rparr>)) (ma_dp ap))"
  by (auto simp: wp_def write_reg_def Let_def catch_def raw_write_reg_def on_dp_def invalidate_cache_def bind_def
        mem_ap_update_order split: prod.splits sum.splits)

lemma off_regs: "off \<in> {0, 0xD00} \<Longrightarrow> off AND 0xffc = off \<and> (off + 4) AND 0xffc \<noteq> off
    \<and> (off + 12) AND 0xffc \<noteq> (off::int)"
  by auto

lemma write_csw_wp:
  assumes "ok ap" and "v \<noteq> - 1"
  shows "wp (write_reg D (ma_reg_offset ap) v)
    (\<lambda>_ ap'. ok ap' \<and> ap_step ap ap' \<and> hcsw (ma_dp ap') = v \<and> ap_mem ap' = ap_mem ap) pyocd_fail ap"
proof -
  have off: "ma_reg_offset ap AND 0xffc = ma_reg_offset ap" and b: "ap_base (ma_address ap) + ma_reg_offset ap = base"
    and h: "hinv (ma_dp ap)"
    using assms off_regs [of "ma_reg_offset ap"] by (auto simp: ap_ok_def)
  have "wp (dp_write_ap D base v)
      (\<lambda>_ p. let ap' = ap\<lparr>ma_cached_csw := v, ma_dp := p\<rparr> in
         ok ap' \<and> ap_step ap ap' \<and> hcsw (ma_dp ap') = v \<and> ap_mem ap' = ap_mem ap)
      (\<lambda>e _. is_pyocd_error e) (ma_dp ap)"
    by (rule wp_mono [OF csw_write [OF h]]) (use assms in \<open>auto simp: Let_def ap_ok_def ap_step_def\<close>)
  then show ?thesis
    using assms by (auto simp: wp_write_reg off b Let_def elim!: wp_mono simp: ap_ok_def)
qed

lemma write_tar_wp:
  assumes "ok ap"
  shows "wp (write_reg D (ma_reg_offset ap + 4) v)
    (\<lambda>_ ap'. ok ap' \<and> ap_step ap ap' \<and> hcsw (ma_dp ap') = hcsw (ma_dp ap)
      \<and> htar (ma_dp ap') = v \<and> ap_mem ap' = ap_mem ap) pyocd_fail ap"
proof -
  have off: "(ma_reg_offset ap + 4) AND 0xffc \<noteq> ma_reg_offset ap"
    and b: "ap_base (ma_address ap) + (ma_reg_offset ap + 4) = base + 4" and h: "hinv (ma_dp ap)"
    using assms off_regs [of "ma_reg_offset ap"] by (auto simp: ap_ok_def)
  have "wp (dp_write_ap D (base + 4) v)
      (\<lambda>_ p. let ap' = ap\<lparr>ma_dp := p\<rparr> in
         ok ap' \<and> ap_step ap ap' \<and> hcsw (ma_dp ap') = hcsw (ma_dp ap) \<and> htar (ma_dp ap') = v \<and> ap_mem ap' = ap_mem ap)
      (\<lambda>e _. is_pyocd_error e) (ma_dp ap)"
    by (rule wp_mono [OF tar_write [OF h]])
      (use assms in \<open>auto simp: Let_def ap_ok_def ap_step_def\<close>)
  then show ?thesis
    by (simp add: wp_write_reg off b Let_def)
qed

lemma wp_guard_access:
  "wp m Q (\<lambda>e s'. is_pyocd_error e) ap \<Longrightarrow> wp (guard_access D a n m) Q pyocd_fail ap"
proof -
  have an: "is_pyocd_error e \<Longrightarrow> is_pyocd_error (annotate x y e)" for e x y
    by (cases e) (auto simp: is_pyocd_error_def)
  have "wp (handle_error D e) (\<lambda>_ s'. True) pyocd_fail ap'" for e ap'
    by (auto simp: handle_error_def intro: wp_mono [OF error_handler])
  then have "wp (bind (handle_error D e) (\<lambda>_. raise (annotate a n e))) Q pyocd_fail ap'" if "is_pyocd_error e" for e ap'
    using that an by (auto elim!: wp_mono)
  then show "wp m Q (\<lambda>e s'. is_pyocd_error e) ap \<Longrightarrow> wp (guard_access D a n m) Q pyocd_fail ap"
    by (auto simp: guard_access_def elim!: wp_mono)
qed

lemma check_access_wp:
  assumes "ok ap" and "access_width w" and "aligned_in space (w div 8) a"
  shows "check_access a w ap = (Inr a, ap)"
proof -
  obtain m where m: "ma_address_mask ap = 2 ^ m - 1" "space \<le> 2 ^ m" using assms(1) by (auto simp: ap_ok_def)
  have "0 < w div 8" using assms(2) by (auto simp: access_width_def)
  then have "a AND ma_address_mask ap = a"
    using assms(3) m by (intro mask_low [of a m, folded m(1)]) (auto simp: aligned_in_def)
  then show ?thesis
    using assms by (auto simp: check_access_def alignment_check aligned_in_def ap_ok_def access_width_def)
qed

lemma select_size_wp:
  assumes "ok ap" and "transfer_size_code w = Inr (int k)" and "int k \<in> {0, 1, 2}"
  shows "wp (select_size D w)
    (\<lambda>_ ap'. ok ap' \<and> ap_step ap ap' \<and> hcsw (ma_dp ap') AND 7 = int k \<and> ap_mem ap' = ap_mem ap) pyocd_fail ap"
proof -
  have c: "ma_csw ap AND 0x37 = 0x10" using assms(1) by (simp add: ap_ok_def)
  note cs = csw_size_field [OF c assms(3)]
  show ?thesis
    using write_csw_wp [OF assms(1) cs(3)]
    by (auto simp: select_size_def assms(2) cs(1) elim!: wp_mono)
qed

lemma drw_off:
  assumes "ok ap"
  shows "(ma_reg_offset ap + 12) AND 0xffc \<noteq> ma_reg_offset ap"
    "ap_base (ma_address ap) + (ma_reg_offset ap + 12) = base + 12"
    "ap_base (ma_address ap) + ma_reg_offset ap + 12 = base + 12"
  using assms off_regs [of "ma_reg_offset ap"] by (auto simp: ap_ok_def)

lemma then_at_address:
  assumes "ok ap1" and "ap_step ap ap1" and "hcsw (ma_dp ap1) AND 7 = int k" and "ap_mem ap1 = ap_mem ap"
    and "\<And>ap2. ok ap2 \<Longrightarrow> ap_step ap ap2 \<Longrightarrow> hcsw (ma_dp ap2) AND 7 = int k \<Longrightarrow> htar (ma_dp ap2) = a
      \<Longrightarrow> ap_mem ap2 = ap_mem ap \<Longrightarrow> wp m Q pyocd_fail ap2"
  shows "wp (bind (write_reg D (ma_reg_offset ap + 4) a) (\<lambda>_. m)) Q pyocd_fail ap1"
proof -
  have o: "ma_reg_offset ap1 = ma_reg_offset ap" by (rule ap_step_fields(2) [OF assms(2)])
  have "wp (write_reg D (ma_reg_offset ap1 + 4) a) (\<lambda>_. wp m Q pyocd_fail) pyocd_fail ap1"
  proof (rule wp_mono [OF write_tar_wp [OF assms(1)]])
    fix x ap2
    assume 2: "ok ap2 \<and> ap_step ap1 ap2 \<and> hcsw (ma_dp ap2) = hcsw (ma_dp ap1)
      \<and> htar (ma_dp ap2) = a \<and> ap_mem ap2 = ap_mem ap1"
    then show "wp m Q pyocd_fail ap2"
      using ap_step_trans [OF assms(2), of ap2] assms(3,4) by (intro assms(5)) simp_all
  qed
  then show ?thesis by (simp add: o)
qed

lemma write_memory_wp:
  assumes "ok ap" and "access_width w" and "aligned_in space (w div 8) a" and "is_uint (nat w) v"
  shows "wp (write_memory D a v w)
    (\<lambda>_ ap'. ok ap' \<and> ap_mem ap' = mem_write (ap_mem ap) a (word_bytes (nat (w div 8)) v)) pyocd_fail ap"
proof -
  obtain k where k: "transfer_size_code w = Inr (int k)" "int k \<in> {0, 1, 2}" "k \<le> 2" "w div 8 = 2 ^ k"
    by (rule access_cases [OF assms(2)])
  have al: "a mod (w div 8) = 0" using assms(3) by (simp add: aligned_in_def)
  have drw: "wp (write_reg D (ma_reg_offset ap + 12) (to_lane a w v))
      (\<lambda>_ ap'. ok ap' \<and> ap_mem ap' = mem_write (ap_mem ap) a (word_bytes (nat (w div 8)) v)) pyocd_fail ap2"
    if "ok ap2" "ap_step ap ap2" "hcsw (ma_dp ap2) AND 7 = int k" "htar (ma_dp ap2) = a" "ap_mem ap2 = ap_mem ap" for ap2
  proof -
    have o: "ma_reg_offset ap2 = ma_reg_offset ap" using that(2) by (simp add: ap_step_fields)
    have "wp (dp_write_ap D (base + 12) (to_lane a w v))
      (\<lambda>_ p. ok (ap2\<lparr>ma_dp := p\<rparr>) \<and> hmem p = mem_write (ap_mem ap) a (word_bytes (nat (w div 8)) v))
      (\<lambda>e _. is_pyocd_error e) (ma_dp ap2)"
      by (rule wp_mono [OF drw_write [OF _ that(3) k(3)]])
        (use that assms(3) k(4) lane_eq(1) [OF assms(2) al] lane_uint [OF assms(2) al assms(4)]
          in \<open>auto simp: ap_ok_def nat_power_eq\<close>)
    moreover have "ap_base (ma_address ap2) + (ma_reg_offset ap + 12) = base + 12"
      "(ma_reg_offset ap + 12) AND 0xffc \<noteq> ma_reg_offset ap"
      using drw_off [OF that(1)] by (simp_all only: o not_False_eq_True)
    ultimately show ?thesis by (simp only: wp_write_reg o Let_def if_False simp_thms not_False_eq_True) simp
  qed
  have w32: "w \<le> 32" using assms(2) by (auto simp: access_width_def)
  have "wp (bind (select_size D w) (\<lambda>_. bind get_state (\<lambda>ap1. guard_access D a (w div 8)
      (bind (write_reg D (ma_reg_offset ap1 + 4) a) (\<lambda>_. write_reg D (ma_reg_offset ap1 + 12) (to_lane a w v))))))
      (\<lambda>_ ap'. ok ap' \<and> ap_mem ap' = mem_write (ap_mem ap) a (word_bytes (nat (w div 8)) v)) pyocd_fail ap"
    unfolding wp_bind wp_get_state
  proof (rule wp_mono [OF select_size_wp [OF assms(1) k(1,2)]])
    fix x ap1 assume 1: "ok ap1 \<and> ap_step ap ap1 \<and> hcsw (ma_dp ap1) AND 7 = int k \<and> ap_mem ap1 = ap_mem ap"
    then have o: "ma_reg_offset ap1 = ma_reg_offset ap" using ap_step_fields(2) by blast
    show "wp (guard_access D a (w div 8)
        (bind (write_reg D (ma_reg_offset ap1 + 4) a) (\<lambda>_. write_reg D (ma_reg_offset ap1 + 12) (to_lane a w v))))
      (\<lambda>_ ap'. ok ap' \<and> ap_mem ap' = mem_write (ap_mem ap) a (word_bytes (nat (w div 8)) v)) pyocd_fail ap1"
      unfolding o by (intro wp_guard_access then_at_address drw) (use 1 in auto)
  qed
  then show ?thesis
    using w32 check_access_wp [OF assms(1-3)]
    by (simp add: write_memory_def wp_def [of "check_access a w"])
qed

lemma read_memory_wp:
  assumes "ok ap" and "access_width w" and "aligned_in space (w div 8) a"
  shows "wp (read_memory D a w)
    (\<lambda>v ap'. ok ap' \<and> ap_mem ap' = ap_mem ap \<and> v = le_word (mem_bytes (ap_mem ap) a (nat (w div 8)))) pyocd_fail ap"
proof -
  obtain k where k: "transfer_size_code w = Inr (int k)" "int k \<in> {0, 1, 2}" "k \<le> 2" "w div 8 = 2 ^ k" "w = 8 * 2 ^ k"
    by (rule access_cases [OF assms(2)])
  have al: "a mod (w div 8) = 0" using assms(3) by (simp add: aligned_in_def)
  have nw: "nat w = 8 * 2 ^ k" unfolding k(5) by (simp add: nat_mult_distrib nat_power_eq)
  have drw: "wp (bind (read_reg D (ma_reg_offset ap + 12) False) (\<lambda>res. ret (from_lane a w res)))
      (\<lambda>v ap'. ok ap' \<and> ap_mem ap' = ap_mem ap \<and> v = le_word (mem_bytes (ap_mem ap) a (nat (w div 8)))) pyocd_fail ap2"
    if "ok ap2" "ap_step ap ap2" "hcsw (ma_dp ap2) AND 7 = int k" "htar (ma_dp ap2) = a" "ap_mem ap2 = ap_mem ap" for ap2
  proof -
    have o: "ma_reg_offset ap2 = ma_reg_offset ap" using that(2) by (simp add: ap_step_fields)
    have b: "ap_base (ma_address ap2) + (ma_reg_offset ap + 12) = base + 12"
      using drw_off [OF that(1)] by (simp only: o)
    have "wp (dp_read_ap D (base + 12))
      (\<lambda>x p. ok (ap2\<lparr>ma_dp := p\<rparr>) \<and> hmem p = ap_mem ap \<and>
         from_lane a w x = le_word (mem_bytes (ap_mem ap) a (nat (w div 8))))
      (\<lambda>e _. is_pyocd_error e) (ma_dp ap2)"
      by (rule wp_mono [OF drw_read [OF _ that(3) k(3)]])
        (use that assms(3) k(4) nw lane_eq(2) [OF assms(2) al] in \<open>auto simp: ap_ok_def nat_power_eq\<close>)
    moreover have "wp (read_reg D (ma_reg_offset ap + 12) False) Q E ap2
        = wp (on_dp (dp_read_ap D (base + 12))) Q E ap2" for Q E
      by (simp only: wp_case read_reg_def raw_read_reg_def b if_False simp_thms)
    ultimately show ?thesis by simp
  qed
  have w32: "w \<le> 32" using assms(2) by (auto simp: access_width_def)
  have "wp (guard_access D a (w div 8) (bind (select_size D w) (\<lambda>_.
      bind (write_reg D (ma_reg_offset ap + 4) a) (\<lambda>_.
      bind (read_reg D (ma_reg_offset ap + 12) False) (\<lambda>res. ret (from_lane a w res))))))
      (\<lambda>v ap'. ok ap' \<and> ap_mem ap' = ap_mem ap \<and> v = le_word (mem_bytes (ap_mem ap) a (nat (w div 8)))) pyocd_fail ap"
  proof (rule wp_guard_access, subst wp_bind, rule wp_mono [OF select_size_wp [OF assms(1) k(1,2)]])
    fix x ap1 assume 1: "ok ap1 \<and> ap_step ap ap1 \<and> hcsw (ma_dp ap1) AND 7 = int k \<and> ap_mem ap1 = ap_mem ap"
    then show "wp (bind (write_reg D (ma_reg_offset ap + 4) a) (\<lambda>_.
        bind (read_reg D (ma_reg_offset ap + 12) False) (\<lambda>res. ret (from_lane a w res))))
      (\<lambda>v ap'. ok ap' \<and> ap_mem ap' = ap_mem ap \<and> v = le_word (mem_bytes (ap_mem ap) a (nat (w div 8)))) pyocd_fail ap1"
      by (intro then_at_address drw) auto
  qed
  then show ?thesis
    using w32 check_access_wp [OF assms(1-3)]
    by (simp add: read_memory_def wp_def [of "check_access a w"])
qed

lemma ap_ok_page:
  assumes "ok ap" and "a mod ma_page_size ap + n \<le> ma_page_size ap"
  shows "a mod hpage + n \<le> hpage"
  using assms by (intro in_larger_page [OF assms(2)]) (auto simp: ap_ok_def)

text \<open>Size and address for a transaction of words.\<close>

lemma at_word_address:
  assumes "ok ap"
    and "\<And>ap2. ok ap2 \<Longrightarrow> ap_step ap ap2 \<Longrightarrow> hcsw (ma_dp ap2) AND 0x37 = 0x12 \<Longrightarrow> htar (ma_dp ap2) = a
      \<Longrightarrow> ap_mem ap2 = ap_mem ap \<Longrightarrow> wp m Q pyocd_fail ap2"
  shows "wp (write_reg D (ma_reg_offset ap + 0x00) (ma_csw ap OR 2))
    (\<lambda>_. wp (write_reg D (ma_reg_offset ap + 4) a) (\<lambda>_. wp m Q pyocd_fail) pyocd_fail) pyocd_fail ap"
proof -
  have "ma_csw ap AND 0x37 = 0x10" using assms(1) by (simp add: ap_ok_def)
  then have c: "ma_csw ap OR 2 \<noteq> - 1" "(ma_csw ap OR 2) AND 0x37 = 0x12" "(ma_csw ap OR 2) AND 7 = int 2"
    using csw_size_field [of "ma_csw ap" 2] by auto
  have "wp (write_reg D (ma_reg_offset ap) (ma_csw ap OR 2))
    (\<lambda>_. wp (write_reg D (ma_reg_offset ap + 4) a) (\<lambda>_. wp m Q pyocd_fail) pyocd_fail) pyocd_fail ap"
  proof (rule wp_mono [OF write_csw_wp [OF assms(1) c(1)]])
    fix x ap1 assume 1: "ok ap1 \<and> ap_step ap ap1 \<and> hcsw (ma_dp ap1) = ma_csw ap OR 2 \<and> ap_mem ap1 = ap_mem ap"
    then have o: "ma_reg_offset ap1 = ma_reg_offset ap" using ap_step_fields(2) by blast
    have "wp (write_reg D (ma_reg_offset ap1 + 4) a) (\<lambda>_. wp m Q pyocd_fail) pyocd_fail ap1"
      by (rule wp_mono [OF write_tar_wp]) (use 1 c assms(2) ap_step_trans [of ap ap1] in auto)
    then show "wp (write_reg D (ma_reg_offset ap + 4) a) (\<lambda>_. wp m Q pyocd_fail) pyocd_fail ap1" by (simp add: o)
  qed
  then show ?thesis by simp
qed

lemma ap_ok_dp:
  "ok ap \<Longrightarrow> hinv p \<Longrightarrow> hcsw p = hcsw (ma_dp ap) \<Longrightarrow> ok (ap\<lparr>ma_dp := p\<rparr>)"
  by (simp add: ap_ok_def)

lemma ap_step_dp: "ap_step ap ap' \<Longrightarrow> ap_step ap (ap'\<lparr>ma_dp := p\<rparr>)"
  by (simp add: ap_step_def)

lemma read_page_wp:
  assumes "ok ap" and "a mod 4 = 0" "0 \<le> a" "0 < n" "a mod ma_page_size ap + 4 * n \<le> ma_page_size ap" "a + 4 * n \<le> space"
  shows "wp (read_block32_page D a n)
    (\<lambda>ws ap'. ok ap' \<and> ap_step ap ap' \<and> ap_mem ap' = ap_mem ap
       \<and> u32le_list_to_byte_list ws = mem_bytes (ap_mem ap) a (4 * nat n)) pyocd_fail ap"
proof -
  have m: "wp (guard_access D a (n * 4) (on_dp (dp_read_ap_multiple D (base + 12) n)))
      (\<lambda>ws ap'. ok ap' \<and> ap_step ap ap' \<and> ap_mem ap' = ap_mem ap
         \<and> u32le_list_to_byte_list ws = mem_bytes (ap_mem ap) a (4 * nat n)) pyocd_fail ap2"
    if "ok ap2" "ap_step ap ap2" "hcsw (ma_dp ap2) AND 0x37 = 0x12" "htar (ma_dp ap2) = a" "ap_mem ap2 = ap_mem ap" for ap2
  proof (intro wp_guard_access, simp only: wp_on_dp, rule wp_mono [OF multi_read])
    show "hinv (ma_dp ap2)" using that(1) by (simp add: ap_ok_def)
    show "htar (ma_dp ap2) mod hpage + 4 * n \<le> hpage" using ap_ok_page [OF assms(1,5)] that(4) by simp
  qed (simp_all add: that(3,4) assms(2-6) ap_ok_dp [OF that(1)] ap_step_dp [OF that(2)] that(5))
  show ?thesis
    unfolding read_block32_page_def wp_bind wp_get_state wp_assert and_3_mod assms(2) if_True simp_thms
      drw_off(3) [OF assms(1)]
    by (rule at_word_address [OF assms(1) m])
qed

lemma write_page_wp:
  assumes "ok ap" and "a mod 4 = 0" "0 \<le> a" "ws \<noteq> []" "all_uints 32 ws"
    "a mod ma_page_size ap + 4 * int (length ws) \<le> ma_page_size ap" "a + 4 * int (length ws) \<le> space"
  shows "wp (write_block32_page D a ws)
    (\<lambda>_ ap'. ok ap' \<and> ap_step ap ap' \<and> ap_mem ap' = mem_write (ap_mem ap) a (u32le_list_to_byte_list ws)) pyocd_fail ap"
proof -
  have m: "wp (guard_access D a (int (length ws) * 4) (on_dp (dp_write_ap_multiple D (base + 12) ws)))
      (\<lambda>_ ap'. ok ap' \<and> ap_step ap ap' \<and> ap_mem ap' = mem_write (ap_mem ap) a (u32le_list_to_byte_list ws)) pyocd_fail ap2"
    if "ok ap2" "ap_step ap ap2" "hcsw (ma_dp ap2) AND 0x37 = 0x12" "htar (ma_dp ap2) = a" "ap_mem ap2 = ap_mem ap" for ap2
  proof (intro wp_guard_access, simp only: wp_on_dp, rule wp_mono [OF multi_write])
    show "hinv (ma_dp ap2)" using that(1) by (simp add: ap_ok_def)
    show "htar (ma_dp ap2) mod hpage + 4 * int (length ws) \<le> hpage" using ap_ok_page [OF assms(1,6)] that(4) by simp
  qed (simp_all add: that(3,4) assms(2-7) ap_ok_dp [OF that(1)] ap_step_dp [OF that(2)] that(5))
  show ?thesis
    unfolding write_block32_page_def wp_bind wp_get_state wp_assert and_3_mod assms(2) if_True simp_thms
      drw_off(3) [OF assms(1)]
    by (rule at_word_address [OF assms(1) m])
qed

lemma wp_Suc_blocks:
  "n_left > 0 \<Longrightarrow> wp (read_blocks (Suc fuel) D addr resp n_left) Q E ap =
     (let n = page_bytes (ma_page_size ap) addr n_left in
      wp (read_block32_page D addr (n div 4)) (\<lambda>ws. wp (read_blocks fuel D (addr + n) (resp @ ws) (n_left - n div 4)) Q E) E ap)"
  "n_left > 0 \<Longrightarrow> wp (write_blocks (Suc fuel) D addr data n_left) Q' E ap =
     (let n = page_bytes (ma_page_size ap) addr n_left in
      wp (write_block32_page D addr (py_upto data (n div 4)))
        (\<lambda>_. wp (write_blocks fuel D (addr + n) (py_from data (n div 4)) (n_left - n div 4)) Q' E) E ap)"
  by (subst wp_case, simp add: read_blocks.simps write_blocks.simps Let_def wp_case [symmetric] flip: wp_bind)+

lemma next_page:
  assumes "ok ap" and "a mod 4 = 0" and "0 < n"
  obtains m where "page_bytes (ma_page_size ap) a n = 4 * m" "0 < m" "m \<le> n"
    "a mod ma_page_size ap + 4 * m \<le> ma_page_size ap" "(a + 4 * m) mod 4 = 0"
proof -
  obtain k where k: "ma_page_size ap = 2 ^ k" "2 \<le> k" "k \<le> 31" using assms(1) by (auto simp: ap_ok_def)
  show ?thesis
    by (rule page_bytes_words [OF k assms(2,3)], rule that) (use assms(2) in auto)
qed

lemma read_blocks_wp:
  assumes "ok ap" and "a mod 4 = 0" "0 \<le> a" "0 \<le> n" "a + 4 * n \<le> space" and "nat n \<le> fuel"
  shows "wp (read_blocks fuel D a resp n)
    (\<lambda>ws ap'. ok ap' \<and> ap_mem ap' = ap_mem ap
       \<and> (\<exists>ws'. ws = resp @ ws' \<and> u32le_list_to_byte_list ws' = mem_bytes (ap_mem ap) a (4 * nat n))) pyocd_fail ap"
  using assms
proof (induction fuel arbitrary: ap a resp n)
  case 0
  then show ?case by (simp add: read_blocks.simps wp_case)
next
  case (Suc fuel)
  show ?case
  proof (cases "n > 0")
    case False
    then show ?thesis using Suc.prems by (simp add: read_blocks.simps wp_case)
  next
    case True
    obtain m where m: "page_bytes (ma_page_size ap) a n = 4 * m" "0 < m" "m \<le> n"
      "a mod ma_page_size ap + 4 * m \<le> ma_page_size ap" "(a + 4 * m) mod 4 = 0"
      by (rule next_page [OF Suc.prems(1,2) True])
    have sz: "a + 4 * m \<le> space" using Suc.prems(5) m(3) by linarith
    have "wp (read_block32_page D a m) (\<lambda>ws. wp (read_blocks fuel D (a + 4 * m) (resp @ ws) (n - m))
        (\<lambda>ws ap'. ok ap' \<and> ap_mem ap' = ap_mem ap
          \<and> (\<exists>ws'. ws = resp @ ws' \<and> u32le_list_to_byte_list ws' = mem_bytes (ap_mem ap) a (4 * nat n))) pyocd_fail)
        pyocd_fail ap"
    proof (rule wp_mono [OF read_page_wp [OF Suc.prems(1-3) m(2,4) sz]])
      fix ws ap' assume 1: "ok ap' \<and> ap_step ap ap' \<and> ap_mem ap' = ap_mem ap
        \<and> u32le_list_to_byte_list ws = mem_bytes (ap_mem ap) a (4 * nat m)"
      have split: "mem_bytes (ap_mem ap) a (4 * nat n)
          = mem_bytes (ap_mem ap) a (4 * nat m) @ mem_bytes (ap_mem ap) (a + 4 * m) (4 * nat (n - m))"
        using m(2,3) mem_bytes_split [of "4 * nat m" "4 * nat n" "ap_mem ap" a] by (simp add: nat_diff_distrib right_diff_distrib')
      show "wp (read_blocks fuel D (a + 4 * m) (resp @ ws) (n - m))
        (\<lambda>ws ap'. ok ap' \<and> ap_mem ap' = ap_mem ap
          \<and> (\<exists>ws'. ws = resp @ ws' \<and> u32le_list_to_byte_list ws' = mem_bytes (ap_mem ap) a (4 * nat n))) pyocd_fail ap'"
        by (rule wp_mono [OF Suc.IH])
          (use 1 m Suc.prems in \<open>auto simp: split u32le_append\<close>)
    qed
    then show ?thesis using m(1) by (simp add: wp_Suc_blocks [OF True])
  qed
qed

lemma write_blocks_wp:
  assumes "ok ap" and "a mod 4 = 0" "0 \<le> a" "all_uints 32 ws" "a + 4 * int (length ws) \<le> space"
    and "length ws \<le> fuel" and "n = int (length ws)"
  shows "wp (write_blocks fuel D a ws n)
    (\<lambda>_ ap'. ok ap' \<and> ap_mem ap' = mem_write (ap_mem ap) a (u32le_list_to_byte_list ws)) pyocd_fail ap"
  using assms
proof (induction fuel arbitrary: ap a ws n)
  case 0
  then show ?case by (simp add: write_blocks.simps wp_case)
next
  case (Suc fuel)
  show ?case
  proof (cases "n > 0")
    case False
    then show ?thesis using Suc.prems by (simp add: write_blocks.simps wp_case)
  next
    case True
    obtain m where m: "page_bytes (ma_page_size ap) a n = 4 * m" "0 < m" "m \<le> n"
      "a mod ma_page_size ap + 4 * m \<le> ma_page_size ap" "(a + 4 * m) mod 4 = 0"
      by (rule next_page [OF Suc.prems(1,2) True])
    let ?hd = "take (nat m) ws" and ?tl = "drop (nat m) ws"
    have len: "int (length ?hd) = m" "length ?tl = length ws - nat m" using m Suc.prems(7) by auto
    have un: "all_uints 32 ?hd" "all_uints 32 ?tl" using Suc.prems(4)
      by (auto simp: all_uints_def list_all_iff dest: in_set_takeD in_set_dropD)
    have ne: "?hd \<noteq> []" using m(2,3) Suc.prems(7) by auto
    have sz: "a + 4 * int (length ?hd) \<le> space" using Suc.prems(5,7) m(3) len(1) by linarith
    have pg: "a mod ma_page_size ap + 4 * int (length ?hd) \<le> ma_page_size ap" using m(4) len(1) by simp
    have "wp (write_block32_page D a ?hd) (\<lambda>_. wp (write_blocks fuel D (a + 4 * m) ?tl (n - m))
        (\<lambda>_ ap'. ok ap' \<and> ap_mem ap' = mem_write (ap_mem ap) a (u32le_list_to_byte_list ws)) pyocd_fail) pyocd_fail ap"
    proof (rule wp_mono [OF write_page_wp [OF Suc.prems(1-3) ne un(1) pg sz]])
      fix x ap' assume 1: "ok ap' \<and> ap_step ap ap' \<and> ap_mem ap' = mem_write (ap_mem ap) a (u32le_list_to_byte_list ?hd)"
      have "int (length (u32le_list_to_byte_list ?hd)) = 4 * m" using len(1) by simp
      moreover have "u32le_list_to_byte_list ws = u32le_list_to_byte_list ?hd @ u32le_list_to_byte_list ?tl"
        by (simp add: u32le_append [symmetric])
      ultimately have split: "mem_write (ap_mem ap) a (u32le_list_to_byte_list ws)
          = mem_write (ap_mem ap') (a + 4 * m) (u32le_list_to_byte_list ?tl)"
        using 1 by (simp only: mem_write_append)
      show "wp (write_blocks fuel D (a + 4 * m) ?tl (n - m))
        (\<lambda>_ ap'. ok ap' \<and> ap_mem ap' = mem_write (ap_mem ap) a (u32le_list_to_byte_list ws)) pyocd_fail ap'"
        unfolding split
        by (rule Suc.IH) (use 1 m Suc.prems un len in auto)
    qed
    then show ?thesis using m(1,2) by (simp add: wp_Suc_blocks [OF True])
  qed
qed

lemma read_memory_block32_wp:
  assumes "ok ap" and "a mod 4 = 0" "0 \<le> a" "0 < n" "a + 4 * n \<le> space"
  shows "wp (read_memory_block32 D a n)
    (\<lambda>ws ap'. ok ap' \<and> ap_mem ap' = ap_mem ap
       \<and> u32le_list_to_byte_list ws = mem_bytes (ap_mem ap) a (4 * nat n)) pyocd_fail ap"
proof -
  obtain m where m: "ma_address_mask ap = 2 ^ m - 1" "space \<le> 2 ^ m" using assms(1) by (auto simp: ap_ok_def)
  have "a AND ma_address_mask ap = a" using assms m(2) by (intro mask_low [of a m, folded m(1)]) auto
  moreover have "wp (read_blocks (nat n) D a [] n)
    (\<lambda>ws ap'. ok ap' \<and> ap_mem ap' = ap_mem ap
       \<and> u32le_list_to_byte_list ws = mem_bytes (ap_mem ap) a (4 * nat n)) pyocd_fail ap"
    by (rule wp_mono [OF read_blocks_wp]) (use assms in auto)
  ultimately show ?thesis
    unfolding read_memory_block32_def wp_bind wp_assert and_3_mod assms(2) wp_get_state if_True simp_thms by simp
qed

lemma write_memory_block32_wp:
  assumes "ok ap" and "a mod 4 = 0" "0 \<le> a" "ws \<noteq> []" "all_uints 32 ws" "a + 4 * int (length ws) \<le> space"
  shows "wp (write_memory_block32 D a ws)
    (\<lambda>_ ap'. ok ap' \<and> ap_mem ap' = mem_write (ap_mem ap) a (u32le_list_to_byte_list ws)) pyocd_fail ap"
proof -
  obtain m where m: "ma_address_mask ap = 2 ^ m - 1" "space \<le> 2 ^ m" using assms(1) by (auto simp: ap_ok_def)
  have "0 < length ws" using assms(4) by simp
  then have "a < 2 ^ m" using assms(6) m(2) by linarith
  then have "a AND ma_address_mask ap = a" using assms(3) by (intro mask_low [of a m, folded m(1)])
  then show ?thesis
    using write_blocks_wp [OF assms(1-3,5,6) order.refl refl]
    unfolding write_memory_block32_def wp_bind wp_assert and_3_mod assms(2) wp_get_state if_True simp_thms by simp
qed

end

text \<open>So a MEM-AP provides memory reads and writes, and the byte-block operations over it are right.\<close>

sublocale mem_ap_hw \<subseteq> rdr: memory_reader "\<lambda>ap. hmem (ma_dp ap)" "ap_ok hcsw hinv base hpage space" space
    "\<lambda>e _. is_pyocd_error e" "read_memory D" "read_memory_block32 D"
proof
  show "ap_ok hcsw hinv base hpage space s \<Longrightarrow> is_byte (hmem (ma_dp s) a)" for s a
    by (simp add: ap_ok_def hmem_byte)
qed (rule wp_mono [OF read_memory_wp] wp_mono [OF read_memory_block32_wp]; auto)+

sublocale mem_ap_hw \<subseteq> wtr: memory_writer "\<lambda>ap. hmem (ma_dp ap)" "ap_ok hcsw hinv base hpage space" space
    "\<lambda>e _. is_pyocd_error e" "write_memory D" "write_memory_block32 D"
  by unfold_locales (rule write_memory_wp write_memory_block32_wp; assumption)+


subsection \<open>A MEM-AP that keeps the laws\<close>

text \<open>
  The registers and the memory of an AHB-AP at address 0, never failing: an instance of the
  architecture's rules, against which the accesses can be evaluated.
\<close>

record sim_ap =
  s_csw :: int
  s_tar :: int
  s_mem :: memory

definition sim_width :: "sim_ap \<Rightarrow> nat" where
  "sim_width p = 2 ^ nat (s_csw p AND 7)"

definition sim_read :: "int \<Rightarrow> (sim_ap, int) exec" where
  "sim_read addr p =
     (Inr (if addr = 0 then s_csw p else if addr = 4 then s_tar p
           else le_word (mem_bytes (s_mem p) (s_tar p - s_tar p mod 4) 4)), p)"

definition sim_write :: "int \<Rightarrow> int \<Rightarrow> (sim_ap, unit) exec" where
  "sim_write addr v p =
     (Inr (), if addr = 0 then p\<lparr>s_csw := v\<rparr> else if addr = 4 then p\<lparr>s_tar := v\<rparr>
      else p\<lparr>s_mem := mem_write (s_mem p) (s_tar p)
                (word_bytes (sim_width p) (drop_bit (nat (8 * (s_tar p mod 4))) v))\<rparr>)"

definition sim_ops :: "sim_ap dp_ops" where
  "sim_ops = \<lparr>dp_read_ap = sim_read, dp_write_ap = sim_write,
     dp_read_ap_multiple = (\<lambda>addr n p.
       (Inr (byte_list_to_u32le_list (mem_bytes (s_mem p) (s_tar p) (4 * nat n)) 0), p)),
     dp_write_ap_multiple = (\<lambda>addr ws p.
       (Inr (), p\<lparr>s_mem := mem_write (s_mem p) (s_tar p) (u32le_list_to_byte_list ws)\<rparr>)),
     dp_handle_error = (\<lambda>e. ret ())\<rparr>"

definition sim_inv :: "sim_ap \<Rightarrow> bool" where
  "sim_inv p \<longleftrightarrow> (\<forall>a. is_byte (s_mem p a))"

lemma le_word_append: "le_word (xs @ ys) = le_word xs + 2 ^ (8 * length xs) * le_word ys"
  by (induction xs) (simp_all add: le_word_Cons algebra_simps power_add)

lemma le_word_bounds: "all_bytes bs \<Longrightarrow> 0 \<le> le_word bs \<and> le_word bs < 2 ^ (8 * length bs)"
  by (induction bs) (auto simp: le_word_Cons is_byte_def power_add)

lemma le_word_lane:
  assumes "all_bytes bs" and "i + n \<le> length bs"
  shows "take_bit (8 * n) (drop_bit (8 * i) (le_word bs)) = le_word (take n (drop i bs))"
proof -
  have bs: "bs = take i bs @ take n (drop i bs) @ drop n (drop i bs)"
    by (simp only: append_take_drop_id)
  have l: "length (take i bs) = i" "length (take n (drop i bs)) = n" using assms(2) by auto
  have b: "0 \<le> le_word (take i bs)" "le_word (take i bs) < 2 ^ (8 * i)"
    "0 \<le> le_word (take n (drop i bs))" "le_word (take n (drop i bs)) < 2 ^ (8 * n)"
    using le_word_bounds [of "take i bs"] le_word_bounds [of "take n (drop i bs)"] assms l
    by (auto simp: all_bytes_take all_bytes_drop)
  have "le_word bs = le_word (take i bs) + 2 ^ (8 * i) *
      (le_word (take n (drop i bs)) + 2 ^ (8 * n) * le_word (drop n (drop i bs)))"
    by (subst bs) (simp only: le_word_append l)
  then have "drop_bit (8 * i) (le_word bs)
      = le_word (take n (drop i bs)) + 2 ^ (8 * n) * le_word (drop n (drop i bs))"
    using b(1,2) by (simp add: drop_bit_eq_div)
  then show ?thesis using b(3,4) by (simp add: take_bit_eq_mod)
qed

lemma take_drop_mem_bytes: "i + n \<le> k \<Longrightarrow> take n (drop i (mem_bytes m a k)) = mem_bytes m (a + int i) n"
  by (rule nth_equalityI) (auto simp: mem_bytes_def add.assoc)

lemma sim_bytes: "sim_inv p \<Longrightarrow> all_bytes (mem_bytes (s_mem p) a n)"
  by (auto simp: mem_bytes_def all_bytes_def list_all_iff sim_inv_def)

lemma mem_write_byte: "(\<And>x. is_byte (m x)) \<Longrightarrow> all_bytes bs \<Longrightarrow> is_byte (mem_write m a bs x)"
  by (auto simp: mem_write_def intro: all_bytes_nth)

lemma sim_lane:
  assumes "sim_inv p" and "k \<le> 2" and "aligned_in space (2 ^ k) (s_tar p)"
  shows "take_bit (8 * 2 ^ k) (drop_bit (nat (8 * (s_tar p mod 4)))
      (le_word (mem_bytes (s_mem p) (s_tar p - s_tar p mod 4) 4))) = le_word (mem_bytes (s_mem p) (s_tar p) (2 ^ k))"
proof -
  define i where "i = nat (s_tar p mod 4)"
  have "k = 0 \<or> k = 1 \<or> k = 2" using assms(2) by auto
  moreover have "s_tar p mod 2 = 0 \<Longrightarrow> s_tar p mod 4 \<le> 2" "s_tar p mod 4 \<le> 3" "0 \<le> s_tar p mod 4"
    by (presburger | simp)+
  ultimately have i: "i + 2 ^ k \<le> 4" using assms(3) by (auto simp: i_def aligned_in_def)
  have sh: "nat (8 * (s_tar p mod 4)) = 8 * i" by (simp add: i_def nat_mult_distrib)
  have at: "s_tar p - s_tar p mod 4 + int i = s_tar p" by (simp add: i_def)
  show ?thesis
    unfolding sh using le_word_lane [OF sim_bytes [OF assms(1)], of i "2 ^ k" "s_tar p - s_tar p mod 4" 4] i
    by (simp add: take_drop_mem_bytes at)
qed

interpretation sim: mem_ap_hw sim_ops 0 s_csw s_tar s_mem sim_inv 1024 "2 ^ 32"
proof
  fix p k assume "sim_inv p" "k \<le> 2" "aligned_in (2 ^ 32) (2 ^ k) (s_tar p)" "s_csw p AND 7 = int k"
  then show "wp (dp_read_ap sim_ops (0 + 12))
    (\<lambda>x p'. sim_inv p' \<and> s_csw p' = s_csw p \<and> s_mem p' = s_mem p \<and> is_uint 32 x \<and>
       take_bit (8 * 2 ^ k) (drop_bit (nat (8 * (s_tar p mod 4))) x) = le_word (mem_bytes (s_mem p) (s_tar p) (2 ^ k)))
    (\<lambda>e _. is_pyocd_error e) p"
    using sim_lane [of p k "2 ^ 32"] le_word_bounds [OF sim_bytes, of p "s_tar p - s_tar p mod 4" 4]
    by (simp add: wp_case sim_ops_def sim_read_def is_uint_def)
next
  fix p and n :: int assume "sim_inv p" "0 < n"
  then show "wp (dp_read_ap_multiple sim_ops (0 + 12) n)
    (\<lambda>ws p'. sim_inv p' \<and> s_csw p' = s_csw p \<and> s_mem p' = s_mem p \<and>
       u32le_list_to_byte_list ws = mem_bytes (s_mem p) (s_tar p) (4 * nat n)) (\<lambda>e _. is_pyocd_error e) p"
    by (simp add: wp_case sim_ops_def bytes_to_u32_to_bytes sim_bytes)
qed (auto simp: wp_case sim_ops_def sim_write_def sim_inv_def sim_width_def all_bytes_u32le mem_write_byte)

definition demo_ap :: "sim_ap mem_ap" where
  "demo_ap = new_mem_ap AHB_AP \<lparr>aa_version = APv1, aa_nominal = 0, aa_dp = 0, aa_apid = 0\<rparr> 0
     \<lparr>s_csw = 0x12, s_tar = 0, s_mem = (\<lambda>a. a mod 256)\<rparr>"

lemma demo_ap_ok: "ap_ok s_csw sim_inv 0 1024 (2 ^ 32) demo_ap"
  by (auto simp: ap_ok_def demo_ap_def new_mem_ap_def ap_base_def sim_inv_def is_byte_def
      intro: exI [of _ "10::nat"] exI [of _ "32::nat"])


subsection \<open>The accesses, end to end\<close>

context mem_ap_hw
begin

lemmas block8_read = rdr.read_block8_wp

lemmas block8_write = wtr.write_block8_wp

end

text \<open>
  C2. Reading a block of bytes at any address through a MEM-AP in step with its object - a byte,
  a halfword, words split at the auto-increment boundary, a halfword and a byte - returns exactly
  the bytes of the memory behind it and changes nothing there; if the DebugPort fails, it raises
  one of pyOCD's errors and nothing else, so the loops always end.
\<close>

theorem mem_ap_block_read:
  assumes "mem_ap_hw D base hcsw htar hmem hinv hpage space" and "ap_ok hcsw hinv base hpage space ap"
    and "0 \<le> a" "0 \<le> n" "a + n \<le> space"
  shows "wp (read_memory_block8 (read_memory D) (read_memory_block32 D) a n)
    (\<lambda>bs ap'. ap_ok hcsw hinv base hpage space ap' \<and> hmem (ma_dp ap') = hmem (ma_dp ap)
       \<and> bs = mem_bytes (hmem (ma_dp ap)) a (nat n))
    (\<lambda>e _. is_pyocd_error e) ap"
  by (rule mem_ap_hw.block8_read [OF assms])

theorem mem_ap_block_read_witness:
  "wp (read_memory_block8 (read_memory sim_ops) (read_memory_block32 sim_ops) 0x3fd 11)
    (\<lambda>bs ap'. ap_ok s_csw sim_inv 0 1024 (2 ^ 32) ap' \<and> s_mem (ma_dp ap') = s_mem (ma_dp demo_ap)
       \<and> bs = mem_bytes (s_mem (ma_dp demo_ap)) 0x3fd (nat 11))
    (\<lambda>e _. is_pyocd_error e) demo_ap"
  by (rule mem_ap_block_read [OF sim.mem_ap_hw_axioms demo_ap_ok]) simp_all

text \<open>
  C3. Writing a block of bytes at any address through a MEM-AP leaves the memory behind it with
  exactly those bytes there and every other byte as it was, whatever the alignment and however
  many auto-increment pages the block crosses.
\<close>

theorem mem_ap_block_write:
  assumes "mem_ap_hw D base hcsw htar hmem hinv hpage space" and "ap_ok hcsw hinv base hpage space ap"
    and "all_bytes data" and "0 \<le> a" "a + int (length data) \<le> space"
  shows "wp (write_memory_block8 (write_memory D) (write_memory_block32 D) a data)
    (\<lambda>_ ap'. ap_ok hcsw hinv base hpage space ap' \<and> hmem (ma_dp ap') = mem_write (hmem (ma_dp ap)) a data)
    (\<lambda>e _. is_pyocd_error e) ap"
  by (rule mem_ap_hw.block8_write [OF assms])

theorem mem_ap_block_write_witness:
  "wp (write_memory_block8 (write_memory sim_ops) (write_memory_block32 sim_ops) 0x3fd [1, 2, 3, 4, 5, 6, 7, 8, 9])
    (\<lambda>_ ap'. ap_ok s_csw sim_inv 0 1024 (2 ^ 32) ap'
       \<and> s_mem (ma_dp ap') = mem_write (s_mem (ma_dp demo_ap)) 0x3fd [1, 2, 3, 4, 5, 6, 7, 8, 9])
    (\<lambda>e _. is_pyocd_error e) demo_ap"
  by (rule mem_ap_block_write [OF sim.mem_ap_hw_axioms demo_ap_ok]) (simp_all add: is_byte_def)

subsection \<open>The control word's fields\<close>

lemma bit_range: "bit (push_bit k (mask m) :: int) n \<longleftrightarrow> k \<le> n \<and> n < k + m"
  by (auto simp: bit_simps)

lemma csw_mask_bits:
  "bit (0x1f000000::int) n \<longleftrightarrow> 24 \<le> n \<and> n < 29" "bit (0x8000::int) n \<longleftrightarrow> n = 15"
  "bit (0x0f000000::int) n \<longleftrightarrow> 24 \<le> n \<and> n < 28" "bit (0x7f000000::int) n \<longleftrightarrow> 24 \<le> n \<and> n < 31"
  "bit (0x40000000::int) n \<longleftrightarrow> n = 30" "bit (0x37::int) n \<longleftrightarrow> n < 3 \<or> n = 4 \<or> n = 5"
  "bit (0x5f::int) n \<longleftrightarrow> n < 5 \<or> n = 6" "bit (0x0f::int) n \<longleftrightarrow> n < 4" "bit (0x7f::int) n \<longleftrightarrow> n < 7"
proof -
  have m: "(0x1f000000::int) = push_bit 24 (mask 5)" "(0x8000::int) = push_bit 15 (mask 1)"
    "(0x0f000000::int) = push_bit 24 (mask 4)" "(0x7f000000::int) = push_bit 24 (mask 7)"
    "(0x40000000::int) = push_bit 30 (mask 1)" "(0x37::int) = push_bit 0 (mask 3) OR push_bit 4 (mask 2)"
    "(0x5f::int) = push_bit 0 (mask 5) OR push_bit 6 (mask 1)" "(0x0f::int) = push_bit 0 (mask 4)"
    "(0x7f::int) = push_bit 0 (mask 7)"
    by (simp_all add: mask_eq_exp_minus_1 push_bit_eq_mult)
  show "bit (0x1f000000::int) n \<longleftrightarrow> 24 \<le> n \<and> n < 29" "bit (0x8000::int) n \<longleftrightarrow> n = 15"
    "bit (0x0f000000::int) n \<longleftrightarrow> 24 \<le> n \<and> n < 28" "bit (0x7f000000::int) n \<longleftrightarrow> 24 \<le> n \<and> n < 31"
    "bit (0x40000000::int) n \<longleftrightarrow> n = 30" "bit (0x37::int) n \<longleftrightarrow> n < 3 \<or> n = 4 \<or> n = 5"
    "bit (0x5f::int) n \<longleftrightarrow> n < 5 \<or> n = 6" "bit (0x0f::int) n \<longleftrightarrow> n < 4" "bit (0x7f::int) n \<longleftrightarrow> n < 7"
    unfolding m bit_or_iff bit_range by auto
qed

lemmas csw_bits = bit_and_iff bit_or_iff bit_not_int_iff bit_push_bit_iff_int bit_drop_bit_eq comp_def
  csw_mask_bits bit_1_iff if_True if_False ap_class.case ap_class.distinct simp_thms

lemmas csw_codecs = csw_decode_hprot_def csw_encode_hprot_def csw_decode_hnonsec_def csw_encode_hnonsec_def
  init_hprot_mask_def

text \<open>
  C40. The attribute fields of the control word: an HPROT value that is encoded is decoded again,
  cut to the bits the AP has, and so is HNONSEC; encoding one leaves the other, the size and the
  increment fields alone; encoding again replaces the first value.
\<close>

theorem csw_fields:
  "csw_decode_hprot AHB_AP flags (csw_encode_hprot AHB_AP flags csw v) = v AND init_hprot_mask AHB_AP flags
    \<and> csw_decode_hprot AXI_AP flags (csw_encode_hprot AXI_AP flags csw v) = v AND init_hprot_mask AXI_AP flags
    \<and> csw_decode_hnonsec AHB_AP (csw_encode_hnonsec AHB_AP csw v) = v AND 1
    \<and> csw_decode_hnonsec AHB_AP (csw_encode_hprot AHB_AP flags csw v) = csw_decode_hnonsec AHB_AP csw
    \<and> csw_decode_hprot AHB_AP flags (csw_encode_hnonsec AHB_AP csw v) = csw_decode_hprot AHB_AP flags csw
    \<and> csw_encode_hprot klass flags csw v AND 0x37 = csw AND 0x37
    \<and> csw_encode_hnonsec klass csw v AND 0x37 = csw AND 0x37
    \<and> csw_encode_hprot klass flags (csw_encode_hprot klass flags csw v') v = csw_encode_hprot klass flags csw v"
proof (intro conjI)
  show "csw_decode_hprot AHB_AP flags (csw_encode_hprot AHB_AP flags csw v) = v AND init_hprot_mask AHB_AP flags"
    by (cases "flags AND AP_HPROT_EXT = 0"; rule bit_eqI; simp only: csw_codecs csw_bits; auto)
  show "csw_decode_hprot AXI_AP flags (csw_encode_hprot AXI_AP flags csw v) = v AND init_hprot_mask AXI_AP flags"
    by (cases "flags AND AP_HPROT_EXT = 0"; cases klass; rule bit_eqI; simp only: csw_codecs csw_bits; auto)
  show "csw_decode_hnonsec AHB_AP (csw_encode_hnonsec AHB_AP csw v) = v AND 1"
    by (cases "flags AND AP_HPROT_EXT = 0"; cases klass; rule bit_eqI; simp only: csw_codecs csw_bits; auto)
  show "csw_decode_hnonsec AHB_AP (csw_encode_hprot AHB_AP flags csw v) = csw_decode_hnonsec AHB_AP csw"
    by (cases "flags AND AP_HPROT_EXT = 0"; cases klass; rule bit_eqI; simp only: csw_codecs csw_bits; auto)
  show "csw_decode_hprot AHB_AP flags (csw_encode_hnonsec AHB_AP csw v) = csw_decode_hprot AHB_AP flags csw"
    by (cases "flags AND AP_HPROT_EXT = 0"; cases klass; rule bit_eqI; simp only: csw_codecs csw_bits; auto)
  show "csw_encode_hprot klass flags csw v AND 0x37 = csw AND 0x37"
    by (cases "flags AND AP_HPROT_EXT = 0"; cases klass; rule bit_eqI; simp only: csw_codecs csw_bits; auto)
  show "csw_encode_hnonsec klass csw v AND 0x37 = csw AND 0x37"
    by (cases "flags AND AP_HPROT_EXT = 0"; cases klass; rule bit_eqI; simp only: csw_codecs csw_bits; auto)
  show "csw_encode_hprot klass flags (csw_encode_hprot klass flags csw v') v = csw_encode_hprot klass flags csw v"
    by (cases "flags AND AP_HPROT_EXT = 0"; cases klass; rule bit_eqI; simp only: csw_codecs csw_bits; auto)
qed


subsection \<open>A fault while the control word is written\<close>

text \<open>
  A transfer error is no \<open>ProbeError\<close>, so a control word whose write failed with one stays in
  the cache, and writing the same word again does not reach the AP.
\<close>

lemma csw_cache_stale:
  assumes "ap_ok hcsw hinv base hpage space ap" and "v \<noteq> ma_cached_csw ap"
    and "dp_write_ap D base v (ma_dp ap) = (Inl (TransferFaultError x y), p)"
  shows "write_reg D (ma_reg_offset ap) v ap
      = (Inl (TransferFaultError x y), ap\<lparr>ma_cached_csw := v, ma_dp := p\<rparr>)"
    and "write_reg D (ma_reg_offset ap) v (ap\<lparr>ma_cached_csw := v, ma_dp := p\<rparr>)
      = (Inr (), ap\<lparr>ma_cached_csw := v, ma_dp := p\<rparr>)"
proof -
  have off: "ma_reg_offset ap AND 0xffc = ma_reg_offset ap" "ap_base (ma_address ap) + ma_reg_offset ap = base"
    using assms(1) by (auto simp: ap_ok_def)
  show "write_reg D (ma_reg_offset ap) v ap
      = (Inl (TransferFaultError x y), ap\<lparr>ma_cached_csw := v, ma_dp := p\<rparr>)"
    using assms(2,3) by (simp add: write_reg_def off catch_def raw_write_reg_def on_dp_def)
  show "write_reg D (ma_reg_offset ap) v (ap\<lparr>ma_cached_csw := v, ma_dp := p\<rparr>)
      = (Inr (), ap\<lparr>ma_cached_csw := v, ma_dp := p\<rparr>)"
    by (simp add: write_reg_def off)
qed

end
