(* ===== verification/Memory_Cache.thy ===== *)
theory Memory_Cache
  imports Memory_Interface Memory_Map
begin

text \<open>
  The memory cache of debug contexts: \<open>pyocd/cache/memory.py\<close>.  The interval tree is the
  package \<open>intervaltree\<close>, a parameter with its documented operations.  The context below the
  cache and the state of the core (running, run token) are parameters too; the memory map is
  that of \<open>Memory_Map\<close>.  The metrics are kept, their report is left out.
\<close>

subsection \<open>Interval trees\<close>

record interval =
  i_begin :: int
  i_end :: int
  i_data :: "int list"

text \<open>
  \<open>it_overlap\<close> gives the set of intervals that overlap a range in the order it is iterated in.
  \<open>it_set_data\<close> stands for the change of an interval's bytearray in place.
\<close>

record 't itree_ops =
  it_empty :: 't
  it_overlap :: "'t \<Rightarrow> int \<Rightarrow> int \<Rightarrow> interval list"
  it_add :: "'t \<Rightarrow> interval \<Rightarrow> 't"
  it_remove_overlap :: "'t \<Rightarrow> int \<Rightarrow> int \<Rightarrow> 't"
  it_set_data :: "'t \<Rightarrow> interval \<Rightarrow> int list \<Rightarrow> 't"

subsection \<open>The cache\<close>

record metrics =
  cm_hits :: int
  cm_misses :: int
  cm_reads :: int
  cm_writes :: int

definition CacheMetrics :: metrics where
  "CacheMetrics = \<lparr>cm_hits = 0, cm_misses = 0, cm_reads = 0, cm_writes = 0\<rparr>"

text \<open>The objects the cache refers to: the tree package, the core, its map and the context.\<close>

record ('t, 'c) cache_env =
  ce_tree :: "'t itree_ops"
  ce_running :: "'c \<Rightarrow> bool"
  ce_token :: "'c \<Rightarrow> int"
  ce_map :: mmap
  ce_read :: "int \<Rightarrow> int \<Rightarrow> ('c, int list) exec"
  ce_write :: "int \<Rightarrow> int list \<Rightarrow> ('c, unit) exec"

record ('t, 'c) mem_cache =
  mc_cache :: 't
  mc_run_token :: int
  mc_metrics :: metrics
  mc_context :: 'c

definition MemoryCache :: "('t, 'c) cache_env \<Rightarrow> 'c \<Rightarrow> ('t, 'c) mem_cache" where
  "MemoryCache E c = \<lparr>mc_cache = it_empty (ce_tree E), mc_run_token = - 1, mc_metrics = CacheMetrics, mc_context = c\<rparr>"

definition on_context :: "('c, 'a) exec \<Rightarrow> (('t, 'c) mem_cache, 'a) exec" where
  "on_context m s = (case m (mc_context s) of (r, c) \<Rightarrow> (r, s\<lparr>mc_context := c\<rparr>))"

definition reset_cache :: "('t, 'c) cache_env \<Rightarrow> ('t, 'c) mem_cache \<Rightarrow> ('t, 'c) mem_cache" where
  "reset_cache E s = s\<lparr>mc_cache := it_empty (ce_tree E), mc_metrics := CacheMetrics\<rparr>"

definition check_cache :: "('t, 'c) cache_env \<Rightarrow> ('t, 'c) mem_cache \<Rightarrow> ('t, 'c) mem_cache" where
  "check_cache E s =
     (if ce_running E (mc_context s) then reset_cache E s
      else if mc_run_token s \<noteq> ce_token E (mc_context s)
      then (reset_cache E s)\<lparr>mc_run_token := ce_token E (mc_context s)\<rparr>
      else s)"

definition Interval :: "int \<Rightarrow> int \<Rightarrow> interval" where
  "Interval b e = \<lparr>i_begin = b, i_end = e, i_data = []\<rparr>"

text \<open>What is left of an uncached interval beside a cached one.\<close>

definition cut_interval :: "interval \<Rightarrow> interval \<Rightarrow> interval list" where
  "cut_interval c u =
     (if i_end c < i_begin u \<or> i_begin c > i_end u then [u]
      else (if i_begin c - i_begin u > 0 then [Interval (i_begin u) (i_begin c)] else [])
         @ (if i_end u - i_end c > 0 then [Interval (i_end c) (i_end u)] else []))"

definition get_ranges :: "('t, 'c) cache_env \<Rightarrow> 't \<Rightarrow> int \<Rightarrow> int \<Rightarrow> interval list \<times> interval list" where
  "get_ranges E t addr n =
     (let cached = it_overlap (ce_tree E) t addr (addr + n)
      in (cached, foldl (\<lambda>uncached c. concat (map (cut_interval c) uncached)) [Interval addr (addr + n)] cached))"

fun read_uncached :: "('t, 'c) cache_env \<Rightarrow> interval list \<Rightarrow> (('t, 'c) mem_cache, interval list) exec" where
  "read_uncached E [] = ret []"
| "read_uncached E (u # us) =
     bind (on_context (ce_read E (i_begin u) (i_end u - i_begin u))) (\<lambda>data.
       let iv = u\<lparr>i_data := data\<rparr>
       in bind (modify (\<lambda>s. s\<lparr>mc_cache := it_add (ce_tree E) (mc_cache s) iv\<rparr>)) (\<lambda>_.
          bind (read_uncached E us) (\<lambda>ivs. ret (iv # ivs))))"

definition update_metrics :: "interval list \<Rightarrow> interval list \<Rightarrow> int \<Rightarrow> int \<Rightarrow> metrics \<Rightarrow> metrics" where
  "update_metrics cached uncached addr n m =
     (let cachedSize = sum_list (map (\<lambda>iv.
            (if i_end iv > addr + n then addr + n else i_end iv) - (if i_begin iv < addr then addr else i_begin iv)) cached);
          uncachedSize = sum_list (map (\<lambda>iv. i_end iv - i_begin iv) uncached)
      in m\<lparr>cm_reads := cm_reads m + 1, cm_hits := cm_hits m + cachedSize, cm_misses := cm_misses m + uncachedSize\<rparr>)"

definition sort_intervals :: "interval list \<Rightarrow> interval list" where
  "sort_intervals = sort_key i_begin"

definition read_combined :: "('t, 'c) cache_env \<Rightarrow> int \<Rightarrow> int \<Rightarrow> (('t, 'c) mem_cache, interval list) exec" where
  "read_combined E addr n =
     bind get_state (\<lambda>s. let (cached, uncached) = get_ranges E (mc_cache s) addr n in
       bind (modify (\<lambda>s. s\<lparr>mc_metrics := update_metrics cached uncached addr n (mc_metrics s)\<rparr>)) (\<lambda>_.
       bind (read_uncached E uncached) (\<lambda>uncachedData.
       ret (sort_intervals (cached @ uncachedData)))))"

definition merge_data :: "interval list \<Rightarrow> int \<Rightarrow> int \<Rightarrow> int list" where
  "merge_data combined addr n =
     (if combined \<noteq> [] \<and> i_begin (hd combined) < addr \<and> i_end (hd combined) > addr + n
      then (let offset = addr - i_begin (hd combined) in py_slice (i_data (hd combined)) offset (offset + n))
      else
        (let (result, combined1) =
               (if combined \<noteq> [] \<and> i_begin (hd combined) < addr
                then (py_from (i_data (hd combined)) (addr - i_begin (hd combined)), tl combined)
                else ([], combined));
             (resultAppend, combined2) =
               (if combined1 \<noteq> [] \<and> i_end (last combined1) > addr + n
                then (py_upto (i_data (last combined1)) (addr + n - i_begin (last combined1)), butlast combined1)
                else ([], combined1))
         in result @ concat (map i_data combined2) @ resultAppend))"

text \<open>Whether an access lies in one region and that region is cacheable.\<close>

definition check_regions :: "mmap \<Rightarrow> int \<Rightarrow> int \<Rightarrow> exn + bool" where
  "check_regions m addr n =
     res_bind (get_intersecting_regions m (At addr) None (Some n) None) (\<lambda>regions.
       case regions of
         [] \<Rightarrow> Inr False
       | [r] \<Rightarrow> res_bind (contains_range r (At addr) None (Some n) None) (\<lambda>inside.
           if \<not> inside then Inl (TransferFaultError None None)
           else res_bind (getattr r ''is_cacheable'') (\<lambda>c. Inr (truthy c)))
       | _ \<Rightarrow> Inl (TransferFaultError None None))"

definition cached_read_block8 :: "('t, 'c) cache_env \<Rightarrow> int \<Rightarrow> int \<Rightarrow> (('t, 'c) mem_cache, int list) exec" where
  "cached_read_block8 E addr n =
     (if n \<le> 0 then ret []
      else bind (modify (check_cache E)) (\<lambda>_.
           bind (lift_res (check_regions (ce_map E) addr n)) (\<lambda>cacheable.
           if \<not> cacheable then on_context (ce_read E addr n)
           else bind (read_combined E addr n) (\<lambda>combined.
                let result = merge_data combined addr n
                in bind (assert_that (int (length result) = n)) (\<lambda>_. ret result)))))"

definition cached_read_memory :: "('t, 'c) cache_env \<Rightarrow> int \<Rightarrow> int \<Rightarrow> (('t, 'c) mem_cache, int) exec" where
  "cached_read_memory E addr w =
     (if w = 8 then bind (cached_read_block8 E addr 1) (\<lambda>data. lift_res (py_index data 0))
      else bind (cached_read_block8 E addr (w div 8)) (\<lambda>data.
           bind (lift_res (byte_list_to_nbit_le_list data (nat w) 0)) (\<lambda>words. lift_res (py_index words 0))))"

definition cached_read_block32 :: "('t, 'c) cache_env \<Rightarrow> int \<Rightarrow> int \<Rightarrow> (('t, 'c) mem_cache, int list) exec" where
  "cached_read_block32 E addr n =
     bind (cached_read_block8 E addr (n * 4)) (\<lambda>data. ret (byte_list_to_u32le_list data 0))"

definition update_contiguous ::
  "('t, 'c) cache_env \<Rightarrow> interval list \<Rightarrow> int \<Rightarrow> int list \<Rightarrow> 't \<Rightarrow> 't" where
  "update_contiguous E cached addr v t =
     (let stop = addr + int (length v); f = hd cached; l = last cached;
          (leadBegin, leadData) =
            (if i_begin f < addr \<and> i_end f > addr
             then (i_begin f, py_upto (i_data f) (addr - i_begin f)) else (addr, []));
          (trailEnd, trailData) =
            (if i_begin l < stop \<and> i_end l > stop
             then (i_end l, py_from (i_data l) (stop - i_begin l)) else (stop, []))
      in it_add (ce_tree E) (it_remove_overlap (ce_tree E) t addr stop)
           \<lparr>i_begin = leadBegin, i_end = trailEnd, i_data = leadData @ v @ trailData\<rparr>)"

definition update_written :: "('t, 'c) cache_env \<Rightarrow> int \<Rightarrow> int list \<Rightarrow> 't \<Rightarrow> 't" where
  "update_written E addr v t =
     (let n = int (length v); stop = addr + n;
          cached = sort_intervals (it_overlap (ce_tree E) t addr stop)
      in if cached \<noteq> [] then
           (let c = hd cached
            in if addr \<ge> i_begin c \<and> stop \<le> i_end c then
                 (let b = addr - i_begin c
                  in it_set_data (ce_tree E) t c (py_upto (i_data c) b @ v @ py_from (i_data c) (b + n)))
               else update_contiguous E cached addr v t)
         else it_add (ce_tree E) t \<lparr>i_begin = addr, i_end = stop, i_data = v\<rparr>)"

definition cached_write_block8 :: "('t, 'c) cache_env \<Rightarrow> int \<Rightarrow> int list \<Rightarrow> (('t, 'c) mem_cache, unit) exec" where
  "cached_write_block8 E addr v =
     (if length v \<le> 0 then ret ()
      else bind (modify (check_cache E)) (\<lambda>_.
           bind (lift_res (check_regions (ce_map E) addr (int (length v)))) (\<lambda>cacheable.
           bind (on_context (ce_write E addr v)) (\<lambda>_.
           if cacheable
           then modify (\<lambda>s. s\<lparr>mc_cache := update_written E addr v (mc_cache s),
                  mc_metrics := (mc_metrics s)\<lparr>cm_writes := cm_writes (mc_metrics s) + int (length v)\<rparr>\<rparr>)
           else ret ()))))"

definition cached_write_memory :: "('t, 'c) cache_env \<Rightarrow> int \<Rightarrow> int \<Rightarrow> int \<Rightarrow> (('t, 'c) mem_cache, unit) exec" where
  "cached_write_memory E addr v w =
     (if w = 8 then cached_write_block8 E addr [v]
      else cached_write_block8 E addr (nbit_le_list_to_byte_list [v] (nat w)))"

definition cached_write_block32 :: "('t, 'c) cache_env \<Rightarrow> int \<Rightarrow> int list \<Rightarrow> (('t, 'c) mem_cache, unit) exec" where
  "cached_write_block32 E addr data = cached_write_block8 E addr (u32le_list_to_byte_list data)"

definition invalidate :: "('t, 'c) cache_env \<Rightarrow> ('t, 'c) mem_cache \<Rightarrow> ('t, 'c) mem_cache" where
  "invalidate E s = reset_cache E s"


subsection \<open>Intervals that line up\<close>

definition apart :: "interval list \<Rightarrow> bool" where
  "apart = sorted_wrt (\<lambda>i j. i_end i \<le> i_begin j)"

definition within :: "int \<Rightarrow> interval \<Rightarrow> bool" where
  "within x iv \<longleftrightarrow> i_begin iv \<le> x \<and> x < i_end iv"

fun chain :: "int \<Rightarrow> int \<Rightarrow> interval list \<Rightarrow> bool" where
  "chain lo hi [] \<longleftrightarrow> lo = hi"
| "chain lo hi (iv # ivs) \<longleftrightarrow> i_begin iv = lo \<and> lo < i_end iv \<and> chain (i_end iv) hi ivs"

text \<open>The interval's data is what the memory holds there.\<close>

definition holds :: "memory \<Rightarrow> interval \<Rightarrow> bool" where
  "holds v iv \<longleftrightarrow> i_begin iv < i_end iv \<and> i_data iv = mem_bytes v (i_begin iv) (nat (i_end iv - i_begin iv))"

lemma chain_append: "chain lo hi (xs @ ys) \<longleftrightarrow> (\<exists>m. chain lo m xs \<and> chain m hi ys)"
  by (induction xs arbitrary: lo) auto

lemma chain_le: "chain lo hi ivs \<Longrightarrow> lo \<le> hi"
  by (induction ivs arbitrary: lo) fastforce+

lemma mem_bytes_join:
  "lo \<le> m \<Longrightarrow> m \<le> hi \<Longrightarrow> mem_bytes v lo (nat (m - lo)) @ mem_bytes v m (nat (hi - m)) = mem_bytes v lo (nat (hi - lo))"
  using mem_bytes_add [of v lo "nat (m - lo)" "nat (hi - m)"] by (simp add: nat_add_distrib [symmetric])

lemma chain_data:
  "chain lo hi ivs \<Longrightarrow> list_all (holds v) ivs \<Longrightarrow> concat (map i_data ivs) = mem_bytes v lo (nat (hi - lo))"
proof (induction ivs arbitrary: lo)
  case (Cons iv ivs)
  then have iv: "i_begin iv = lo" "lo < i_end iv" "chain (i_end iv) hi ivs" "list_all (holds v) ivs"
    "holds v iv" by simp_all
  then have "i_data iv = mem_bytes v lo (nat (i_end iv - lo))" by (simp add: holds_def)
  with iv show ?case using Cons.IH [OF iv(3,4)] chain_le [OF iv(3)] by (simp add: mem_bytes_join)
qed simp

lemma apart_chain:
  assumes "apart ivs" and "\<forall>iv \<in> set ivs. i_begin iv < i_end iv \<and> i_begin iv < b \<and> a < i_end iv"
    and "\<forall>x. a \<le> x \<longrightarrow> x < b \<longrightarrow> (\<exists>iv \<in> set ivs. within x iv)" and "a < b"
  shows "ivs \<noteq> [] \<and> i_begin (hd ivs) \<le> a \<and> (\<exists>hi. chain (i_begin (hd ivs)) hi ivs \<and> b \<le> hi)"
  using assms
proof (induction ivs arbitrary: a)
  case Nil
  then show ?case by auto
next
  case (Cons iv rest)
  have ap: "\<forall>r \<in> set rest. i_end iv \<le> i_begin r" and rest: "apart rest"
    using Cons.prems(1) by (auto simp: apart_def)
  have iv: "i_begin iv < i_end iv" "i_begin iv < b" "a < i_end iv" using Cons.prems(2) by auto
  obtain r where "r \<in> set (iv # rest)" "within a r" using Cons.prems(3,4) by auto
  then have a: "i_begin iv \<le> a" using ap iv(3) by (auto simp: within_def)
  show ?case
  proof (cases "rest = []")
    case True
    have "within (b - 1) iv" using Cons.prems(3,4) True by auto
    then show ?thesis using True a iv by (auto simp: within_def)
  next
    case False
    have hd: "hd rest \<in> set rest" using False by simp
    have lt: "i_end iv < b" using ap Cons.prems(2) hd by force
    have "rest \<noteq> [] \<and> i_begin (hd rest) \<le> i_end iv \<and> (\<exists>hi. chain (i_begin (hd rest)) hi rest \<and> b \<le> hi)"
    proof (rule Cons.IH [OF rest _ _ lt])
      show "\<forall>r \<in> set rest. i_begin r < i_end r \<and> i_begin r < b \<and> i_end iv < i_end r"
        using ap Cons.prems(2) by force
      show "\<forall>x. i_end iv \<le> x \<longrightarrow> x < b \<longrightarrow> (\<exists>iv \<in> set rest. within x iv)"
      proof (intro allI impI)
        fix x assume x: "i_end iv \<le> x" "x < b"
        then have "a \<le> x" using iv(3) by linarith
        then obtain r where r: "r \<in> set (iv # rest)" "within x r" using Cons.prems(3) x(2) by blast
        then have "r \<noteq> iv" using x by (auto simp: within_def)
        with r show "\<exists>iv \<in> set rest. within x iv" by auto
      qed
    qed
    moreover have "i_end iv \<le> i_begin (hd rest)" using ap hd by blast
    ultimately show ?thesis using a iv(1) by auto
  qed
qed

lemma sort_apart:
  assumes "distinct ivs" and "\<forall>i \<in> set ivs. \<forall>j \<in> set ivs. i \<noteq> j \<longrightarrow> i_end i \<le> i_begin j \<or> i_end j \<le> i_begin i"
    and "\<forall>i \<in> set ivs. i_begin i < i_end i"
  shows "apart (sort_intervals ivs)"
proof -
  let ?s = "sort_key i_begin ivs"
  have d: "distinct ?s" "set ?s = set ivs" using assms(1) by simp_all
  have "i_end (?s ! i) \<le> i_begin (?s ! j)" if "i < j" "j < length ?s" for i j
  proof -
    have "i_begin (?s ! i) \<le> i_begin (?s ! j)"
      using sorted_nth_mono [OF sorted_sort_key [of i_begin ivs], of i j] that by simp
    moreover have "?s ! i \<noteq> ?s ! j" using d(1) that by (simp add: nth_eq_iff_index_eq)
    moreover have "?s ! i \<in> set ivs" "?s ! j \<in> set ivs" using that nth_mem d(2) by (metis order.strict_trans)+
    ultimately show ?thesis using assms(2,3) by force
  qed
  then show ?thesis by (simp add: apart_def sort_intervals_def sorted_wrt_iff_nth_less)
qed

lemma merge_trailing:
  assumes "chain lo hi c" and "list_all (holds v) c" and "lo \<le> b" "b \<le> hi" and "c \<noteq> [] \<Longrightarrow> i_begin (last c) < b"
  shows "(let (app, c2) = (if c \<noteq> [] \<and> i_end (last c) > b
            then (py_upto (i_data (last c)) (b - i_begin (last c)), butlast c) else ([], c))
          in concat (map i_data c2) @ app) = mem_bytes v lo (nat (b - lo))"
proof (cases c rule: rev_cases)
  case Nil
  then show ?thesis using assms by simp
next
  case (snoc xs l)
  have ch: "chain lo (i_begin l) xs" "i_end l = hi" "i_begin l < hi" using assms(1) by (auto simp: snoc chain_append)
  have hl: "i_data l = mem_bytes v (i_begin l) (nat (hi - i_begin l))" and hx: "list_all (holds v) xs"
    using assms(2) ch(2) by (auto simp: snoc holds_def)
  show ?thesis
  proof (cases "hi > b")
    case True
    have "i_begin l < b" using assms(5) by (simp add: snoc)
    then show ?thesis
      using True chain_data [OF ch(1) hx] chain_le [OF ch(1)]
      by (simp add: snoc ch(2) hl take_mem_bytes min_def nat_le_eq_zle mem_bytes_join)
  next
    case False
    then have "b = hi" using assms(4) by simp
    then show ?thesis using False chain_data [OF assms(1,2)] by (simp add: snoc ch(2))
  qed
qed

lemma merge_data_correct:
  assumes "chain lo hi ivs" and "list_all (holds v) ivs" and "ivs \<noteq> []" and "lo \<le> a" "a < b" "b \<le> hi"
    and "\<forall>iv \<in> set ivs. i_begin iv < b \<and> a < i_end iv"
  shows "merge_data ivs a (b - a) = mem_bytes v a (nat (b - a))"
proof -
  obtain iv rest where ivs: "ivs = iv # rest" using assms(3) by (cases ivs) auto
  have iv: "i_begin iv = lo" "lo < i_end iv" "chain (i_end iv) hi rest" "a < i_end iv"
    "i_data iv = mem_bytes v lo (nat (i_end iv - lo))" "list_all (holds v) rest"
    using assms(1,2,7) by (auto simp: ivs holds_def)
  show ?thesis
  proof (cases "lo < a \<and> i_end iv > b")
    case True
    then have "nat (b - a) \<le> nat (i_end iv - a)" by (intro nat_mono) simp
    then show ?thesis using True iv assms(5)
      by (simp add: merge_data_def ivs Let_def take_mem_bytes drop_mem_bytes min_def nat_diff_distrib [symmetric])
  next
    case False
    show ?thesis
    proof (cases "lo < a")
      case lead: True
      have le: "i_end iv \<le> b" using False lead by simp
      have r1: "py_from (i_data iv) (a - lo) = mem_bytes v a (nat (i_end iv - a))"
        using lead iv(4,5) by (simp add: drop_mem_bytes nat_diff_distrib [symmetric])
      have tr: "(let (app, c2) = (if rest \<noteq> [] \<and> i_end (last rest) > b
            then (py_upto (i_data (last rest)) (b - i_begin (last rest)), butlast rest) else ([], rest))
          in concat (map i_data c2) @ app) = mem_bytes v (i_end iv) (nat (b - i_end iv))"
        using assms(6,7) by (intro merge_trailing [OF iv(3,6) le]) (auto simp: ivs)
      have "merge_data ivs a (b - a) = mem_bytes v a (nat (i_end iv - a)) @
          (let (app, c2) = (if rest \<noteq> [] \<and> i_end (last rest) > b
            then (py_upto (i_data (last rest)) (b - i_begin (last rest)), butlast rest) else ([], rest))
          in concat (map i_data c2) @ app)"
        using lead le iv(1) r1 by (simp add: merge_data_def ivs Let_def)
      then show ?thesis
        unfolding tr using le iv(4) mem_bytes_join [of a "i_end iv" b v] by simp
    next
      case no: False
      have lo: "lo = a" using no assms(4) by simp
      have "(let (app, c2) = (if ivs \<noteq> [] \<and> i_end (last ivs) > b
            then (py_upto (i_data (last ivs)) (b - i_begin (last ivs)), butlast ivs) else ([], ivs))
          in concat (map i_data c2) @ app) = mem_bytes v a (nat (b - a))"
        unfolding lo [symmetric] using assms(5-7) lo by (intro merge_trailing [OF assms(1,2)]) auto
      then show ?thesis
        using no iv(1) assms(3) by (simp add: merge_data_def ivs lo Let_def split: prod.splits if_splits)
    qed
  qed
qed


subsection \<open>The uncached parts of a range\<close>

lemma cut_interval_parts:
  assumes "i_begin u < i_end u" and "i_begin c < i_end c" and "i_data u = []"
  shows "\<forall>p \<in> set (cut_interval c u). i_begin u \<le> i_begin p \<and> i_begin p < i_end p \<and> i_end p \<le> i_end u \<and> i_data p = []"
    and "(\<exists>p \<in> set (cut_interval c u). within x p) \<longleftrightarrow> within x u \<and> \<not> within x c"
    and "apart (cut_interval c u)"
  using assms by (auto simp: cut_interval_def within_def apart_def Interval_def)

lemma cut_all_parts:
  assumes "i_begin c < i_end c" and "\<forall>u \<in> set us. a \<le> i_begin u \<and> i_begin u < i_end u \<and> i_end u \<le> b \<and> i_data u = []"
    and "apart us"
  shows "\<forall>p \<in> set (concat (map (cut_interval c) us)). a \<le> i_begin p \<and> i_begin p < i_end p \<and> i_end p \<le> b \<and> i_data p = []"
    and "(\<exists>p \<in> set (concat (map (cut_interval c) us)). within x p) \<longleftrightarrow> (\<exists>u \<in> set us. within x u) \<and> \<not> within x c"
    and "apart (concat (map (cut_interval c) us))"
proof -
  have ne: "i_begin u < i_end u" "i_data u = []" "a \<le> i_begin u" "i_end u \<le> b" if "u \<in> set us" for u
    using assms(2) that by auto
  have part: "a \<le> i_begin p \<and> i_begin p < i_end p \<and> i_end p \<le> b \<and> i_data p = []
      \<and> i_begin u \<le> i_begin p \<and> i_end p \<le> i_end u" if "u \<in> set us" "p \<in> set (cut_interval c u)" for u p
    using bspec [OF cut_interval_parts(1) [OF ne(1) [OF that(1)] assms(1) ne(2) [OF that(1)]] that(2)]
      ne(3,4) [OF that(1)] by linarith
  then show "\<forall>p \<in> set (concat (map (cut_interval c) us)). a \<le> i_begin p \<and> i_begin p < i_end p \<and> i_end p \<le> b \<and> i_data p = []"
    by fastforce
  show "(\<exists>p \<in> set (concat (map (cut_interval c) us)). within x p) \<longleftrightarrow> (\<exists>u \<in> set us. within x u) \<and> \<not> within x c"
  proof -
    have "(\<exists>p \<in> set (cut_interval c u). within x p) \<longleftrightarrow> within x u \<and> \<not> within x c" if "u \<in> set us" for u
      by (rule cut_interval_parts(2) [OF ne(1) [OF that] assms(1) ne(2) [OF that]])
    then show ?thesis by simp
  qed
  have ap: "apart (cut_interval c u)" if "u \<in> set us" for u
    by (rule cut_interval_parts(3) [OF ne(1) [OF that] assms(1) ne(2) [OF that]])
  from assms(3) part ap show "apart (concat (map (cut_interval c) us))"
  proof (induction us)
    case (Cons u us)
    have "apart (concat (map (cut_interval c) us))"
    proof (rule Cons.IH)
      show "apart us" using Cons.prems(1) by (simp add: apart_def)
      show "\<And>u p. u \<in> set us \<Longrightarrow> p \<in> set (cut_interval c u) \<Longrightarrow> a \<le> i_begin p \<and> i_begin p < i_end p
          \<and> i_end p \<le> b \<and> i_data p = [] \<and> i_begin u \<le> i_begin p \<and> i_end p \<le> i_end u"
        by (rule Cons.prems(2)) simp_all
      show "\<And>u. u \<in> set us \<Longrightarrow> apart (cut_interval c u)" by (rule Cons.prems(3)) simp
    qed
    moreover have "\<forall>p \<in> set (cut_interval c u). \<forall>w \<in> set us. \<forall>q \<in> set (cut_interval c w). i_end p \<le> i_begin q"
    proof (intro ballI)
      fix p w q assume pwq: "p \<in> set (cut_interval c u)" "w \<in> set us" "q \<in> set (cut_interval c w)"
      then have "i_end u \<le> i_begin w" using Cons.prems(1) by (simp add: apart_def)
      then show "i_end p \<le> i_begin q" using Cons.prems(2) [of u p] Cons.prems(2) [of w q] pwq by simp
    qed
    moreover have "apart (cut_interval c u)" using Cons.prems(3) by simp
    ultimately show ?case by (auto simp: apart_def sorted_wrt_append)
  qed (simp add: apart_def)
qed

lemma cut_by_all:
  assumes "\<forall>c \<in> set cs. i_begin c < i_end c"
    and "\<forall>u \<in> set us. a \<le> i_begin u \<and> i_begin u < i_end u \<and> i_end u \<le> b \<and> i_data u = []" and "apart us"
  defines "r \<equiv> foldl (\<lambda>us c. concat (map (cut_interval c) us)) us cs"
  shows "(\<forall>p \<in> set r. a \<le> i_begin p \<and> i_begin p < i_end p \<and> i_end p \<le> b \<and> i_data p = []) \<and> apart r
    \<and> (\<forall>x. (\<exists>p \<in> set r. within x p) \<longleftrightarrow> (\<exists>u \<in> set us. within x u) \<and> (\<forall>c \<in> set cs. \<not> within x c))"
  using assms(1-3) unfolding r_def
proof (induction cs arbitrary: us)
  case (Cons c cs)
  have c: "i_begin c < i_end c" using Cons.prems by simp
  note cut = cut_all_parts [OF c Cons.prems(2,3)]
  have "\<forall>c \<in> set cs. i_begin c < i_end c" using Cons.prems by simp
  from Cons.IH [OF this cut(1,3)] show ?case
    unfolding foldl.simps cut(2) by (simp only: set_simps ball_simps conj_assoc simp_thms) (elim conjE, assumption)
qed auto


subsection \<open>Coherence\<close>

text \<open>The documented operations of \<open>IntervalTree\<close>, over the set of intervals it holds.\<close>

locale interval_tree =
  fixes T :: "'t itree_ops" and items :: "'t \<Rightarrow> interval set"
  assumes items_empty: "items (it_empty T) = {}"
    and overlap_set: "set (it_overlap T t b e) = {iv \<in> items t. i_begin iv < e \<and> b < i_end iv}"
    and overlap_distinct: "distinct (it_overlap T t b e)"
    and items_add: "i_begin iv < i_end iv \<Longrightarrow> items (it_add T t iv) = insert iv (items t)"
    and items_remove: "items (it_remove_overlap T t b e) = {iv \<in> items t. \<not> (i_begin iv < e \<and> b < i_end iv)}"
    and items_set_data: "iv \<in> items t \<Longrightarrow> items (it_set_data T t iv d) = insert (iv\<lparr>i_data := d\<rparr>) (items t - {iv})"

text \<open>Every interval holds what the memory holds, and no two overlap.\<close>

definition coherent :: "memory \<Rightarrow> interval set \<Rightarrow> bool" where
  "coherent v X \<longleftrightarrow> (\<forall>i \<in> X. holds v i)
     \<and> (\<forall>i \<in> X. \<forall>j \<in> X. i \<noteq> j \<longrightarrow> i_end i \<le> i_begin j \<or> i_end j \<le> i_begin i)"

lemma coherent_empty [simp]: "coherent v {}"
  by (simp add: coherent_def)

lemma coherent_insert:
  assumes "coherent v X" and "holds v i" and "\<forall>j \<in> X. i_end i \<le> i_begin j \<or> i_end j \<le> i_begin i"
  shows "coherent v (insert i X)"
  using assms by (auto simp: coherent_def)

definition fill :: "memory \<Rightarrow> interval \<Rightarrow> interval" where
  "fill v u = u\<lparr>i_data := mem_bytes v (i_begin u) (nat (i_end u - i_begin u))\<rparr>"

lemma fill_simps [simp]: "i_begin (fill v u) = i_begin u" "i_end (fill v u) = i_end u"
  "i_begin u < i_end u \<Longrightarrow> holds v (fill v u)" "within x (fill v u) = within x u"
  by (simp_all add: fill_def holds_def within_def)

lemma coherent_fill:
  assumes "coherent v X" and "apart us" and "\<forall>u \<in> set us. i_begin u < i_end u"
    and "\<forall>u \<in> set us. \<forall>j \<in> X. i_end u \<le> i_begin j \<or> i_end j \<le> i_begin u"
  shows "coherent v (X \<union> fill v ` set us)"
  using assms
proof (induction us)
  case (Cons u us)
  have "coherent v (X \<union> fill v ` set us)"
    by (rule Cons.IH) (use Cons.prems in \<open>auto simp: apart_def\<close>)
  then have "coherent v (insert (fill v u) (X \<union> fill v ` set us))"
    by (rule coherent_insert) (use Cons.prems in \<open>auto simp: apart_def\<close>)
  then show ?case by simp
qed simp

text \<open>What is between two intervals that overlap in no point.\<close>

lemma no_common_point:
  assumes "i_begin i < i_end i" "i_begin j < i_end j" and "\<And>x. \<not> (within x i \<and> within x j)"
  shows "i_end i \<le> i_begin j \<or> i_end j \<le> i_begin i"
  using assms(3) [of "max (i_begin i) (i_begin j)"] assms(1,2) by (auto simp: within_def max_def split: if_splits)

lemma apart_distinct: "apart us \<Longrightarrow> \<forall>u \<in> set us. i_begin u < i_end u \<Longrightarrow> distinct us"
  by (induction us) (fastforce simp: apart_def)+

context interval_tree
begin

lemma get_ranges_parts:
  assumes "ce_tree E = T" and "coherent v (items t)" and "a < b" and "get_ranges E t a (b - a) = (cached, uncached)"
  shows "\<forall>u \<in> set uncached. a \<le> i_begin u \<and> i_begin u < i_end u \<and> i_end u \<le> b" and "apart uncached"
    and "\<forall>u \<in> set uncached. \<forall>j \<in> items t. i_end u \<le> i_begin j \<or> i_end j \<le> i_begin u"
    and "set cached = {iv \<in> items t. i_begin iv < b \<and> a < i_end iv}" and "distinct cached"
    and "a \<le> x \<Longrightarrow> x < b \<Longrightarrow> (\<exists>u \<in> set uncached. within x u) \<or> (\<exists>c \<in> set cached. within x c)"
proof -
  have c: "cached = it_overlap T t a b"
    and u: "uncached = foldl (\<lambda>us c. concat (map (cut_interval c) us)) [Interval a b] cached"
    using assms(1,4) by (auto simp: get_ranges_def Let_def)
  show cs: "set cached = {iv \<in> items t. i_begin iv < b \<and> a < i_end iv}" "distinct cached"
    by (simp_all add: c overlap_set overlap_distinct)
  have ne: "\<forall>i \<in> items t. i_begin i < i_end i" using assms(2) by (simp add: coherent_def holds_def)
  have "\<forall>c \<in> set cached. i_begin c < i_end c" using cs(1) ne by auto
  then have "(\<forall>p \<in> set uncached. a \<le> i_begin p \<and> i_begin p < i_end p \<and> i_end p \<le> b \<and> i_data p = []) \<and> apart uncached
    \<and> (\<forall>x. (\<exists>p \<in> set uncached. within x p) \<longleftrightarrow> (\<exists>u \<in> set [Interval a b]. within x u) \<and> (\<forall>c \<in> set cached. \<not> within x c))"
    unfolding u by (rule cut_by_all) (use assms(3) in \<open>simp_all add: Interval_def apart_def\<close>)
  then have parts: "\<forall>p \<in> set uncached. a \<le> i_begin p \<and> i_begin p < i_end p \<and> i_end p \<le> b"
    and ap: "apart uncached"
    and pt: "\<And>x. (\<exists>p \<in> set uncached. within x p) \<longleftrightarrow> within x (Interval a b) \<and> (\<forall>c \<in> set cached. \<not> within x c)"
    by simp_all
  have wi: "within x (Interval a b) \<longleftrightarrow> a \<le> x \<and> x < b" for x by (simp add: within_def Interval_def)
  show "\<forall>u \<in> set uncached. a \<le> i_begin u \<and> i_begin u < i_end u \<and> i_end u \<le> b" "apart uncached"
    by (fact parts, fact ap)
  show "a \<le> x \<Longrightarrow> x < b \<Longrightarrow> (\<exists>u \<in> set uncached. within x u) \<or> (\<exists>c \<in> set cached. within x c)"
    using pt [of x] wi [of x] by auto
  show "\<forall>u \<in> set uncached. \<forall>j \<in> items t. i_end u \<le> i_begin j \<or> i_end j \<le> i_begin u"
  proof (intro ballI)
    fix u j assume uj: "u \<in> set uncached" "j \<in> items t"
    show "i_end u \<le> i_begin j \<or> i_end j \<le> i_begin u"
    proof (rule no_common_point)
      fix x show "\<not> (within x u \<and> within x j)"
      proof
        assume x: "within x u \<and> within x j"
        then have "a \<le> x" "x < b" "\<forall>c \<in> set cached. \<not> within x c" using pt wi uj(1) by blast+
        then show False using x uj(2) cs(1) by (auto simp: within_def)
      qed
    qed (use uj parts ne in auto)
  qed
qed

lemma combined_correct:
  assumes "ce_tree E = T" and "coherent v (items t)" and "a < b" and "get_ranges E t a (b - a) = (cached, uncached)"
  shows "merge_data (sort_intervals (cached @ map (fill v) uncached)) a (b - a) = mem_bytes v a (nat (b - a))"
    and "coherent v (items t \<union> fill v ` set uncached)"
proof -
  note gr = get_ranges_parts [OF assms]
  have ne: "\<forall>u \<in> set uncached. i_begin u < i_end u" using gr(1) by auto
  show coh: "coherent v (items t \<union> fill v ` set uncached)"
    by (rule coherent_fill [OF assms(2) gr(2) ne gr(3)])
  let ?all = "cached @ map (fill v) uncached"
  have sub: "set ?all \<subseteq> items t \<union> fill v ` set uncached" using gr(4) by auto
  have "apart (map (fill v) uncached)" using gr(2) by (simp add: apart_def sorted_wrt_map)
  then have "distinct (map (fill v) uncached)" by (rule apart_distinct) (use ne in auto)
  moreover have "fill v u \<notin> items t" if "u \<in> set uncached" for u
    using bspec [OF gr(3) that] ne that by fastforce
  ultimately have d: "distinct ?all" using gr(4,5) by auto
  have disj: "\<forall>i \<in> set ?all. \<forall>j \<in> set ?all. i \<noteq> j \<longrightarrow> i_end i \<le> i_begin j \<or> i_end j \<le> i_begin i"
    and h: "\<forall>i \<in> set ?all. holds v i"
    using coh sub unfolding coherent_def by (meson subsetD)+
  have ne_all: "\<forall>i \<in> set ?all. i_begin i < i_end i" using h by (simp add: holds_def)
  have over: "\<forall>i \<in> set ?all. i_begin i < b \<and> a < i_end i" using gr(1,4) by fastforce
  let ?s = "sort_intervals ?all"
  have st: "set ?s = set ?all" by (simp add: sort_intervals_def)
  have cover: "\<forall>x. a \<le> x \<longrightarrow> x < b \<longrightarrow> (\<exists>iv \<in> set ?s. within x iv)"
  proof (intro allI impI)
    fix x assume "a \<le> x" "x < b"
    then consider u where "u \<in> set uncached" "within x u" | c where "c \<in> set cached" "within x c"
      using gr(6) [of x] by blast
    then show "\<exists>iv \<in> set ?s. within x iv"
    proof cases
      case (1 u)
      then have "fill v u \<in> set ?s" "within x (fill v u)" by (simp_all add: st)
      then show ?thesis by blast
    qed (auto simp: st)
  qed
  obtain hi where "?s \<noteq> []" "i_begin (hd ?s) \<le> a" "chain (i_begin (hd ?s)) hi ?s" "b \<le> hi"
    using apart_chain [OF sort_apart [OF d disj ne_all] _ cover assms(3)] over ne_all unfolding st by auto
  then show "merge_data ?s a (b - a) = mem_bytes v a (nat (b - a))"
    by (intro merge_data_correct) (use h over assms(3) in \<open>auto simp: list_all_iff st\<close>)
qed

end

subsection \<open>Writing into the cache\<close>

lemma holds_apart:
  assumes "holds v i" and "i_end i \<le> a \<or> a + int (length bs) \<le> i_begin i"
  shows "holds (mem_write v a bs) i"
  using assms mem_bytes_write_apart [of "i_begin i" "nat (i_end i - i_begin i)" a bs v]
  by (auto simp: holds_def)

lemma coherent_apart:
  assumes "coherent v X" and "\<forall>i \<in> X. i_end i \<le> a \<or> a + int (length bs) \<le> i_begin i"
  shows "coherent (mem_write v a bs) X"
  using assms holds_apart by (auto simp: coherent_def)

lemma coherent_subset: "coherent v X \<Longrightarrow> Y \<subseteq> X \<Longrightarrow> coherent v Y"
  unfolding coherent_def by (meson subsetD)

text \<open>An interval's bytes before and after an address in it.\<close>

lemma holds_upto: "holds v i \<Longrightarrow> i_begin i \<le> a \<Longrightarrow> a \<le> i_end i \<Longrightarrow>
    py_upto (i_data i) (a - i_begin i) = mem_bytes v (i_begin i) (nat (a - i_begin i))"
  by (simp add: holds_def take_mem_bytes min_def nat_le_eq_zle)

lemma holds_from: "holds v i \<Longrightarrow> i_begin i \<le> b \<Longrightarrow> b \<le> i_end i \<Longrightarrow>
    py_from (i_data i) (b - i_begin i) = mem_bytes v b (nat (i_end i - b))"
  by (simp add: holds_def drop_mem_bytes nat_diff_distrib [symmetric])

context interval_tree
begin

text \<open>Every point of a merged interval was written or is in an interval that overlaps the write.\<close>

definition new_interval :: "'t \<Rightarrow> int \<Rightarrow> int \<Rightarrow> interval \<Rightarrow> bool" where
  "new_interval t a b i \<longleftrightarrow> (\<forall>x. within x i \<longrightarrow> (a \<le> x \<and> x < b)
     \<or> (\<exists>c \<in> items t. i_begin c < b \<and> a < i_end c \<and> within x c))"

lemma contiguous_coherent:
  assumes E: "ce_tree E = T" and coh: "coherent v (items t)" and ne: "bs \<noteq> []"
    and b: "b = a + int (length bs)"
    and cached: "cached \<noteq> []" "set cached = {iv \<in> items t. i_begin iv < b \<and> a < i_end iv}"
  shows "coherent (mem_write v a bs) (items (update_contiguous E cached a bs t))"
    and "\<forall>i \<in> items (update_contiguous E cached a bs t). i \<in> items t \<or> new_interval t a b i"
proof -
  define f l where "f = hd cached" and "l = last cached"
  have fl: "f \<in> items t" "l \<in> items t" "i_begin f < b" "a < i_end f" "i_begin l < b" "a < i_end l"
    using hd_in_set [OF cached(1)] last_in_set [OF cached(1)] unfolding cached(2) f_def l_def by auto
  have h: "holds v f" "holds v l" using coh fl by (auto simp: coherent_def)
  define lo where "lo = (if i_begin f < a then i_begin f else a)"
  define hi where "hi = (if i_end l > b then i_end l else b)"
  have lohi: "lo \<le> a" "b \<le> hi" by (auto simp: lo_def hi_def)
  let ?N = "\<lparr>i_begin = lo, i_end = hi, i_data = mem_bytes (mem_write v a bs) lo (nat (hi - lo))\<rparr>"
  let ?R = "{iv \<in> items t. \<not> (i_begin iv < b \<and> a < i_end iv)}"
  have lead: "(if i_begin f < a \<and> i_end f > a then (i_begin f, py_upto (i_data f) (a - i_begin f)) else (a, []))
      = (lo, mem_bytes v lo (nat (a - lo)))"
    using fl(4) holds_upto [OF h(1), of a] by (simp add: lo_def)
  have trail: "(if i_begin l < b \<and> i_end l > b then (i_end l, py_from (i_data l) (b - i_begin l)) else (b, []))
      = (hi, mem_bytes v b (nat (hi - b)))"
    using fl(5) holds_from [OF h(2), of b] by (simp add: hi_def)
  have "mem_bytes v lo (nat (a - lo)) @ bs @ mem_bytes v b (nat (hi - b)) = mem_bytes (mem_write v a bs) lo (nat (hi - lo))"
    using mem_bytes_patch [of lo a bs hi v] lohi unfolding b by simp
  then have "update_contiguous E cached a bs t = it_add T (it_remove_overlap T t a b) ?N"
    unfolding update_contiguous_def Let_def f_def [symmetric] l_def [symmetric] b [symmetric] lead trail E by simp
  moreover have lt: "lo < hi" using lohi b ne by (cases bs) auto
  ultimately have it: "items (update_contiguous E cached a bs t) = insert ?N ?R"
    by (simp add: items_add items_remove)
  have "new_interval t a b ?N"
    unfolding new_interval_def
  proof (intro allI impI)
    fix x assume "within x ?N"
    then have "within x f \<or> within x l \<or> (a \<le> x \<and> x < b)"
      using fl by (auto simp: within_def lo_def hi_def split: if_splits)
    then show "(a \<le> x \<and> x < b) \<or> (\<exists>c \<in> items t. i_begin c < b \<and> a < i_end c \<and> within x c)"
      using fl by blast
  qed
  then show "\<forall>i \<in> items (update_contiguous E cached a bs t). i \<in> items t \<or> new_interval t a b i"
    unfolding it by blast
  have "coherent (mem_write v a bs) ?R"
    using coherent_subset [OF coh, of ?R] b
    by (intro coherent_apart) auto
  moreover have "\<forall>j \<in> ?R. hi \<le> i_begin j \<or> i_end j \<le> lo"
  proof
    fix j assume j: "j \<in> ?R"
    then have "i_begin j < i_end j" "j \<noteq> f" "j \<noteq> l" using coh fl by (auto simp: coherent_def holds_def)
    with coh fl j have "i_end j \<le> i_begin f \<or> i_end f \<le> i_begin j" "i_end j \<le> i_begin l \<or> i_end l \<le> i_begin j"
      by (auto simp: coherent_def)
    then show "hi \<le> i_begin j \<or> i_end j \<le> lo"
      using j fl \<open>i_begin j < i_end j\<close> by (auto simp: lo_def hi_def)
  qed
  ultimately show "coherent (mem_write v a bs) (items (update_contiguous E cached a bs t))"
    unfolding it using lt by (auto intro!: coherent_insert simp: holds_def)
qed

lemma update_written_coherent:
  assumes E: "ce_tree E = T" and coh: "coherent v (items t)" and ne: "bs \<noteq> []"
  shows "coherent (mem_write v a bs) (items (update_written E a bs t))
    \<and> (\<forall>i \<in> items (update_written E a bs t). i \<in> items t \<or> new_interval t a (a + int (length bs)) i)"
proof -
  define b where "b = a + int (length bs)"
  define cached where "cached = sort_intervals (it_overlap T t a b)"
  have set_c: "set cached = {iv \<in> items t. i_begin iv < b \<and> a < i_end iv}"
    by (simp add: cached_def sort_intervals_def overlap_set)
  have ab: "a < b" using ne by (simp add: b_def)
  consider (none) "cached = []" | (inside) c cs where "cached = c # cs" "i_begin c \<le> a" "b \<le> i_end c"
    | (more) "cached \<noteq> []" "\<not> (i_begin (hd cached) \<le> a \<and> b \<le> i_end (hd cached))"
    by (cases cached) auto
  then show ?thesis
  proof cases
    case none
    then have ap: "\<forall>i \<in> items t. i_end i \<le> a \<or> b \<le> i_begin i" using set_c by force
    have "items (update_written E a bs t) = insert \<lparr>i_begin = a, i_end = b, i_data = bs\<rparr> (items t)"
      using ab none by (simp add: update_written_def Let_def E b_def [symmetric] cached_def [symmetric] items_add)
    then show ?thesis
      using ap coherent_apart [OF coh, of a bs] ab
      by (auto intro!: coherent_insert simp: holds_def b_def new_interval_def within_def)
  next
    case inside
    then have c: "c \<in> items t" using set_c by auto
    have h: "holds v c" using coh c by (simp add: coherent_def)
    let ?d = "mem_bytes (mem_write v a bs) (i_begin c) (nat (i_end c - i_begin c))"
    have "py_from (i_data c) (a - i_begin c + int (length bs)) = mem_bytes v b (nat (i_end c - b))"
      using holds_from [OF h, of b] inside ab by (simp add: b_def algebra_simps)
    then have "items (update_written E a bs t) = insert (c\<lparr>i_data := ?d\<rparr>) (items t - {c})"
      using inside ab holds_upto [OF h, of a] mem_bytes_patch [of "i_begin c" a bs "i_end c" v] c
      by (simp add: update_written_def Let_def E b_def [symmetric] cached_def [symmetric] items_set_data)
    moreover have "\<forall>j \<in> items t - {c}. i_end c \<le> i_begin j \<or> i_end j \<le> i_begin c"
      using coh c by (auto simp: coherent_def)
    moreover have "coherent (mem_write v a bs) (items t - {c})"
    proof (rule coherent_apart [OF coherent_subset [OF coh]])
      show "\<forall>i \<in> items t - {c}. i_end i \<le> a \<or> a + int (length bs) \<le> i_begin i"
      proof
        fix i assume "i \<in> items t - {c}"
        then show "i_end i \<le> a \<or> a + int (length bs) \<le> i_begin i"
          using calculation(2) inside(2,3) unfolding b_def by force
      qed
    qed auto
    moreover have "new_interval t a b (c\<lparr>i_data := ?d\<rparr>)"
      using c inside ab by (auto simp: new_interval_def within_def intro!: bexI [of _ c])
    ultimately show ?thesis
      using h by (auto intro!: coherent_insert simp: holds_def b_def)
  next
    case more
    then have "update_written E a bs t = update_contiguous E cached a bs t"
      by (auto simp: update_written_def Let_def E b_def [symmetric] cached_def [symmetric])
    then show ?thesis
      using contiguous_coherent [OF E coh ne b_def more(1) set_c] by (simp add: b_def)
  qed
qed

end

subsection \<open>Reads and writes through the cache\<close>

text \<open>
  The cache in step with the context: while the run token is the one it was filled under, its
  intervals hold what the memory holds (the token changes whenever the core runs), and each lies
  in a cacheable region (\<open>homed\<close>).
\<close>

definition homed :: "mmap \<Rightarrow> interval \<Rightarrow> bool" where
  "homed m i \<longleftrightarrow> (\<exists>r \<in> set (mm_regions m). r_start r \<le> i_begin i \<and> i_end i \<le> r_end r + 1
     \<and> (\<exists>c. getattr r ''is_cacheable'' = Inr c \<and> truthy c))"

definition cache_ok ::
  "('c \<Rightarrow> memory) \<Rightarrow> ('t \<Rightarrow> interval set) \<Rightarrow> ('c \<Rightarrow> bool) \<Rightarrow> ('t, 'c) cache_env \<Rightarrow> ('t, 'c) mem_cache \<Rightarrow> bool" where
  "cache_ok view items cinv E s \<longleftrightarrow> cinv (mc_context s) \<and>
     (mc_run_token s = ce_token E (mc_context s) \<longrightarrow> coherent (view (mc_context s)) (items (mc_cache s))
        \<and> (\<forall>i \<in> items (mc_cache s). homed (ce_map E) i))"

text \<open>
  How an access fails: as the context does, with a fault when it crosses a region boundary, or
  with an exception of the region's \<open>is_cacheable\<close>.
\<close>

definition cache_fail ::
  "(exn \<Rightarrow> 'c \<Rightarrow> bool) \<Rightarrow> ('t, 'c) cache_env \<Rightarrow> exn \<Rightarrow> ('t, 'c) mem_cache \<Rightarrow> bool" where
  "cache_fail fail E e s \<longleftrightarrow> fail e (mc_context s) \<or> e = TransferFaultError None None
     \<or> (\<exists>r \<in> set (mm_regions (ce_map E)). getattr r ''is_cacheable'' = Inl e)"

lemma wp_on_context [simp]:
  "wp (on_context m) Q F = (\<lambda>s. wp m (\<lambda>x c. Q x (s\<lparr>mc_context := c\<rparr>)) (\<lambda>e c. F e (s\<lparr>mc_context := c\<rparr>)) (mc_context s))"
  by (auto simp: wp_def on_context_def fun_eq_iff split: prod.splits sum.splits)

lemma get_intersecting_At:
  "get_intersecting_regions m (At a) None (Some n) None
    = Inr (filter (\<lambda>r. intersects_bounds r (a, a + n - 1)) (mm_regions m))"
  by (simp add: get_intersecting_regions_def check_range_def)

lemma contains_range_At: "contains_range r (At a) None (Some n) None = Inr (contains_bounds r (a, a + n - 1))"
  by (simp add: contains_range_def check_range_def)

lemmas check_regions_simps = check_regions_def get_intersecting_At contains_range_At res_bind_simps

lemma check_regions_Inl:
  "check_regions m a n = Inl e \<Longrightarrow> e = TransferFaultError None None
     \<or> (\<exists>r \<in> set (mm_regions m). getattr r ''is_cacheable'' = Inl e)"
proof -
  let ?rs = "filter (\<lambda>r. intersects_bounds r (a, a + n - 1)) (mm_regions m)"
  assume "check_regions m a n = Inl e"
  moreover have "set ?rs \<subseteq> set (mm_regions m)" by simp
  ultimately show ?thesis
    unfolding check_regions_simps by (cases ?rs) (auto simp: res_bind_def split: list.splits sum.splits if_splits)
qed

text \<open>An access that passes and touches a region touches only that one.\<close>

lemma check_regions_one:
  assumes "check_regions m a n = Inr cacheable"
    and "cacheable \<or> (r \<in> set (mm_regions m) \<and> intersects_bounds r (a, a + n - 1))"
  obtains x where "filter (\<lambda>r. intersects_bounds r (a, a + n - 1)) (mm_regions m) = [x]"
proof (cases "filter (\<lambda>r. intersects_bounds r (a, a + n - 1)) (mm_regions m)")
  case Nil
  moreover have "\<not> cacheable" using assms(1) Nil by (simp add: check_regions_simps)
  ultimately show ?thesis using assms(2) by (auto simp: filter_empty_conv)
next
  case (Cons x xs)
  then have "xs = []" using assms(1) by (simp add: check_regions_simps split: list.splits)
  then show ?thesis using Cons that by simp
qed

text \<open>The region of a cacheable access, and that no other region touches it.\<close>

lemma intersects_point:
  "a \<le> x \<Longrightarrow> x \<le> e \<Longrightarrow> r_start r \<le> x \<Longrightarrow> x \<le> r_end r \<Longrightarrow> intersects_bounds r (a, e)"
  by (auto simp: intersects_bounds_def)

lemma check_regions_unique:
  assumes "check_regions m a n = Inr cacheable"
    and "r \<in> set (mm_regions m)" "intersects_bounds r (a, a + n - 1)"
    and "r' \<in> set (mm_regions m)" "intersects_bounds r' (a, a + n - 1)"
  shows "r' = r"
proof -
  let ?rs = "filter (\<lambda>r. intersects_bounds r (a, a + n - 1)) (mm_regions m)"
  have "r \<in> set ?rs" "r' \<in> set ?rs" using assms by simp_all
  moreover obtain x where "?rs = [x]"
    by (rule check_regions_one [OF assms(1), of r]) (use assms(2,3) in auto)
  ultimately show ?thesis by simp
qed

lemma check_regions_Inr:
  assumes "check_regions m a n = Inr cacheable" and "0 < n"
    and "r' \<in> set (mm_regions m)" "getattr r' ''is_cacheable'' = Inr c" "truthy c" "intersects_bounds r' (a, a + n - 1)"
  shows "cacheable"
proof -
  let ?rs = "filter (\<lambda>r. intersects_bounds r (a, a + n - 1)) (mm_regions m)"
  have "r' \<in> set ?rs" using assms(3,6) by simp
  moreover obtain r where r: "?rs = [r]"
    by (rule check_regions_one [OF assms(1), of r']) (use assms(3,6) in auto)
  ultimately have "r' = r" by simp
  then show ?thesis
    using assms(1,4,5) unfolding check_regions_simps r by (auto split: if_splits)
qed

lemma check_regions_home:
  assumes "check_regions m a n = Inr True" and "0 < n"
  obtains r c where "r \<in> set (mm_regions m)" "getattr r ''is_cacheable'' = Inr c" "truthy c"
    "r_start r \<le> a" "a + n \<le> r_end r + 1"
proof -
  let ?rs = "filter (\<lambda>r. intersects_bounds r (a, a + n - 1)) (mm_regions m)"
  obtain r where r: "?rs = [r]"
    by (rule check_regions_one [OF assms(1)]) auto
  have "r \<in> set ?rs" unfolding r by simp
  then have "r \<in> set (mm_regions m)" by simp
  then show ?thesis
    using assms(1) unfolding check_regions_simps r
    by (auto simp: contains_bounds_def contains_address_def res_bind_Inr_iff split: if_splits intro!: that)
qed

locale cached_context = interval_tree "ce_tree E" items + block_memory view cinv space fail "ce_read E" "ce_write E"
  for E :: "('t, 'c) cache_env" and items :: "'t \<Rightarrow> interval set" and view :: "'c \<Rightarrow> memory"
    and cinv :: "'c \<Rightarrow> bool" and space :: int and fail :: "exn \<Rightarrow> 'c \<Rightarrow> bool"
begin

abbreviation ok :: "('t, 'c) mem_cache \<Rightarrow> bool" where
  "ok \<equiv> cache_ok view items cinv E"

abbreviation cached_view :: "('t, 'c) mem_cache \<Rightarrow> memory" where
  "cached_view s \<equiv> view (mc_context s)"

text \<open>Inside an operation the intervals hold the memory, whatever the token.\<close>

definition strong :: "memory \<Rightarrow> ('t, 'c) mem_cache \<Rightarrow> bool" where
  "strong v s \<longleftrightarrow> cinv (mc_context s) \<and> view (mc_context s) = v \<and> coherent v (items (mc_cache s))
     \<and> (\<forall>i \<in> items (mc_cache s). homed (ce_map E) i)"

lemma strong_check: "ok s \<Longrightarrow> strong (cached_view s) (check_cache E s)"
  by (auto simp: cache_ok_def strong_def check_cache_def reset_cache_def items_empty)

lemma strong_ok: "strong v s \<Longrightarrow> ok s"
  by (simp add: strong_def cache_ok_def)

lemma read_uncached_wp:
  assumes "cinv (mc_context s)" and "view (mc_context s) = v"
    and "\<forall>u \<in> set us. 0 \<le> i_begin u \<and> i_begin u < i_end u \<and> i_end u \<le> space"
  shows "wp (read_uncached E us)
    (\<lambda>ivs s'. cinv (mc_context s') \<and> view (mc_context s') = v \<and> ivs = map (fill v) us
       \<and> items (mc_cache s') = items (mc_cache s) \<union> fill v ` set us)
    (cache_fail fail E) s"
  using assms
proof (induction us arbitrary: s)
  case (Cons u us)
  have u: "0 \<le> i_begin u" "0 \<le> i_end u - i_begin u" "i_begin u + (i_end u - i_begin u) \<le> space"
    using Cons.prems(3) by auto
  show ?case
    unfolding read_uncached.simps Let_def wp_bind wp_on_context wp_modify
  proof (rule wp_mono [OF rb8_law [OF Cons.prems(1) u]])
    fix data c assume c: "cinv c \<and> view c = view (mc_context s) \<and> data = mem_bytes (view (mc_context s)) (i_begin u) (nat (i_end u - i_begin u))"
    define s1 where "s1 = s\<lparr>mc_context := c, mc_cache := it_add (ce_tree E) (mc_cache s) (u\<lparr>i_data := data\<rparr>)\<rparr>"
    have f: "u\<lparr>i_data := data\<rparr> = fill v u" using c Cons.prems(2) by (simp add: fill_def)
    have it: "items (mc_cache s1) = insert (fill v u) (items (mc_cache s))"
      using Cons.prems(3) by (simp add: s1_def f items_add)
    have "wp (read_uncached E us)
      (\<lambda>ivs s'. cinv (mc_context s') \<and> view (mc_context s') = v \<and> ivs = map (fill v) us
         \<and> items (mc_cache s') = items (mc_cache s1) \<union> fill v ` set us) (cache_fail fail E) s1"
      by (rule Cons.IH) (use c Cons.prems in \<open>simp_all add: s1_def\<close>)
    then have "wp (read_uncached E us)
      (\<lambda>ivs s'. cinv (mc_context s') \<and> view (mc_context s') = v \<and> ivs = map (fill v) us
         \<and> items (mc_cache s') = items (mc_cache s) \<union> fill v ` set (u # us)) (cache_fail fail E) s1"
      by (rule wp_mono) (auto simp: it)
    then show "wp (read_uncached E us) (\<lambda>x. wp (ret (u\<lparr>i_data := data\<rparr> # x))
        (\<lambda>ivs s'. cinv (mc_context s') \<and> view (mc_context s') = v \<and> ivs = map (fill v) (u # us)
           \<and> items (mc_cache s') = items (mc_cache s) \<union> fill v ` set (u # us)) (cache_fail fail E))
        (cache_fail fail E)
        ((s\<lparr>mc_context := c\<rparr>)\<lparr>mc_cache := it_add (ce_tree E) (mc_cache (s\<lparr>mc_context := c\<rparr>)) (u\<lparr>i_data := data\<rparr>)\<rparr>)"
      by (simp add: s1_def f)
  qed (simp add: cache_fail_def)
qed simp

lemma read_combined_wp:
  assumes "strong v s" and "0 \<le> a" "0 < n" "a + n \<le> space"
    and "\<And>i. a \<le> i_begin i \<Longrightarrow> i_end i \<le> a + n \<Longrightarrow> homed (ce_map E) i"
  shows "wp (read_combined E a n)
    (\<lambda>ivs s'. strong v s' \<and> merge_data ivs a n = mem_bytes v a (nat n)) (cache_fail fail E) s"
proof -
  obtain cached uncached where gr: "get_ranges E (mc_cache s) a n = (cached, uncached)" by fastforce
  then have gr': "get_ranges E (mc_cache s) a (a + n - a) = (cached, uncached)" by simp
  have st: "cinv (mc_context s)" "view (mc_context s) = v" "coherent v (items (mc_cache s))"
    using assms(1) by (simp_all add: strong_def)
  have ab: "a < a + n" using assms(3) by simp
  note parts = get_ranges_parts [OF refl st(3) ab gr'] and comb = combined_correct [OF refl st(3) ab gr']
  have us: "\<forall>u \<in> set uncached. 0 \<le> i_begin u \<and> i_begin u < i_end u \<and> i_end u \<le> space"
    using parts(1) assms(2,4) by fastforce
  have hm: "\<forall>u \<in> set uncached. homed (ce_map E) (fill v u)"
    using parts(1) assms(5) by auto
  define s1 where "s1 = s\<lparr>mc_metrics := update_metrics cached uncached a n (mc_metrics s)\<rparr>"
  have "wp (read_uncached E uncached)
    (\<lambda>ivs s'. strong v s' \<and> merge_data (sort_intervals (cached @ ivs)) a n = mem_bytes v a (nat n)) (cache_fail fail E) s1"
    by (rule wp_mono [OF read_uncached_wp [of s1 v]])
      (use st us comb hm assms(1) in \<open>auto simp: s1_def strong_def\<close>)
  then show ?thesis
    by (simp add: read_combined_def gr s1_def)
qed

lemma cached_read_block8_wp:
  assumes "ok s" and "0 \<le> a" "0 \<le> n" "a + n \<le> space"
  shows "wp (cached_read_block8 E a n)
    (\<lambda>bs s'. ok s' \<and> cached_view s' = cached_view s \<and> bs = mem_bytes (cached_view s) a (nat n)) (cache_fail fail E) s"
proof (cases "n \<le> 0")
  case True
  then show ?thesis using assms by (simp add: cached_read_block8_def)
next
  case False
  let ?v = "cached_view s" and ?s = "check_cache E s"
  have st: "strong ?v ?s" by (rule strong_check [OF assms(1)])
  have n: "0 < n" using False by simp
  have "wp (on_context (ce_read E a n))
      (\<lambda>bs s'. ok s' \<and> cached_view s' = ?v \<and> bs = mem_bytes ?v a (nat n)) (cache_fail fail E) ?s"
    unfolding wp_on_context
  proof (rule wp_mono [OF rb8_law])
    fix bs c assume "cinv c \<and> view c = view (mc_context ?s) \<and> bs = mem_bytes (view (mc_context ?s)) a (nat n)"
    then show "ok (?s\<lparr>mc_context := c\<rparr>) \<and> cached_view (?s\<lparr>mc_context := c\<rparr>) = ?v \<and> bs = mem_bytes ?v a (nat n)"
      using st by (simp add: strong_def cache_ok_def)
  qed (use st assms in \<open>auto simp: strong_def cache_fail_def\<close>)
  moreover have "wp (read_combined E a n)
      (\<lambda>ivs. wp (bind (assert_that (int (length (merge_data ivs a n)) = n)) (\<lambda>_. ret (merge_data ivs a n)))
        (\<lambda>bs s'. ok s' \<and> cached_view s' = ?v \<and> bs = mem_bytes ?v a (nat n)) (cache_fail fail E)) (cache_fail fail E) ?s"
    if cr: "check_regions (ce_map E) a n = Inr True"
  proof (rule wp_mono [OF read_combined_wp [OF st assms(2) n assms(4)]])
    fix i :: interval assume "a \<le> i_begin i" "i_end i \<le> a + n"
    moreover obtain r c where "r \<in> set (mm_regions (ce_map E))" "getattr r ''is_cacheable'' = Inr c" "truthy c"
      "r_start r \<le> a" "a + n \<le> r_end r + 1" by (rule check_regions_home [OF cr n])
    ultimately show "homed (ce_map E) i"
      unfolding homed_def by (intro bexI [of _ r] conjI exI [of _ c]) auto
  qed (use n strong_ok in \<open>auto simp: strong_def\<close>)
  moreover have "cache_fail fail E e ?s" if "check_regions (ce_map E) a n = Inl e" for e
    using check_regions_Inl [OF that] by (simp add: cache_fail_def)
  ultimately show ?thesis
    using False by (simp add: cached_read_block8_def Let_def split: sum.split)
qed

lemma cached_write_block8_wp:
  assumes "ok s" and "all_bytes bs" and "0 \<le> a" "a + int (length bs) \<le> space"
  shows "wp (cached_write_block8 E a bs)
    (\<lambda>_ s'. ok s' \<and> cached_view s' = mem_write (cached_view s) a bs) (cache_fail fail E) s"
proof (cases "bs = []")
  case True
  then show ?thesis using assms by (simp add: cached_write_block8_def)
next
  case False
  let ?v = "cached_view s" and ?s = "check_cache E s"
  have st: "strong ?v ?s" by (rule strong_check [OF assms(1)])
  define n where "n = int (length bs)"
  have n: "0 < n" using False by (simp add: n_def)
  have coh: "coherent ?v (items (mc_cache ?s))" and hm: "\<forall>i \<in> items (mc_cache ?s). homed (ce_map E) i"
    using st by (simp_all add: strong_def)
  note upd = update_written_coherent [OF refl coh False, of a]
  have "wp (ce_write E a bs)
      (\<lambda>_ c. cinv c \<and> view c = mem_write ?v a bs) (\<lambda>e c. cache_fail fail E e (?s\<lparr>mc_context := c\<rparr>)) (mc_context ?s)"
    by (rule wp_mono [OF wb8_law]) (use st assms in \<open>auto simp: strong_def cache_fail_def\<close>)
  moreover have "ok (?s\<lparr>mc_context := c\<rparr>)" if c: "cinv c \<and> view c = mem_write ?v a bs"
    and cr: "check_regions (ce_map E) a n = Inr False" for c
  proof -
    have "i_end i \<le> a \<or> a + int (length bs) \<le> i_begin i" if i: "i \<in> items (mc_cache ?s)" for i
    proof (rule ccontr)
      assume over: "\<not> (i_end i \<le> a \<or> a + int (length bs) \<le> i_begin i)"
      obtain r c where r: "r \<in> set (mm_regions (ce_map E))" "r_start r \<le> i_begin i" "i_end i \<le> r_end r + 1"
        "getattr r ''is_cacheable'' = Inr c" "truthy c" using hm i unfolding homed_def by blast
      have "i_begin i < i_end i" using coh i by (simp add: coherent_def holds_def)
      then have "intersects_bounds r (a, a + n - 1)"
        using over r(2,3) n by (intro intersects_point [of _ "max a (i_begin i)"]) (auto simp: n_def)
      then show False using check_regions_Inr [OF cr n r(1,4,5)] by simp
    qed
    then show ?thesis
      using c coherent_apart [OF coh, of a bs] hm by (simp add: cache_ok_def)
  qed
  moreover have "ok (?s\<lparr>mc_context := c, mc_cache := update_written E a bs (mc_cache ?s), mc_metrics := m\<rparr>)"
    if c: "cinv c \<and> view c = mem_write ?v a bs" and cr: "check_regions (ce_map E) a n = Inr True" for c m
  proof -
    obtain r cc where r: "r \<in> set (mm_regions (ce_map E))" "getattr r ''is_cacheable'' = Inr cc" "truthy cc"
      "r_start r \<le> a" "a + n \<le> r_end r + 1" by (rule check_regions_home [OF cr n])
    have "homed (ce_map E) i" if i: "i \<in> items (update_written E a bs (mc_cache ?s))" for i
    proof (cases "i \<in> items (mc_cache ?s)")
      case False
      then have new: "new_interval (mc_cache ?s) a (a + n) i" using upd i by (auto simp: n_def)
      have pt: "r_start r \<le> x \<and> x \<le> r_end r" if "within x i" for x
      proof (cases "a \<le> x \<and> x < a + n")
        case False
        then obtain d where d: "d \<in> items (mc_cache ?s)" "i_begin d < a + n" "a < i_end d" "within x d"
          using new \<open>within x i\<close> unfolding new_interval_def by blast
        obtain r' where r': "r' \<in> set (mm_regions (ce_map E))" "r_start r' \<le> i_begin d" "i_end d \<le> r_end r' + 1"
          using hm d(1) unfolding homed_def by blast
        have "i_begin d < i_end d" using coh d(1) by (simp add: coherent_def holds_def)
        then have "intersects_bounds r' (a, a + n - 1)"
          using d(2,3) r'(2,3) n by (intro intersects_point [of _ "max a (i_begin d)"]) auto
        moreover have "intersects_bounds r (a, a + n - 1)"
          using r(4,5) n by (intro intersects_point [of _ a]) auto
        ultimately have "r' = r" using check_regions_unique [OF cr r(1)] r'(1) by blast
        then show ?thesis using r' d(4) by (auto simp: within_def)
      qed (use r in auto)
      have "i_begin i < i_end i" using upd i by (simp add: coherent_def holds_def)
      then have "r_start r \<le> i_begin i" "i_end i \<le> r_end r + 1"
        using pt [of "i_begin i"] pt [of "i_end i - 1"] by (auto simp: within_def)
      then show ?thesis using r unfolding homed_def by blast
    qed (use hm in auto)
    then show ?thesis using c upd by (simp add: cache_ok_def)
  qed
  moreover have "cache_fail fail E e ?s" if "check_regions (ce_map E) a n = Inl e" for e
    using check_regions_Inl [OF that] by (simp add: cache_fail_def)
  ultimately show ?thesis
    using False by (auto simp: cached_write_block8_def n_def[symmetric] elim!: wp_mono split: sum.split)
qed

end

text \<open>So the cache provides the same block memory as the context below it.\<close>

sublocale cached_context \<subseteq> cached: block_memory "\<lambda>s. view (mc_context s)" "cache_ok view items cinv E" space
    "cache_fail fail E" "cached_read_block8 E" "cached_write_block8 E"
  by unfold_locales
    (simp add: cache_ok_def view_byte, (rule cached_read_block8_wp cached_write_block8_wp; assumption)+)

subsection \<open>An interval tree and a context\<close>

text \<open>A list of intervals, and a flat memory, that keep the laws.\<close>

definition list_tree :: "interval list itree_ops" where
  "list_tree = \<lparr>it_empty = [],
     it_overlap = (\<lambda>t b e. remdups (filter (\<lambda>iv. i_begin iv < e \<and> b < i_end iv) t)),
     it_add = (\<lambda>t iv. iv # t),
     it_remove_overlap = (\<lambda>t b e. filter (\<lambda>iv. \<not> (i_begin iv < e \<and> b < i_end iv)) t),
     it_set_data = (\<lambda>t iv d. iv\<lparr>i_data := d\<rparr> # removeAll iv t)\<rparr>"

definition flat_env :: "(interval list, memory) cache_env" where
  "flat_env = \<lparr>ce_tree = list_tree, ce_running = (\<lambda>_. False), ce_token = (\<lambda>_. 7), ce_map = demo_map,
     ce_read = (\<lambda>a n m. (Inr (mem_bytes m a (nat n)), m)),
     ce_write = (\<lambda>a bs m. (Inr (), mem_write m a bs))\<rparr>"

definition byte_memory :: "memory \<Rightarrow> bool" where
  "byte_memory m \<longleftrightarrow> (\<forall>a. is_byte (m a))"

interpretation flat: cached_context flat_env set "\<lambda>m. m" byte_memory "2 ^ 32" "\<lambda>_ _. False"
  by unfold_locales
    (auto simp: flat_env_def list_tree_def wp_case byte_memory_def mem_write_def intro: all_bytes_nth)

definition demo_cache :: "(interval list, memory) mem_cache" where
  "demo_cache = (MemoryCache flat_env (\<lambda>a. a mod 256))\<lparr>mc_run_token := 7,
     mc_cache := [\<lparr>i_begin = 0x20000004, i_end = 0x20000006, i_data = [4, 5]\<rparr>]\<rparr>"

lemma demo_cache_ok: "cache_ok (\<lambda>m. m) set byte_memory flat_env demo_cache"
proof -
  have "getattr demo_ram ''is_cacheable'' = Inr (ABool True)"
    by (simp add: demo_ram_def getattr_Suc default_attrs_def)
  then show ?thesis
    by (auto simp: cache_ok_def demo_cache_def byte_memory_def is_byte_def coherent_def holds_def mem_bytes_def
        homed_def flat_env_def demo_map_def truthy_def numeral_2_eq_2 MemoryCache_def)
      (simp_all add: demo_ram_def)
qed

subsection \<open>The cache is transparent\<close>

context cached_context
begin

lemmas transparent_read = cached.rb8_law

lemmas transparent_write = cached.wb8_law

end

text \<open>
  C4. A read through the cache returns exactly the bytes that are in the memory below it,
  whatever mix of cached and uncached intervals the range covers, leaves that memory alone, and
  keeps the cache in step; it fails only as the context does, or for its memory regions.
\<close>

theorem cached_read_transparent:
  assumes "cached_context E items view cinv space fail" and "cache_ok view items cinv E s"
    and "0 \<le> a" "0 \<le> n" "a + n \<le> space"
  shows "wp (cached_read_block8 E a n)
    (\<lambda>bs s'. cache_ok view items cinv E s' \<and> view (mc_context s') = view (mc_context s)
       \<and> bs = mem_bytes (view (mc_context s)) a (nat n)) (cache_fail fail E) s"
  by (rule cached_context.transparent_read [OF assms])

theorem cached_read_transparent_witness:
  "wp (cached_read_block8 flat_env 0x20000002 8)
    (\<lambda>bs s'. cache_ok (\<lambda>m. m) set byte_memory flat_env s' \<and> mc_context s' = mc_context demo_cache
       \<and> bs = mem_bytes (mc_context demo_cache) 0x20000002 (nat 8)) (cache_fail (\<lambda>_ _. False) flat_env) demo_cache"
  by (rule cached_read_transparent [OF flat.cached_context_axioms demo_cache_ok]) simp_all

text \<open>
  C6. A write through the cache changes exactly the written bytes of the memory below, and the
  cache stays in step with it: cached intervals inside, across and beside the written range are
  updated, merged or kept, and a write to memory that is not cacheable touches no cached byte.
\<close>

theorem cached_write_through:
  assumes "cached_context E items view cinv space fail" and "cache_ok view items cinv E s"
    and "all_bytes bs" and "0 \<le> a" "a + int (length bs) \<le> space"
  shows "wp (cached_write_block8 E a bs)
    (\<lambda>_ s'. cache_ok view items cinv E s' \<and> view (mc_context s') = mem_write (view (mc_context s)) a bs)
    (cache_fail fail E) s"
  by (rule cached_context.transparent_write [OF assms])

theorem cached_write_through_witness:
  "wp (cached_write_block8 flat_env 0x20000005 [1, 2, 3])
    (\<lambda>_ s'. cache_ok (\<lambda>m. m) set byte_memory flat_env s'
       \<and> mc_context s' = mem_write (mc_context demo_cache) 0x20000005 [1, 2, 3])
    (cache_fail (\<lambda>_ _. False) flat_env) demo_cache"
  by (rule cached_write_through [OF flat.cached_context_axioms demo_cache_ok]) (simp_all add: is_byte_def)

text \<open>A cached write that the context refuses leaves the intervals as the check of the token left them.\<close>

lemma cached_write_failed:
  assumes "ce_write E a bs (mc_context (check_cache E s)) = (Inl e, c)" and "bs \<noteq> []"
  shows "mc_cache (snd (cached_write_block8 E a bs s)) = mc_cache (check_cache E s)"
  using assms
  by (auto simp: cached_write_block8_def bind_def on_context_def split: sum.split)

end
