(* ===== verification/Core_Registers.thy ===== *)
theory Core_Registers
  imports Prelude
begin

text \<open>
  The core registers of Cortex-M: \<open>pyocd/core/core_registers.py\<close> and
  \<open>pyocd/coresight/cortex_m_core_registers.py\<close>: the descriptions of the registers, the table of
  all of them, lookup by name and by index, the registers one core has, and \<open>check_reg_list\<close> of
  \<open>pyocd/coresight/cortex_m.py\<close>.  Strings are ASCII.  The lemmas say which rows of the table are
  transferred as they are and of which of those the others (doubles, bytes of CFBP, fields of XPSR)
  are made.
\<close>

subsection \<open>Register descriptions\<close>

record reg_info =
  ri_name :: string
  ri_index :: int
  ri_bitsize :: nat
  ri_gdb_type :: string
  ri_group :: string
  ri_gdb_regnum :: "int option"
  ri_gdb_feature :: "string option"

definition CoreRegisterInfo :: "string \<Rightarrow> int \<Rightarrow> nat \<Rightarrow> string \<Rightarrow> string \<Rightarrow> (int \<times> string) option \<Rightarrow> reg_info" where
  "CoreRegisterInfo name index bitsize reg_type reg_group gdb =
     \<lparr>ri_name = name, ri_index = index, ri_bitsize = bitsize, ri_gdb_type = reg_type, ri_group = reg_group,
      ri_gdb_regnum = map_option fst gdb, ri_gdb_feature = map_option snd gdb\<rparr>"

abbreviation "m_profile \<equiv> ''org.gnu.gdb.arm.m-profile''"
abbreviation "m_system \<equiv> ''org.gnu.gdb.arm.m-system''"
abbreviation "secext \<equiv> ''org.gnu.gdb.arm.secext''"
abbreviation "mve \<equiv> ''org.gnu.gdb.arm.m-profile-mve''"
abbreviation "vfp \<equiv> ''org.gnu.gdb.arm.vfp''"

definition M_PROFILE_COMMON :: "reg_info list" where
  "M_PROFILE_COMMON =
   [CoreRegisterInfo ''r0'' 0 32 ''uint32'' ''general'' (Some (0, m_profile)),
    CoreRegisterInfo ''r1'' 1 32 ''uint32'' ''general'' (Some (1, m_profile)),
    CoreRegisterInfo ''r2'' 2 32 ''uint32'' ''general'' (Some (2, m_profile)),
    CoreRegisterInfo ''r3'' 3 32 ''uint32'' ''general'' (Some (3, m_profile)),
    CoreRegisterInfo ''r4'' 4 32 ''uint32'' ''general'' (Some (4, m_profile)),
    CoreRegisterInfo ''r5'' 5 32 ''uint32'' ''general'' (Some (5, m_profile)),
    CoreRegisterInfo ''r6'' 6 32 ''uint32'' ''general'' (Some (6, m_profile)),
    CoreRegisterInfo ''r7'' 7 32 ''uint32'' ''general'' (Some (7, m_profile)),
    CoreRegisterInfo ''r8'' 8 32 ''uint32'' ''general'' (Some (8, m_profile)),
    CoreRegisterInfo ''r9'' 9 32 ''uint32'' ''general'' (Some (9, m_profile)),
    CoreRegisterInfo ''r10'' 10 32 ''uint32'' ''general'' (Some (10, m_profile)),
    CoreRegisterInfo ''r11'' 11 32 ''uint32'' ''general'' (Some (11, m_profile)),
    CoreRegisterInfo ''r12'' 12 32 ''uint32'' ''general'' (Some (12, m_profile)),
    CoreRegisterInfo ''sp'' 13 32 ''data_ptr'' ''general'' (Some (13, m_profile)),
    CoreRegisterInfo ''lr'' 14 32 ''code_ptr'' ''general'' (Some (14, m_profile)),
    CoreRegisterInfo ''pc'' 15 32 ''code_ptr'' ''general'' (Some (15, m_profile)),
    CoreRegisterInfo ''xpsr'' 16 32 ''uint32'' ''general'' (Some (16, m_profile)),
    CoreRegisterInfo ''msp'' 17 32 ''data_ptr'' ''system'' (Some (17, m_system)),
    CoreRegisterInfo ''psp'' 18 32 ''data_ptr'' ''system'' (Some (18, m_system)),
    CoreRegisterInfo ''control'' 5123 32 ''uint32'' ''system'' (Some (19, m_system)),
    CoreRegisterInfo ''primask'' 5120 32 ''uint32'' ''system'' (Some (20, m_system)),
    CoreRegisterInfo ''cfbp'' 20 32 ''uint32'' ''system'' None,
    CoreRegisterInfo ''apsr'' 65536 32 ''uint32'' ''system'' None,
    CoreRegisterInfo ''iapsr'' 65537 32 ''uint32'' ''system'' None,
    CoreRegisterInfo ''eapsr'' 65538 32 ''uint32'' ''system'' None,
    CoreRegisterInfo ''ipsr'' 65541 32 ''uint32'' ''system'' None,
    CoreRegisterInfo ''epsr'' 65542 32 ''uint32'' ''system'' None,
    CoreRegisterInfo ''iepsr'' 65543 32 ''uint32'' ''system'' None]"

definition V7M_v8M_ML_ONLY :: "reg_info list" where
  "V7M_v8M_ML_ONLY =
   [CoreRegisterInfo ''basepri'' 5121 32 ''uint32'' ''system'' (Some (21, m_system)),
    CoreRegisterInfo ''faultmask'' 5122 32 ''uint32'' ''system'' (Some (22, m_system))]"

definition V8M_SEC_ONLY :: "reg_info list" where
  "V8M_SEC_ONLY =
   [CoreRegisterInfo ''msp_ns'' 24 32 ''data_ptr'' ''system'' (Some (24, secext)),
    CoreRegisterInfo ''psp_ns'' 25 32 ''data_ptr'' ''system'' (Some (25, secext)),
    CoreRegisterInfo ''msp_s'' 26 32 ''data_ptr'' ''system'' (Some (26, secext)),
    CoreRegisterInfo ''psp_s'' 27 32 ''data_ptr'' ''system'' (Some (27, secext)),
    CoreRegisterInfo ''msplim_s'' 28 32 ''uint32'' ''system'' (Some (28, secext)),
    CoreRegisterInfo ''psplim_s'' 29 32 ''uint32'' ''system'' (Some (29, secext)),
    CoreRegisterInfo ''control_s'' 8707 32 ''uint32'' ''system'' (Some (34, secext)),
    CoreRegisterInfo ''primask_s'' 8704 32 ''uint32'' ''system'' (Some (35, secext)),
    CoreRegisterInfo ''control_ns'' 8963 32 ''uint32'' ''system'' (Some (38, secext)),
    CoreRegisterInfo ''primask_ns'' 8960 32 ''uint32'' ''system'' (Some (39, secext)),
    CoreRegisterInfo ''cfbp_s'' 34 32 ''uint32'' ''system'' None,
    CoreRegisterInfo ''cfbp_ns'' 35 32 ''uint32'' ''system'' None]"

definition V8M_ML_SEC_ONLY :: "reg_info list" where
  "V8M_ML_SEC_ONLY =
   [CoreRegisterInfo ''msplim_ns'' 30 32 ''uint32'' ''system'' (Some (30, secext)),
    CoreRegisterInfo ''psplim_ns'' 31 32 ''uint32'' ''system'' (Some (31, secext)),
    CoreRegisterInfo ''basepri_s'' 8705 32 ''uint32'' ''system'' (Some (36, secext)),
    CoreRegisterInfo ''faultmask_s'' 8706 32 ''uint32'' ''system'' (Some (37, secext)),
    CoreRegisterInfo ''basepri_ns'' 8961 32 ''uint32'' ''system'' (Some (40, secext)),
    CoreRegisterInfo ''faultmask_ns'' 8962 32 ''uint32'' ''system'' (Some (41, secext))]"

definition V81M_MVE_ONLY :: "reg_info list" where
  "V81M_MVE_ONLY =
   [CoreRegisterInfo ''vpr'' 36 32 ''uint32'' ''mve'' (Some (32, mve))]"

definition VFP_V5 :: "reg_info list" where
  "VFP_V5 =
   [CoreRegisterInfo ''fpscr'' 33 32 ''uint32'' ''float'' (Some (33, vfp)),
    CoreRegisterInfo ''s0'' 64 32 ''ieee_single'' ''float'' None,
    CoreRegisterInfo ''s1'' 65 32 ''ieee_single'' ''float'' None,
    CoreRegisterInfo ''s2'' 66 32 ''ieee_single'' ''float'' None,
    CoreRegisterInfo ''s3'' 67 32 ''ieee_single'' ''float'' None,
    CoreRegisterInfo ''s4'' 68 32 ''ieee_single'' ''float'' None,
    CoreRegisterInfo ''s5'' 69 32 ''ieee_single'' ''float'' None,
    CoreRegisterInfo ''s6'' 70 32 ''ieee_single'' ''float'' None,
    CoreRegisterInfo ''s7'' 71 32 ''ieee_single'' ''float'' None,
    CoreRegisterInfo ''s8'' 72 32 ''ieee_single'' ''float'' None,
    CoreRegisterInfo ''s9'' 73 32 ''ieee_single'' ''float'' None,
    CoreRegisterInfo ''s10'' 74 32 ''ieee_single'' ''float'' None,
    CoreRegisterInfo ''s11'' 75 32 ''ieee_single'' ''float'' None,
    CoreRegisterInfo ''s12'' 76 32 ''ieee_single'' ''float'' None,
    CoreRegisterInfo ''s13'' 77 32 ''ieee_single'' ''float'' None,
    CoreRegisterInfo ''s14'' 78 32 ''ieee_single'' ''float'' None,
    CoreRegisterInfo ''s15'' 79 32 ''ieee_single'' ''float'' None,
    CoreRegisterInfo ''s16'' 80 32 ''ieee_single'' ''float'' None,
    CoreRegisterInfo ''s17'' 81 32 ''ieee_single'' ''float'' None,
    CoreRegisterInfo ''s18'' 82 32 ''ieee_single'' ''float'' None,
    CoreRegisterInfo ''s19'' 83 32 ''ieee_single'' ''float'' None,
    CoreRegisterInfo ''s20'' 84 32 ''ieee_single'' ''float'' None,
    CoreRegisterInfo ''s21'' 85 32 ''ieee_single'' ''float'' None,
    CoreRegisterInfo ''s22'' 86 32 ''ieee_single'' ''float'' None,
    CoreRegisterInfo ''s23'' 87 32 ''ieee_single'' ''float'' None,
    CoreRegisterInfo ''s24'' 88 32 ''ieee_single'' ''float'' None,
    CoreRegisterInfo ''s25'' 89 32 ''ieee_single'' ''float'' None,
    CoreRegisterInfo ''s26'' 90 32 ''ieee_single'' ''float'' None,
    CoreRegisterInfo ''s27'' 91 32 ''ieee_single'' ''float'' None,
    CoreRegisterInfo ''s28'' 92 32 ''ieee_single'' ''float'' None,
    CoreRegisterInfo ''s29'' 93 32 ''ieee_single'' ''float'' None,
    CoreRegisterInfo ''s30'' 94 32 ''ieee_single'' ''float'' None,
    CoreRegisterInfo ''s31'' 95 32 ''ieee_single'' ''float'' None,
    CoreRegisterInfo ''d0'' (- 64) 64 ''ieee_double'' ''double'' (Some (48, vfp)),
    CoreRegisterInfo ''d1'' (- 66) 64 ''ieee_double'' ''double'' (Some (49, vfp)),
    CoreRegisterInfo ''d2'' (- 68) 64 ''ieee_double'' ''double'' (Some (50, vfp)),
    CoreRegisterInfo ''d3'' (- 70) 64 ''ieee_double'' ''double'' (Some (51, vfp)),
    CoreRegisterInfo ''d4'' (- 72) 64 ''ieee_double'' ''double'' (Some (52, vfp)),
    CoreRegisterInfo ''d5'' (- 74) 64 ''ieee_double'' ''double'' (Some (53, vfp)),
    CoreRegisterInfo ''d6'' (- 76) 64 ''ieee_double'' ''double'' (Some (54, vfp)),
    CoreRegisterInfo ''d7'' (- 78) 64 ''ieee_double'' ''double'' (Some (55, vfp)),
    CoreRegisterInfo ''d8'' (- 80) 64 ''ieee_double'' ''double'' (Some (56, vfp)),
    CoreRegisterInfo ''d9'' (- 82) 64 ''ieee_double'' ''double'' (Some (57, vfp)),
    CoreRegisterInfo ''d10'' (- 84) 64 ''ieee_double'' ''double'' (Some (58, vfp)),
    CoreRegisterInfo ''d11'' (- 86) 64 ''ieee_double'' ''double'' (Some (59, vfp)),
    CoreRegisterInfo ''d12'' (- 88) 64 ''ieee_double'' ''double'' (Some (60, vfp)),
    CoreRegisterInfo ''d13'' (- 90) 64 ''ieee_double'' ''double'' (Some (61, vfp)),
    CoreRegisterInfo ''d14'' (- 92) 64 ''ieee_double'' ''double'' (Some (62, vfp)),
    CoreRegisterInfo ''d15'' (- 94) 64 ''ieee_double'' ''double'' (Some (63, vfp))]"

text \<open>\<open>add_to_map\<close>, and the maps the class is built with.\<close>

definition add_to_map ::
    "(string \<rightharpoonup> reg_info) \<times> (int \<rightharpoonup> reg_info) \<Rightarrow> reg_info list \<Rightarrow> (string \<rightharpoonup> reg_info) \<times> (int \<rightharpoonup> reg_info)" where
  "add_to_map maps all_regs =
     foldl (\<lambda>(name_map, index_map) reg. (name_map(ri_name reg \<mapsto> reg), index_map(ri_index reg \<mapsto> reg))) maps all_regs"

definition all_registers :: "reg_info list" where
  "all_registers = M_PROFILE_COMMON @ V7M_v8M_ML_ONLY @ V8M_SEC_ONLY @ V8M_ML_SEC_ONLY @ V81M_MVE_ONLY @ VFP_V5"

definition reg_maps :: "(string \<rightharpoonup> reg_info) \<times> (int \<rightharpoonup> reg_info)" where
  "reg_maps = add_to_map (Map.empty, Map.empty) all_registers"

text \<open>A register is named or given by its index.\<close>

datatype reg_ref = RegName string | RegIndex int

fun get_info :: "reg_ref \<Rightarrow> exn + reg_info" where
  "get_info (RegName nm) = (case fst reg_maps (lower nm) of None \<Rightarrow> Inl KeyError | Some info \<Rightarrow> Inr info)"
| "get_info (RegIndex i) = (case snd reg_maps i of None \<Rightarrow> Inl KeyError | Some info \<Rightarrow> Inr info)"

fun register_name_to_index :: "reg_ref \<Rightarrow> exn + int" where
  "register_name_to_index (RegName nm) =
     (case fst reg_maps (lower nm) of None \<Rightarrow> Inl KeyError | Some info \<Rightarrow> Inr (ri_index info))"
| "register_name_to_index (RegIndex i) = Inr i"

definition index_for_reg :: "reg_ref \<Rightarrow> exn + int" where
  "index_for_reg reg = res_bind (get_info reg) (\<lambda>info. Inr (ri_index info))"

definition is_single_float_register :: "reg_info \<Rightarrow> bool" where
  "is_single_float_register r \<longleftrightarrow> ri_gdb_type r = ''ieee_single''"

definition is_double_float_register :: "reg_info \<Rightarrow> bool" where
  "is_double_float_register r \<longleftrightarrow> ri_gdb_type r = ''ieee_double''"

definition is_float_register :: "reg_info \<Rightarrow> bool" where
  "is_float_register r \<longleftrightarrow> is_single_float_register r \<or> is_double_float_register r"

definition is_fpu_register :: "reg_info \<Rightarrow> bool" where
  "is_fpu_register r \<longleftrightarrow> ri_index r = 33 \<or> is_float_register r"

definition is_cfbp_subregister :: "reg_info \<Rightarrow> bool" where
  "is_cfbp_subregister r \<longleftrightarrow> ri_index r > 0 \<and> drop_bit 8 (ri_index r) \<in> {20, 34, 35}"

definition is_psr_subregister :: "reg_info \<Rightarrow> bool" where
  "is_psr_subregister r \<longleftrightarrow> 0x10000 \<le> ri_index r \<and> ri_index r \<le> 0x10007"

definition APSR_MASK :: int where "APSR_MASK = 0xF80F0000"
definition EPSR_MASK :: int where "EPSR_MASK = 0x0700FC00"
definition IPSR_MASK :: int where "IPSR_MASK = 0x000001FF"

definition psr_mask :: "reg_info \<Rightarrow> int" where
  "psr_mask r =
     (let m0 = 0;
          m1 = (if ri_index r AND 1 \<noteq> 0 then m0 OR IPSR_MASK else m0);
          m2 = (if ri_index r AND 2 \<noteq> 0 then m1 OR EPSR_MASK else m1)
      in if ri_index r AND 4 = 0 then m2 OR APSR_MASK else m2)"

subsection \<open>The registers a core has\<close>

text \<open>
  \<open>CoreRegistersIndex\<close>.  \<open>_all\<close> is a set of objects that are equal when their indexes are, so
  adding one whose index is there leaves the first; the maps take the later one.
\<close>

record core_index =
  ci_groups :: "string list"
  ci_all :: "reg_info list"
  ci_by_name :: "string \<rightharpoonup> reg_info"
  ci_by_index :: "int \<rightharpoonup> reg_info"
  ci_by_feature :: "string \<rightharpoonup> reg_info list"

definition CoreRegistersIndex :: core_index where
  "CoreRegistersIndex = \<lparr>ci_groups = [], ci_all = [], ci_by_name = Map.empty, ci_by_index = Map.empty,
     ci_by_feature = Map.empty\<rparr>"

definition add_register :: "reg_info \<Rightarrow> core_index \<Rightarrow> core_index" where
  "add_register reg ci =
     (let ci = ci\<lparr>ci_groups := List.insert (ri_group reg) (ci_groups ci),
                 ci_all := (if ri_index reg \<in> set (map ri_index (ci_all ci)) then ci_all ci else ci_all ci @ [reg]),
                 ci_by_name := (ci_by_name ci)(ri_name reg \<mapsto> reg),
                 ci_by_index := (ci_by_index ci)(ri_index reg \<mapsto> reg)\<rparr>
      in case ri_gdb_feature reg of
           None \<Rightarrow> ci
         | Some f \<Rightarrow> ci\<lparr>ci_by_feature := (ci_by_feature ci)(f \<mapsto>
             (case ci_by_feature ci f of None \<Rightarrow> [reg] | Some regs \<Rightarrow> regs @ [reg]))\<rparr>)"

definition add_group :: "reg_info list \<Rightarrow> core_index \<Rightarrow> core_index" where
  "add_group regs ci = foldl (\<lambda>ci reg. add_register reg ci) ci regs"

definition iter_matching :: "(reg_info \<Rightarrow> bool) \<Rightarrow> core_index \<Rightarrow> reg_info list" where
  "iter_matching p ci = filter p (ci_all ci)"

text \<open>
  \<open>check_reg_list\<close>: every register must be one of the core's.  The three ways it fails are all a
  KeyError: unknown to the class, no FPU, not in this CPU.
\<close>

fun check_reg_list :: "core_index \<Rightarrow> bool \<Rightarrow> int list \<Rightarrow> exn + unit" where
  "check_reg_list ci has_fpu [] = Inr ()"
| "check_reg_list ci has_fpu (reg # regs) =
     (if ci_by_index ci reg = None then
        res_bind (get_info (RegIndex reg)) (\<lambda>info.
          if is_fpu_register info \<and> \<not> has_fpu then Inl KeyError else Inl KeyError)
      else check_reg_list ci has_fpu regs)"

subsection \<open>The register table\<close>

lemma add_to_map_snd:
  "snd (add_to_map (n, m) regs) = m ++ map_of (rev (map (\<lambda>r. (ri_index r, r)) regs))"
  unfolding add_to_map_def by (induction regs arbitrary: n m) (auto simp: map_add_def fun_eq_iff split: option.splits)

lemma distinct_indexes: "distinct (map ri_index all_registers)"
  by code_simp

lemma map_of_rev_indexes:
  assumes "distinct (map ri_index regs)"
  shows "map_of (rev (map (\<lambda>r. (ri_index r, r)) regs)) i = find (\<lambda>r. ri_index r = i) regs"
  using assms
proof (induction regs)
  case (Cons r regs)
  have "find (\<lambda>r. ri_index r = i) regs = None" if "ri_index r = i"
    unfolding find_None_iff using Cons.prems that by (metis distinct.simps(2) image_eqI list.set_map list.simps(9))
  then show ?case using Cons by (cases "find (\<lambda>r. ri_index r = i) regs") (auto simp: map_add_def)
qed simp

lemma get_index_find: "get_info (RegIndex i) =
    (case find (\<lambda>r. ri_index r = i) all_registers of None \<Rightarrow> Inl KeyError | Some info \<Rightarrow> Inr info)"
  by (simp only: get_info.simps reg_maps_def add_to_map_snd map_of_rev_indexes [OF distinct_indexes] empty_map_add)

lemma get_index_Inr: "get_info (RegIndex i) = Inr r \<Longrightarrow> r \<in> set all_registers \<and> ri_index r = i"
  unfolding get_index_find by (auto simp: find_Some_iff split: option.splits)

definition is_known :: "int \<Rightarrow> bool" where
  "is_known i = (find (\<lambda>r. ri_index r = i) all_registers \<noteq> None)"

text \<open>A register the hardware transfers as it is.\<close>

definition is_plain :: "reg_info \<Rightarrow> bool" where
  "is_plain r \<longleftrightarrow> \<not> is_double_float_register r \<and> \<not> is_cfbp_subregister r \<and> \<not> is_psr_subregister r"

definition plain_index :: "int \<Rightarrow> bool" where
  "plain_index i \<longleftrightarrow> i \<in> set (map ri_index (filter is_plain all_registers))"

lemma plain_registers: "map ri_index (filter is_plain all_registers)
    = map int ([0..<19] @ [20, 24, 25, 26, 27, 28, 29, 34, 35, 30, 31, 36, 33] @ [64..<96])"
  by code_simp

lemma plain_index_iff [code]: "plain_index i \<longleftrightarrow>
    0 \<le> i \<and> i < 19 \<or> i \<in> {20, 24, 25, 26, 27, 28, 29, 30, 31, 33, 34, 35, 36} \<or> 64 \<le> i \<and> i < 96"
proof -
  have "i \<in> int ` {a..<b} \<longleftrightarrow> int a \<le> i \<and> i < int b" for a b
    by (metis atLeastLessThan_iff image_int_atLeastLessThan)
  then show ?thesis unfolding plain_index_def plain_registers by (auto simp del: upt_rec_numeral)
qed

definition row_ok :: "reg_info \<Rightarrow> bool" where
  "row_ok r =
     (if is_double_float_register r then plain_index (- ri_index r) \<and> plain_index (- ri_index r + 1)
        \<and> \<not> is_cfbp_subregister r \<and> \<not> is_psr_subregister r
      else if is_cfbp_subregister r then plain_index (drop_bit 8 (ri_index r)) \<and> \<not> is_psr_subregister r
      else if is_psr_subregister r then True
      else 0 \<le> ri_index r \<and> ri_index r < 128)"

lemma rows_ok: "list_all row_ok all_registers"
  by code_simp

lemma xpsr_index: "index_for_reg (RegName ''xpsr'') = Inr 16"
  by code_simp

lemma xpsr_plain: "plain_index 16"
  by (simp add: plain_index_iff)

lemma distinct_names: "distinct (map ri_name all_registers)"
  by code_simp

lemma reg_info_unique:
  "r \<in> set all_registers \<Longrightarrow> r' \<in> set all_registers \<Longrightarrow> ri_index r = ri_index r' \<Longrightarrow> r = r'"
  using distinct_indexes by (auto simp: distinct_map inj_on_def)

lemma get_info_row:
  assumes "r \<in> set all_registers"
  shows "get_info (RegIndex (ri_index r)) = Inr r"
proof (cases "get_info (RegIndex (ri_index r))")
  case (Inl e)
  then have "find (\<lambda>r'. ri_index r' = ri_index r) all_registers = None"
    unfolding get_index_find by (simp split: option.splits)
  then show ?thesis using assms unfolding find_None_iff by blast
next
  case (Inr r')
  then have "r' \<in> set all_registers \<and> ri_index r' = ri_index r" by (rule get_index_Inr)
  then have "r' = r" using reg_info_unique assms by blast
  then show ?thesis using Inr by simp
qed

lemma reg_name_unique:
  "r \<in> set all_registers \<Longrightarrow> r' \<in> set all_registers \<Longrightarrow> ri_name r = ri_name r' \<Longrightarrow> r = r'"
  using distinct_names by (auto simp: distinct_map inj_on_def)

subsection \<open>The registers of a core\<close>

text \<open>
  All five views of the index show the same registers: the set of all, by name, by index, by group
  and by feature.
\<close>

definition index_ok :: "core_index \<Rightarrow> bool" where
  "index_ok ci \<longleftrightarrow> set (ci_all ci) \<subseteq> set all_registers \<and> distinct (ci_all ci)
     \<and> (\<forall>i r. ci_by_index ci i = Some r \<longleftrightarrow> r \<in> set (ci_all ci) \<and> ri_index r = i)
     \<and> (\<forall>nm r. ci_by_name ci nm = Some r \<longleftrightarrow> r \<in> set (ci_all ci) \<and> ri_name r = nm)
     \<and> set (ci_groups ci) = ri_group ` set (ci_all ci)
     \<and> (\<forall>f. set (case ci_by_feature ci f of None \<Rightarrow> [] | Some regs \<Rightarrow> regs)
           = {r \<in> set (ci_all ci). ri_gdb_feature r = Some f})"

lemma index_ok_empty: "index_ok CoreRegistersIndex"
  by (simp add: index_ok_def CoreRegistersIndex_def)

lemma add_register_all:
  assumes "set (ci_all ci) \<subseteq> set all_registers" and "r \<in> set all_registers"
  shows "set (ci_all (add_register r ci)) = insert r (set (ci_all ci))"
  using assms reg_info_unique [of r] by (auto simp: add_register_def Let_def split: option.splits)

lemma index_ok_add:
  assumes ok: "index_ok ci" and r: "r \<in> set all_registers"
  shows "index_ok (add_register r ci)"
proof -
  have sub: "set (ci_all ci) \<subseteq> set all_registers" using ok by (simp add: index_ok_def)
  note all = add_register_all [OF sub r]
  have ix: "r' = r" if "r' \<in> set (ci_all ci)" "ri_index r' = ri_index r" for r'
    using reg_info_unique [of r' r] that sub r by blast
  have nm: "r' = r" if "r' \<in> set (ci_all ci)" "ri_name r' = ri_name r" for r'
    using reg_name_unique [of r' r] that sub r by blast
  have bi: "ci_by_index (add_register r ci) = (ci_by_index ci)(ri_index r \<mapsto> r)"
    and bn: "ci_by_name (add_register r ci) = (ci_by_name ci)(ri_name r \<mapsto> r)"
    and gr: "set (ci_groups (add_register r ci)) = insert (ri_group r) (set (ci_groups ci))"
    and di: "distinct (ci_all ci) \<Longrightarrow> distinct (ci_all (add_register r ci))"
    by (auto simp: add_register_def Let_def split: option.splits)
  have bf: "set (case ci_by_feature (add_register r ci) f of None \<Rightarrow> [] | Some regs \<Rightarrow> regs)
      = set (case ci_by_feature ci f of None \<Rightarrow> [] | Some regs \<Rightarrow> regs) \<union> (if ri_gdb_feature r = Some f then {r} else {})" for f
    by (auto simp: add_register_def Let_def split: option.splits if_splits)
  have 1: "ci_by_index (add_register r ci) i = Some r' \<longleftrightarrow> r' \<in> set (ci_all (add_register r ci)) \<and> ri_index r' = i" for i r'
    using ok ix unfolding bi all by (auto simp: index_ok_def)
  have 2: "ci_by_name (add_register r ci) n = Some r' \<longleftrightarrow> r' \<in> set (ci_all (add_register r ci)) \<and> ri_name r' = n" for n r'
    using ok nm unfolding bn all by (auto simp: index_ok_def)
  have 3: "set (case ci_by_feature (add_register r ci) f of None \<Rightarrow> [] | Some regs \<Rightarrow> regs)
      = {r' \<in> set (ci_all (add_register r ci)). ri_gdb_feature r' = Some f}" for f
  proof -
    have "set (case ci_by_feature ci f of None \<Rightarrow> [] | Some regs \<Rightarrow> regs) = {r \<in> set (ci_all ci). ri_gdb_feature r = Some f}"
      using ok by (simp add: index_ok_def)
    then show ?thesis unfolding bf all by auto
  qed
  show ?thesis
    unfolding index_ok_def using 1 2 3 gr di ok r all by (auto simp: index_ok_def)
qed

lemma index_ok_add_group: "index_ok ci \<Longrightarrow> set regs \<subseteq> set all_registers \<Longrightarrow>
    index_ok (add_group regs ci) \<and> set (ci_all (add_group regs ci)) = set (ci_all ci) \<union> set regs"
proof (induction regs arbitrary: ci)
  case (Cons r regs)
  have r: "r \<in> set all_registers" and ok: "index_ok (add_register r ci)"
    using Cons.prems index_ok_add by auto
  have "set (ci_all (add_register r ci)) = insert r (set (ci_all ci))"
    using Cons.prems r by (intro add_register_all) (auto simp: index_ok_def)
  then show ?case using Cons.IH [OF ok] Cons.prems(2) by (auto simp: add_group_def)
qed (simp add: add_group_def)

text \<open>
  C27. The index of a core's registers is consistent: from the empty index, whatever groups of the
  table are added, in whatever order and however often, exactly the added registers are in it, and
  the lookups by index and by name, the group names and the feature lists all agree with that set.
\<close>

theorem add_groups_consistent:
  assumes "\<forall>g \<in> set groups. set g \<subseteq> set all_registers"
  shows "let ci = foldl (\<lambda>ci g. add_group g ci) CoreRegistersIndex groups in
    index_ok ci \<and> set (ci_all ci) = (\<Union>g \<in> set groups. set g)"
proof -
  have "index_ok ci \<Longrightarrow> (\<forall>g \<in> set groups. set g \<subseteq> set all_registers) \<Longrightarrow>
      index_ok (foldl (\<lambda>ci g. add_group g ci) ci groups)
      \<and> set (ci_all (foldl (\<lambda>ci g. add_group g ci) ci groups)) = set (ci_all ci) \<union> (\<Union>g \<in> set groups. set g)" for ci
  proof (induction groups arbitrary: ci)
    case (Cons g groups)
    then show ?case using index_ok_add_group [of ci g] by auto
  qed simp
  from this [OF index_ok_empty assms] show ?thesis by (simp add: Let_def CoreRegistersIndex_def)
qed

lemma v7m_groups: "\<forall>g \<in> set [M_PROFILE_COMMON, V7M_v8M_ML_ONLY, VFP_V5]. set g \<subseteq> set all_registers"
  unfolding all_registers_def by auto

definition v7m_index :: core_index where
  "v7m_index = foldl (\<lambda>ci g. add_group g ci) CoreRegistersIndex [M_PROFILE_COMMON, V7M_v8M_ML_ONLY, VFP_V5]"

theorem add_groups_consistent_witness:
  "index_ok (foldl (\<lambda>ci g. add_group g ci) CoreRegistersIndex [M_PROFILE_COMMON, V7M_v8M_ML_ONLY, VFP_V5])"
  using add_groups_consistent [OF v7m_groups] by (simp only: Let_def)

lemma v7m_index_ok: "index_ok v7m_index"
  using index_ok_add_group [OF index_ok_empty, of M_PROFILE_COMMON]
    index_ok_add_group [of "add_group M_PROFILE_COMMON CoreRegistersIndex" V7M_v8M_ML_ONLY]
    index_ok_add_group [of "add_group V7M_v8M_ML_ONLY (add_group M_PROFILE_COMMON CoreRegistersIndex)" VFP_V5]
    v7m_groups
  by (simp add: v7m_index_def)

lemma check_reg_list_known:
  assumes "index_ok ci" and "check_reg_list ci has_fpu regs = Inr ()"
  shows "\<exists>infos. res_map (\<lambda>reg. get_info (RegIndex reg)) regs = Inr infos \<and> set infos \<subseteq> set (ci_all ci) \<and> map ri_index infos = regs"
  using assms(2)
proof (induction regs)
  case (Cons i regs)
  then obtain r where r: "ci_by_index ci i = Some r" by (auto split: if_splits simp: res_bind_def split: sum.splits)
  then have "r \<in> set (ci_all ci)" "r \<in> set all_registers" "ri_index r = i" using assms(1) by (auto simp: index_ok_def)
  moreover obtain infos where "res_map (\<lambda>reg. get_info (RegIndex reg)) regs = Inr infos"
    "set infos \<subseteq> set (ci_all ci)" "map ri_index infos = regs"
    using Cons r by (auto simp del: get_info.simps)
  ultimately show ?case using get_info_row [of r] by (auto simp del: get_info.simps)
qed simp

lemma check_reg_list_here:
  assumes "index_ok ci"
  shows "\<forall>i \<in> set regs. i \<in> ri_index ` set (ci_all ci) \<Longrightarrow> check_reg_list ci has_fpu regs = Inr ()"
proof (induction regs)
  case (Cons i regs)
  then obtain r where "r \<in> set (ci_all ci)" "ri_index r = i" by auto
  then have "ci_by_index ci i = Some r" using assms by (simp add: index_ok_def)
  then show ?case using Cons by simp
qed simp

lemma v7m_all: "set (ci_all v7m_index) = set (M_PROFILE_COMMON @ V7M_v8M_ML_ONLY @ VFP_V5)"
proof -
  have e: "set (ci_all CoreRegistersIndex) = {}" by (simp add: CoreRegistersIndex_def)
  note 1 = index_ok_add_group [OF index_ok_empty, of M_PROFILE_COMMON]
  note 2 = index_ok_add_group [of "add_group M_PROFILE_COMMON CoreRegistersIndex" V7M_v8M_ML_ONLY]
  note 3 = index_ok_add_group [of "add_group V7M_v8M_ML_ONLY (add_group M_PROFILE_COMMON CoreRegistersIndex)" VFP_V5]
  show ?thesis using 1 2 3 v7m_groups e by (simp add: v7m_index_def Un_assoc)
qed

definition v7m_indexes :: "int list" where
  "v7m_indexes = map ri_index (M_PROFILE_COMMON @ V7M_v8M_ML_ONLY @ VFP_V5)"

lemma check_v7m: "list_all (\<lambda>i. i \<in> set v7m_indexes) regs \<Longrightarrow> check_reg_list v7m_index has_fpu regs = Inr ()"
  by (rule check_reg_list_here [OF v7m_index_ok]) (simp add: v7m_all v7m_indexes_def list_all_iff image_Un)

end
