(* ===== verification/Register_Access.thy ===== *)
theory Register_Access
  imports Core_Registers Conversion
begin

text \<open>
  The core register access of \<open>pyocd/coresight/cortex_m.py\<close> (\<open>read_core_registers_raw\<close>,
  \<open>write_core_registers_raw\<close> and the routines below them).  The locale \<open>dcrsr_hw\<close> states what
  the debug hardware's register transfer does; in it reads are shown to return the values of the
  registers (byte registers of CFBP, masks of XPSR, doubles made of two singles) and writes to
  perform the updates in order.  A deferred read (\<open>now=False\<close>) and its callback are one operation
  at the place where the read is issued.
\<close>

subsection \<open>Reading\<close>

text \<open>The core's accesses: its debug state and its memory interface.\<close>

record 's core_ops =
  co_is_halted :: "('s, bool) exec"
  co_read32 :: "int \<Rightarrow> ('s, int) exec"
  co_write_memory :: "int \<Rightarrow> int \<Rightarrow> ('s, unit) exec"

definition DCRSR :: int where "DCRSR = 0xE000EDF4"
definition DCRSR_REGWnR :: int where "DCRSR_REGWnR = 2 ^ 16"
definition DHCSR :: int where "DHCSR = 0xE000EDF0"
definition S_REGRDY :: int where "S_REGRDY = 2 ^ 16"
definition DCRDR :: int where "DCRDR = 0xE000EDF8"

text \<open>The register's number in DCRSR.\<close>

definition selector :: "reg_info \<Rightarrow> exn + int" where
  "selector info =
     (if is_cfbp_subregister info then Inr (drop_bit 8 (ri_index info))
      else if is_psr_subregister info then index_for_reg (RegName ''xpsr'')
      else Inr (ri_index info))"

text \<open>The register's part of the value transferred.\<close>

definition register_part :: "reg_info \<Rightarrow> int \<Rightarrow> int" where
  "register_part info val =
     (if is_cfbp_subregister info then drop_bit (nat ((ri_index info AND 3) * 8)) val AND 0xff
      else if is_psr_subregister info then val AND psr_mask info
      else val)"

definition issue_read :: "'s core_ops \<Rightarrow> reg_info \<Rightarrow> ('s, int \<times> int) exec" where
  "issue_read D info =
     bind (lift_res (selector info)) (\<lambda>sel.
     bind (co_write_memory D DCRSR sel) (\<lambda>_.
     bind (co_read32 D DHCSR) (\<lambda>dhcsr_val.
     bind (co_read32 D DCRDR) (\<lambda>val. ret (dhcsr_val, val)))))"

text \<open>A read of registers none of which is a double.\<close>

definition read_plain :: "'s core_ops \<Rightarrow> reg_info list \<Rightarrow> ('s, int list) exec" where
  "read_plain D infos =
     bind (exec_map (issue_read D) infos) (\<lambda>rows.
       if filter (\<lambda>(dhcsr_val, val). dhcsr_val AND S_REGRDY = 0) rows \<noteq> []
       then raise CoreRegisterAccessError
       else ret (map (\<lambda>(info, dhcsr_val, val). register_part info val) (zip infos rows)))"

definition infos_of :: "int list \<Rightarrow> exn + reg_info list" where
  "infos_of regs = res_map (\<lambda>reg. get_info (RegIndex reg)) regs"

text \<open>The singles a double is made of.\<close>

definition singles_of :: "reg_info list \<Rightarrow> int list" where
  "singles_of doubles = concat (map (\<lambda>r. [- ri_index r, - ri_index r + 1]) doubles)"

definition merge_doubles :: "reg_info list \<Rightarrow> int list \<Rightarrow> int list \<Rightarrow> int list" where
  "merge_doubles infos single_values reg_vals =
     (let doubles = map ri_index (filter is_double_float_register infos);
          others = map ri_index (filter (\<lambda>r. \<not> is_double_float_register r) infos)
      in map (\<lambda>r. if is_double_float_register r
           then (let i = index_of doubles (ri_index r) * 2
                 in push_bit 32 (single_values ! (i + 1)) OR single_values ! i)
           else reg_vals ! index_of others (ri_index r)) infos)"

text \<open>
  \<open>_base_read_core_registers_raw\<close>.  It calls itself once, for the singles of the doubles; among
  those is no double (\<open>double_parts\<close> below), so that call is the read of plain registers, after
  its own check that the core is halted.  The registers' descriptions are looked up first: an index
  without one raises KeyError, halted or not.
\<close>

definition base_read :: "'s core_ops \<Rightarrow> int list \<Rightarrow> ('s, int list) exec" where
  "base_read D regs =
     bind (co_is_halted D) (\<lambda>h.
     bind (lift_res (infos_of regs)) (\<lambda>infos.
       if \<not> h then raise CoreRegisterAccessError
       else
         (let doubles = filter is_double_float_register infos in
          if doubles = [] then read_plain D infos
          else
            bind (co_is_halted D) (\<lambda>h2.
            bind (lift_res (infos_of (singles_of doubles))) (\<lambda>single_infos.
              if \<not> h2 then raise CoreRegisterAccessError
              else
                bind (read_plain D single_infos) (\<lambda>single_values.
                bind (read_plain D (filter (\<lambda>r. \<not> is_double_float_register r) infos)) (\<lambda>reg_vals.
                  ret (merge_doubles infos single_values reg_vals))))))))"

definition read_core_registers_raw :: "'s core_ops \<Rightarrow> core_index \<Rightarrow> bool \<Rightarrow> reg_ref list \<Rightarrow> ('s, int list) exec" where
  "read_core_registers_raw D ci has_fpu reg_list =
     bind (lift_res (res_map register_name_to_index reg_list)) (\<lambda>regs.
     bind (lift_res (check_reg_list ci has_fpu regs)) (\<lambda>_.
       base_read D regs))"

subsection \<open>Writing\<close>

text \<open>
  The state of the loop that prepares the writes: the value to write to XPSR, the plain writes, and
  the writes of the combined CFBP registers.
\<close>

record write_plan =
  pl_xpsr :: "int option"
  pl_data :: "(int \<times> int) list"
  pl_extra :: "(int \<times> int) list"

text \<open>The first pending write of a register is updated; there is none when the result is None.\<close>

fun update_pending :: "int \<Rightarrow> (int \<Rightarrow> int) \<Rightarrow> (int \<times> int) list \<Rightarrow> (int \<times> int) list option" where
  "update_pending r f [] = None"
| "update_pending r f ((reg32, data32) # rest) =
     (if reg32 = r then Some ((reg32, f data32) # rest)
      else map_option (Cons (reg32, data32)) (update_pending r f rest))"

definition set_byte :: "int \<Rightarrow> int \<Rightarrow> int \<Rightarrow> int" where
  "set_byte reg v data32 =
     (let shift = nat ((reg AND 3) * 8); mask = 0xffffffff XOR push_bit shift 0xff
      in (data32 AND mask) OR push_bit shift (v AND 0xff))"

definition read_one :: "'s core_ops \<Rightarrow> int \<Rightarrow> ('s, int) exec" where
  "read_one D reg = bind (base_read D [reg]) (\<lambda>vals. lift_res (py_index vals 0))"

definition plan_write :: "'s core_ops \<Rightarrow> int \<times> int \<Rightarrow> write_plan \<Rightarrow> ('s, write_plan) exec" where
  "plan_write D rd p = (case rd of (reg, v) \<Rightarrow>
     bind (lift_res (get_info (RegIndex reg))) (\<lambda>info.
       if is_double_float_register info then
         ret (p\<lparr>pl_data := pl_data p @ [(- reg, v AND 0xffffffff), (- reg + 1, drop_bit 32 v AND 0xffffffff)]\<rparr>)
       else if is_cfbp_subregister info then
         (case update_pending (drop_bit 8 reg) (set_byte reg v) (pl_extra p) of
            Some extra \<Rightarrow> ret (p\<lparr>pl_extra := extra\<rparr>)
          | None \<Rightarrow>
              bind (lift_res (index_for_reg (RegIndex (drop_bit 8 reg)))) (\<lambda>reg32.
              bind (read_one D reg32) (\<lambda>data32.
                ret (p\<lparr>pl_extra := pl_extra p @ [(drop_bit 8 reg, set_byte reg v data32)]\<rparr>))))
       else if is_psr_subregister info then
         bind (case pl_xpsr p of
                 Some x \<Rightarrow> ret x
               | None \<Rightarrow> bind (lift_res (index_for_reg (RegName ''xpsr''))) (read_one D)) (\<lambda>x.
           let mask = psr_mask info in
           ret (p\<lparr>pl_xpsr := Some ((x AND (0xffffffff XOR mask)) OR (v AND mask))\<rparr>))
       else ret (p\<lparr>pl_data := pl_data p @ [(reg, v)]\<rparr>)))"

fun plan_writes :: "'s core_ops \<Rightarrow> (int \<times> int) list \<Rightarrow> write_plan \<Rightarrow> ('s, write_plan) exec" where
  "plan_writes D [] p = ret p"
| "plan_writes D (rd # rds) p = bind (plan_write D rd p) (plan_writes D rds)"

definition planned :: "write_plan \<Rightarrow> exn + (int \<times> int) list" where
  "planned p =
     (case pl_xpsr p of
        None \<Rightarrow> Inr (pl_data p @ pl_extra p)
      | Some x \<Rightarrow> res_bind (index_for_reg (RegName ''xpsr'')) (\<lambda>reg. Inr (pl_data p @ [(reg, x)] @ pl_extra p)))"

definition issue_write :: "'s core_ops \<Rightarrow> int \<times> int \<Rightarrow> ('s, int) exec" where
  "issue_write D rd =
     bind (co_write_memory D DCRDR (snd rd)) (\<lambda>_.
     bind (co_write_memory D DCRSR (fst rd OR DCRSR_REGWnR)) (\<lambda>_.
       co_read32 D DHCSR))"

text \<open>\<open>_base_write_core_registers_raw\<close>\<close>

definition base_write :: "'s core_ops \<Rightarrow> int list \<Rightarrow> int list \<Rightarrow> ('s, unit) exec" where
  "base_write D reg_list data_list =
     bind (co_is_halted D) (\<lambda>h.
       if \<not> h then bind (lift_res (infos_of reg_list)) (\<lambda>_. raise CoreRegisterAccessError)
       else
         bind (plan_writes D (zip reg_list data_list) \<lparr>pl_xpsr = None, pl_data = [], pl_extra = []\<rparr>) (\<lambda>p.
         bind (lift_res (planned p)) (\<lambda>writes.
         bind (exec_map (issue_write D) writes) (\<lambda>rows.
           if filter (\<lambda>dhcsr_val. dhcsr_val AND S_REGRDY = 0) rows \<noteq> []
           then raise CoreRegisterAccessError else ret ()))))"

definition write_core_registers_raw ::
    "'s core_ops \<Rightarrow> core_index \<Rightarrow> bool \<Rightarrow> reg_ref list \<Rightarrow> int list \<Rightarrow> ('s, unit) exec" where
  "write_core_registers_raw D ci has_fpu reg_list data_list =
     bind (assert_that (length reg_list = length data_list)) (\<lambda>_.
     bind (lift_res (res_map register_name_to_index reg_list)) (\<lambda>regs.
     bind (lift_res (check_reg_list ci has_fpu regs)) (\<lambda>_.
       base_write D regs data_list)))"

subsection \<open>Register values\<close>

text \<open>What the code's registers are in terms of the hardware's, and what assigning to one means.\<close>

definition reg_value :: "(int \<Rightarrow> int) \<Rightarrow> reg_info \<Rightarrow> int" where
  "reg_value raw r =
     (if is_double_float_register r then push_bit 32 (raw (- ri_index r + 1)) OR raw (- ri_index r)
      else if is_cfbp_subregister r then drop_bit (nat ((ri_index r AND 3) * 8)) (raw (drop_bit 8 (ri_index r))) AND 0xff
      else if is_psr_subregister r then raw 16 AND psr_mask r
      else raw (ri_index r))"

definition reg_update :: "(int \<Rightarrow> int) \<Rightarrow> reg_info \<times> int \<Rightarrow> (int \<Rightarrow> int)" where
  "reg_update raw rv = (case rv of (r, v) \<Rightarrow>
     if is_double_float_register r then
       raw(- ri_index r := v AND 0xffffffff, - ri_index r + 1 := drop_bit 32 v AND 0xffffffff)
     else if is_cfbp_subregister r then
       raw(drop_bit 8 (ri_index r) := set_byte (ri_index r) v (raw (drop_bit 8 (ri_index r))))
     else if is_psr_subregister r then
       raw(16 := (raw 16 AND (0xffffffff XOR psr_mask r)) OR (v AND psr_mask r))
     else raw(ri_index r := v))"

text \<open>The number of the hardware register a register that is no double is transferred with.\<close>

definition sel_of :: "reg_info \<Rightarrow> int" where
  "sel_of r = (if is_cfbp_subregister r then drop_bit 8 (ri_index r) else if is_psr_subregister r then 16 else ri_index r)"

lemma selector_sel_of: "selector r = Inr (sel_of r)"
  by (simp add: selector_def sel_of_def xpsr_index)

lemma row_okI: "r \<in> set all_registers \<Longrightarrow> row_ok r"
  using rows_ok by (simp add: list_all_iff)

lemma plain_index_range: "plain_index i \<Longrightarrow> 0 \<le> i \<and> i < 128"
  by (auto simp: plain_index_iff)

lemma sel_of_range:
  "r \<in> set all_registers \<Longrightarrow> \<not> is_double_float_register r \<Longrightarrow> 0 \<le> sel_of r \<and> sel_of r < 128"
  using row_okI [of r] plain_index_range [of "sel_of r"] by (auto simp: row_ok_def sel_of_def)

lemma double_parts: "r \<in> set all_registers \<Longrightarrow> is_double_float_register r \<Longrightarrow>
    plain_index (- ri_index r) \<and> plain_index (- ri_index r + 1) \<and> is_cfbp_subregister r = False \<and> is_psr_subregister r = False"
  using row_okI [of r] by (auto simp: row_ok_def)

lemma cfbp_parent: "r \<in> set all_registers \<Longrightarrow> is_cfbp_subregister r \<Longrightarrow>
    plain_index (drop_bit 8 (ri_index r)) \<and> is_double_float_register r = False \<and> is_psr_subregister r = False"
  using row_okI [of r] by (auto simp: row_ok_def split: if_splits)

lemma plain_row: "plain_index i \<Longrightarrow> \<exists>r \<in> set all_registers. is_plain r \<and> ri_index r = i"
  by (auto simp: plain_index_def)

lemma get_info_plain: "plain_index i \<Longrightarrow> \<exists>r \<in> set all_registers. get_info (RegIndex i) = Inr r \<and> is_plain r \<and> ri_index r = i"
  using plain_row [of i] get_info_row by blast

lemma reg_value_plain: "is_plain r \<Longrightarrow> reg_value raw r = raw (ri_index r)"
  by (simp add: reg_value_def is_plain_def)

lemma register_part_value:
  "\<not> is_double_float_register r \<Longrightarrow> register_part r (raw (sel_of r)) = reg_value raw r"
  by (simp add: register_part_def reg_value_def sel_of_def)

lemma infos_of_row: "infos_of regs = Inr infos \<Longrightarrow> set infos \<subseteq> set all_registers \<and> map ri_index infos = regs"
proof -
  have "list_all2 (\<lambda>i r. get_info (RegIndex i) = Inr r) regs infos \<Longrightarrow>
      set infos \<subseteq> set all_registers \<and> map ri_index infos = regs"
    by (induction rule: list_all2_induct) (auto dest: get_index_Inr simp del: get_info.simps)
  then show "infos_of regs = Inr infos \<Longrightarrow> ?thesis"
    unfolding infos_of_def res_map_Inr_iff by blast
qed

lemma infos_of_map: "set infos \<subseteq> set all_registers \<Longrightarrow> infos_of (map ri_index infos) = Inr infos"
  unfolding infos_of_def by (induction infos) (simp_all add: get_info_row del: get_info.simps)

lemma infos_of_singles:
  assumes "set doubles \<subseteq> set all_registers" and "list_all is_double_float_register doubles"
  shows "\<exists>infos. infos_of (singles_of doubles) = Inr infos \<and> set infos \<subseteq> set all_registers
    \<and> list_all is_plain infos \<and> map ri_index infos = singles_of doubles"
  using assms
proof (induction doubles)
  case Nil
  then show ?case by (simp add: singles_of_def infos_of_def)
next
  case (Cons d ds)
  obtain a b where ab: "get_info (RegIndex (- ri_index d)) = Inr a" "get_info (RegIndex (- ri_index d + 1)) = Inr b"
    "a \<in> set all_registers" "b \<in> set all_registers" "is_plain a" "is_plain b"
    "ri_index a = - ri_index d" "ri_index b = - ri_index d + 1"
    using double_parts [of d] get_info_plain [of "- ri_index d"] get_info_plain [of "- ri_index d + 1"] Cons.prems
    by auto
  obtain infos where IH: "infos_of (singles_of ds) = Inr infos" "set infos \<subseteq> set all_registers"
    "list_all is_plain infos" "map ri_index infos = singles_of ds"
    using Cons by auto
  have split: "singles_of (d # ds) = [- ri_index d, - ri_index d + 1] @ singles_of ds"
    by (simp add: singles_of_def)
  have "infos_of (singles_of (d # ds)) = Inr (a # b # infos)"
    using IH(1) ab(1,2) unfolding split infos_of_def append_Cons append_Nil res_map.simps by simp
  then show ?case using IH ab split by (intro exI [of _ "a # b # infos"]) simp
qed

lemma singles_nth:
  "i < length doubles \<Longrightarrow> singles_of doubles ! (2 * i) = - ri_index (doubles ! i)
     \<and> singles_of doubles ! (2 * i + 1) = - ri_index (doubles ! i) + 1 \<and> 2 * i + 1 < length (singles_of doubles)"
proof (induction doubles arbitrary: i)
  case (Cons d ds)
  then show ?case by (cases i) (auto simp: singles_of_def)
qed simp

lemma index_of_map:
  assumes "r \<in> set rs" and "set rs \<subseteq> set all_registers"
  shows "index_of (map ri_index rs) (ri_index r) < length rs \<and> rs ! index_of (map ri_index rs) (ri_index r) = r"
proof -
  let ?i = "index_of (map ri_index rs) (ri_index r)"
  have i: "?i < length rs" using index_of_less [of "ri_index r" "map ri_index rs"] assms(1) by simp
  moreover have "map ri_index rs ! ?i = ri_index r"
    using nth_index_of [of "ri_index r" "map ri_index rs"] assms(1) by simp
  ultimately have "ri_index (rs ! ?i) = ri_index r" by simp
  then show ?thesis using i assms reg_info_unique [of "rs ! ?i" r] nth_mem [OF i] by blast
qed

text \<open>Putting the singles and the other registers' values together gives every register its value.\<close>

lemma merge_doubles_value:
  assumes "set infos \<subseteq> set all_registers"
  shows "merge_doubles infos (map raw (singles_of (filter is_double_float_register infos)))
      (map (reg_value raw) (filter (\<lambda>r. \<not> is_double_float_register r) infos)) = map (reg_value raw) infos"
  (is "merge_doubles infos (map raw (singles_of ?ds)) (map (reg_value raw) ?os) = _")
proof -
  have "(if is_double_float_register r
      then (let i = index_of (map ri_index ?ds) (ri_index r) * 2
            in push_bit 32 (map raw (singles_of ?ds) ! (i + 1)) OR map raw (singles_of ?ds) ! i)
      else map (reg_value raw) ?os ! index_of (map ri_index ?os) (ri_index r)) = reg_value raw r"
    if r: "r \<in> set infos" for r
  proof (cases "is_double_float_register r")
    case True
    define i where "i = index_of (map ri_index ?ds) (ri_index r)"
    have "i < length ?ds \<and> ?ds ! i = r"
      unfolding i_def using r True assms by (intro index_of_map) auto
    then show ?thesis using singles_nth [of i ?ds] True
      by (simp add: Let_def i_def [symmetric] mult.commute reg_value_def)
  next
    case False
    define i where "i = index_of (map ri_index ?os) (ri_index r)"
    have "i < length ?os \<and> ?os ! i = r"
      unfolding i_def using r False assms by (intro index_of_map) auto
    then show ?thesis using False by (simp add: i_def [symmetric])
  qed
  then show ?thesis by (simp add: merge_doubles_def Let_def)
qed

subsection \<open>Planned writes\<close>

definition apply_writes :: "(int \<Rightarrow> int) \<Rightarrow> (int \<times> int) list \<Rightarrow> (int \<Rightarrow> int)" where
  "apply_writes m ws = foldl (\<lambda>m (r, v). m(r := v)) m ws"

lemma apply_writes_simps [simp]:
  "apply_writes m [] = m"
  "apply_writes m ((r, v) # ws) = apply_writes (m(r := v)) ws"
  "apply_writes m (ws @ ws') = apply_writes (apply_writes m ws) ws'"
  by (simp_all add: apply_writes_def)

lemma apply_writes_other: "r \<notin> fst ` set ws \<Longrightarrow> apply_writes m ws r = m r"
  by (induction ws arbitrary: m) auto

lemma apply_writes_upd: "r \<notin> fst ` set ws \<Longrightarrow> apply_writes (m(r := v)) ws = (apply_writes m ws)(r := v)"
proof (induction ws arbitrary: m)
  case (Cons w ws)
  obtain a b where w: "w = (a, b)" by (cases w)
  have "a \<noteq> r" "r \<notin> fst ` set ws" using Cons.prems w by auto
  then show ?case
    unfolding w apply_writes_simps fun_upd_twist [OF \<open>a \<noteq> r\<close> [symmetric]] by (intro Cons.IH)
qed simp

text \<open>The whole registers a register stands for, and whether it is only a part of one.\<close>

definition parts :: "reg_info \<Rightarrow> int list" where
  "parts r = (if is_double_float_register r then [- ri_index r, - ri_index r + 1] else [sel_of r])"

definition merged :: "reg_info \<Rightarrow> bool" where
  "merged r \<longleftrightarrow> is_cfbp_subregister r \<or> is_psr_subregister r"

definition held :: "int set \<Rightarrow> reg_info list \<Rightarrow> bool" where
  "held U infos \<longleftrightarrow> (\<forall>r \<in> set infos. set (parts r) \<subseteq> U)"

text \<open>No list writes a register whole and also a part of it.\<close>

definition no_mix :: "reg_info list \<Rightarrow> bool" where
  "no_mix infos \<longleftrightarrow> list_all (\<lambda>a. list_all (\<lambda>b. merged a \<and> \<not> merged b \<longrightarrow>
     list_all (\<lambda>x. x \<notin> set (parts b)) (parts a)) infos) infos"

lemma update_pending_None: "update_pending r f ws = None \<longleftrightarrow> r \<notin> fst ` set ws"
  by (induction r f ws rule: update_pending.induct) auto

lemma update_pending_Some:
  "update_pending r f ws = Some ws' \<Longrightarrow> distinct (map fst ws) \<Longrightarrow>
     map fst ws' = map fst ws \<and> apply_writes m ws' = (apply_writes m ws)(r := f (apply_writes m ws r))
     \<and> (\<forall>(x, v) \<in> set ws'. (x, v) \<in> set ws \<or> (\<exists>u. (r, u) \<in> set ws \<and> v = f u))"
proof (induction r f ws arbitrary: ws' m rule: update_pending.induct)
  case (2 r f reg32 data32 rest)
  show ?case
  proof (cases "reg32 = r")
    case True
    then have "r \<notin> fst ` set rest" using 2 by auto
    then show ?thesis using 2 True by (auto simp: apply_writes_upd apply_writes_other)
  next
    case False
    then obtain ws2 where ws2: "update_pending r f rest = Some ws2" "ws' = (reg32, data32) # ws2"
      using 2 by auto
    have dist: "distinct (map fst rest)" using 2(3) by simp
    have IH: "map fst ws2 = map fst rest"
      "apply_writes (m(reg32 := data32)) ws2
        = (apply_writes (m(reg32 := data32)) rest)(r := f (apply_writes (m(reg32 := data32)) rest r))"
      "\<forall>(x, v) \<in> set ws2. (x, v) \<in> set rest \<or> (\<exists>u. (r, u) \<in> set rest \<and> v = f u)"
      using 2(1) [OF False ws2(1) dist, of "m(reg32 := data32)"] by blast+
    show ?thesis unfolding ws2(2) apply_writes_simps IH(2) using IH(1,3) by auto
  qed
qed simp

definition full_plan :: "write_plan \<Rightarrow> (int \<times> int) list" where
  "full_plan p = pl_data p @ (case pl_xpsr p of None \<Rightarrow> [] | Some x \<Rightarrow> [(16, x)]) @ pl_extra p"

lemma planned_full: "planned p = Inr (full_plan p)"
  by (simp add: planned_def full_plan_def xpsr_index split: option.splits)

lemma is_uint_iff: "is_uint n x \<longleftrightarrow> take_bit n x = x"
  by (simp add: is_uint_def take_bit_int_eq_self_iff)

lemma is_uint_and: "is_uint n x \<Longrightarrow> is_uint n (x AND y)" "is_uint n y \<Longrightarrow> is_uint n (x AND y)"
  by (simp_all add: is_uint_iff) (metis and.assoc and.commute take_bit_eq_mask)+

lemma is_uint_or: "is_uint n x \<Longrightarrow> is_uint n y \<Longrightarrow> is_uint n (x OR y)"
  by (simp add: is_uint_iff)

lemma psr_mask_uint: "is_uint 32 (psr_mask r)"
  by (auto simp: psr_mask_def Let_def APSR_MASK_def EPSR_MASK_def IPSR_MASK_def is_uint_def)

lemma set_byte_uint:
  assumes "is_uint 32 d"
  shows "is_uint 32 (set_byte i v d)"
proof -
  have "i AND 3 \<le> 3" using and_3_mod [of i] by simp
  then have "nat ((i AND 3) * 8) \<le> 24" by linarith
  then have "(2::int) ^ nat ((i AND 3) * 8) \<le> 2 ^ 24" by (intro power_increasing) auto
  moreover have "0 \<le> v AND 255" "v AND 255 \<le> 255" by (simp_all add: and_255_mod)
  ultimately have "(v AND 255) * 2 ^ nat ((i AND 3) * 8) \<le> 255 * 2 ^ 24" by (intro mult_mono) auto
  then have "is_uint 32 (push_bit (nat ((i AND 3) * 8)) (v AND 255))"
    by (simp add: is_uint_def push_bit_eq_mult and_255_mod)
  then show ?thesis using assms by (simp add: set_byte_def Let_def is_uint_or is_uint_and)
qed

text \<open>Values that can be written: one each, and those of whole registers within 32 bits.\<close>

definition writable :: "reg_info list \<Rightarrow> int list \<Rightarrow> bool" where
  "writable infos vals \<longleftrightarrow> length vals = length infos \<and> no_mix infos
     \<and> list_all (\<lambda>(r, v). is_plain r \<longrightarrow> is_uint 32 v) (zip infos vals)"

text \<open>
  A plan for the registers done so far, from the register values \<open>m\<close>: carried out, it has their
  effect.  \<open>P\<close> are the registers written whole, \<open>M\<close> those written in part.
\<close>

definition plan_for :: "(int \<Rightarrow> int) \<Rightarrow> int set \<Rightarrow> int set \<Rightarrow> (int \<Rightarrow> int) \<Rightarrow> write_plan \<Rightarrow> bool" where
  "plan_for m P M m' p \<longleftrightarrow> apply_writes m (full_plan p) = m' \<and> distinct (map fst (pl_extra p))
     \<and> fst ` set (pl_data p) \<subseteq> P \<and> fst ` set (pl_extra p) \<subseteq> M - {16} \<and> (pl_xpsr p \<noteq> None \<longrightarrow> 16 \<in> M)
     \<and> (\<forall>(r, v) \<in> set (full_plan p). 0 \<le> r \<and> r < 128 \<and> is_uint 32 v)"

lemma apply_writes_comm:
  "fst ` set ws \<inter> fst ` set ws' = {} \<Longrightarrow>
     apply_writes (apply_writes m ws) ws' = apply_writes (apply_writes m ws') ws"
proof (induction ws arbitrary: m)
  case (Cons w ws)
  obtain a b where w: "w = (a, b)" by (cases w)
  have a: "a \<notin> fst ` set ws'" and ws: "fst ` set ws \<inter> fst ` set ws' = {}" using Cons.prems w by auto
  show ?case
    unfolding w apply_writes_simps Cons.IH [OF ws] apply_writes_upd [OF a] ..
qed simp

lemma plan_for_data:
  assumes p: "plan_for m P M m' p" and "P \<inter> M = {}"
    and ws: "\<forall>(x, v) \<in> set ws. x \<in> P \<and> 0 \<le> x \<and> x < 128 \<and> is_uint 32 v"
  shows "plan_for m P M (apply_writes m' ws) (p\<lparr>pl_data := pl_data p @ ws\<rparr>)"
proof -
  let ?tail = "(case pl_xpsr p of None \<Rightarrow> [] | Some x \<Rightarrow> [(16, x)]) @ pl_extra p"
  have "fst ` set ?tail \<subseteq> M" using p by (auto simp: plan_for_def split: option.splits)
  moreover have "fst ` set ws \<subseteq> P" using ws by auto
  ultimately have "fst ` set ws \<inter> fst ` set ?tail = {}" using assms(2) by blast
  then have "apply_writes (apply_writes (apply_writes m (pl_data p)) ws) ?tail
      = apply_writes (apply_writes (apply_writes m (pl_data p)) ?tail) ws"
    by (rule apply_writes_comm)
  moreover have "apply_writes (apply_writes m (pl_data p)) ?tail = m'"
    using p by (simp add: plan_for_def full_plan_def)
  ultimately have 1: "apply_writes m (full_plan (p\<lparr>pl_data := pl_data p @ ws\<rparr>)) = apply_writes m' ws"
    by (simp add: full_plan_def)
  show ?thesis
    unfolding plan_for_def 1 using p ws by (auto simp: plan_for_def full_plan_def split: option.splits)
qed

lemma plan_for_at:
  assumes p: "plan_for m P M m' p" and "P \<inter> M = {}" and "k \<in> M"
  shows "k \<noteq> 16 \<Longrightarrow> k \<notin> fst ` set (pl_extra p) \<Longrightarrow> m' k = m k"
    and "k = 16 \<Longrightarrow> m' 16 = (case pl_xpsr p of None \<Rightarrow> m 16 | Some x \<Rightarrow> x)"
proof -
  have data: "k \<notin> fst ` set (pl_data p)" using assms by (auto simp: plan_for_def)
  have m': "m' = apply_writes (apply_writes (apply_writes m (pl_data p))
      (case pl_xpsr p of None \<Rightarrow> [] | Some x \<Rightarrow> [(16, x)])) (pl_extra p)"
    using p by (simp add: plan_for_def full_plan_def)
  show "k \<noteq> 16 \<Longrightarrow> k \<notin> fst ` set (pl_extra p) \<Longrightarrow> m' k = m k"
    using data by (auto simp: m' apply_writes_other split: option.splits)
  assume k: "k = 16"
  have "16 \<notin> fst ` set (pl_extra p)" using p by (auto simp: plan_for_def)
  then show "m' 16 = (case pl_xpsr p of None \<Rightarrow> m 16 | Some x \<Rightarrow> x)"
    using data k by (auto simp: m' apply_writes_other split: option.splits)
qed

lemma plan_for_keys: "plan_for m P M m' p \<Longrightarrow> \<forall>(r, v) \<in> set (full_plan p). r \<in> P \<union> M"
  by (force simp: plan_for_def full_plan_def split: option.splits)

lemma plan_for_extra_new:
  assumes p: "plan_for m P M m' p" and "k \<in> M - {16}" and "k \<notin> fst ` set (pl_extra p)"
    and "0 \<le> k" "k < 128" "is_uint 32 u"
  shows "plan_for m P M (m'(k := u)) (p\<lparr>pl_extra := pl_extra p @ [(k, u)]\<rparr>)"
proof -
  have 1: "apply_writes m (full_plan (p\<lparr>pl_extra := pl_extra p @ [(k, u)]\<rparr>)) = m'(k := u)"
    using p by (simp add: plan_for_def full_plan_def)
  show ?thesis
    unfolding plan_for_def 1 using assms by (auto simp: plan_for_def full_plan_def split: option.splits)
qed

lemma plan_for_extra_update:
  assumes p: "plan_for m P M m' p" and upd: "update_pending k f (pl_extra p) = Some extra'"
    and f: "\<And>u. is_uint 32 u \<Longrightarrow> is_uint 32 (f u)"
  shows "plan_for m P M (m'(k := f (m' k))) (p\<lparr>pl_extra := extra'\<rparr>)"
proof -
  have dist: "distinct (map fst (pl_extra p))" using p by (simp add: plan_for_def)
  note U = update_pending_Some [OF upd dist]
  have keys: "map fst extra' = map fst (pl_extra p)" using U by blast
  then have keys': "fst ` set extra' = fst ` set (pl_extra p)" by (metis set_map)
  have vals: "\<forall>(x, v) \<in> set extra'. 0 \<le> x \<and> x < 128 \<and> is_uint 32 v"
  proof (intro ballI, clarify)
    have old: "0 \<le> x \<and> x < 128 \<and> is_uint 32 v" if "(x, v) \<in> set (pl_extra p)" for x v
      using p that by (auto simp: plan_for_def full_plan_def)
    fix x v assume "(x, v) \<in> set extra'"
    then have "(x, v) \<in> set (pl_extra p) \<or> (\<exists>u. (k, u) \<in> set (pl_extra p) \<and> v = f u)"
      using U by blast
    moreover have "x \<in> fst ` set (pl_extra p)" using \<open>(x, v) \<in> set extra'\<close> keys' by force
    ultimately show "0 \<le> x \<and> x < 128 \<and> is_uint 32 v" using old f by force
  qed
  let ?m1 = "apply_writes (apply_writes m (pl_data p)) (case pl_xpsr p of None \<Rightarrow> [] | Some x \<Rightarrow> [(16, x)])"
  have m': "apply_writes ?m1 (pl_extra p) = m'" using p by (simp add: plan_for_def full_plan_def)
  have "apply_writes ?m1 extra' = m'(k := f (m' k))"
    using U [of ?m1] unfolding m' by blast
  then have 1: "apply_writes m (full_plan (p\<lparr>pl_extra := extra'\<rparr>)) = m'(k := f (m' k))"
    by (simp add: full_plan_def)
  show ?thesis
    unfolding plan_for_def 1 using p keys keys' vals by (auto simp: plan_for_def full_plan_def split: option.splits)
qed

lemma plan_for_xpsr:
  assumes p: "plan_for m P M m' p" and "16 \<in> M" and "P \<inter> M = {}" and "is_uint 32 y"
  shows "plan_for m P M (m'(16 := y)) (p\<lparr>pl_xpsr := Some y\<rparr>)"
proof -
  have extra: "16 \<notin> fst ` set (pl_extra p)" using p by (auto simp: plan_for_def)
  have "apply_writes m (full_plan (p\<lparr>pl_xpsr := Some y\<rparr>)) = (apply_writes (apply_writes m (pl_data p)) (pl_extra p))(16 := y)"
    by (simp add: full_plan_def apply_writes_upd [OF extra])
  also have "\<dots> = (apply_writes m (full_plan p))(16 := y)"
    by (simp add: full_plan_def apply_writes_upd [OF extra] split: option.splits)
  also have "apply_writes m (full_plan p) = m'" using p by (simp add: plan_for_def)
  finally have 1: "apply_writes m (full_plan (p\<lparr>pl_xpsr := Some y\<rparr>)) = m'(16 := y)" .
  show ?thesis
    unfolding plan_for_def 1 using assms by (auto simp: plan_for_def full_plan_def split: option.splits)
qed

subsection \<open>The hardware\<close>

text \<open>
  The debug register transfer of a halted core: a number written to DCRSR brings the register's value
  to DCRDR, with the write flag it takes DCRDR's value to the register; S_REGRDY reads as set.
  \<open>raw\<close> are the registers by their number.  \<open>U\<close> are numbers of registers none of which is
  another view of one of the others: a real core shows its current stack pointer as SP and as MSP or
  PSP, and with the Security extension the banked registers twice, so a choice of \<open>U\<close> for it has
  only one number for each.
\<close>

locale dcrsr_hw =
  fixes D :: "'s core_ops" and U :: "int set" and inv :: "'s \<Rightarrow> bool" and raw :: "'s \<Rightarrow> int \<Rightarrow> int" and dcrdr :: "'s \<Rightarrow> int"
    and fail :: "exn \<Rightarrow> 's \<Rightarrow> bool"
  assumes halted: "inv s \<Longrightarrow> wp (co_is_halted D) (\<lambda>h s'. h \<and> inv s' \<and> raw s' = raw s) fail s"
    and select: "inv s \<Longrightarrow> sel \<in> U \<Longrightarrow> 0 \<le> sel \<Longrightarrow> sel < 128 \<Longrightarrow>
      wp (co_write_memory D DCRSR sel) (\<lambda>_ s'. inv s' \<and> raw s' = raw s \<and> dcrdr s' = raw s sel) fail s"
    and ready: "inv s \<Longrightarrow> wp (co_read32 D DHCSR)
      (\<lambda>v s'. v AND S_REGRDY \<noteq> 0 \<and> inv s' \<and> raw s' = raw s \<and> dcrdr s' = dcrdr s) fail s"
    and fetch: "inv s \<Longrightarrow> wp (co_read32 D DCRDR) (\<lambda>v s'. v = dcrdr s \<and> inv s' \<and> raw s' = raw s) fail s"
    and load: "inv s \<Longrightarrow> is_uint 32 v \<Longrightarrow>
      wp (co_write_memory D DCRDR v) (\<lambda>_ s'. inv s' \<and> raw s' = raw s \<and> dcrdr s' = v) fail s"
    and store: "inv s \<Longrightarrow> sel \<in> U \<Longrightarrow> 0 \<le> sel \<Longrightarrow> sel < 128 \<Longrightarrow>
      wp (co_write_memory D DCRSR (sel OR DCRSR_REGWnR)) (\<lambda>_ s'. inv s' \<and> raw s' = (raw s)(sel := dcrdr s)) fail s"
    and word: "inv s \<Longrightarrow> is_uint 32 (raw s sel)"
begin

lemma issue_read_wp:
  assumes "inv s \<and> raw s = R" and "r \<in> set all_registers" and "\<not> is_double_float_register r"
    and "held U [r]"
  shows "wp (issue_read D r)
    (\<lambda>row s'. (inv s' \<and> raw s' = R) \<and> fst row AND S_REGRDY \<noteq> 0 \<and> snd row = R (sel_of r)) fail s"
  using assms sel_of_range [OF assms(2,3)]
  by (auto simp: issue_read_def selector_sel_of held_def parts_def intro!: wp_mono [OF select] wp_mono [OF ready] wp_mono [OF fetch])

lemma read_plain_wp:
  assumes "inv s" and "set infos \<subseteq> set all_registers" and "list_all (\<lambda>r. \<not> is_double_float_register r) infos"
    and "held U infos"
  shows "wp (read_plain D infos)
    (\<lambda>vals s'. inv s' \<and> raw s' = raw s \<and> vals = map (reg_value (raw s)) infos) fail s"
proof -
  define P where "P = (\<lambda>r row. fst row AND S_REGRDY \<noteq> (0::int) \<and> snd row = raw s (sel_of r))"
  have part: "map (\<lambda>(info, dhcsr_val, val). register_part info val) (zip infos rows) = map (reg_value (raw s)) infos
      \<and> filter (\<lambda>(dhcsr_val, val). dhcsr_val AND S_REGRDY = 0) rows = []"
    if "list_all2 P infos rows" for rows
    using that assms(3)
    by (induction rule: list_all2_induct) (auto simp: P_def register_part_value)
  have "wp (exec_map (issue_read D) infos) (\<lambda>rows s'. (inv s' \<and> raw s' = raw s) \<and> list_all2 P infos rows) fail s"
  proof (rule wp_exec_map)
    fix r s' assume "r \<in> set infos" "inv s' \<and> raw s' = raw s"
    then show "wp (issue_read D r) (\<lambda>row s''. (inv s'' \<and> raw s'' = raw s) \<and> P r row) fail s'"
      unfolding P_def using assms by (intro issue_read_wp) (auto simp: list_all_iff held_def)
  qed (simp add: assms)
  then show ?thesis
    unfolding read_plain_def wp_bind by (rule wp_mono) (use part in auto)
qed

lemma base_read_wp:
  assumes "inv s" and "infos_of regs = Inr infos" and U: "held U infos"
  shows "wp (base_read D regs)
    (\<lambda>vals s'. inv s' \<and> raw s' = raw s \<and> vals = map (reg_value (raw s)) infos) fail s"
proof -
  let ?ds = "filter is_double_float_register infos"
  let ?os = "filter (\<lambda>r. \<not> is_double_float_register r) infos"
  have rows: "set infos \<subseteq> set all_registers" using infos_of_row [OF assms(2)] by simp
  obtain si where si: "infos_of (singles_of ?ds) = Inr si" "set si \<subseteq> set all_registers"
    "list_all is_plain si" "map ri_index si = singles_of ?ds"
    using infos_of_singles [of ?ds] rows by (auto simp: list_all_iff)
  have sv: "map (reg_value m) si = map m (singles_of ?ds)" for m
    unfolding si(4) [symmetric] using si(3) by (simp add: reg_value_plain list_all_iff)
  have plain: "list_all (\<lambda>r. \<not> is_double_float_register r) si" "list_all (\<lambda>r. \<not> is_double_float_register r) ?os"
    using si(3) by (auto simp: is_plain_def list_all_iff)
  have os: "set ?os \<subseteq> set all_registers" using rows by auto
  have uo: "held U ?os" using U by (simp add: held_def)
  have us: "held U si"
  proof -
    have "set (singles_of ?ds) \<subseteq> U" using U by (auto simp: held_def parts_def singles_of_def)
    then have "ri_index ` set si \<subseteq> U" unfolding si(4) [symmetric] by simp
    then show ?thesis
      using si(3) by (auto simp: held_def parts_def sel_of_def is_plain_def list_all_iff)
  qed
  have no_doubles: "?ds = [] \<Longrightarrow> list_all (\<lambda>r. \<not> is_double_float_register r) infos"
    by (simp add: filter_empty_conv list_all_iff)
  have merge: "merge_doubles infos (map (reg_value m) si) (map (reg_value m) ?os) = map (reg_value m) infos" for m
    unfolding sv by (rule merge_doubles_value [OF rows])
  show ?thesis
  proof (cases "?ds = []")
    case True
    have "wp (read_plain D infos) (\<lambda>vals s'. inv s' \<and> raw s' = raw s \<and> vals = map (reg_value (raw s)) infos) fail s1"
      if "inv s1" "raw s1 = raw s" for s1
      using read_plain_wp [OF that(1) rows no_doubles [OF True] U] by (simp add: that(2))
    then show ?thesis
      unfolding base_read_def wp_bind
      by (intro wp_mono [OF halted [OF assms(1)]]) (simp_all add: assms(2) True)
  next
    case False
    have 3: "wp (read_plain D ?os) (\<lambda>vals s'. inv s' \<and> raw s' = raw s \<and>
        merge_doubles infos (map (reg_value (raw s)) si) vals = map (reg_value (raw s)) infos) fail s2"
      if "inv s2" "raw s2 = raw s" for s2
      by (rule wp_mono [OF read_plain_wp [OF that(1) os plain(2) uo]]) (simp_all add: that(2) merge)
    have 2: "wp (read_plain D si) (\<lambda>sv. wp (read_plain D ?os) (\<lambda>vals s'. inv s' \<and> raw s' = raw s \<and>
        merge_doubles infos sv vals = map (reg_value (raw s)) infos) fail) fail s1"
      if "inv s1" "raw s1 = raw s" for s1
      by (rule wp_mono [OF read_plain_wp [OF that(1) si(2) plain(1) us]]) (simp_all add: that(2) 3)
    have 1: "wp (co_is_halted D) (\<lambda>h2. wp (lift_res (infos_of (singles_of ?ds))) (\<lambda>single_infos.
        wp (if \<not> h2 then raise CoreRegisterAccessError
            else bind (read_plain D single_infos) (\<lambda>sv. bind (read_plain D ?os) (\<lambda>vals. ret (merge_doubles infos sv vals))))
          (\<lambda>vals s'. inv s' \<and> raw s' = raw s \<and> vals = map (reg_value (raw s)) infos) fail) fail) fail s1"
      if "inv s1" "raw s1 = raw s" for s1
      by (rule wp_mono [OF halted [OF that(1)]]) (simp_all add: that(2) si(1) 2)
    show ?thesis
      unfolding base_read_def wp_bind
      by (rule wp_mono [OF halted [OF assms(1)]]) (use 1 False in \<open>simp_all add: assms(2)\<close>)
  qed
qed

lemma read_one_wp:
  assumes "inv s" and "r \<in> set all_registers" and "is_plain r" and "ri_index r = i" and "i \<in> U"
  shows "wp (read_one D i) (\<lambda>v s'. inv s' \<and> raw s' = raw s \<and> v = raw s i) fail s"
proof -
  have infos: "infos_of [i] = Inr [r]" using infos_of_map [of "[r]"] assms by simp
  have u: "held U [r]" using assms by (auto simp: held_def parts_def sel_of_def is_plain_def)
  show ?thesis
    unfolding read_one_def wp_bind
    by (rule wp_mono [OF base_read_wp [OF assms(1) infos u]])
      (use assms in \<open>simp_all add: py_index_def reg_value_plain\<close>)
qed

lemma plan_write_wp:
  assumes s: "inv s \<and> raw s = R" and p: "plan_for R P M m' p" and r: "r \<in> set all_registers"
    and disj: "P \<inter> M = {}" and mg: "set (parts r) \<subseteq> (if merged r then M else P)"
    and v: "is_plain r \<Longrightarrow> is_uint 32 v" and U: "M \<subseteq> U"
  shows "wp (plan_write D (ri_index r, v) p)
    (\<lambda>p' s'. (inv s' \<and> raw s' = R) \<and> plan_for R P M (reg_update m' (r, v)) p') fail s"
proof -
  note info = get_info_row [OF r]
  consider (double) "is_double_float_register r"
    | (cfbp) "\<not> is_double_float_register r" "is_cfbp_subregister r"
    | (psr) "\<not> is_double_float_register r" "\<not> is_cfbp_subregister r" "is_psr_subregister r"
    | (plain) "is_plain r"
    by (auto simp: is_plain_def)
  then show ?thesis
  proof cases
    case double
    let ?ws = "[(- ri_index r, v AND 0xffffffff), (- ri_index r + 1, drop_bit 32 v AND 0xffffffff)]"
    have "is_uint 32 (x AND 0xffffffff)" for x :: int by (simp add: is_uint_def and_u32_mod)
    then have "\<forall>(x, u) \<in> set ?ws. x \<in> P \<and> 0 \<le> x \<and> x < 128 \<and> is_uint 32 u"
      using double_parts [OF r double] mg double plain_index_range [of "- ri_index r"] plain_index_range [of "- ri_index r + 1"]
      by (auto simp: parts_def merged_def)
    from plan_for_data [OF p disj this] show ?thesis
      using s double by (simp add: plan_write_def info reg_update_def del: get_info.simps)
  next
    case cfbp
    define k where "k = drop_bit 8 (ri_index r)"
    have k: "plain_index k" "k \<in> M" "0 \<le> k" "k < 128"
      using cfbp_parent [OF r cfbp(2)] mg cfbp plain_index_range [of k]
      by (auto simp: k_def parts_def merged_def sel_of_def)
    have k16: "k \<noteq> 16" using cfbp(2) by (auto simp: is_cfbp_subregister_def k_def)
    have upd: "reg_update m' (r, v) = m'(k := set_byte (ri_index r) v (m' k))"
      using cfbp by (simp add: reg_update_def k_def)
    show ?thesis
    proof (cases "update_pending k (set_byte (ri_index r) v) (pl_extra p)")
      case (Some extra)
      from plan_for_extra_update [OF p this] set_byte_uint show ?thesis
        using s cfbp Some unfolding upd by (simp add: plan_write_def info k_def del: get_info.simps)
    next
      case None
      then have new: "k \<notin> fst ` set (pl_extra p)" by (simp add: update_pending_None)
      have at: "m' k = R k" using plan_for_at(1) [OF p disj k(2) k16 new] .
      obtain r32 where r32: "r32 \<in> set all_registers" "get_info (RegIndex k) = Inr r32" "is_plain r32" "ri_index r32 = k"
        using get_info_plain [OF k(1)] by blast
      have idx: "index_for_reg (RegIndex k) = Inr k" using r32 by (simp add: index_for_reg_def del: get_info.simps)
      have u: "is_uint 32 (set_byte (ri_index r) v (R k))" using word [of s k] s by (auto intro: set_byte_uint)
      have plan: "plan_for R P M (m'(k := set_byte (ri_index r) v (R k)))
          (p\<lparr>pl_extra := pl_extra p @ [(k, set_byte (ri_index r) v (R k))]\<rparr>)"
        by (rule plan_for_extra_new [OF p _ new _ _ u]) (use k k16 in auto)
      show ?thesis
        unfolding upd at using cfbp None plan s
        by (auto simp: plan_write_def info k_def [symmetric] idx simp del: get_info.simps
            intro!: wp_mono [OF read_one_wp [OF _ r32(1,3,4) subsetD [OF U k(2)]]])
    qed
  next
    case psr
    have M: "16 \<in> M" using mg psr by (simp add: parts_def merged_def sel_of_def)
    define y where "y = (m' 16 AND (0xffffffff XOR psr_mask r)) OR (v AND psr_mask r)"
    have upd: "reg_update m' (r, v) = m'(16 := y)" using psr by (simp add: reg_update_def y_def)
    have at: "m' 16 = (case pl_xpsr p of None \<Rightarrow> R 16 | Some x \<Rightarrow> x)"
      by (rule plan_for_at(2) [OF p disj M refl])
    have "is_uint 32 (m' 16)"
      using at word [of s 16] s p by (auto simp: plan_for_def full_plan_def split: option.splits)
    then have y: "is_uint 32 y" unfolding y_def by (intro is_uint_or is_uint_and psr_mask_uint)
    note plan = plan_for_xpsr [OF p M disj y]
    obtain r16 where r16: "r16 \<in> set all_registers" "is_plain r16" "ri_index r16 = 16"
      using get_info_plain [OF xpsr_plain] by blast
    show ?thesis
    proof (cases "pl_xpsr p")
      case (Some x)
      then show ?thesis using psr plan s at unfolding upd
        by (simp add: plan_write_def info Let_def y_def del: get_info.simps)
    next
      case None
      then have "y = (R 16 AND (0xffffffff XOR psr_mask r)) OR (v AND psr_mask r)"
        using at by (simp add: y_def)
      then show ?thesis using psr plan s None unfolding upd
        by (auto simp: plan_write_def info Let_def xpsr_index simp del: get_info.simps
            intro!: wp_mono [OF read_one_wp [OF _ r16 subsetD [OF U M]]])
    qed
  next
    case plain
    have range: "0 \<le> ri_index r" "ri_index r < 128"
      using row_okI [OF r] plain by (auto simp: row_ok_def is_plain_def)
    have "ri_index r \<in> P" using mg plain by (auto simp: parts_def merged_def is_plain_def sel_of_def split: if_splits)
    then have "\<forall>(x, u) \<in> set [(ri_index r, v)]. x \<in> P \<and> 0 \<le> x \<and> x < 128 \<and> is_uint 32 u"
      using range v plain by simp
    from plan_for_data [OF p disj this] show ?thesis
      using s plain by (simp add: plan_write_def info reg_update_def is_plain_def del: get_info.simps)
  qed
qed

lemma plan_writes_wp:
  assumes "inv s \<and> raw s = R" and "plan_for R P M m' p" and "P \<inter> M = {}" and "M \<subseteq> U"
    and "\<forall>(r, v) \<in> set rvs. r \<in> set all_registers \<and> set (parts r) \<subseteq> (if merged r then M else P) \<and> (is_plain r \<longrightarrow> is_uint 32 v)"
  shows "wp (plan_writes D (map (\<lambda>(r, v). (ri_index r, v)) rvs) p)
    (\<lambda>p' s'. (inv s' \<and> raw s' = R) \<and> plan_for R P M (foldl reg_update m' rvs) p') fail s"
  using assms
proof (induction rvs arbitrary: p m' s)
  case (Cons rv rvs)
  obtain r v where rv: "rv = (r, v)" by (cases rv)
  have "wp (plan_write D (ri_index r, v) p)
    (\<lambda>p' s'. (inv s' \<and> raw s' = R) \<and> plan_for R P M (reg_update m' (r, v)) p') fail s"
    by (rule plan_write_wp) (use Cons.prems rv in auto)
  moreover have "wp (plan_writes D (map (\<lambda>(r, v). (ri_index r, v)) rvs) p')
    (\<lambda>p' s'. (inv s' \<and> raw s' = R) \<and> plan_for R P M (foldl reg_update (reg_update m' (r, v)) rvs) p') fail s'"
    if "(inv s' \<and> raw s' = R) \<and> plan_for R P M (reg_update m' (r, v)) p'" for p' s'
    by (rule Cons.IH) (use that Cons.prems in auto)
  ultimately show ?case unfolding rv by (auto elim: wp_mono)
qed simp

lemma issue_writes_wp:
  assumes "inv s" and "raw s = R" and "\<forall>(r, v) \<in> set ws. r \<in> U \<and> 0 \<le> r \<and> r < 128 \<and> is_uint 32 v"
  shows "wp (exec_map (issue_write D) ws)
    (\<lambda>rows s'. inv s' \<and> raw s' = apply_writes R ws \<and> list_all (\<lambda>d. d AND S_REGRDY \<noteq> 0) rows) fail s"
  using assms
proof (induction ws arbitrary: s R)
  case (Cons w ws)
  obtain r v where w: "w = (r, v)" by (cases w)
  have r: "r \<in> U" "0 \<le> r" "r < 128" "is_uint 32 v" using Cons.prems(3) w by auto
  have 3: "wp (co_write_memory D (DCRSR) (r OR DCRSR_REGWnR)) (\<lambda>_ s'. inv s' \<and> raw s' = R(r := v)) fail s1"
    if "inv s1 \<and> raw s1 = raw s \<and> dcrdr s1 = v" for s1
    by (rule wp_mono [OF store [OF _ r(1,2,3)]]) (use that Cons.prems(2) in auto)
  have 1: "wp (issue_write D (r, v)) (\<lambda>d s'. d AND S_REGRDY \<noteq> 0 \<and> inv s' \<and> raw s' = R(r := v)) fail s"
    unfolding issue_write_def wp_bind fst_conv snd_conv
    by (rule wp_mono [OF load [OF Cons.prems(1) r(4)]])
      (auto intro!: wp_mono [OF 3] wp_mono [OF ready])
  have 2: "wp (exec_map (issue_write D) ws)
      (\<lambda>rows s'. inv s' \<and> raw s' = apply_writes (R(r := v)) ws \<and> list_all (\<lambda>d. d AND S_REGRDY \<noteq> 0) rows) fail s'"
    if "inv s'" "raw s' = R(r := v)" for s'
    by (rule Cons.IH [OF that]) (use Cons.prems(3) in auto)
  show ?case
    unfolding w exec_map.simps wp_bind apply_writes_simps
  proof (rule wp_mono [OF 1])
    fix d s' assume d: "d AND S_REGRDY \<noteq> 0 \<and> inv s' \<and> raw s' = R(r := v)"
    show "wp (exec_map (issue_write D) ws) (\<lambda>ys. wp (ret (d # ys))
        (\<lambda>rows s'. inv s' \<and> raw s' = apply_writes (R(r := v)) ws \<and> list_all (\<lambda>d. d AND S_REGRDY \<noteq> 0) rows) fail) fail s'"
      by (rule wp_mono [OF 2]) (use d in auto)
  qed
qed simp

lemma base_write_wp:
  assumes "inv s" and infos: "infos_of regs = Inr infos" and w: "writable infos vals" and U: "held U infos"
  shows "wp (base_write D regs vals)
    (\<lambda>_ s'. inv s' \<and> raw s' = foldl reg_update (raw s) (zip infos vals)) fail s"
proof -
  let ?P = "\<Union>r \<in> {r \<in> set infos. \<not> merged r}. set (parts r)"
  let ?M = "\<Union>r \<in> {r \<in> set infos. merged r}. set (parts r)"
  let ?p0 = "\<lparr>pl_xpsr = None, pl_data = [], pl_extra = []\<rparr>"
  have rows: "set infos \<subseteq> set all_registers" "regs = map ri_index infos" using infos_of_row [OF infos] by auto
  have regs: "zip regs vals = map (\<lambda>(r, v). (ri_index r, v)) (zip infos vals)"
    by (simp add: rows(2) zip_map1 split_def)
  have disj: "?P \<inter> ?M = {}"
  proof -
    have "x \<notin> set (parts b)" if "a \<in> set infos" "merged a" "b \<in> set infos" "\<not> merged b" "x \<in> set (parts a)" for a b x
      using w that unfolding writable_def no_mix_def list_all_iff by blast
    then show ?thesis by blast
  qed
  have PU: "?P \<subseteq> U" and MU: "?M \<subseteq> U" using U by (auto simp: held_def)
  have plan0: "plan_for (raw s) ?P ?M (raw s) ?p0" by (simp add: plan_for_def full_plan_def)
  have each: "\<forall>(r, v) \<in> set (zip infos vals). r \<in> set all_registers \<and> set (parts r) \<subseteq> (if merged r then ?M else ?P)
      \<and> (is_plain r \<longrightarrow> is_uint 32 v)"
  proof (intro ballI, clarify)
    fix r v assume rv: "(r, v) \<in> set (zip infos vals)"
    then have r: "r \<in> set infos" by (rule set_zip_leftD)
    have "is_plain r \<longrightarrow> is_uint 32 v" using w rv by (auto simp: writable_def list_all_iff)
    then show "r \<in> set all_registers \<and> set (parts r) \<subseteq> (if merged r then ?M else ?P) \<and> (is_plain r \<longrightarrow> is_uint 32 v)"
      using r rows by auto
  qed
  have writes: "wp (exec_map (issue_write D) (full_plan p))
      (\<lambda>rows s'. wp (if filter (\<lambda>d. d AND S_REGRDY = 0) rows \<noteq> [] then raise CoreRegisterAccessError else ret ())
        (\<lambda>_ s'. inv s' \<and> raw s' = foldl reg_update (raw s) (zip infos vals)) fail s') fail s2"
    if s2: "inv s2" "raw s2 = raw s" and p: "plan_for (raw s) ?P ?M (foldl reg_update (raw s) (zip infos vals)) p" for s2 p
  proof -
    have eff: "apply_writes (raw s) (full_plan p) = foldl reg_update (raw s) (zip infos vals)"
      using p by (simp add: plan_for_def)
    have ok: "\<forall>(r, v) \<in> set (full_plan p). r \<in> U \<and> 0 \<le> r \<and> r < 128 \<and> is_uint 32 v"
    proof (intro ballI, clarify)
      fix r v assume rv: "(r, v) \<in> set (full_plan p)"
      have "r \<in> U" using plan_for_keys [OF p] rv PU MU by blast
      moreover have "\<forall>(r, v) \<in> set (full_plan p). 0 \<le> r \<and> r < 128 \<and> is_uint 32 v" using p by (simp add: plan_for_def)
      ultimately show "r \<in> U \<and> 0 \<le> r \<and> r < 128 \<and> is_uint 32 v" using rv by blast
    qed
    have none: "list_all (\<lambda>d. d AND S_REGRDY \<noteq> 0) rows \<Longrightarrow> filter (\<lambda>d. d AND S_REGRDY = 0) rows = []" for rows :: "int list"
      by (simp add: filter_empty_conv list_all_iff)
    show ?thesis
      by (rule wp_mono [OF issue_writes_wp [OF s2 ok]]) (simp_all add: eff none)
  qed
  have plans: "wp (plan_writes D (zip regs vals) ?p0) (\<lambda>p s'. (inv s' \<and> raw s' = raw s)
      \<and> plan_for (raw s) ?P ?M (foldl reg_update (raw s) (zip infos vals)) p) fail s1"
    if s1: "inv s1" "raw s1 = raw s" for s1
    unfolding regs by (rule plan_writes_wp [OF _ plan0 disj MU each]) (simp add: s1)
  have main: "wp (plan_writes D (zip regs vals) ?p0) (\<lambda>p. wp (lift_res (planned p)) (\<lambda>ws.
      wp (exec_map (issue_write D) ws) (\<lambda>rows. wp (if filter (\<lambda>d. d AND S_REGRDY = 0) rows \<noteq> [] then raise CoreRegisterAccessError else ret ())
        (\<lambda>_ s'. inv s' \<and> raw s' = foldl reg_update (raw s) (zip infos vals)) fail) fail) fail) fail s1"
    if "inv s1" "raw s1 = raw s" for s1
    by (rule wp_mono [OF plans [OF that]]) (use writes in \<open>simp_all add: planned_full del: wp_if\<close>)
  show ?thesis
    unfolding base_write_def wp_bind
    by (rule wp_mono [OF halted [OF assms(1)]]) (use main in \<open>simp_all\<close>)
qed

end

subsection \<open>What a write does to each register\<close>

lemma bit_u32: "bit (0xffffffff :: int) k \<longleftrightarrow> k < 32"
  using bit_mask_iff [of 32 k, where ?'a = int] by (simp add: mask_eq_exp_minus_1)

lemma bit_u8: "bit (0xff :: int) k \<longleftrightarrow> k < 8"
  using bit_mask_iff [of 8 k, where ?'a = int] by (simp add: mask_eq_exp_minus_1)

definition byte_shift :: "int \<Rightarrow> nat" where
  "byte_shift i = nat ((i AND 3) * 8)"

lemma and_3_range: "0 \<le> (i::int) AND 3 \<and> i AND 3 < 4"
  by (simp add: and_3_mod)

lemma byte_shift_cases: "byte_shift i \<in> {0, 8, 16, 24}"
proof -
  have "nat (x * 8) \<in> {0, 8, 16, 24}" if "0 \<le> x \<and> x < 4" for x :: int
  proof -
    have "x = 0 \<or> x = 1 \<or> x = 2 \<or> x = 3" using that by arith
    then show ?thesis by auto
  qed
  then show ?thesis unfolding byte_shift_def using and_3_range by blast
qed

lemma byte_shift_inj: "byte_shift i = byte_shift j \<Longrightarrow> i AND 3 = j AND 3"
proof -
  have "nat (x * 8) = nat (y * 8) \<Longrightarrow> x = y" if "0 \<le> x" "0 \<le> y" for x y :: int
    using that by linarith
  then show "byte_shift i = byte_shift j \<Longrightarrow> i AND 3 = j AND 3"
    unfolding byte_shift_def using and_3_range by blast
qed

lemma set_byte_bits:
  "bit (set_byte i v d) k \<longleftrightarrow>
     (if byte_shift i \<le> k \<and> k < byte_shift i + 8 then bit v (k - byte_shift i) else bit d k \<and> k < 32)"
proof -
  have "byte_shift i + 8 \<le> 32" using byte_shift_cases [of i] by auto
  then show ?thesis
    unfolding set_byte_def Let_def byte_shift_def [symmetric]
    by (auto simp: bit_or_iff bit_and_iff bit_xor_iff bit_push_bit_iff bit_u32 bit_u8)
qed

lemma get_set_byte:
  "drop_bit (byte_shift i) (set_byte i v d) AND 0xff = v AND 0xff"
  by (rule bit_eqI) (auto simp: bit_and_iff bit_drop_bit_eq set_byte_bits bit_u8)

lemma get_set_byte_other:
  assumes "byte_shift j \<noteq> byte_shift i"
  shows "drop_bit (byte_shift j) (set_byte i v d) AND 0xff = drop_bit (byte_shift j) d AND 0xff"
proof (rule bit_eqI)
  fix n
  show "bit (drop_bit (byte_shift j) (set_byte i v d) AND 0xff) n = bit (drop_bit (byte_shift j) d AND 0xff) n"
  proof (cases "n < 8")
    case True
    have "\<not> (byte_shift i \<le> byte_shift j + n \<and> byte_shift j + n < byte_shift i + 8)" "byte_shift j + n < 32"
      using True assms byte_shift_cases [of i] byte_shift_cases [of j] by auto
    then show ?thesis by (auto simp: bit_and_iff bit_drop_bit_eq set_byte_bits bit_u8)
  qed (simp add: bit_and_iff bit_u8)
qed

lemma cfbp_low_bits: "list_all (\<lambda>r. is_cfbp_subregister r \<longrightarrow> ri_index r AND 0xfc = 0) all_registers"
  by code_simp

lemma cfbp_same_byte:
  assumes r: "r \<in> set all_registers" "is_cfbp_subregister r" and r': "r' \<in> set all_registers" "is_cfbp_subregister r'"
    and "drop_bit 8 (ri_index r) = drop_bit 8 (ri_index r')" and "byte_shift (ri_index r) = byte_shift (ri_index r')"
  shows "r = r'"
proof -
  have low: "x = push_bit 8 (drop_bit 8 x) OR (x AND 3)" if "x AND 0xfc = 0" for x :: int
  proof (rule bit_eqI)
    fix n
    have "bit (x AND 0xfc) n = bit (0::int) n" using that by simp
    moreover have "bit (0xfc :: int) n \<longleftrightarrow> 2 \<le> n \<and> n < 8"
    proof -
      have "(0xfc :: int) = push_bit 2 (mask 6)" by (simp add: push_bit_eq_mult mask_eq_exp_minus_1)
      then show ?thesis by (simp only: bit_push_bit_iff bit_mask_iff) auto
    qed
    moreover have "bit (3 :: int) n \<longleftrightarrow> n < 2"
      using bit_mask_iff [of 2 n, where ?'a = int] by (simp add: mask_eq_exp_minus_1)
    ultimately show "bit x n = bit (push_bit 8 (drop_bit 8 x) OR (x AND 3)) n"
      by (auto simp: bit_or_iff bit_and_iff bit_push_bit_iff bit_drop_bit_eq)
  qed
  have z: "ri_index r AND 0xfc = 0" "ri_index r' AND 0xfc = 0" using cfbp_low_bits r r' by (auto simp: list_all_iff)
  have "ri_index r AND 3 = ri_index r' AND 3" by (rule byte_shift_inj [OF assms(6)])
  then have "ri_index r = ri_index r'" using low [OF z(1)] low [OF z(2)] assms(5) by metis
  then show ?thesis by (rule reg_info_unique [OF r(1) r'(1)])
qed

text \<open>The value a register holds after a write: what fits in it.\<close>

definition reg_clip :: "reg_info \<Rightarrow> int \<Rightarrow> int" where
  "reg_clip r v = (if is_double_float_register r then v mod 2 ^ 64
     else if is_cfbp_subregister r then v mod 256
     else if is_psr_subregister r then v AND psr_mask r else v)"

lemma reg_value_update_same:
  assumes "r \<in> set all_registers"
  shows "reg_value (reg_update m (r, v)) r = reg_clip r v"
proof -
  have psr: "((a AND (0xffffffff XOR k)) OR (v AND k)) AND k = v AND k" if "is_uint 32 k" for a k :: int
  proof (rule bit_eqI)
    fix n
    have "bit k n \<Longrightarrow> n < 32" using that unfolding is_uint_iff by (metis bit_take_bit_iff)
    then show "bit (((a AND (0xffffffff XOR k)) OR (v AND k)) AND k) n = bit (v AND k) n"
      by (auto simp: bit_or_iff bit_and_iff bit_xor_iff bit_u32)
  qed
  have dbl: "push_bit 32 (drop_bit 32 v AND 0xffffffff) OR (v AND 0xffffffff) = v mod 2 ^ 64"
  proof (rule bit_eqI)
    fix n
    show "bit (push_bit 32 (drop_bit 32 v AND 0xffffffff) OR (v AND 0xffffffff)) n = bit (v mod 2 ^ 64) n"
      unfolding take_bit_eq_mod [symmetric] bit_or_iff bit_push_bit_iff bit_and_iff bit_u32 bit_take_bit_iff
      by (auto simp: bit_drop_bit_eq)
  qed
  show ?thesis
    using psr [OF psr_mask_uint] dbl get_set_byte [of "ri_index r" v]
    by (auto simp: reg_value_def reg_update_def reg_clip_def byte_shift_def and_255_mod)
qed

text \<open>Registers that share nothing.\<close>

definition regs_apart :: "reg_info \<Rightarrow> reg_info \<Rightarrow> bool" where
  "regs_apart r r' \<longleftrightarrow> list_all (\<lambda>x. x \<notin> set (parts r')) (parts r)
     \<or> is_cfbp_subregister r \<and> is_cfbp_subregister r' \<and> r \<noteq> r'"

lemma reg_value_depends: "(\<And>x. x \<in> set (parts r) \<Longrightarrow> m x = m' x) \<Longrightarrow> reg_value m r = reg_value m' r"
  by (auto simp: reg_value_def parts_def sel_of_def)

lemma reg_update_other: "x \<notin> set (parts r) \<Longrightarrow> reg_update m (r, v) x = m x"
  by (cases "is_double_float_register r"; cases "is_cfbp_subregister r"; cases "is_psr_subregister r")
    (simp_all add: reg_update_def parts_def sel_of_def)

lemma reg_value_update_apart:
  assumes "r \<in> set all_registers" and "r' \<in> set all_registers" and "regs_apart r r'"
  shows "reg_value (reg_update m (r, v)) r' = reg_value m r'"
proof (cases "is_cfbp_subregister r \<and> is_cfbp_subregister r' \<and> drop_bit 8 (ri_index r) = drop_bit 8 (ri_index r')")
  case True
  have nd: "\<not> is_double_float_register r" "\<not> is_double_float_register r'"
    using True cfbp_parent [OF assms(1)] cfbp_parent [OF assms(2)] by auto
  have "r \<noteq> r'" using True assms(3) nd by (simp add: regs_apart_def parts_def sel_of_def)
  then have "byte_shift (ri_index r) \<noteq> byte_shift (ri_index r')"
    using cfbp_same_byte [of r r'] True assms by blast
  from get_set_byte_other [OF this [symmetric], of v] show ?thesis
    using True nd by (simp add: reg_value_def reg_update_def byte_shift_def)
next
  case False
  have "list_all (\<lambda>x. x \<notin> set (parts r')) (parts r)"
  proof (cases "is_cfbp_subregister r \<and> is_cfbp_subregister r'")
    case True
    then have "\<not> is_double_float_register r" "\<not> is_double_float_register r'"
      using cfbp_parent [OF assms(1)] cfbp_parent [OF assms(2)] by auto
    then show ?thesis using True False by (simp add: parts_def sel_of_def)
  qed (use assms(3) in \<open>auto simp: regs_apart_def\<close>)
  then have "x \<notin> set (parts r)" if "x \<in> set (parts r')" for x
    using that unfolding list_all_iff by blast
  then show ?thesis by (intro reg_value_depends reg_update_other)
qed

subsection \<open>A core to run the definitions on\<close>

text \<open>A core with its register file and the debug hardware's transfer rule.\<close>

record sim_core =
  sc_halted :: bool
  sc_regs :: "int \<Rightarrow> int"
  sc_dcrdr :: int

definition sim_core_write :: "int \<Rightarrow> int \<Rightarrow> (sim_core, unit) exec" where
  "sim_core_write a v s =
     (Inr (), if a = DCRDR then s\<lparr>sc_dcrdr := v\<rparr>
      else if v AND DCRSR_REGWnR \<noteq> 0 then s\<lparr>sc_regs := (sc_regs s)(v AND 0x7f := sc_dcrdr s)\<rparr>
      else s\<lparr>sc_dcrdr := sc_regs s (v AND 0x7f)\<rparr>)"

definition sim_core_ops :: "sim_core core_ops" where
  "sim_core_ops = \<lparr>co_is_halted = (\<lambda>s. (Inr (sc_halted s), s)),
     co_read32 = (\<lambda>a s. (Inr (if a = DHCSR then S_REGRDY else sc_dcrdr s), s)),
     co_write_memory = sim_core_write\<rparr>"

definition sim_core_inv :: "sim_core \<Rightarrow> bool" where
  "sim_core_inv s \<longleftrightarrow> sc_halted s \<and> is_uint 32 (sc_dcrdr s) \<and> (\<forall>i. is_uint 32 (sc_regs s i))"

lemma sel_bits:
  assumes "0 \<le> sel" and "sel < 128"
  shows "sel AND DCRSR_REGWnR = 0" and "sel AND 0x7f = sel"
    and "(sel OR DCRSR_REGWnR) AND DCRSR_REGWnR \<noteq> 0" and "(sel OR DCRSR_REGWnR) AND 0x7f = sel"
proof -
  have t: "take_bit 7 sel = sel" using assms by (simp add: take_bit_int_eq_self)
  then have hi: "bit sel n \<Longrightarrow> n < 7" for n by (metis bit_take_bit_iff)
  have w: "bit DCRSR_REGWnR n \<longleftrightarrow> n = 16" for n
    unfolding DCRSR_REGWnR_def bit_exp_iff by simp
  have m: "bit (0x7f :: int) n \<longleftrightarrow> n < 7" for n
    using bit_mask_iff [of 7 n, where ?'a = int] by (simp add: mask_eq_exp_minus_1)
  show "sel AND DCRSR_REGWnR = 0" by (rule bit_eqI) (auto simp: bit_and_iff w dest: hi)
  show "sel AND 0x7f = sel" by (rule bit_eqI) (auto simp: bit_and_iff m dest: hi)
  show "(sel OR DCRSR_REGWnR) AND 0x7f = sel"
    by (rule bit_eqI) (auto simp: bit_and_iff bit_or_iff m w dest: hi)
  have "bit ((sel OR DCRSR_REGWnR) AND DCRSR_REGWnR) 16" by (simp add: bit_and_iff bit_or_iff w)
  then show "(sel OR DCRSR_REGWnR) AND DCRSR_REGWnR \<noteq> 0" by auto
qed

lemma core_reg_addresses [simp]: "DCRSR \<noteq> DCRDR" "DHCSR \<noteq> DCRDR" "DCRDR \<noteq> DHCSR"
  by (simp_all add: DCRSR_def DCRDR_def DHCSR_def)

interpretation sim_core: dcrsr_hw sim_core_ops UNIV sim_core_inv sc_regs sc_dcrdr "\<lambda>_ _. False"
proof
  fix s sel assume "sim_core_inv s" "0 \<le> sel" "sel < (128::int)"
  then show "wp (co_write_memory sim_core_ops DCRSR sel)
      (\<lambda>_ s'. sim_core_inv s' \<and> sc_regs s' = sc_regs s \<and> sc_dcrdr s' = sc_regs s sel) (\<lambda>_ _. False) s"
    by (simp add: wp_case sim_core_ops_def sim_core_write_def sel_bits sim_core_inv_def)
next
  fix s sel assume "sim_core_inv s" "0 \<le> sel" "sel < (128::int)"
  then show "wp (co_write_memory sim_core_ops DCRSR (sel OR DCRSR_REGWnR))
      (\<lambda>_ s'. sim_core_inv s' \<and> sc_regs s' = (sc_regs s)(sel := sc_dcrdr s)) (\<lambda>_ _. False) s"
    by (simp add: wp_case sim_core_ops_def sim_core_write_def sel_bits sim_core_inv_def)
qed (auto simp: wp_case sim_core_ops_def sim_core_write_def sim_core_inv_def S_REGRDY_def)

definition demo_core :: sim_core where
  "demo_core = \<lparr>sc_halted = True, sc_regs = (\<lambda>i. if i = 20 then 0x04030201 else if i = 16 then 0x61000003 else 7), sc_dcrdr = 0\<rparr>"

lemma demo_core_inv: "sim_core_inv demo_core"
  by (simp add: sim_core_inv_def demo_core_def is_uint_def)

text \<open>
  A list that mixes a combined register with one of its bytes: the byte is merged into the value the
  combined register had before, so the value given for the combined register is lost.
\<close>

lemma mixed_write_lost:
  "fst (bind (base_write sim_core_ops [20, 20 * 256] [0x0a0b0c0d, 0xff]) (\<lambda>_. base_read sim_core_ops [20]) demo_core)
     = Inr [0x040302ff]"
  by code_simp

subsection \<open>Properties\<close>

text \<open>
  C8. Reading core registers returns the register file's values, for any mix of plain registers,
  bytes of CFBP, fields of XPSR and doubles: whenever the check of the register list passes, each
  result is the value of the register asked for, in order, and the register file is unchanged.
\<close>

theorem core_registers_read:
  assumes "dcrsr_hw D U hinv raw dcrdr fail" and "hinv s"
    and "res_map register_name_to_index refs = Inr regs" and "check_reg_list ci has_fpu regs = Inr ()"
    and "infos_of regs = Inr infos" and "held U infos"
  shows "wp (read_core_registers_raw D ci has_fpu refs)
        (\<lambda>vals s'. hinv s' \<and> raw s' = raw s \<and> vals = map (reg_value (raw s)) infos) fail s"
  using dcrsr_hw.base_read_wp [OF assms(1,2,5,6)] assms(3,4)
  by (simp add: read_core_registers_raw_def)

theorem core_registers_read_witness:
  "\<exists>infos. map ri_index infos = [15, 20 * 256 + 2, 0x10005, - 0x42, 20]
    \<and> wp (read_core_registers_raw sim_core_ops v7m_index True
          [RegName ''PC'', RegIndex (20 * 256 + 2), RegIndex 0x10005, RegIndex (- 0x42), RegIndex 20])
        (\<lambda>vals s'. vals = map (reg_value (sc_regs demo_core)) infos) (\<lambda>_ _. False) demo_core"
proof -
  have 1: "res_map register_name_to_index [RegName ''PC'', RegIndex (20 * 256 + 2), RegIndex 0x10005, RegIndex (- 0x42), RegIndex 20]
      = Inr [15, 20 * 256 + 2, 0x10005, - 0x42, 20]" by code_simp
  have 2: "check_reg_list v7m_index True [15, 20 * 256 + 2, 0x10005, - 0x42, 20] = Inr ()"
    by (rule check_v7m) code_simp
  obtain infos where 3: "infos_of [15, 20 * 256 + 2, 0x10005, - 0x42, 20] = Inr infos"
    and 4: "map ri_index infos = [15, 20 * 256 + 2, 0x10005, - 0x42, 20]"
    using check_reg_list_known [OF v7m_index_ok 2] unfolding infos_of_def by (elim exE conjE)
  have 5: "held UNIV infos" by (simp add: held_def)
  show ?thesis
    by (rule exI, rule conjI, rule 4,
        rule wp_mono [OF core_registers_read [OF sim_core.dcrsr_hw_axioms demo_core_inv 1 2 3 5]]) simp_all
qed


text \<open>
  C17. A register written and read back holds what fits in it, and writing it changes no register
  that shares nothing with it: the other bytes of the same CFBP register keep their values.
\<close>

theorem core_register_roundtrip:
  assumes "dcrsr_hw D U hinv raw dcrdr fail" and "hinv s" and "r \<in> set all_registers" and "r' \<in> set all_registers"
    and "is_plain r \<longrightarrow> is_uint 32 v" and "regs_apart r r'" and "held U [r, r']"
  shows "wp (bind (base_write D [ri_index r] [v]) (\<lambda>_. base_read D [ri_index r, ri_index r']))
    (\<lambda>vals s'. vals = [reg_clip r v, reg_value (raw s) r']) fail s"
proof -
  have i1: "infos_of [ri_index r] = Inr [r]" and i2: "infos_of [ri_index r, ri_index r'] = Inr [r, r']"
    using infos_of_map [of "[r]"] infos_of_map [of "[r, r']"] assms(3,4) by simp_all
  have w: "writable [r] [v]" using assms(5) by (simp add: writable_def no_mix_def)
  have u: "held U [r]" using assms(7) by (simp add: held_def)
  have rd: "wp (base_read D [ri_index r, ri_index r']) (\<lambda>vals s'. vals = [reg_clip r v, reg_value (raw s) r']) fail s1"
    if "hinv s1" "raw s1 = reg_update (raw s) (r, v)" for s1
    by (rule wp_mono [OF dcrsr_hw.base_read_wp [OF assms(1) that(1) i2 assms(7)]])
      (use reg_value_update_same [OF assms(3)] reg_value_update_apart [OF assms(3,4,6)] that(2) in simp_all)
  show ?thesis
    unfolding wp_bind
    by (rule wp_mono [OF dcrsr_hw.base_write_wp [OF assms(1,2) i1 w u]]) (simp_all add: rd)
qed

text \<open>
  C29. A core that is not halted refuses both: reading or writing any list of known registers raises
  CoreRegisterAccessError, and nothing but the check of the debug state has been done.
\<close>

theorem core_registers_not_halted:
  assumes "co_is_halted D s = (Inr False, s')" and "infos_of regs = Inr infos"
  shows "base_read D regs s = (Inl CoreRegisterAccessError, s')
    \<and> base_write D regs vals s = (Inl CoreRegisterAccessError, s')"
  using assms by (simp add: base_read_def base_write_def bind_def)


lemma known_row: "\<exists>r \<in> set all_registers. ri_index r = 5121 \<and> is_cfbp_subregister r" "\<exists>r \<in> set all_registers. ri_index r = 5123 \<and> is_cfbp_subregister r"
  by code_simp+

theorem core_register_roundtrip_witness:
  "wp (bind (base_write sim_core_ops [5121] [0x1f5]) (\<lambda>_. base_read sim_core_ops [5121, 5123]))
    (\<lambda>vals s'. vals = [0xf5, 4]) (\<lambda>_ _. False) demo_core"
proof -
  obtain r r' where r: "r \<in> set all_registers" "ri_index r = 5121" "is_cfbp_subregister r"
    and r': "r' \<in> set all_registers" "ri_index r' = 5123" "is_cfbp_subregister r'"
    using known_row by blast
  have a: "regs_apart r r'" using r r' by (auto simp: regs_apart_def)
  have p: "is_plain r \<longrightarrow> is_uint 32 0x1f5" using r by (simp add: is_plain_def)
  have v: "reg_clip r 0x1f5 = 0xf5" "reg_value (sc_regs demo_core) r' = 4"
    using r r' cfbp_parent [OF r(1,3)] cfbp_parent [OF r'(1,3)]
    by (simp_all add: reg_clip_def reg_value_def demo_core_def)
  show ?thesis
    using core_register_roundtrip [OF sim_core.dcrsr_hw_axioms demo_core_inv r(1) r'(1) p a]
    by (simp add: r r' v held_def)
qed

theorem core_registers_not_halted_witness:
  "base_read sim_core_ops [15] (demo_core\<lparr>sc_halted := False\<rparr>)
     = (Inl CoreRegisterAccessError, demo_core\<lparr>sc_halted := False\<rparr>)"
proof -
  have h: "co_is_halted sim_core_ops (demo_core\<lparr>sc_halted := False\<rparr>) = (Inr False, demo_core\<lparr>sc_halted := False\<rparr>)"
    by (simp add: sim_core_ops_def)
  obtain r where r: "get_info (RegIndex 15) = Inr r" using get_info_plain [of 15] by (auto simp: plain_index_iff)
  then have "infos_of [15] = Inr [r]" unfolding infos_of_def by (simp del: get_info.simps)
  from core_registers_not_halted [OF h this] show ?thesis by simp
qed

end
