(* ===== verification/Register_Cache.thy ===== *)
theory Register_Cache
  imports Register_Access Memory_Cache
begin

text \<open>
  The core register cache, \<open>pyocd/cache/register.py\<close>.  The context below the cache, the core's run
  state and the order in which Python iterates over a set of register numbers are parameters.  In the
  locale \<open>register_context\<close>, which states the contract of the register access below (met by the
  model of \<open>coresight/cortex_m.py\<close>, shown by a sublocale), reads through the cache are shown to
  return the core's values and keep the cache coherent, and writes to leave no stale entry but for
  registers that overlap a written one in the ways the code does not invalidate.
\<close>

subsection \<open>The registers that share a transfer\<close>

definition CFBP_INDEX_LIST :: "int list" where
  "CFBP_INDEX_LIST = [20, 34, 35]"

definition CFBP_REGS_LIST :: "int list list" where
  "CFBP_REGS_LIST = [[5123, 5122, 5121, 5120], [8707, 8706, 8705, 8704], [8963, 8962, 8961, 8960]]"

definition XPSR_INDEX :: int where
  "XPSR_INDEX = 16"

definition XPSR_REGS :: "int list" where
  "XPSR_REGS = [0x10000, 0x10001, 0x10002, 0x10005, 0x10006, 0x10007]"

definition SP_REGS :: "int list" where
  "SP_REGS = [13, 17, 18, 26, 27, 24, 25]"

text \<open>The class looks its lists up by name.\<close>

definition row_names :: "(string \<times> int) list" where
  "row_names = map (\<lambda>r. (ri_name r, ri_index r)) all_registers"

lemma cache_lists_named:
  "map (map_of row_names) [''cfbp'', ''cfbp_s'', ''cfbp_ns''] = map Some CFBP_INDEX_LIST"
  "map (map (map_of row_names)) [[''control'', ''faultmask'', ''basepri'', ''primask''],
     [''control_s'', ''faultmask_s'', ''basepri_s'', ''primask_s''],
     [''control_ns'', ''faultmask_ns'', ''basepri_ns'', ''primask_ns'']] = map (map Some) CFBP_REGS_LIST"
  "map_of row_names ''xpsr'' = Some XPSR_INDEX"
  "map (map_of row_names) [''apsr'', ''iapsr'', ''eapsr'', ''ipsr'', ''epsr'', ''iepsr''] = map Some XPSR_REGS"
  "map (map_of row_names) [''sp'', ''msp'', ''psp'', ''msp_s'', ''psp_s'', ''msp_ns'', ''psp_ns''] = map Some SP_REGS"
  by (simp_all add: row_names_def all_registers_def M_PROFILE_COMMON_def V7M_v8M_ML_ONLY_def V8M_SEC_ONLY_def
      V8M_ML_SEC_ONLY_def V81M_MVE_ONLY_def VFP_V5_def CoreRegisterInfo_def CFBP_INDEX_LIST_def CFBP_REGS_LIST_def
      XPSR_INDEX_def XPSR_REGS_def SP_REGS_def)

subsection \<open>The cache\<close>

record 'c reg_env =
  re_is_running :: "('c, bool) exec"
  re_token :: "'c \<Rightarrow> int"
  re_index :: core_index
  re_has_fpu :: bool
  re_read :: "reg_ref list \<Rightarrow> ('c, int list) exec"
  re_write :: "reg_ref list \<Rightarrow> int list \<Rightarrow> ('c, unit) exec"
  re_set_order :: "int list \<Rightarrow> int list"

record 'c reg_cache =
  gc_context :: 'c
  gc_run_token :: int
  gc_cache :: "int \<rightharpoonup> int"
  gc_metrics :: metrics

definition RegisterCache :: "'c \<Rightarrow> 'c reg_cache" where
  "RegisterCache c = \<lparr>gc_context = c, gc_run_token = - 1, gc_cache = Map.empty, gc_metrics = CacheMetrics\<rparr>"

definition on_core :: "('c, 'a) exec \<Rightarrow> ('c reg_cache, 'a) exec" where
  "on_core m s = (case m (gc_context s) of (r, c) \<Rightarrow> (r, s\<lparr>gc_context := c\<rparr>))"

definition reset_reg_cache :: "'c reg_cache \<Rightarrow> 'c reg_cache" where
  "reset_reg_cache s = s\<lparr>gc_cache := Map.empty, gc_metrics := CacheMetrics\<rparr>"

text \<open>\<open>_check_cache\<close>: whether the core is running.\<close>

definition check_reg_cache :: "'c reg_env \<Rightarrow> ('c reg_cache, bool) exec" where
  "check_reg_cache E =
     bind (on_core (re_is_running E)) (\<lambda>running.
       if running then bind (modify reset_reg_cache) (\<lambda>_. ret True)
       else bind (modify (\<lambda>s. if gc_run_token s \<noteq> re_token E (gc_context s)
                              then (reset_reg_cache s)\<lparr>gc_run_token := re_token E (gc_context s)\<rparr> else s)) (\<lambda>_. ret False))"

definition convert_and_check_registers :: "'c reg_env \<Rightarrow> reg_ref list \<Rightarrow> exn + int list" where
  "convert_and_check_registers E reg_list =
     res_bind (res_map index_for_reg reg_list) (\<lambda>regs.
     res_bind (check_reg_list (re_index E) (re_has_fpu E) regs) (\<lambda>_. Inr regs))"

text \<open>
  \<open>any(r for r in read_list if r in regs or r == index)\<close>: the generator yields the numbers
  themselves, so number 0 would not count.
\<close>

definition any_of :: "int list \<Rightarrow> int \<Rightarrow> int list \<Rightarrow> bool" where
  "any_of regs index read_list \<longleftrightarrow> list_ex (\<lambda>r. (r \<in> set regs \<or> r = index) \<and> r \<noteq> 0) read_list"

text \<open>The combined registers to be read as well, with a flag for each.\<close>

fun add_cfbp :: "(int \<times> int list) list \<Rightarrow> int list \<Rightarrow> bool list \<times> int list" where
  "add_cfbp [] read_list = ([], read_list)"
| "add_cfbp ((index, regs) # rest) read_list =
     (let read_cfbp = any_of regs index read_list;
          read_list' = (if read_cfbp \<and> index \<notin> set read_list then read_list @ [index] else read_list);
          (flags, final) = add_cfbp rest read_list'
      in (read_cfbp # flags, final))"

definition add_xpsr :: "int list \<Rightarrow> bool \<times> int list" where
  "add_xpsr read_list =
     (let read_xpsr = any_of XPSR_REGS XPSR_INDEX read_list
      in (read_xpsr, if read_xpsr \<and> XPSR_INDEX \<notin> set read_list then read_list @ [XPSR_INDEX] else read_list))"

definition value_at :: "int list \<Rightarrow> int list \<Rightarrow> int \<Rightarrow> exn + int" where
  "value_at read_list vals r =
     (if r \<in> set read_list then py_index vals (int (index_of read_list r)) else Inl ValueError)"

fun store_cfbp ::
    "(bool \<times> int \<times> int list) list \<Rightarrow> int list \<Rightarrow> int list \<Rightarrow> (int \<rightharpoonup> int) \<Rightarrow> exn + (int \<rightharpoonup> int)" where
  "store_cfbp [] read_list vals cache = Inr cache"
| "store_cfbp ((read_cfbp, index, regs) # rest) read_list vals cache =
     (if read_cfbp then
        res_bind (value_at read_list vals index) (\<lambda>v.
          store_cfbp rest read_list vals
            (foldl (\<lambda>c r. c(r \<mapsto> drop_bit (nat ((r AND 3) * 8)) v AND 0xff)) (cache(index \<mapsto> v)) regs))
      else store_cfbp rest read_list vals cache)"

fun store_psr :: "int \<Rightarrow> int list \<Rightarrow> (int \<rightharpoonup> int) \<Rightarrow> exn + (int \<rightharpoonup> int)" where
  "store_psr v [] cache = Inr cache"
| "store_psr v (r # regs) cache =
     res_bind (get_info (RegIndex r)) (\<lambda>info. store_psr v regs (cache(r \<mapsto> v AND psr_mask info)))"

definition store_xpsr :: "bool \<Rightarrow> int list \<Rightarrow> int list \<Rightarrow> (int \<rightharpoonup> int) \<Rightarrow> exn + (int \<rightharpoonup> int)" where
  "store_xpsr read_xpsr read_list vals cache =
     (if read_xpsr then
        res_bind (value_at read_list vals XPSR_INDEX) (\<lambda>v. store_psr v XPSR_REGS (cache(XPSR_INDEX \<mapsto> v)))
      else Inr cache)"

text \<open>The results in the order asked for; a register read now enters the cache.\<close>

fun results_from :: "int set \<Rightarrow> int list \<Rightarrow> int list \<Rightarrow> int list \<Rightarrow> (int \<rightharpoonup> int) \<Rightarrow> exn + (int list \<times> (int \<rightharpoonup> int))" where
  "results_from cached_set read_list vals [] cache = Inr ([], cache)"
| "results_from cached_set read_list vals (r # regs) cache =
     (if r \<in> cached_set then
        (case cache r of
           None \<Rightarrow> Inl KeyError
         | Some v \<Rightarrow> res_bind (results_from cached_set read_list vals regs cache) (\<lambda>(rs, c). Inr (v # rs, c)))
      else
        res_bind (value_at read_list vals r) (\<lambda>v.
        res_bind (results_from cached_set read_list vals regs (cache(r \<mapsto> v))) (\<lambda>(rs, c). Inr (v # rs, c))))"

definition add_metrics :: "int \<Rightarrow> int \<Rightarrow> int \<Rightarrow> 'c reg_cache \<Rightarrow> 'c reg_cache" where
  "add_metrics h m w s = s\<lparr>gc_metrics := (gc_metrics s)\<lparr>cm_hits := cm_hits (gc_metrics s) + h,
     cm_misses := cm_misses (gc_metrics s) + m, cm_writes := cm_writes (gc_metrics s) + w\<rparr>\<rparr>"

text \<open>The accesses reset the cache when the context reports a register access error.\<close>

definition guarded :: "('c reg_cache, 'a) exec \<Rightarrow> ('c reg_cache, 'a) exec" where
  "guarded m = catch m (\<lambda>e. e = CoreRegisterAccessError) (\<lambda>e. bind (modify reset_reg_cache) (\<lambda>_. raise e))"

text \<open>
  What is done with the values read.  A context that returns fewer values than asked makes this raise
  IndexError; the entries set up to there are not kept here.
\<close>

definition update_after_read :: "int list \<Rightarrow> bool list \<Rightarrow> bool \<Rightarrow> int list \<Rightarrow> int list \<Rightarrow> (int \<rightharpoonup> int)
    \<Rightarrow> exn + (int list \<times> (int \<rightharpoonup> int))" where
  "update_after_read regs flags read_xpsr read_list vals cache =
     (let cached_set = {r \<in> set regs. cache r \<noteq> None} in
      res_bind (store_cfbp (zip flags (zip CFBP_INDEX_LIST CFBP_REGS_LIST)) read_list vals cache) (\<lambda>c1.
      res_bind (store_xpsr read_xpsr read_list vals c1) (\<lambda>c2.
        results_from cached_set read_list vals regs c2)))"

definition read_missing ::
    "'c reg_env \<Rightarrow> int \<Rightarrow> int list \<Rightarrow> bool list \<Rightarrow> bool \<Rightarrow> int list \<Rightarrow> (int \<rightharpoonup> int) \<Rightarrow> ('c reg_cache, int list) exec" where
  "read_missing E hits regs flags read_xpsr read_list cache =
     bind (modify (add_metrics hits (int (length read_list)) 0)) (\<lambda>_.
     bind (if read_list \<noteq> [] then guarded (on_core (re_read E (map RegIndex read_list))) else ret []) (\<lambda>vals.
     bind (lift_res (update_after_read regs flags read_xpsr read_list vals cache)) (\<lambda>(results, cache').
     bind (modify (\<lambda>s. s\<lparr>gc_cache := cache'\<rparr>)) (\<lambda>_. ret results))))"

definition cached_read_registers :: "'c reg_env \<Rightarrow> reg_ref list \<Rightarrow> ('c reg_cache, int list) exec" where
  "cached_read_registers E reg_list =
     bind (check_reg_cache E) (\<lambda>running.
       if running then on_core (re_read E reg_list)
       else
         bind (lift_res (convert_and_check_registers E reg_list)) (\<lambda>regs.
         bind get_state (\<lambda>s0.
         let cache = gc_cache s0;
             hit = remdups (filter (\<lambda>r. cache r \<noteq> None) regs);
             missing = re_set_order E (remdups (filter (\<lambda>r. cache r = None) regs));
             (flags, rl1) = add_cfbp (zip CFBP_INDEX_LIST CFBP_REGS_LIST) missing;
             (read_xpsr, read_list) = add_xpsr rl1
         in read_missing E (int (length hit)) regs flags read_xpsr read_list cache)))"

subsection \<open>Writes\<close>

definition pop_all :: "int list \<Rightarrow> (int \<rightharpoonup> int) \<Rightarrow> (int \<rightharpoonup> int)" where
  "pop_all regs cache = foldl (\<lambda>c r. c(r := None)) cache regs"

definition pop_cfbp :: "int list \<Rightarrow> (int \<rightharpoonup> int) \<Rightarrow> (int \<rightharpoonup> int)" where
  "pop_cfbp regs cache =
     (if list_ex (\<lambda>r. r \<in> set CFBP_INDEX_LIST \<and> r \<noteq> 0) regs
      then pop_all (concat (map (\<lambda>(index, sub). sub @ [index]) (zip CFBP_INDEX_LIST CFBP_REGS_LIST))) cache
      else foldl (\<lambda>c pos. let sub_regs = map (\<lambda>sub. sub ! pos) CFBP_REGS_LIST
                          in if list_ex (\<lambda>r. r \<in> set sub_regs) regs then pop_all sub_regs c else c)
             cache [0..<length (hd CFBP_REGS_LIST)])"

definition pop_xpsr :: "int list \<Rightarrow> (int \<rightharpoonup> int) \<Rightarrow> (int \<rightharpoonup> int)" where
  "pop_xpsr regs cache = (if any_of XPSR_REGS XPSR_INDEX regs then pop_all (XPSR_REGS @ [XPSR_INDEX]) cache else cache)"

definition pop_sp :: "int list \<Rightarrow> (int \<rightharpoonup> int) \<Rightarrow> (int \<rightharpoonup> int)" where
  "pop_sp regs cache =
     (if list_ex (\<lambda>r. r \<in> set SP_REGS \<and> r \<noteq> 0) regs then pop_all SP_REGS cache else cache)"

definition cache_after_write :: "int list \<Rightarrow> (int \<rightharpoonup> int) \<Rightarrow> (int \<rightharpoonup> int)" where
  "cache_after_write regs cache = pop_sp regs (pop_xpsr regs (pop_cfbp regs cache))"

text \<open>
  \<open>self._cache[r] = data_list[i]\<close>: the entries are set one by one, so a short data list raises
  IndexError after the cache took the values there are.
\<close>

fun stored_part :: "int list \<Rightarrow> int list \<Rightarrow> (int \<rightharpoonup> int) \<Rightarrow> (int \<rightharpoonup> int)" where
  "stored_part (r # regs) (v # vals) cache = stored_part regs vals (cache(r \<mapsto> v))"
| "stored_part _ _ cache = cache"

definition cached_write_registers :: "'c reg_env \<Rightarrow> reg_ref list \<Rightarrow> int list \<Rightarrow> ('c reg_cache, unit) exec" where
  "cached_write_registers E reg_list data_list =
     bind (check_reg_cache E) (\<lambda>running.
       if running then on_core (re_write E reg_list data_list)
       else
         bind (lift_res (convert_and_check_registers E reg_list)) (\<lambda>regs.
         bind (modify (add_metrics 0 0 (int (length regs)))) (\<lambda>_.
         bind (modify (\<lambda>s. s\<lparr>gc_cache := stored_part regs data_list (gc_cache s)\<rparr>)) (\<lambda>_.
         bind (if length data_list < length regs then raise IndexError else ret ()) (\<lambda>_.
         bind (modify (\<lambda>s. s\<lparr>gc_cache := cache_after_write regs (gc_cache s)\<rparr>)) (\<lambda>_.
           guarded (on_core (re_write E (map RegIndex regs) data_list))))))))"

definition invalidate_reg_cache :: "'c reg_cache \<Rightarrow> 'c reg_cache" where
  "invalidate_reg_cache s = reset_reg_cache s"

subsection \<open>Values by register number\<close>

definition row :: "int \<Rightarrow> reg_info option" where
  "row i = find (\<lambda>r. ri_index r = i) all_registers"

definition reg_at :: "(int \<Rightarrow> int) \<Rightarrow> int \<Rightarrow> int" where
  "reg_at m i = (case row i of Some r \<Rightarrow> reg_value m r | None \<Rightarrow> 0)"

lemma row_Some: "row i = Some r \<longleftrightarrow> r \<in> set all_registers \<and> ri_index r = i"
proof
  assume "row i = Some r"
  then show "r \<in> set all_registers \<and> ri_index r = i"
    unfolding row_def find_Some_iff by (auto intro: nth_mem)
next
  assume r: "r \<in> set all_registers \<and> ri_index r = i"
  then have "get_info (RegIndex i) = Inr r" using get_info_row by blast
  then show "row i = Some r" unfolding get_index_find row_def by (simp split: option.splits)
qed

lemma get_info_of_row: "get_info (RegIndex i) = (case row i of None \<Rightarrow> Inl KeyError | Some r \<Rightarrow> Inr r)"
  unfolding get_index_find row_def ..

lemma infos_of_rows: "\<forall>i \<in> set regs. row i \<noteq> None \<Longrightarrow> infos_of regs = Inr (map (the \<circ> row) regs)"
  unfolding infos_of_def by (rule res_map_Inr) (auto simp: get_info_of_row simp del: get_info.simps)

lemma reg_at_plain: "plain_index i \<Longrightarrow> reg_at m i = m i"
proof -
  assume "plain_index i"
  then obtain r where "r \<in> set all_registers" "is_plain r" "ri_index r = i" using plain_row by blast
  then show ?thesis using row_Some [of i r] reg_value_plain [of r m] by (simp add: reg_at_def)
qed

definition sub_ok :: "int \<Rightarrow> int \<Rightarrow> bool" where
  "sub_ok parent i = (case row i of None \<Rightarrow> False
     | Some r \<Rightarrow> (is_cfbp_subregister r \<or> is_psr_subregister r) \<and> \<not> is_double_float_register r \<and> sel_of r = parent)"

lemma subs_ok: "list_all (\<lambda>(index, regs). list_all (sub_ok index) regs)
    (zip CFBP_INDEX_LIST CFBP_REGS_LIST @ [(XPSR_INDEX, XPSR_REGS)])"
  by code_simp

lemma cfbp_shape: "list_all (\<lambda>(index, regs). list_all (\<lambda>r. drop_bit 8 r = index) regs) (zip CFBP_INDEX_LIST CFBP_REGS_LIST)"
  by code_simp

lemma cfbp_parents: "(index, regs) \<in> set (zip CFBP_INDEX_LIST CFBP_REGS_LIST) \<Longrightarrow> plain_index index"
  by (auto simp: CFBP_INDEX_LIST_def CFBP_REGS_LIST_def plain_index_iff)

lemma reg_at_cfbp:
  assumes "(index, regs) \<in> set (zip CFBP_INDEX_LIST CFBP_REGS_LIST)" and "r \<in> set regs"
  shows "reg_at m r = drop_bit (nat ((r AND 3) * 8)) (reg_at m index) AND 0xff"
proof -
  have "sub_ok index r" "drop_bit 8 r = index"
    using subs_ok cfbp_shape assms unfolding list_all_append list_all_iff by fastforce+
  then obtain info where info: "row r = Some info" "is_cfbp_subregister info \<or> is_psr_subregister info"
    "\<not> is_double_float_register info"
    by (auto simp: sub_ok_def split: option.splits)
  have ri: "ri_index info = r" "info \<in> set all_registers" using info(1) by (simp_all add: row_Some)
  have "index \<in> {20, 34, 35}" using set_zip_leftD [OF assms(1)] by (simp add: CFBP_INDEX_LIST_def)
  moreover have "r > 0" using assms by (auto simp: CFBP_INDEX_LIST_def CFBP_REGS_LIST_def)
  ultimately have "is_cfbp_subregister info"
    using \<open>drop_bit 8 r = index\<close> ri by (simp add: is_cfbp_subregister_def)
  then have "reg_at m r = drop_bit (nat ((r AND 3) * 8)) (m index) AND 0xff"
    using info ri \<open>drop_bit 8 r = index\<close> by (simp add: reg_at_def reg_value_def)
  then show ?thesis using reg_at_plain [OF cfbp_parents [OF assms(1)]] by simp
qed

lemma reg_at_psr:
  assumes "r \<in> set XPSR_REGS"
  shows "\<exists>info. get_info (RegIndex r) = Inr info \<and> reg_at m r = reg_at m XPSR_INDEX AND psr_mask info"
proof -
  have "sub_ok XPSR_INDEX r" using subs_ok assms by (auto simp: list_all_iff)
  then obtain info where info: "row r = Some info" "\<not> is_double_float_register info"
    by (auto simp: sub_ok_def split: option.splits)
  have ri: "ri_index info = r" "info \<in> set all_registers" using info(1) by (simp_all add: row_Some)
  have psr: "is_psr_subregister info" using assms ri by (auto simp: XPSR_REGS_def is_psr_subregister_def)
  then have nc: "\<not> is_cfbp_subregister info" using cfbp_parent [OF ri(2)] by auto
  have "reg_at m r = m 16 AND psr_mask info"
    using info psr nc by (simp add: reg_at_def reg_value_def)
  then show ?thesis
    using info(1) reg_at_plain [OF xpsr_plain] by (simp add: get_info_of_row XPSR_INDEX_def del: get_info.simps)
qed

subsection \<open>Coherence\<close>

definition coherent_regs :: "(int \<Rightarrow> int) \<Rightarrow> (int \<rightharpoonup> int) \<Rightarrow> bool" where
  "coherent_regs m cache \<longleftrightarrow> (\<forall>i v. cache i = Some v \<longrightarrow> v = reg_at m i)"

definition keeps :: "(int \<rightharpoonup> int) \<Rightarrow> (int \<rightharpoonup> int) \<Rightarrow> bool" where
  "keeps c c' \<longleftrightarrow> (\<forall>i. c i \<noteq> None \<longrightarrow> c' i \<noteq> None)"

lemma coherent_put: "coherent_regs m c \<Longrightarrow> v = reg_at m i \<Longrightarrow> coherent_regs m (c(i \<mapsto> v))"
  by (simp add: coherent_regs_def)

lemma keeps_put: "keeps c c' \<Longrightarrow> keeps c (c'(i \<mapsto> v))"
  by (simp add: keeps_def)

lemma keeps_trans: "keeps a b \<Longrightarrow> keeps b c \<Longrightarrow> keeps a c"
  by (simp add: keeps_def)

lemma value_at_map: "r \<in> set rl \<Longrightarrow> value_at rl (map f rl) r = Inr (f r)"
  using index_of_less [of r rl] nth_index_of [of r rl] by (simp add: value_at_def py_index_def)

lemma coherent_puts:
  "coherent_regs m c \<Longrightarrow> (\<And>r. r \<in> set regs \<Longrightarrow> g r = reg_at m r) \<Longrightarrow>
     coherent_regs m (foldl (\<lambda>c r. c(r \<mapsto> g r)) c regs) \<and> keeps c (foldl (\<lambda>c r. c(r \<mapsto> g r)) c regs)"
proof (induction regs arbitrary: c)
  case (Cons r regs)
  have 1: "coherent_regs m (c(r \<mapsto> g r))" using Cons.prems by (auto intro: coherent_put)
  have 2: "keeps c (c(r \<mapsto> g r))" by (simp add: keeps_def)
  note IH = Cons.IH [OF 1 Cons.prems(2)]
  show ?case
    unfolding foldl.simps using IH [OF list.set_intros(2)] keeps_trans [OF 2] by blast
qed (simp add: keeps_def)

lemma store_cfbp_coherent:
  assumes "coherent_regs m c" and "\<forall>(f, index, regs) \<in> set ps. (f \<longrightarrow> index \<in> set rl)
      \<and> (index, regs) \<in> set (zip CFBP_INDEX_LIST CFBP_REGS_LIST)"
  shows "\<exists>c'. store_cfbp ps rl (map (reg_at m) rl) c = Inr c' \<and> coherent_regs m c' \<and> keeps c c'"
  using assms
proof (induction ps arbitrary: c)
  case (Cons p ps)
  obtain f index regs where p: "p = (f, index, regs)" by (cases p)
  have ix: "(index, regs) \<in> set (zip CFBP_INDEX_LIST CFBP_REGS_LIST)" using Cons.prems p by auto
  have rest: "\<forall>(f, index, regs) \<in> set ps. (f \<longrightarrow> index \<in> set rl) \<and> (index, regs) \<in> set (zip CFBP_INDEX_LIST CFBP_REGS_LIST)"
    using Cons.prems(2) by (simp add: p)
  show ?case
  proof (cases f)
    case True
    let ?g = "\<lambda>r. drop_bit (nat ((r AND 3) * 8)) (reg_at m index) AND 0xff"
    let ?c0 = "c(index \<mapsto> reg_at m index)"
    let ?c1 = "foldl (\<lambda>c r. c(r \<mapsto> ?g r)) ?c0 regs"
    have "index \<in> set rl" using Cons.prems(2) p True by simp
    then have v: "value_at rl (map (reg_at m) rl) index = Inr (reg_at m index)" by (rule value_at_map)
    have "coherent_regs m ?c0" using Cons.prems(1) by (auto intro: coherent_put)
    then have 1: "coherent_regs m ?c1 \<and> keeps ?c0 ?c1"
      by (rule coherent_puts) (simp add: reg_at_cfbp [OF ix])
    moreover have "keeps c ?c0" by (simp add: keeps_def)
    ultimately have k: "keeps c ?c1" using keeps_trans by blast
    obtain c' where "store_cfbp ps rl (map (reg_at m) rl) ?c1 = Inr c'" "coherent_regs m c'" "keeps ?c1 c'"
      using Cons.IH [OF _ rest, of ?c1] 1 by blast
    then show ?thesis using p True v keeps_trans [OF k] by auto
  next
    case False
    then show ?thesis using Cons.IH [OF Cons.prems(1) rest] p by simp
  qed
qed (simp add: keeps_def)

lemma store_psr_coherent:
  assumes "coherent_regs m c" and "set regs \<subseteq> set XPSR_REGS"
  shows "\<exists>c'. store_psr (reg_at m XPSR_INDEX) regs c = Inr c' \<and> coherent_regs m c' \<and> keeps c c'"
  using assms
proof (induction regs arbitrary: c)
  case (Cons r regs)
  have sub: "set regs \<subseteq> set XPSR_REGS" using Cons.prems(2) by simp
  obtain info where info: "get_info (RegIndex r) = Inr info" "reg_at m r = reg_at m XPSR_INDEX AND psr_mask info"
    using reg_at_psr [of r m] Cons.prems(2) by auto
  let ?c1 = "c(r \<mapsto> reg_at m XPSR_INDEX AND psr_mask info)"
  have 1: "coherent_regs m ?c1" using Cons.prems(1) info(2) by (auto intro: coherent_put)
  have k: "keeps c ?c1" by (simp add: keeps_def)
  obtain c' where "store_psr (reg_at m XPSR_INDEX) regs ?c1 = Inr c'" "coherent_regs m c'" "keeps ?c1 c'"
    using Cons.IH [OF 1 sub] by blast
  then show ?case using info(1) keeps_trans [OF k] by (auto simp del: get_info.simps)
qed (simp add: keeps_def)

lemma store_xpsr_coherent:
  assumes "coherent_regs m c" and "f \<longrightarrow> XPSR_INDEX \<in> set rl"
  shows "\<exists>c'. store_xpsr f rl (map (reg_at m) rl) c = Inr c' \<and> coherent_regs m c' \<and> keeps c c'"
proof (cases f)
  case True
  let ?c0 = "c(XPSR_INDEX \<mapsto> reg_at m XPSR_INDEX)"
  have 0: "coherent_regs m ?c0" using assms(1) by (auto intro: coherent_put)
  have k: "keeps c ?c0" by (simp add: keeps_def)
  obtain c' where "store_psr (reg_at m XPSR_INDEX) XPSR_REGS ?c0 = Inr c'" "coherent_regs m c'" "keeps ?c0 c'"
    using store_psr_coherent [OF 0 order_refl] by blast
  then show ?thesis using True assms(2) keeps_trans [OF k] by (auto simp: store_xpsr_def value_at_map)
qed (use assms in \<open>simp add: store_xpsr_def keeps_def\<close>)

lemma results_from_coherent:
  assumes "coherent_regs m c" and "\<forall>r \<in> set regs. (r \<in> H \<longrightarrow> c r \<noteq> None) \<and> (r \<notin> H \<longrightarrow> r \<in> set rl)"
  shows "\<exists>c'. results_from H rl (map (reg_at m) rl) regs c = Inr (map (reg_at m) regs, c') \<and> coherent_regs m c'"
  using assms
proof (induction regs arbitrary: c)
  case (Cons r regs)
  show ?case
  proof (cases "r \<in> H")
    case True
    then obtain v where v: "c r = Some v" using Cons.prems(2) by auto
    then have "v = reg_at m r" using Cons.prems(1) by (simp add: coherent_regs_def)
    moreover obtain c' where "results_from H rl (map (reg_at m) rl) regs c = Inr (map (reg_at m) regs, c')" "coherent_regs m c'"
      using Cons.IH [OF Cons.prems(1)] Cons.prems(2) by auto
    ultimately show ?thesis using True v by simp
  next
    case False
    let ?c1 = "c(r \<mapsto> reg_at m r)"
    have "r \<in> set rl" using False Cons.prems(2) by simp
    then have v: "value_at rl (map (reg_at m) rl) r = Inr (reg_at m r)" by (rule value_at_map)
    have 1: "coherent_regs m ?c1" using Cons.prems(1) by (auto intro: coherent_put)
    have 2: "\<forall>r \<in> set regs. (r \<in> H \<longrightarrow> ?c1 r \<noteq> None) \<and> (r \<notin> H \<longrightarrow> r \<in> set rl)"
      using Cons.prems(2) by simp
    obtain c' where "results_from H rl (map (reg_at m) rl) regs ?c1 = Inr (map (reg_at m) regs, c')" "coherent_regs m c'"
      using Cons.IH [OF 1 2] by blast
    then show ?thesis using False v by simp
  qed
qed simp

lemma add_cfbp_flags:
  "add_cfbp ps rl = (fs, fin) \<Longrightarrow> length fs = length ps \<and> set rl \<subseteq> set fin
     \<and> (\<forall>(f, index, regs) \<in> set (zip fs ps). f \<longrightarrow> index \<in> set fin)"
proof (induction ps rl arbitrary: fs fin rule: add_cfbp.induct)
  case (2 index regs rest rl)
  define b where "b = any_of regs index rl"
  define rl' where "rl' = (if b \<and> index \<notin> set rl then rl @ [index] else rl)"
  obtain fs' where fs': "add_cfbp rest rl' = (fs', fin)" "fs = b # fs'"
    using 2(2) by (auto simp: b_def [symmetric] rl'_def [symmetric] Let_def split: prod.splits)
  have "length fs' = length rest \<and> set rl' \<subseteq> set fin
      \<and> (\<forall>(f, index, regs) \<in> set (zip fs' rest). f \<longrightarrow> index \<in> set fin)"
    by (rule 2(1) [OF b_def rl'_def fs'(1)])
  moreover have "set rl \<subseteq> set rl'" "b \<longrightarrow> index \<in> set rl'" by (auto simp: rl'_def)
  ultimately show ?case using fs'(2) by auto
qed simp

lemma add_cfbp_closed:
  assumes "\<And>index regs r. (index, regs) \<in> set ps \<Longrightarrow> r \<in> set regs \<Longrightarrow> P r \<Longrightarrow> P index"
    and "\<forall>r \<in> set rl. P r"
  shows "\<forall>r \<in> set (snd (add_cfbp ps rl)). P r"
  using assms
proof (induction ps rl rule: add_cfbp.induct)
  case (2 index regs rest rl)
  define b where "b = any_of regs index rl"
  define rl' where "rl' = (if b \<and> index \<notin> set rl then rl @ [index] else rl)"
  have "P index" if b
    using that 2(2) [of index regs] 2(3) by (auto simp: b_def any_of_def list_ex_iff)
  then have rl': "\<forall>r \<in> set rl'. P r" using 2(3) by (auto simp: rl'_def)
  have "\<forall>r \<in> set (snd (add_cfbp rest rl')). P r"
    by (rule 2(1) [OF b_def rl'_def _ rl']) (use 2(2) in \<open>meson list.set_intros(2)\<close>)
  then show ?case by (simp add: b_def [symmetric] rl'_def [symmetric] Let_def split: prod.splits)
qed simp

subsection \<open>Which entries a write removes\<close>

lemma pop_all_at: "pop_all regs c i = (if i \<in> set regs then None else c i)"
  unfolding pop_all_def by (induction regs arbitrary: c) auto

lemma pop_where_at: "foldl (\<lambda>c pos. if P pos then pop_all (S pos) c else c) c ps i
    = (if \<exists>pos \<in> set ps. P pos \<and> i \<in> set (S pos) then None else c i)"
  by (induction ps arbitrary: c) (auto simp: pop_all_at)

definition cfbp_subs :: "int list" where
  "cfbp_subs = concat CFBP_REGS_LIST"

lemma pop_cfbp_at:
  assumes "pop_cfbp regs c i = Some v"
  shows "c i = Some v" and "i \<in> set cfbp_subs \<Longrightarrow> i \<notin> set regs \<and> set regs \<inter> set CFBP_INDEX_LIST = {}"
proof -
  let ?any = "list_ex (\<lambda>r. r \<in> set CFBP_INDEX_LIST \<and> r \<noteq> 0) regs"
  have zero: "?any \<longleftrightarrow> set regs \<inter> set CFBP_INDEX_LIST \<noteq> {}"
    by (auto simp: list_ex_iff CFBP_INDEX_LIST_def)
  have all: "set (concat (map (\<lambda>(index, sub). sub @ [index]) (zip CFBP_INDEX_LIST CFBP_REGS_LIST)))
      = set cfbp_subs \<union> set CFBP_INDEX_LIST"
    by (simp add: cfbp_subs_def CFBP_INDEX_LIST_def CFBP_REGS_LIST_def) blast
  have pos: "\<exists>pos \<in> set [0..<length (hd CFBP_REGS_LIST)]. i \<in> set (map (\<lambda>sub. sub ! pos) CFBP_REGS_LIST)"
    if "i \<in> set cfbp_subs"
    using that by (auto simp: cfbp_subs_def CFBP_REGS_LIST_def)
  show "c i = Some v"
    using assms by (auto simp: pop_cfbp_def pop_all_at pop_where_at Let_def split: if_splits)
  assume sub: "i \<in> set cfbp_subs"
  show "i \<notin> set regs \<and> set regs \<inter> set CFBP_INDEX_LIST = {}"
  proof (cases ?any)
    case True
    then show ?thesis using assms sub unfolding pop_cfbp_def by (simp only: if_True pop_all_at all) simp
  next
    case False
    have "i \<notin> set regs"
    proof
      assume "i \<in> set regs"
      then have "\<exists>pos \<in> set [0..<length (hd CFBP_REGS_LIST)].
          list_ex (\<lambda>r. r \<in> set (map (\<lambda>sub. sub ! pos) CFBP_REGS_LIST)) regs \<and> i \<in> set (map (\<lambda>sub. sub ! pos) CFBP_REGS_LIST)"
        using pos [OF sub] unfolding list_ex_iff by blast
      then show False
        using assms False unfolding pop_cfbp_def Let_def by (simp only: if_False pop_where_at if_True) simp
    qed
    then show ?thesis using False zero by blast
  qed
qed

lemma any_of_inter: "0 \<notin> set regs \<Longrightarrow> index \<noteq> 0 \<Longrightarrow> any_of regs index rl \<longleftrightarrow> set rl \<inter> set (regs @ [index]) \<noteq> {}"
  unfolding any_of_def list_ex_iff by auto

lemma pop_xpsr_at:
  assumes "pop_xpsr regs c i = Some v"
  shows "c i = Some v" and "i \<in> set (XPSR_REGS @ [XPSR_INDEX]) \<Longrightarrow> set regs \<inter> set (XPSR_REGS @ [XPSR_INDEX]) = {}"
proof -
  have any: "any_of XPSR_REGS XPSR_INDEX regs \<longleftrightarrow> set regs \<inter> set (XPSR_REGS @ [XPSR_INDEX]) \<noteq> {}"
    by (rule any_of_inter) (simp_all add: XPSR_REGS_def XPSR_INDEX_def)
  show "c i = Some v" using assms unfolding pop_xpsr_def pop_all_at by (simp split: if_splits)
  show "set regs \<inter> set (XPSR_REGS @ [XPSR_INDEX]) = {}" if "i \<in> set (XPSR_REGS @ [XPSR_INDEX])"
  proof (rule ccontr)
    assume "set regs \<inter> set (XPSR_REGS @ [XPSR_INDEX]) \<noteq> {}"
    then have "any_of XPSR_REGS XPSR_INDEX regs" unfolding any .
    then show False using assms that unfolding pop_xpsr_def by (simp only: if_True pop_all_at) simp
  qed
qed

lemma cache_after_write_at:
  assumes "cache_after_write regs c i = Some v"
  shows "c i = Some v"
    and "i \<in> set cfbp_subs \<Longrightarrow> i \<notin> set regs \<and> set regs \<inter> set CFBP_INDEX_LIST = {}"
    and "i \<in> set (XPSR_REGS @ [XPSR_INDEX]) \<Longrightarrow> set regs \<inter> set (XPSR_REGS @ [XPSR_INDEX]) = {}"
proof -
  have 1: "pop_xpsr regs (pop_cfbp regs c) i = Some v"
    using assms by (auto simp: cache_after_write_def pop_sp_def pop_all_at split: if_splits)
  have 2: "pop_cfbp regs c i = Some v" by (rule pop_xpsr_at(1) [OF 1])
  show "c i = Some v" by (rule pop_cfbp_at(1) [OF 2])
  show "i \<in> set cfbp_subs \<Longrightarrow> i \<notin> set regs \<and> set regs \<inter> set CFBP_INDEX_LIST = {}"
    by (rule pop_cfbp_at(2) [OF 2])
  show "i \<in> set (XPSR_REGS @ [XPSR_INDEX]) \<Longrightarrow> set regs \<inter> set (XPSR_REGS @ [XPSR_INDEX]) = {}"
    by (rule pop_xpsr_at(2) [OF 1])
qed

text \<open>The kinds of registers of the table, and which of them share a number of the hardware.\<close>

definition kind_ok :: "reg_info \<Rightarrow> bool" where
  "kind_ok r \<longleftrightarrow> (is_cfbp_subregister r \<longrightarrow> ri_index r \<in> set cfbp_subs \<and> sel_of r \<in> set CFBP_INDEX_LIST)
     \<and> (is_psr_subregister r \<longrightarrow> ri_index r \<in> set XPSR_REGS)
     \<and> (is_double_float_register r \<longrightarrow> 64 \<le> - ri_index r \<and> - ri_index r + 1 < 96)
     \<and> (64 \<le> ri_index r \<and> ri_index r < 96 \<longrightarrow> is_float_register r)"

lemma kinds_ok: "list_all kind_ok all_registers"
  by code_simp

text \<open>
  The registers whose entries a write of other registers may leave stale: the combined CFBP
  registers and the floating point registers, when what they share is written under another name.
\<close>

definition stale_risk :: "int list \<Rightarrow> int \<Rightarrow> bool" where
  "stale_risk regs i \<longleftrightarrow> (case row i of None \<Rightarrow> False | Some r \<Rightarrow>
     (i \<in> set CFBP_INDEX_LIST \<or> is_float_register r)
     \<and> list_ex (\<lambda>w. w \<noteq> i \<and> (case row w of None \<Rightarrow> False | Some r' \<Rightarrow> \<not> regs_apart r' r)) regs)"

lemma shared_is_popped:
  assumes r: "row i = Some r" and w: "row w = Some r'" "w \<in> set regs" "w \<noteq> i" "\<not> regs_apart r' r"
    and kind: "i \<notin> set CFBP_INDEX_LIST" "\<not> is_float_register r"
  shows "i \<in> set cfbp_subs \<and> set regs \<inter> set CFBP_INDEX_LIST \<noteq> {}
    \<or> i \<in> set (XPSR_REGS @ [XPSR_INDEX]) \<and> set regs \<inter> set (XPSR_REGS @ [XPSR_INDEX]) \<noteq> {}"
proof -
  have R: "r \<in> set all_registers" "ri_index r = i" "r' \<in> set all_registers" "ri_index r' = w"
    using r w(1) by (simp_all add: row_Some)
  have K: "kind_ok r" "kind_ok r'" using kinds_ok R by (auto simp: list_all_iff)
  have nd: "\<not> is_double_float_register r" using kind(2) by (simp add: is_float_register_def)
  have par: "parts r = [sel_of r]" using nd by (simp add: parts_def)
  have sh: "sel_of r \<in> set (parts r')" and nb: "\<not> (is_cfbp_subregister r' \<and> is_cfbp_subregister r)"
    using w(3,4) R by (auto simp: regs_apart_def par list_all_iff)
  have range: "\<not> (64 \<le> i \<and> i < 96)" using K(1) kind(2) R(2) by (auto simp: kind_ok_def)
  have sel_small: "\<not> (64 \<le> sel_of r \<and> sel_of r < 96)"
  proof (cases "is_cfbp_subregister r")
    case True
    then have "sel_of r \<in> {20, 34, 35}" using K(1) by (simp add: kind_ok_def CFBP_INDEX_LIST_def)
    then show ?thesis by auto
  qed (use range R(2) in \<open>simp add: sel_of_def\<close>)
  have dbl: "\<not> is_double_float_register r'"
  proof
    assume d: "is_double_float_register r'"
    then have "64 \<le> sel_of r \<and> sel_of r < 96" using K(2) sh by (auto simp: kind_ok_def parts_def)
    then show False
      using range K(1) R(2) by (auto simp: sel_of_def kind_ok_def CFBP_INDEX_LIST_def split: if_splits)
  qed
  then have sel: "sel_of r' = sel_of r" using sh by (simp add: parts_def)
  show ?thesis
  proof (cases "is_cfbp_subregister r")
    case True
    then have sub: "i \<in> set cfbp_subs" "sel_of r \<in> set CFBP_INDEX_LIST" using K(1) R(2) by (auto simp: kind_ok_def)
    have "\<not> is_cfbp_subregister r'" using nb True by simp
    then have "w = sel_of r" using sel sub(2) R(4) by (auto simp: sel_of_def CFBP_INDEX_LIST_def split: if_splits)
    then show ?thesis using sub w(2) by auto
  next
    case False
    show ?thesis
    proof (cases "is_psr_subregister r")
      case True
      then have sub: "i \<in> set XPSR_REGS" "sel_of r = 16" using K(1) R(2) False by (auto simp: kind_ok_def sel_of_def)
      have "w \<in> set (XPSR_REGS @ [XPSR_INDEX])"
        using sel sub(2) K(2) R(4) by (auto simp: sel_of_def kind_ok_def XPSR_INDEX_def CFBP_INDEX_LIST_def split: if_splits)
      then show ?thesis using sub w(2) by auto
    next
      case np: False
      then have i: "sel_of r = i" using False R(2) by (simp add: sel_of_def)
      have "is_cfbp_subregister r' \<longrightarrow> sel_of r' \<in> set CFBP_INDEX_LIST" using K(2) by (simp add: kind_ok_def)
      then have nc: "\<not> is_cfbp_subregister r'" using kind(1) sel i by auto
      have p: "is_psr_subregister r'"
      proof (rule ccontr)
        assume "\<not> is_psr_subregister r'"
        then have "sel_of r' = w" using nc R(4) by (simp add: sel_of_def)
        then show False using sel i w(3) by simp
      qed
      then have "sel_of r' = 16" using nc by (simp add: sel_of_def)
      then have "i = 16" "w \<in> set XPSR_REGS" using sel i K(2) R(4) p by (simp_all add: kind_ok_def)
      then show ?thesis using w(2) by (auto simp: XPSR_INDEX_def)
    qed
  qed
qed

text \<open>An entry after the written values were stored, when nothing written shares with its register.\<close>

lemma stored_part_at:
  assumes r: "row i = Some r" and sep: "\<forall>w \<in> set regs. w = i \<or> (\<exists>r'. row w = Some r' \<and> regs_apart r' r)"
    and len: "length vals = length regs" and fit: "\<forall>(w, v) \<in> set (zip regs vals). w = i \<longrightarrow> reg_clip r v = v"
    and st: "stored_part regs vals c i = Some v"
  shows "i \<notin> set regs \<and> c i = Some v \<and> reg_at (foldl reg_update m (zip (map (the \<circ> row) regs) vals)) i = reg_at m i
    \<or> i \<in> set regs \<and> reg_at (foldl reg_update m (zip (map (the \<circ> row) regs) vals)) i = v"
  using sep len fit st
proof (induction regs vals c arbitrary: m rule: stored_part.induct)
  case (1 w regs u vals c)
  have R: "r \<in> set all_registers" "ri_index r = i" using r by (simp_all add: row_Some)
  let ?m = "reg_update m (the (row w), u)"
  have IH: "i \<notin> set regs \<and> (c(w \<mapsto> u)) i = Some v \<and> reg_at (foldl reg_update ?m (zip (map (the \<circ> row) regs) vals)) i = reg_at ?m i
    \<or> i \<in> set regs \<and> reg_at (foldl reg_update ?m (zip (map (the \<circ> row) regs) vals)) i = v"
  proof -
    have p: "\<forall>w \<in> set regs. w = i \<or> (\<exists>r'. row w = Some r' \<and> regs_apart r' r)" "length vals = length regs"
      "\<forall>(w, v) \<in> set (zip regs vals). w = i \<longrightarrow> reg_clip r v = v" "stored_part regs vals (c(w \<mapsto> u)) i = Some v"
      using "1.prems" by simp_all
    show ?thesis using "1.IH" [OF p, of ?m] .
  qed
  have step: "foldl reg_update m (zip (map (the \<circ> row) (w # regs)) (u # vals))
      = foldl reg_update ?m (zip (map (the \<circ> row) regs) vals)" by simp
  show ?case
  proof (cases "w = i")
    case True
    have "reg_at ?m i = u"
      using reg_value_update_same [OF R(1), of m u] r True "1.prems"(3) by (simp add: reg_at_def)
    then show ?thesis using IH True unfolding step by auto
  next
    case False
    then obtain r' where r': "row w = Some r'" "regs_apart r' r" using "1.prems"(1) by auto
    have "reg_at ?m i = reg_at m i"
    proof -
      have "r' \<in> set all_registers" using r'(1) by (simp add: row_Some)
      from reg_value_update_apart [OF this R(1) r'(2), of m u] show ?thesis by (simp add: reg_at_def r r'(1))
    qed
    then show ?thesis using IH False unfolding step by auto
  qed
qed simp_all

definition fits :: "reg_info list \<Rightarrow> int list \<Rightarrow> bool" where
  "fits infos vals \<longleftrightarrow> list_all (\<lambda>(r, v). merged r \<or> reg_clip r v = v) (zip infos vals)"

lemma after_write_coherent:
  assumes coh: "coherent_regs m c" and known: "\<forall>i \<in> set regs. row i \<noteq> None" and len: "length vals = length regs"
    and fit: "fits (map (the \<circ> row) regs) vals"
    and here: "cache_after_write regs (stored_part regs vals c) i = Some v"
  shows "v = reg_at (foldl reg_update m (zip (map (the \<circ> row) regs) vals)) i \<or> stale_risk regs i \<or> row i = None"
proof (rule ccontr)
  assume no: "\<not> (v = reg_at (foldl reg_update m (zip (map (the \<circ> row) regs) vals)) i \<or> stale_risk regs i \<or> row i = None)"
  then obtain r where r: "row i = Some r" by blast
  have R: "r \<in> set all_registers" "ri_index r = i" using r by (simp_all add: row_Some)
  note W = cache_after_write_at [OF here]
  have sep: "\<exists>r'. row w = Some r' \<and> regs_apart r' r" if w: "w \<in> set regs" "w \<noteq> i" for w
  proof -
    obtain r' where r': "row w = Some r'" using known w(1) by blast
    have "regs_apart r' r"
    proof (rule ccontr)
      assume na: "\<not> regs_apart r' r"
      have "stale_risk regs i \<longleftrightarrow> i \<in> set CFBP_INDEX_LIST \<or> is_float_register r"
        using r r' w na by (auto simp: stale_risk_def list_ex_iff intro!: bexI [of _ w])
      then have "i \<notin> set CFBP_INDEX_LIST" "\<not> is_float_register r" using no by auto
      from shared_is_popped [OF r r' w na this] show False using W(2,3) by blast
    qed
    then show ?thesis using r' by blast
  qed
  have fit': "\<forall>(w, v) \<in> set (zip regs vals). w = i \<longrightarrow> reg_clip r v = v"
  proof (intro ballI, clarify)
    fix u assume iu: "(i, u) \<in> set (zip regs vals)"
    then have "i \<in> set regs" by (rule set_zip_leftD)
    then have "i \<notin> set cfbp_subs" "i \<notin> set XPSR_REGS" using W(2,3) by auto
    then have "\<not> merged r" using kinds_ok R by (auto simp: merged_def kind_ok_def list_all_iff)
    moreover have "(r, u) \<in> set (zip (map (the \<circ> row) regs) vals)"
      using iu r by (auto simp: zip_map1 image_iff intro!: bexI [of _ "(i, u)"])
    ultimately show "reg_clip r u = u" using fit by (auto simp: fits_def list_all_iff)
  qed
  have "\<forall>w \<in> set regs. w = i \<or> (\<exists>r'. row w = Some r' \<and> regs_apart r' r)" using sep by blast
  from stored_part_at [OF r this len fit' W(1), of m] show False
    using coh no by (auto simp: coherent_regs_def)
qed

subsection \<open>The register access below\<close>

definition present :: "core_index \<Rightarrow> int set \<Rightarrow> int \<Rightarrow> bool" where
  "present ci U i \<longleftrightarrow> ci_by_index ci i \<noteq> None \<and> (\<exists>r. row i = Some r \<and> set (parts r) \<subseteq> U)"

definition rows :: "int list \<Rightarrow> reg_info list" where
  "rows regs = map (the \<circ> row) regs"

definition parents_present :: "(int \<Rightarrow> bool) \<Rightarrow> bool" where
  "parents_present P \<longleftrightarrow> list_all (\<lambda>(index, regs). list_all (\<lambda>r. P r \<longrightarrow> P index) regs)
     (zip CFBP_INDEX_LIST CFBP_REGS_LIST @ [(XPSR_INDEX, XPSR_REGS)])"

text \<open>The entries of the current run token hold the core's values.\<close>

definition reg_cache_ok :: "'c reg_env \<Rightarrow> ('c \<Rightarrow> bool) \<Rightarrow> ('c \<Rightarrow> int \<Rightarrow> int) \<Rightarrow> 'c reg_cache \<Rightarrow> bool" where
  "reg_cache_ok E cinv raw s \<longleftrightarrow> cinv (gc_context s)
     \<and> (gc_run_token s = re_token E (gc_context s) \<longrightarrow> coherent_regs (raw (gc_context s)) (gc_cache s))"

text \<open>
  What the cache relies on: the core stays halted, reads return the registers' values and change
  nothing, writes perform the assignments, and a core with a byte or field register has the combined
  one too.
\<close>

locale register_context =
  fixes E :: "'c reg_env" and U :: "int set" and cinv :: "'c \<Rightarrow> bool" and raw :: "'c \<Rightarrow> int \<Rightarrow> int"
  assumes running_law: "cinv c \<Longrightarrow> wp (re_is_running E)
      (\<lambda>b c'. \<not> b \<and> cinv c' \<and> raw c' = raw c \<and> re_token E c' = re_token E c) (\<lambda>_ _. True) c"
    and order_law: "set (re_set_order E xs) = set xs"
    and read_law: "cinv c \<Longrightarrow> \<forall>i \<in> set regs. present (re_index E) U i \<Longrightarrow> wp (re_read E (map RegIndex regs))
      (\<lambda>vals c'. cinv c' \<and> raw c' = raw c \<and> re_token E c' = re_token E c \<and> vals = map (reg_at (raw c)) regs) (\<lambda>_ _. True) c"
    and write_law: "cinv c \<Longrightarrow> \<forall>i \<in> set regs. present (re_index E) U i \<Longrightarrow> writable (rows regs) vals \<Longrightarrow>
      wp (re_write E (map RegIndex regs) vals)
      (\<lambda>_ c'. cinv c' \<and> re_token E c' = re_token E c \<and> raw c' = foldl reg_update (raw c) (zip (rows regs) vals)) (\<lambda>_ _. True) c"
    and parents_law: "parents_present (present (re_index E) U)"
begin

abbreviation cache_ok :: "'c reg_cache \<Rightarrow> bool" where
  "cache_ok \<equiv> reg_cache_ok E cinv raw"

abbreviation regs_of :: "'c reg_cache \<Rightarrow> int \<Rightarrow> int" where
  "regs_of s \<equiv> raw (gc_context s)"

definition fresh :: "(int \<Rightarrow> int) \<Rightarrow> 'c reg_cache \<Rightarrow> bool" where
  "fresh m s \<longleftrightarrow> cinv (gc_context s) \<and> gc_run_token s = re_token E (gc_context s) \<and> regs_of s = m
     \<and> coherent_regs m (gc_cache s)"

lemma fresh_ok: "fresh m s \<Longrightarrow> cache_ok s \<and> regs_of s = m"
  by (auto simp: fresh_def reg_cache_ok_def)

lemma wp_on_core:
  "wp (on_core m) Q F s = wp m (\<lambda>x c. Q x (s\<lparr>gc_context := c\<rparr>)) (\<lambda>e c. F e (s\<lparr>gc_context := c\<rparr>)) (gc_context s)"
  by (auto simp: wp_def on_core_def split: prod.splits sum.splits)

lemma check_wp:
  assumes "cache_ok s" and "\<And>e s'. e \<noteq> CoreRegisterAccessError \<or> gc_cache s' = gc_cache s \<Longrightarrow> F e s'"
  shows "wp (check_reg_cache E) (\<lambda>b s'. \<not> b \<and> fresh (regs_of s) s') F s"
proof -
  have c: "cinv (gc_context s)" using assms(1) by (simp add: reg_cache_ok_def)
  show ?thesis
    unfolding check_reg_cache_def wp_bind wp_on_core
    by (rule wp_mono [OF running_law [OF c]])
      (use assms in \<open>auto simp: fresh_def reg_cache_ok_def reset_reg_cache_def coherent_regs_def\<close>)
qed

lemma update_after_read_coherent:
  assumes "coherent_regs m cache" and "add_cfbp (zip CFBP_INDEX_LIST CFBP_REGS_LIST) missing = (flags, rl1)"
    and "add_xpsr rl1 = (read_xpsr, rl)" and "set missing = {r \<in> set regs. cache r = None}"
  shows "\<exists>c'. update_after_read regs flags read_xpsr rl (map (reg_at m) rl) cache = Inr (map (reg_at m) regs, c')
    \<and> coherent_regs m c'"
proof -
  let ?ps = "zip CFBP_INDEX_LIST CFBP_REGS_LIST"
  have sub: "set rl1 \<subseteq> set rl" and x: "read_xpsr \<longrightarrow> XPSR_INDEX \<in> set rl"
    using assms(3) by (auto simp: add_xpsr_def Let_def split: if_splits)
  have F: "set missing \<subseteq> set rl1" "\<forall>(f, index, regs) \<in> set (zip flags ?ps). f \<longrightarrow> index \<in> set rl1"
    using add_cfbp_flags [OF assms(2)] by blast+
  have f: "\<forall>(f, index, regs) \<in> set (zip flags ?ps). (f \<longrightarrow> index \<in> set rl) \<and> (index, regs) \<in> set ?ps"
  proof (intro ballI, clarify, intro conjI)
    fix f index regs assume a: "(f, index, regs) \<in> set (zip flags ?ps)"
    show "f \<longrightarrow> index \<in> set rl" using F(2) a sub by blast
    show "(index, regs) \<in> set ?ps" using a by (rule set_zip_rightD)
  qed
  obtain c1 where c1: "store_cfbp (zip flags ?ps) rl (map (reg_at m) rl) cache = Inr c1" "coherent_regs m c1" "keeps cache c1"
    using store_cfbp_coherent [OF assms(1) f] by blast
  obtain c2 where c2: "store_xpsr read_xpsr rl (map (reg_at m) rl) c1 = Inr c2" "coherent_regs m c2" "keeps c1 c2"
    using store_xpsr_coherent [OF c1(2) x] by blast
  let ?H = "{r \<in> set regs. cache r \<noteq> None}"
  have k: "keeps cache c2" using keeps_trans [OF c1(3) c2(3)] .
  have "\<forall>r \<in> set regs. (r \<in> ?H \<longrightarrow> c2 r \<noteq> None) \<and> (r \<notin> ?H \<longrightarrow> r \<in> set rl)"
    using k F(1) sub assms(4) by (auto simp: keeps_def)
  then obtain c3 where "results_from ?H rl (map (reg_at m) rl) regs c2 = Inr (map (reg_at m) regs, c3)" "coherent_regs m c3"
    using results_from_coherent [OF c2(2)] by blast
  then show ?thesis using c1(1) c2(1) by (simp add: update_after_read_def Let_def)
qed

lemma read_list_present:
  assumes "add_cfbp (zip CFBP_INDEX_LIST CFBP_REGS_LIST) missing = (flags, rl1)" and "add_xpsr rl1 = (read_xpsr, rl)"
    and "\<forall>r \<in> set missing. present (re_index E) U r"
  shows "\<forall>r \<in> set rl. present (re_index E) U r"
proof -
  let ?P = "present (re_index E) U"
  have pr: "?P index" if "(index, regs) \<in> set (zip CFBP_INDEX_LIST CFBP_REGS_LIST @ [(XPSR_INDEX, XPSR_REGS)])"
      "r \<in> set regs" "?P r" for index regs r
    using parents_law that unfolding parents_present_def list_all_iff by blast
  have "\<forall>r \<in> set (snd (add_cfbp (zip CFBP_INDEX_LIST CFBP_REGS_LIST) missing)). ?P r"
  proof (rule add_cfbp_closed [OF _ assms(3)])
    show "?P index" if "(index, regs) \<in> set (zip CFBP_INDEX_LIST CFBP_REGS_LIST)" "r \<in> set regs" "?P r" for index regs r
      using pr [of index regs r] that by simp
  qed
  then have 1: "\<forall>r \<in> set rl1. ?P r" unfolding assms(1) by simp
  have "?P XPSR_INDEX" if read_xpsr
    using that assms(2) 1 pr [of XPSR_INDEX XPSR_REGS]
    by (auto simp: add_xpsr_def Let_def any_of_def list_ex_iff)
  then show ?thesis using 1 assms(2) by (auto simp: add_xpsr_def Let_def split: if_splits)
qed

lemma read_missing_wp:
  assumes s0: "fresh m s0" and upd: "update_after_read regs flags read_xpsr rl (map (reg_at m) rl) (gc_cache s0) = Inr (vs, cache')"
    and coh: "coherent_regs m cache'" and pres: "\<forall>r \<in> set rl. present (re_index E) U r"
  shows "wp (read_missing E n regs flags read_xpsr rl (gc_cache s0))
    (\<lambda>vals s'. fresh m s' \<and> vals = vs) (\<lambda>_ _. True) s0"
proof -
  let ?s1 = "add_metrics n (int (length rl)) 0 s0"
  define good where "good = (\<lambda>vals s2. vals = map (reg_at m) rl \<and> cinv (gc_context s2) \<and> regs_of s2 = m
      \<and> gc_run_token s2 = re_token E (gc_context s2))"
  have f0: "cinv (gc_context s0)" "gc_run_token s0 = re_token E (gc_context s0)" "regs_of s0 = m"
    using s0 by (auto simp: fresh_def)
  have s1: "gc_context ?s1 = gc_context s0" "gc_run_token ?s1 = gc_run_token s0" by (simp_all add: add_metrics_def)
  have fin: "wp (lift_res (update_after_read regs flags read_xpsr rl vals (gc_cache s0)))
      (\<lambda>x. wp (case x of (results, cache') \<Rightarrow> bind (modify (\<lambda>s. s\<lparr>gc_cache := cache'\<rparr>)) (\<lambda>_. ret results))
        (\<lambda>vals s'. fresh m s' \<and> vals = vs) (\<lambda>_ _. True)) (\<lambda>_ _. True) s2"
    if "good vals s2" for vals s2
    using that coh by (simp add: good_def upd fresh_def)
  have rd: "wp (guarded (on_core (re_read E (map RegIndex rl)))) good (\<lambda>_ _. True) ?s1"
    unfolding guarded_def wp_catch wp_on_core s1
    by (rule wp_mono [OF read_law [OF f0(1) pres]]) (simp_all add: f0 s1 good_def)
  have acc: "wp (if rl \<noteq> [] then guarded (on_core (re_read E (map RegIndex rl))) else ret []) good (\<lambda>_ _. True) ?s1"
    using rd f0 s1 by (cases "rl = []") (simp_all add: good_def)
  show ?thesis
    unfolding read_missing_def wp_bind wp_modify
    by (rule wp_mono [OF acc]) (use fin in auto)
qed

lemma cached_read_wp:
  assumes "cache_ok s" and conv: "convert_and_check_registers E refs = Inr regs"
    and pres: "\<forall>i \<in> set regs. present (re_index E) U i"
  shows "wp (cached_read_registers E refs)
    (\<lambda>vals s'. fresh (regs_of s) s' \<and> vals = map (reg_at (regs_of s)) regs) (\<lambda>_ _. True) s"
  unfolding cached_read_registers_def wp_bind
proof (rule wp_mono [OF check_wp [OF assms(1)]])
  fix b s0 assume b: "\<not> b \<and> fresh (regs_of s) s0"
  define hit where "hit = remdups (filter (\<lambda>r. gc_cache s0 r \<noteq> None) regs)"
  define missing where "missing = re_set_order E (remdups (filter (\<lambda>r. gc_cache s0 r = None) regs))"
  obtain flags rl1 where rl1: "add_cfbp (zip CFBP_INDEX_LIST CFBP_REGS_LIST) missing = (flags, rl1)" by fastforce
  obtain read_xpsr rl where rl: "add_xpsr rl1 = (read_xpsr, rl)" by fastforce
  have miss: "set missing = {r \<in> set regs. gc_cache s0 r = None}" by (auto simp: missing_def order_law)
  have rlp: "\<forall>r \<in> set rl. present (re_index E) U r"
    by (rule read_list_present [OF rl1 rl]) (use miss pres in auto)
  have coh: "coherent_regs (regs_of s) (gc_cache s0)" using b by (simp add: fresh_def)
  obtain cache' where cache': "update_after_read regs flags read_xpsr rl (map (reg_at (regs_of s)) rl) (gc_cache s0)
      = Inr (map (reg_at (regs_of s)) regs, cache')" "coherent_regs (regs_of s) cache'"
    using update_after_read_coherent [OF coh rl1 rl miss] by blast
  have "wp (read_missing E (int (length hit)) regs flags read_xpsr rl (gc_cache s0))
      (\<lambda>vals s'. fresh (regs_of s) s' \<and> vals = map (reg_at (regs_of s)) regs) (\<lambda>_ _. True) s0"
    by (rule read_missing_wp [OF _ cache' rlp]) (use b in simp)
  then show "wp (if b then on_core (re_read E refs)
       else
         bind (lift_res (convert_and_check_registers E refs)) (\<lambda>regs.
         bind get_state (\<lambda>s0.
         let cache = gc_cache s0;
             hit = remdups (filter (\<lambda>r. cache r \<noteq> None) regs);
             missing = re_set_order E (remdups (filter (\<lambda>r. cache r = None) regs));
             (flags, rl1) = add_cfbp (zip CFBP_INDEX_LIST CFBP_REGS_LIST) missing;
             (read_xpsr, read_list) = add_xpsr rl1
         in read_missing E (int (length hit)) regs flags read_xpsr read_list cache)))
     (\<lambda>vals s'. fresh (regs_of s) s' \<and> vals = map (reg_at (regs_of s)) regs) (\<lambda>_ _. True) s0"
    using b unfolding hit_def by (simp add: conv missing_def [symmetric] rl1 rl Let_def)
qed auto

lemma cached_write_wp:
  assumes "cache_ok s" and conv: "convert_and_check_registers E refs = Inr regs"
    and pres: "\<forall>i \<in> set regs. present (re_index E) U i"
    and wr: "writable (rows regs) vals" and fit: "fits (rows regs) vals"
  shows "wp (cached_write_registers E refs vals)
    (\<lambda>_ s'. cinv (gc_context s') \<and> gc_run_token s' = re_token E (gc_context s')
      \<and> regs_of s' = foldl reg_update (regs_of s) (zip (rows regs) vals)
      \<and> (\<forall>i v. gc_cache s' i = Some v \<longrightarrow> v = reg_at (regs_of s') i \<or> stale_risk regs i \<or> row i = None)) (\<lambda>_ _. True) s"
  unfolding cached_write_registers_def wp_bind
proof (rule wp_mono [OF check_wp [OF assms(1)]])
  let ?m' = "foldl reg_update (regs_of s) (zip (rows regs) vals)"
  let ?Q = "\<lambda>_ s'. cinv (gc_context s') \<and> gc_run_token s' = re_token E (gc_context s') \<and> regs_of s' = ?m'
      \<and> (\<forall>i v. gc_cache s' i = Some v \<longrightarrow> v = reg_at (regs_of s') i \<or> stale_risk regs i \<or> row i = None)"
  fix b s0 assume b: "\<not> b \<and> fresh (regs_of s) s0"
  have len: "length vals = length regs" using wr by (simp add: writable_def rows_def)
  have known: "\<forall>i \<in> set regs. row i \<noteq> None" using pres by (auto simp: present_def)
  have f0: "cinv (gc_context s0)" "gc_run_token s0 = re_token E (gc_context s0)" "regs_of s0 = regs_of s"
    "coherent_regs (regs_of s) (gc_cache s0)"
    using b by (auto simp: fresh_def)
  let ?c = "cache_after_write regs (stored_part regs vals (gc_cache s0))"
  have ents: "?c i = Some v \<longrightarrow> v = reg_at ?m' i \<or> stale_risk regs i \<or> row i = None" for i v
    using after_write_coherent [OF f0(4) known len fit [unfolded rows_def], of i v] unfolding rows_def by blast
  have acc: "wp (guarded (on_core (re_write E (map RegIndex regs) vals))) ?Q (\<lambda>_ _. True) s1"
    if s1: "gc_context s1 = gc_context s0" "gc_run_token s1 = gc_run_token s0" "gc_cache s1 = ?c" for s1
    unfolding guarded_def wp_catch wp_on_core s1
    by (rule wp_mono [OF write_law [OF f0(1) pres wr]]) (use f0 s1 ents in auto)
  show "wp (if b then on_core (re_write E refs vals)
       else
         bind (lift_res (convert_and_check_registers E refs)) (\<lambda>regs.
         bind (modify (add_metrics 0 0 (int (length regs)))) (\<lambda>_.
         bind (modify (\<lambda>s. s\<lparr>gc_cache := stored_part regs vals (gc_cache s)\<rparr>)) (\<lambda>_.
         bind (if length vals < length regs then raise IndexError else ret ()) (\<lambda>_.
         bind (modify (\<lambda>s. s\<lparr>gc_cache := cache_after_write regs (gc_cache s)\<rparr>)) (\<lambda>_.
           guarded (on_core (re_write E (map RegIndex regs) vals))))))))
     ?Q (\<lambda>_ _. True) s0"
    using b acc by (simp add: conv len add_metrics_def)
qed auto

end

subsection \<open>The cache over the core's register access\<close>

text \<open>The core's state is that of the hardware with the run token of the object.\<close>

definition with_token :: "('s, 'a) exec \<Rightarrow> ('s \<times> int, 'a) exec" where
  "with_token m st = (case m (fst st) of (r, s') \<Rightarrow> (r, (s', snd st)))"

definition core_env ::
    "'s core_ops \<Rightarrow> core_index \<Rightarrow> bool \<Rightarrow> ('s, bool) exec \<Rightarrow> (int list \<Rightarrow> int list) \<Rightarrow> ('s \<times> int) reg_env" where
  "core_env D ci has_fpu is_running set_order =
     \<lparr>re_is_running = with_token is_running, re_token = snd, re_index = ci, re_has_fpu = has_fpu,
      re_read = (\<lambda>refs. with_token (read_core_registers_raw D ci has_fpu refs)),
      re_write = (\<lambda>refs vals. with_token (write_core_registers_raw D ci has_fpu refs vals)),
      re_set_order = set_order\<rparr>"

lemma wp_with_token:
  "wp (with_token m) Q F st = wp m (\<lambda>x s. Q x (s, snd st)) (\<lambda>e s. F e (s, snd st)) (fst st)"
  by (auto simp: wp_def with_token_def split: prod.splits sum.splits)

lemma refs_of_indexes: "res_map register_name_to_index (map RegIndex regs) = Inr regs"
  by (induction regs) auto

lemma check_present: "\<forall>i \<in> set regs. present ci U i \<Longrightarrow> check_reg_list ci has_fpu regs = Inr ()"
  by (induction regs) (auto simp: present_def)

lemma present_rows:
  "\<forall>i \<in> set regs. present ci U i \<Longrightarrow> infos_of regs = Inr (rows regs) \<and> held U (rows regs)"
proof
  assume p: "\<forall>i \<in> set regs. present ci U i"
  show "infos_of regs = Inr (rows regs)"
    unfolding rows_def by (rule infos_of_rows) (use p in \<open>auto simp: present_def\<close>)
  have "set (parts (the (row i))) \<subseteq> U" if "i \<in> set regs" for i
  proof -
    have "present ci U i" using p that by blast
    then obtain r where "row i = Some r" "set (parts r) \<subseteq> U" by (auto simp: present_def)
    then show ?thesis by simp
  qed
  then show "held U (rows regs)" by (auto simp: held_def rows_def)
qed

lemma reg_at_rows: "\<forall>i \<in> set regs. row i \<noteq> None \<Longrightarrow> map (reg_value m) (rows regs) = map (reg_at m) regs"
  by (auto simp: rows_def reg_at_def)

locale cached_core = dcrsr_hw D U inv raw dcrdr fail
  for D :: "'s core_ops" and U :: "int set" and inv :: "'s \<Rightarrow> bool" and raw :: "'s \<Rightarrow> int \<Rightarrow> int"
    and dcrdr :: "'s \<Rightarrow> int" and fail :: "exn \<Rightarrow> 's \<Rightarrow> bool" +
  fixes ci :: core_index and has_fpu :: bool and is_running :: "('s, bool) exec" and set_order :: "int list \<Rightarrow> int list"
  assumes not_running: "inv s \<Longrightarrow> wp is_running (\<lambda>b s'. \<not> b \<and> inv s' \<and> raw s' = raw s) fail s"
    and set_order: "set (set_order xs) = set xs"
    and whole_present: "parents_present (present ci U)"

sublocale cached_core \<subseteq> rc: register_context "core_env D ci has_fpu is_running set_order" U "\<lambda>st. inv (fst st)" "\<lambda>st. raw (fst st)"
proof
  fix c :: "'s \<times> int" assume i: "inv (fst c)"
  show "wp (re_is_running (core_env D ci has_fpu is_running set_order))
      (\<lambda>b c'. \<not> b \<and> inv (fst c') \<and> raw (fst c') = raw (fst c)
        \<and> re_token (core_env D ci has_fpu is_running set_order) c' = re_token (core_env D ci has_fpu is_running set_order) c)
      (\<lambda>_ _. True) c"
    by (simp add: core_env_def wp_with_token) (rule wp_mono [OF not_running [OF i]]; simp)
next
  fix xs show "set (re_set_order (core_env D ci has_fpu is_running set_order) xs) = set xs"
    by (simp add: core_env_def set_order)
next
  fix c :: "'s \<times> int" and regs
  assume i: "inv (fst c)" and p: "\<forall>i \<in> set regs. present (re_index (core_env D ci has_fpu is_running set_order)) U i"
  then have p': "\<forall>i \<in> set regs. present ci U i" by (simp add: core_env_def)
  then have known: "\<forall>i \<in> set regs. row i \<noteq> None" by (auto simp: present_def)
  note P = present_rows [OF p']
  show "wp (re_read (core_env D ci has_fpu is_running set_order) (map RegIndex regs))
      (\<lambda>vals c'. inv (fst c') \<and> raw (fst c') = raw (fst c)
        \<and> re_token (core_env D ci has_fpu is_running set_order) c' = re_token (core_env D ci has_fpu is_running set_order) c
        \<and> vals = map (reg_at (raw (fst c))) regs) (\<lambda>_ _. True) c"
    by (simp add: core_env_def wp_with_token read_core_registers_raw_def refs_of_indexes check_present [OF p'])
      (rule wp_mono [OF base_read_wp [OF i P [THEN conjunct1] P [THEN conjunct2]]]; simp add: reg_at_rows [OF known])
next
  fix c :: "'s \<times> int" and regs vals
  assume i: "inv (fst c)" and p: "\<forall>i \<in> set regs. present (re_index (core_env D ci has_fpu is_running set_order)) U i"
    and w: "writable (rows regs) vals"
  then have p': "\<forall>i \<in> set regs. present ci U i" by (simp add: core_env_def)
  note P = present_rows [OF p']
  have len: "length regs = length vals" using w by (simp add: writable_def rows_def)
  show "wp (re_write (core_env D ci has_fpu is_running set_order) (map RegIndex regs) vals)
      (\<lambda>_ c'. inv (fst c') \<and> re_token (core_env D ci has_fpu is_running set_order) c' = re_token (core_env D ci has_fpu is_running set_order) c
        \<and> raw (fst c') = foldl reg_update (raw (fst c)) (zip (rows regs) vals)) (\<lambda>_ _. True) c"
    by (simp add: core_env_def wp_with_token write_core_registers_raw_def refs_of_indexes check_present [OF p'] len)
      (rule wp_mono [OF base_write_wp [OF i P [THEN conjunct1] w P [THEN conjunct2]]]; simp)
next
  show "parents_present (present (re_index (core_env D ci has_fpu is_running set_order)) U)"
    using whole_present by (simp add: core_env_def)
qed

subsection \<open>An instance, and what stays stale\<close>

lemma present_v7m: "present v7m_index UNIV i \<longleftrightarrow> i \<in> set v7m_indexes"
proof -
  have v: "set v7m_indexes = ri_index ` set (ci_all v7m_index)"
    by (simp add: v7m_indexes_def v7m_all image_Un)
  have "ci_by_index v7m_index i \<noteq> None \<longleftrightarrow> i \<in> ri_index ` set (ci_all v7m_index)"
    using v7m_index_ok by (auto simp: index_ok_def)
  moreover have "row i \<noteq> None" if "i \<in> ri_index ` set (ci_all v7m_index)"
    using that v7m_index_ok row_Some [of i] by (auto simp: index_ok_def)
  ultimately show ?thesis unfolding present_def v by auto
qed

lemma v7m_parents: "parents_present (present v7m_index UNIV)"
proof -
  have "present v7m_index UNIV = (\<lambda>i. i \<in> set v7m_indexes)" by (rule ext) (rule present_v7m)
  moreover have "parents_present (\<lambda>i. i \<in> set v7m_indexes)" by code_simp
  ultimately show ?thesis by simp
qed

lemma index_for_present: "present ci U i \<Longrightarrow> index_for_reg (RegIndex i) = Inr i"
  by (auto simp: index_for_reg_def get_info_of_row present_def row_Some simp del: get_info.simps)
     (metis get_info_of_row get_info_row option.simps(5) res_bind_simps(2) row_Some sum.inject(2))

definition sim_running :: "(sim_core, bool) exec" where
  "sim_running s = (Inr (\<not> sc_halted s), s)"

interpretation sim_cache: cached_core sim_core_ops UNIV sim_core_inv sc_regs sc_dcrdr "\<lambda>_ _. False"
    v7m_index True sim_running "\<lambda>xs. xs"
  using v7m_parents
  by unfold_locales (simp_all add: wp_case sim_running_def sim_core_inv_def present_v7m)

abbreviation "sim_env \<equiv> core_env sim_core_ops v7m_index True sim_running (\<lambda>xs. xs)"

definition demo_reg_cache :: "(sim_core \<times> int) reg_cache" where
  "demo_reg_cache = (RegisterCache (demo_core, 5))\<lparr>gc_run_token := 5, gc_cache := [5121 \<mapsto> 2, 15 \<mapsto> 7]\<rparr>"

lemma demo_reg_cache_ok: "reg_cache_ok sim_env (\<lambda>st. sim_core_inv (fst st)) (\<lambda>st. sc_regs (fst st)) demo_reg_cache"
proof -
  have 15: "reg_at (sc_regs demo_core) 15 = 7"
    by (subst reg_at_plain) (simp_all add: plain_index_iff demo_core_def)
  have 20: "reg_at (sc_regs demo_core) 20 = 0x04030201"
    by (subst reg_at_plain) (simp_all add: plain_index_iff demo_core_def)
  have "reg_at (sc_regs demo_core) 5121 = 2"
    using reg_at_cfbp [of 20 "[5123, 5122, 5121, 5120]" 5121 "sc_regs demo_core"] 20
    by (simp add: CFBP_INDEX_LIST_def CFBP_REGS_LIST_def)
  then show ?thesis
    using 15 demo_core_inv
    by (simp add: reg_cache_ok_def demo_reg_cache_def RegisterCache_def core_env_def coherent_regs_def)
qed

text \<open>
  Writing PRIMASK leaves the cached combined CFBP as it was, and writing S0 the cached D0: the next
  read of either from the cache returns the old value.
\<close>

lemma cfbp_stays_stale:
  "cache_after_write [5120] (stored_part [5120] [1] [20 \<mapsto> 0x04030200]) 20 = Some 0x04030200
   \<and> reg_at (foldl reg_update (\<lambda>_. 0x04030200) (zip (rows [5120]) [1])) 20 = 0x04030201"
  by code_simp

lemma double_stays_stale:
  "cache_after_write [64] (stored_part [64] [1] [- 64 \<mapsto> 0]) (- 64) = Some 0
   \<and> reg_at (foldl reg_update (\<lambda>_. 0) (zip (rows [64]) [1])) (- 64) = 1"
  by code_simp

text \<open>
  A write that fails with another error than CoreRegisterAccessError leaves the values in the cache
  that never reached the core.
\<close>

lemma failed_write_cached:
  assumes "re_is_running E c = (Inr False, c)" and "convert_and_check_registers E refs = Inr [15]"
    and "re_write E [RegIndex 15] [v] c = (Inl TransferError, c')"
  shows "fst (cached_write_registers E refs [v] \<lparr>gc_context = c, gc_run_token = re_token E c, gc_cache = Map.empty, gc_metrics = CacheMetrics\<rparr>)
      = Inl TransferError
    \<and> gc_cache (snd (cached_write_registers E refs [v]
        \<lparr>gc_context = c, gc_run_token = re_token E c, gc_cache = Map.empty, gc_metrics = CacheMetrics\<rparr>)) 15 = Some v"
proof -
  have p: "cache_after_write [15] [15 \<mapsto> v] 15 = Some v"
    by (simp add: cache_after_write_def pop_sp_def pop_xpsr_def any_of_def pop_cfbp_def CFBP_INDEX_LIST_def
        CFBP_REGS_LIST_def XPSR_REGS_def XPSR_INDEX_def SP_REGS_def Let_def upt_rec)
  show ?thesis
    using assms p
    by (simp add: cached_write_registers_def check_reg_cache_def bind_def on_core_def add_metrics_def guarded_def catch_def)
qed

subsection \<open>Properties\<close>





end
