(* ===== verification/Breakpoint_Units.thy ===== *)
theory Breakpoint_Units
  imports Memory_Interface Memory_Map
begin

text \<open>
  The breakpoint providers: \<open>pyocd/debug/breakpoints/provider.py\<close>, the software breakpoints of
  \<open>debug/breakpoints/software.py\<close> and the Flash Patch and Breakpoint unit of
  \<open>coresight/fpb.py\<close>.  Breakpoint objects are mutable and shared between the providers and the
  manager, so they live in a heap and are referred to by their number.  The core's memory accesses
  are parameters.
\<close>

subsection \<open>Breakpoint objects\<close>

datatype bp_type = HW | SW | AUTO

text \<open>The \<open>provider\<close> of a breakpoint: the manager itself until the breakpoint is realized.\<close>

datatype bp_owner = ManagerOwner | FpbOwner | SoftwareOwner

record breakpoint =
  bo_type :: bp_type
  bo_enabled :: bool
  bo_addr :: int
  bo_original_instr :: int
  bo_provider :: bp_owner
  bo_comp_register_addr :: int

definition Breakpoint :: "bp_owner \<Rightarrow> breakpoint" where
  "Breakpoint provider = \<lparr>bo_type = HW, bo_enabled = False, bo_addr = 0, bo_original_instr = 0,
     bo_provider = provider, bo_comp_register_addr = 0\<rparr>"

definition SoftwareBreakpoint :: breakpoint where
  "SoftwareBreakpoint = (Breakpoint SoftwareOwner)\<lparr>bo_type := SW\<rparr>"

definition HardwareBreakpoint :: "int \<Rightarrow> breakpoint" where
  "HardwareBreakpoint comp_register_addr =
     (Breakpoint FpbOwner)\<lparr>bo_comp_register_addr := comp_register_addr, bo_type := HW\<rparr>"

type_synonym ref = nat

record fpb =
  fp_address :: int
  fp_hw_breakpoints :: "ref list"
  fp_nb_code :: int
  fp_nb_lit :: int
  fp_num_hw_breakpoint_used :: int
  fp_enabled :: bool
  fp_rev :: int

definition FPB :: "int \<Rightarrow> fpb" where
  "FPB address = \<lparr>fp_address = address, fp_hw_breakpoints = [], fp_nb_code = 0, fp_nb_lit = 0,
     fp_num_hw_breakpoint_used = 0, fp_enabled = False, fp_rev = 1\<rparr>"

text \<open>
  The state of one core's breakpoints: the objects, the two providers and the core.  The manager's
  part is added by its theory.
\<close>

record 'c bp_units =
  bu_heap :: "breakpoint list"
  bu_fpb :: fpb
  bu_soft :: "(int \<times> ref) list"
  bu_core :: 'c

text \<open>What the providers use of the core: its memory map and its memory.\<close>

record 'c bp_core =
  bc_map :: mmap
  bc_read16 :: "int \<Rightarrow> ('c, int) exec"
  bc_write16 :: "int \<Rightarrow> int \<Rightarrow> ('c, unit) exec"
  bc_invalidate_icache :: "int \<Rightarrow> ('c, unit) exec"
  bc_read32 :: "int \<Rightarrow> ('c, int) exec"
  bc_write32 :: "int \<Rightarrow> int \<Rightarrow> ('c, unit) exec"

definition on_target :: "('c, 'a) exec \<Rightarrow> (('c, 'z) bp_units_scheme, 'a) exec" where
  "on_target m s = (case m (bu_core s) of (r, c) \<Rightarrow> (r, s\<lparr>bu_core := c\<rparr>))"

text \<open>The object a reference stands for; references are only made by allocation.\<close>

definition bp_at :: "('c, 'z) bp_units_scheme \<Rightarrow> ref \<Rightarrow> breakpoint" where
  "bp_at s r = bu_heap s ! r"

definition set_bp :: "ref \<Rightarrow> (breakpoint \<Rightarrow> breakpoint) \<Rightarrow> ('c, 'z) bp_units_scheme \<Rightarrow> ('c, 'z) bp_units_scheme" where
  "set_bp r f s = s\<lparr>bu_heap := (bu_heap s)[r := f (bu_heap s ! r)]\<rparr>"

definition new_bp :: "breakpoint \<Rightarrow> (('c, 'z) bp_units_scheme, ref) exec" where
  "new_bp b s = (Inr (length (bu_heap s)), s\<lparr>bu_heap := bu_heap s @ [b]\<rparr>)"

text \<open>The memory map's word on an address: no region, or whether the region is writable.\<close>

definition region_writable :: "mmap \<Rightarrow> int \<Rightarrow> exn + bool option" where
  "region_writable mp addr =
     (case get_region_for_address mp addr None of
        None \<Rightarrow> Inr None
      | Some r \<Rightarrow> res_bind (getattr r ''is_writable'') (\<lambda>a. Inr (Some (truthy a))))"

subsection \<open>Software breakpoints\<close>

definition BKPT_INSTR :: int where "BKPT_INSTR = 0xbe00"

definition soft_can_support :: "'c bp_core \<Rightarrow> int \<Rightarrow> exn + bool" where
  "soft_can_support K addr = res_bind (region_writable (bc_map K) addr) (\<lambda>w. Inr (w = Some True))"

definition soft_find :: "int \<Rightarrow> ('c, 'z) bp_units_scheme \<Rightarrow> ref option" where
  "soft_find addr s = map_of (bu_soft s) addr"

definition soft_insert :: "'c bp_core \<Rightarrow> int \<Rightarrow> (('c, 'z) bp_units_scheme, ref option) exec" where
  "soft_insert K addr =
     bind (on_target (bc_read16 K addr)) (\<lambda>instr.
     bind (on_target (bc_write16 K addr BKPT_INSTR)) (\<lambda>_.
     bind (on_target (bc_invalidate_icache K addr)) (\<lambda>_.
     bind (new_bp (SoftwareBreakpoint\<lparr>bo_enabled := True, bo_addr := addr, bo_original_instr := instr\<rparr>)) (\<lambda>bp.
     bind (modify (\<lambda>s. s\<lparr>bu_soft := od_set addr bp (bu_soft s)\<rparr>)) (\<lambda>_.
       ret (Some bp))))))"

definition soft_set :: "'c bp_core \<Rightarrow> int \<Rightarrow> (('c, 'z) bp_units_scheme, ref option) exec" where
  "soft_set K addr =
     bind (lift_res (soft_can_support K addr)) (\<lambda>ok.
     bind (assert_that ok) (\<lambda>_.
     bind (assert_that (addr AND 1 = 0)) (\<lambda>_.
       catch (soft_insert K addr) is_transfer_error (\<lambda>_. ret None))))"

definition soft_delete :: "int \<Rightarrow> (('c, 'z) bp_units_scheme, unit) exec" where
  "soft_delete addr =
     bind get_state (\<lambda>s.
       if map_of (bu_soft s) addr = None then raise KeyError
       else modify (\<lambda>s. s\<lparr>bu_soft := od_del addr (bu_soft s)\<rparr>))"

definition soft_remove :: "'c bp_core \<Rightarrow> ref \<Rightarrow> (('c, 'z) bp_units_scheme, unit) exec" where
  "soft_remove K bp =
     bind get_state (\<lambda>s.
     catch
       (bind (on_target (bc_write16 K (bo_addr (bp_at s bp)) (bo_original_instr (bp_at s bp)))) (\<lambda>_.
        bind (on_target (bc_invalidate_icache K (bo_addr (bp_at s bp)))) (\<lambda>_.
          soft_delete (bo_addr (bp_at s bp)))))
       is_transfer_error (\<lambda>_. ret ()))"

text \<open>\<open>filter_memory\<close>: one breakpoint's effect on a value read at \<open>addr\<close>, then all of them.\<close>

definition filter_one :: "int \<Rightarrow> int \<Rightarrow> breakpoint \<Rightarrow> int \<Rightarrow> int" where
  "filter_one addr sz bp d =
     (if sz = 8 then
        (if bo_addr bp = addr then bo_original_instr bp AND 0xff
         else if bo_addr bp + 1 = addr then drop_bit 8 (bo_original_instr bp)
         else d)
      else if sz = 16 then (if bo_addr bp = addr then bo_original_instr bp else d)
      else if sz = 32 then
        (if bo_addr bp = addr then (d AND 0xffff0000) OR bo_original_instr bp
         else if bo_addr bp = addr + 2 then (d AND 0xffff) OR push_bit 16 (bo_original_instr bp)
         else d)
      else d)"

definition soft_filter :: "int \<Rightarrow> int \<Rightarrow> int \<Rightarrow> ('c, 'z) bp_units_scheme \<Rightarrow> int" where
  "soft_filter addr sz d s = foldl (\<lambda>d r. filter_one addr sz (bp_at s r) d) d (map snd (bu_soft s))"

subsection \<open>The FPB\<close>

definition FP_CTRL :: int where "FP_CTRL = 0"
definition FP_CTRL_KEY :: int where "FP_CTRL_KEY = 2 ^ 1"
definition FP_CTRL_REV_MASK :: int where "FP_CTRL_REV_MASK = 0xf0000000"
definition FP_CTRL_REV_SHIFT :: nat where "FP_CTRL_REV_SHIFT = 28"
definition FP_COMP0 :: int where "FP_COMP0 = 8"

definition on_fpb :: "(fpb \<Rightarrow> fpb) \<Rightarrow> (('c, 'z) bp_units_scheme, unit) exec" where
  "on_fpb f = modify (\<lambda>s. s\<lparr>bu_fpb := f (bu_fpb s)\<rparr>)"

definition fpb_enable :: "'c bp_core \<Rightarrow> (('c, 'z) bp_units_scheme, unit) exec" where
  "fpb_enable K =
     bind get_state (\<lambda>s.
     bind (on_target (bc_write32 K (fp_address (bu_fpb s) + FP_CTRL) (FP_CTRL_KEY OR 1))) (\<lambda>_.
       on_fpb (\<lambda>f. f\<lparr>fp_enabled := True\<rparr>)))"

definition fpb_disable :: "'c bp_core \<Rightarrow> (('c, 'z) bp_units_scheme, unit) exec" where
  "fpb_disable K =
     bind get_state (\<lambda>s.
     bind (on_target (bc_write32 K (fp_address (bu_fpb s) + FP_CTRL) (FP_CTRL_KEY OR 0))) (\<lambda>_.
       on_fpb (\<lambda>f. f\<lparr>fp_enabled := False\<rparr>)))"

definition add_comparator :: "int \<Rightarrow> (('c, 'z) bp_units_scheme, unit) exec" where
  "add_comparator i =
     bind get_state (\<lambda>s.
     bind (new_bp (HardwareBreakpoint (fp_address (bu_fpb s) + FP_COMP0 + 4 * i))) (\<lambda>r.
       on_fpb (\<lambda>f. f\<lparr>fp_hw_breakpoints := fp_hw_breakpoints f @ [r]\<rparr>)))"

definition fpb_init :: "'c bp_core \<Rightarrow> (('c, 'z) bp_units_scheme, unit) exec" where
  "fpb_init K =
     bind get_state (\<lambda>s.
     bind (on_target (bc_read32 K (fp_address (bu_fpb s) + FP_CTRL))) (\<lambda>fpcr.
     bind (on_fpb (\<lambda>f. f\<lparr>fp_rev := 1 + drop_bit FP_CTRL_REV_SHIFT (fpcr AND FP_CTRL_REV_MASK),
        fp_nb_code := (drop_bit 8 fpcr AND 0x70) OR (drop_bit 4 fpcr AND 0xF),
        fp_nb_lit := drop_bit 7 fpcr AND 0xf\<rparr>)) (\<lambda>_.
     bind get_state (\<lambda>s.
     bind (for_each add_comparator (map int [0..<nat (fp_nb_code (bu_fpb s))])) (\<lambda>_.
     bind (fpb_disable K) (\<lambda>_.
     bind get_state (\<lambda>s.
       for_each (\<lambda>r. on_target (bc_write32 K (bo_comp_register_addr (bp_at s r)) 0)) (fp_hw_breakpoints (bu_fpb s)))))))))"

definition fpb_available :: "('c, 'z) bp_units_scheme \<Rightarrow> int" where
  "fpb_available s = int (length (fp_hw_breakpoints (bu_fpb s))) - fp_num_hw_breakpoint_used (bu_fpb s)"

definition fpb_can_support :: "int \<Rightarrow> ('c, 'z) bp_units_scheme \<Rightarrow> bool" where
  "fpb_can_support addr s \<longleftrightarrow> fp_rev (bu_fpb s) = 2 \<or> addr < 0x20000000"

definition fpb_find :: "int \<Rightarrow> ('c, 'z) bp_units_scheme \<Rightarrow> ref option" where
  "fpb_find addr s = find (\<lambda>r. bo_enabled (bp_at s r) \<and> bo_addr (bp_at s r) = addr) (fp_hw_breakpoints (bu_fpb s))"

text \<open>The value written to a comparator.\<close>

definition comp_value :: "int \<Rightarrow> int \<Rightarrow> int" where
  "comp_value revision addr =
     (if revision = 1 then
        (let bp_match = (if addr AND 0x2 \<noteq> 0 then push_bit 30 2 else push_bit 30 1)
         in (addr AND 0x1ffffffc) OR bp_match OR 1)
      else if revision = 2 then (addr AND 0xfffffffe) OR 1
      else 0)"

text \<open>The body of the loop for the first comparator not in use.\<close>

definition fpb_arm :: "'c bp_core \<Rightarrow> int \<Rightarrow> ref \<Rightarrow> (('c, 'z) bp_units_scheme, ref option) exec" where
  "fpb_arm K addr r =
     bind get_state (\<lambda>s.
     bind (modify (set_bp r (\<lambda>b. b\<lparr>bo_enabled := True\<rparr>))) (\<lambda>_.
     bind (on_target (bc_write32 K (bo_comp_register_addr (bp_at s r)) (comp_value (fp_rev (bu_fpb s)) addr))) (\<lambda>_.
     bind (modify (set_bp r (\<lambda>b. b\<lparr>bo_addr := addr\<rparr>))) (\<lambda>_.
     bind (on_fpb (\<lambda>f. f\<lparr>fp_num_hw_breakpoint_used := fp_num_hw_breakpoint_used f + 1\<rparr>)) (\<lambda>_.
       ret (Some r))))))"

definition fpb_set :: "'c bp_core \<Rightarrow> int \<Rightarrow> (('c, 'z) bp_units_scheme, ref option) exec" where
  "fpb_set K addr =
     bind get_state (\<lambda>s.
     bind (if \<not> fp_enabled (bu_fpb s) then fpb_enable K else ret ()) (\<lambda>_.
     bind get_state (\<lambda>s.
       if \<not> fpb_can_support addr s then ret None
       else if fpb_available s = 0 then ret None
       else (case find (\<lambda>r. \<not> bo_enabled (bp_at s r)) (fp_hw_breakpoints (bu_fpb s)) of
               None \<Rightarrow> ret None | Some r \<Rightarrow> fpb_arm K addr r))))"

definition fpb_remove :: "'c bp_core \<Rightarrow> ref \<Rightarrow> (('c, 'z) bp_units_scheme, unit) exec" where
  "fpb_remove K bp =
     bind get_state (\<lambda>s.
       case fpb_find (bo_addr (bp_at s bp)) s of
         None \<Rightarrow> ret ()
       | Some r \<Rightarrow>
           bind (modify (set_bp r (\<lambda>b. b\<lparr>bo_enabled := False\<rparr>))) (\<lambda>_.
           bind (on_target (bc_write32 K (bo_comp_register_addr (bp_at s r)) 0)) (\<lambda>_.
             on_fpb (\<lambda>f. f\<lparr>fp_num_hw_breakpoint_used := fp_num_hw_breakpoint_used f - 1\<rparr>))))"

subsection \<open>The program without its breakpoints\<close>

text \<open>Memory with a breakpoint's instruction put back.\<close>

definition patch :: "memory \<Rightarrow> breakpoint \<Rightarrow> memory" where
  "patch m b = mem_write m (bo_addr b) [bo_original_instr b AND 0xff, drop_bit 8 (bo_original_instr b)]"

definition soft_bps :: "('c, 'z) bp_units_scheme \<Rightarrow> breakpoint list" where
  "soft_bps s = map (bp_at s \<circ> snd) (bu_soft s)"

definition unbroken :: "memory \<Rightarrow> ('c, 'z) bp_units_scheme \<Rightarrow> memory" where
  "unbroken m s = foldl patch m (soft_bps s)"

definition instr_ok :: "breakpoint \<Rightarrow> bool" where
  "instr_ok b \<longleftrightarrow> bo_addr b mod 2 = 0 \<and> is_uint 16 (bo_original_instr b)"

lemma mem_write2: "mem_write m a [x, y] k = (if k = a then x else if k = a + 1 then y else m k)"
  by (auto simp: mem_write_def nth_Cons' )

lemma mem_write2_other: "k \<noteq> a \<Longrightarrow> k \<noteq> a + 1 \<Longrightarrow> mem_write m a [x, y] k = m k"
  by (simp add: mem_write2)

lemma patch_at: "patch m b k = (if k = bo_addr b then bo_original_instr b AND 0xff
    else if k = bo_addr b + 1 then drop_bit 8 (bo_original_instr b) else m k)"
  by (simp add: patch_def mem_write2)

lemma patch_commute:
  assumes "bo_addr a \<noteq> bo_addr b" and "instr_ok a" and "instr_ok b"
  shows "patch (patch m a) b = patch (patch m b) a"
proof
  fix k
  have "bo_addr a \<noteq> bo_addr b + 1" "bo_addr b \<noteq> bo_addr a + 1"
  proof -
    have "bo_addr a mod 2 = 0" "bo_addr b mod 2 = 0" using assms(2,3) by (simp_all add: instr_ok_def)
    then show "bo_addr a \<noteq> bo_addr b + 1" "bo_addr b \<noteq> bo_addr a + 1" by presburger+
  qed
  then show "patch (patch m a) b k = patch (patch m b) a k" using assms(1) by (simp add: patch_at)
qed

lemma patches_commute:
  "\<forall>b \<in> set bs. bo_addr b \<noteq> bo_addr a \<and> instr_ok b \<Longrightarrow> instr_ok a \<Longrightarrow>
     foldl patch (patch m a) bs = patch (foldl patch m bs) a"
proof (induction bs arbitrary: m)
  case (Cons b bs)
  have "patch (patch m a) b = patch (patch m b) a" using Cons.prems by (intro patch_commute) auto
  then show ?case using Cons by simp
qed simp

text \<open>One step of the filter is reading from the patched memory.\<close>

lemma le_bytes2: "is_uint 16 v \<Longrightarrow> v = (v AND 0xff) + 256 * drop_bit 8 v \<and> 0 \<le> drop_bit 8 v \<and> drop_bit 8 v < 256"
  by (simp add: is_uint_def and_255_mod drop_bit_eq_div) presburger

lemma and_high_half: "(w :: int) AND 0xffff0000 = push_bit 16 (w div 65536 AND 0xffff)"
proof (rule bit_eqI)
  fix n
  have "(0xffff0000 :: int) = push_bit 16 (mask 16)" by (simp add: push_bit_eq_mult mask_eq_exp_minus_1)
  then have 1: "bit (0xffff0000 :: int) n \<longleftrightarrow> 16 \<le> n \<and> n - 16 < 16" by (simp only: bit_push_bit_iff bit_mask_iff) auto
  have 2: "bit (0xffff :: int) k \<longleftrightarrow> k < 16" for k
    using bit_mask_iff [of 16 k, where ?'a = int] by (simp add: mask_eq_exp_minus_1)
  have 3: "w div 65536 = drop_bit 16 w" by (simp add: drop_bit_eq_div)
  show "bit (w AND 0xffff0000) n = bit (push_bit 16 (w div 65536 AND 0xffff)) n"
    unfolding bit_and_iff bit_push_bit_iff 1 2 3 bit_drop_bit_eq o_def by auto
qed

lemma mask_halves:
  fixes a b c d :: int
  assumes "is_byte a" "is_byte b" "is_byte c" "is_byte d" and "is_uint 16 v"
  shows "((a + 256 * (b + 256 * (c + 256 * d))) AND 0xffff0000) OR v = v + 65536 * (c + 256 * d)"
    and "((a + 256 * (b + 256 * (c + 256 * d))) AND 0xffff) OR push_bit 16 v = (a + 256 * b) + 65536 * v"
proof -
  let ?w = "a + 256 * (b + 256 * (c + 256 * d))"
  have lo: "0 \<le> a + 256 * b" "a + 256 * b < 65536" and hi: "0 \<le> c + 256 * d" "c + 256 * d < 65536"
    using assms by (auto simp: is_byte_def)
  have w: "?w = (a + 256 * b) + 65536 * (c + 256 * d)" by simp
  have split: "(x + 65536 * y) mod 65536 = x" "(x + 65536 * y) div 65536 = y" if "0 \<le> x" "x < 65536" for x y :: int
    using that by simp_all
  have mod: "?w mod 65536 = a + 256 * b" and div': "?w div 65536 = c + 256 * d"
    unfolding w using split [OF lo] by blast+
  have "?w AND 0xffff0000 = push_bit 16 (?w div 65536 AND 0xffff)" by (rule and_high_half)
  also have "?w div 65536 AND 0xffff = c + 256 * d" unfolding div' and_65535_mod using hi by simp
  finally have hi_part: "?w AND 0xffff0000 = push_bit 16 (c + 256 * d)" .
  have v: "0 \<le> v" "v < 2 ^ 16" using assms(5) by (simp_all add: is_uint_def)
  show "(?w AND 0xffff0000) OR v = v + 65536 * (c + 256 * d)"
    unfolding hi_part using or_shift_disjoint [OF v, of "c + 256 * d"] by (simp add: or.commute push_bit_eq_mult)
  have "(a + 256 * b) OR push_bit 16 v = (a + 256 * b) + push_bit 16 v"
    by (rule or_shift_disjoint) (use lo in simp_all)
  then show "(?w AND 0xffff) OR push_bit 16 v = (a + 256 * b) + 65536 * v"
    unfolding and_65535_mod mod by (simp add: push_bit_eq_mult)
qed

definition width_ok :: "int \<Rightarrow> int \<Rightarrow> bool" where
  "width_ok addr sz \<longleftrightarrow> sz = 8 \<or> sz = 16 \<and> addr mod 2 = 0 \<or> sz = 32 \<and> addr mod 4 = 0"

definition value_in :: "memory \<Rightarrow> int \<Rightarrow> int \<Rightarrow> int" where
  "value_in m addr sz = le_word (mem_bytes m addr (nat (sz div 8)))"

lemma value_in_simps:
  "value_in m a 8 = m a"
  "value_in m a 16 = m a + 256 * m (a + 1)"
  "value_in m a 32 = m a + 256 * (m (a + 1) + 256 * (m (a + 2) + 256 * m (a + 3)))"
  by (simp_all add: value_in_def mem_bytes_def le_word_Cons numeral_eq_Suc add.assoc upt_rec)

lemma filter_one_patch:
  assumes b: "instr_ok b" and w: "width_ok addr sz" and m: "\<And>x. is_byte (m x)"
  shows "filter_one addr sz b (value_in m addr sz) = value_in (patch m b) addr sz"
proof -
  let ?v = "bo_original_instr b"
  have v: "is_uint 16 ?v" and even: "bo_addr b mod 2 = 0" using b by (simp_all add: instr_ok_def)
  note V = le_bytes2 [OF v]
  consider "sz = 8" | "sz = 16" "addr mod 2 = 0" | "sz = 32" "addr mod 4 = 0"
    using w by (auto simp: width_ok_def)
  then show ?thesis
  proof cases
    case 1
    then show ?thesis by (auto simp: filter_one_def value_in_simps patch_at)
  next
    case 2
    have "addr \<noteq> bo_addr b + 1" "addr + 1 \<noteq> bo_addr b" using 2(2) even by presburger+
    then show ?thesis using 2(1) V by (auto simp: filter_one_def value_in_simps patch_at)
  next
    case 3
    have ne: "addr \<noteq> bo_addr b + 1" "addr + 1 \<noteq> bo_addr b" "addr + 2 \<noteq> bo_addr b + 1" "addr + 3 \<noteq> bo_addr b"
      using 3(2) even by presburger+
    show ?thesis
    proof (cases "bo_addr b = addr")
      case True
      show ?thesis
        using mask_halves(1) [OF m m m m v, of addr "addr + 1" "addr + 2" "addr + 3"] True 3(1) V ne
        by (simp add: filter_one_def value_in_simps patch_at)
    next
      case False
      show ?thesis
        using mask_halves(2) [OF m m m m v, of addr "addr + 1" "addr + 2" "addr + 3"] False 3(1) V ne
        by (auto simp: filter_one_def value_in_simps patch_at)
    qed
  qed
qed

lemma patch_byte: "instr_ok b \<Longrightarrow> (\<And>x. is_byte (m x)) \<Longrightarrow> is_byte (patch m b x)"
  using le_bytes2 [of "bo_original_instr b"] by (auto simp: patch_at instr_ok_def is_byte_def and_255_mod)

lemma filter_patches:
  assumes "\<forall>b \<in> set bs. instr_ok b" and "width_ok addr sz" and "\<And>x. is_byte (m x)"
  shows "foldl (\<lambda>d b. filter_one addr sz b d) (value_in m addr sz) bs = value_in (foldl patch m bs) addr sz"
  using assms(1,3)
proof (induction bs arbitrary: m)
  case (Cons b bs)
  have "is_byte (patch m b x)" for x using Cons.prems by (intro patch_byte) auto
  then show ?case using Cons filter_one_patch [OF _ assms(2)] by simp
qed simp

subsection \<open>Consistency\<close>

text \<open>
  The two providers' objects: the comparators are distinct objects of the FPB, those in use have
  distinct addresses and are counted; the software breakpoints are filed under their address.
\<close>

definition fpb_ok :: "('c, 'z) bp_units_scheme \<Rightarrow> bool" where
  "fpb_ok s \<longleftrightarrow> (let hw = fp_hw_breakpoints (bu_fpb s); used = filter (\<lambda>r. bo_enabled (bp_at s r)) hw in
     distinct hw \<and> (\<forall>r \<in> set hw. r < length (bu_heap s) \<and> bo_provider (bp_at s r) = FpbOwner)
     \<and> distinct (map (\<lambda>r. bo_addr (bp_at s r)) used)
     \<and> fp_num_hw_breakpoint_used (bu_fpb s) = int (length used))"

definition soft_ok :: "('c, 'z) bp_units_scheme \<Rightarrow> bool" where
  "soft_ok s \<longleftrightarrow> distinct (od_keys (bu_soft s)) \<and> (\<forall>(a, r) \<in> set (bu_soft s). r < length (bu_heap s)
     \<and> bo_provider (bp_at s r) = SoftwareOwner \<and> bo_addr (bp_at s r) = a \<and> instr_ok (bp_at s r))"

definition unit_find :: "bp_owner \<Rightarrow> int \<Rightarrow> ('c, 'z) bp_units_scheme \<Rightarrow> ref option" where
  "unit_find ow addr s = (case ow of FpbOwner \<Rightarrow> fpb_find addr s | SoftwareOwner \<Rightarrow> soft_find addr s | ManagerOwner \<Rightarrow> None)"

lemma fpb_find_object:
  assumes "fpb_ok s" and "fpb_find a s = Some r"
  shows "r < length (bu_heap s) \<and> bo_provider (bp_at s r) = FpbOwner \<and> bo_addr (bp_at s r) = a
    \<and> bo_enabled (bp_at s r) \<and> r \<in> set (fp_hw_breakpoints (bu_fpb s))"
  using assms unfolding fpb_find_def find_Some_iff fpb_ok_def Let_def by (metis nth_mem)

lemma soft_find_object:
  assumes "soft_ok s" and "soft_find a s = Some r"
  shows "r < length (bu_heap s) \<and> bo_provider (bp_at s r) = SoftwareOwner \<and> bo_addr (bp_at s r) = a"
  using assms by (auto simp: soft_ok_def soft_find_def dest!: map_of_SomeD)

text \<open>Among the comparators in use an address determines the object.\<close>

lemma fpb_find_iff:
  assumes "fpb_ok s"
  shows "fpb_find a s = Some r \<longleftrightarrow>
    r \<in> set (fp_hw_breakpoints (bu_fpb s)) \<and> bo_enabled (bp_at s r) \<and> bo_addr (bp_at s r) = a"
proof
  assume "fpb_find a s = Some r"
  then show "r \<in> set (fp_hw_breakpoints (bu_fpb s)) \<and> bo_enabled (bp_at s r) \<and> bo_addr (bp_at s r) = a"
    using fpb_find_object [OF assms] by blast
next
  assume r: "r \<in> set (fp_hw_breakpoints (bu_fpb s)) \<and> bo_enabled (bp_at s r) \<and> bo_addr (bp_at s r) = a"
  show "fpb_find a s = Some r"
  proof (cases "fpb_find a s")
    case None
    then show ?thesis using r unfolding fpb_find_def find_None_iff by blast
  next
    case (Some r')
    then have "r' \<in> set (fp_hw_breakpoints (bu_fpb s)) \<and> bo_enabled (bp_at s r') \<and> bo_addr (bp_at s r') = a"
      using fpb_find_object [OF assms] by blast
    then have "r' = r"
      using assms r unfolding fpb_ok_def Let_def distinct_map inj_on_def by auto
    then show ?thesis using Some by simp
  qed
qed

definition in_use :: "('c, 'z) bp_units_scheme \<Rightarrow> ref set" where
  "in_use s = {r \<in> set (fp_hw_breakpoints (bu_fpb s)). bo_enabled (bp_at s r)}"

lemma fpb_ok_iff:
  "fpb_ok s \<longleftrightarrow> distinct (fp_hw_breakpoints (bu_fpb s))
     \<and> (\<forall>r \<in> set (fp_hw_breakpoints (bu_fpb s)). r < length (bu_heap s) \<and> bo_provider (bp_at s r) = FpbOwner)
     \<and> inj_on (\<lambda>r. bo_addr (bp_at s r)) (in_use s) \<and> fp_num_hw_breakpoint_used (bu_fpb s) = int (card (in_use s))"
proof -
  have "length (filter (\<lambda>r. bo_enabled (bp_at s r)) (fp_hw_breakpoints (bu_fpb s))) = card (in_use s)"
    if "distinct (fp_hw_breakpoints (bu_fpb s))"
    using distinct_length_filter [OF that] by (simp add: in_use_def Int_def conj_commute)
  then show ?thesis
    unfolding fpb_ok_def Let_def by (auto simp: distinct_map in_use_def)
qed

lemma fpb_find_None: "fpb_find a s = None \<longleftrightarrow> (\<forall>r \<in> in_use s. bo_addr (bp_at s r) \<noteq> a)"
  unfolding fpb_find_def find_None_iff in_use_def by auto

text \<open>Operations on one provider leave the other's objects and lists alone.\<close>

definition apart_from :: "bp_owner \<Rightarrow> ('c, 'z) bp_units_scheme \<Rightarrow> ('c, 'z) bp_units_scheme \<Rightarrow> bool" where
  "apart_from ow s s' \<longleftrightarrow> length (bu_heap s) \<le> length (bu_heap s')
     \<and> (\<forall>r < length (bu_heap s). bo_provider (bp_at s r) \<noteq> ow \<longrightarrow> bp_at s' r = bp_at s r)
     \<and> (ow \<noteq> FpbOwner \<longrightarrow> bu_fpb s' = bu_fpb s) \<and> (ow \<noteq> SoftwareOwner \<longrightarrow> bu_soft s' = bu_soft s)
     \<and> bp_units.more s' = bp_units.more s"

lemma apart_fpb_find:
  assumes "fpb_ok s" and "apart_from SoftwareOwner s s'"
  shows "fpb_find a s' = fpb_find a s" and "fpb_ok s'"
proof -
  have hw: "fp_hw_breakpoints (bu_fpb s') = fp_hw_breakpoints (bu_fpb s)" "bu_fpb s' = bu_fpb s"
    using assms(2) by (simp_all add: apart_from_def)
  have at: "bp_at s' r = bp_at s r" if "r \<in> set (fp_hw_breakpoints (bu_fpb s))" for r
    using assms that by (auto simp: fpb_ok_def Let_def apart_from_def)
  show "fpb_find a s' = fpb_find a s"
    unfolding fpb_find_def hw by (rule find_cong) (simp_all add: at)
  have f: "filter (\<lambda>r. bo_enabled (bp_at s' r)) (fp_hw_breakpoints (bu_fpb s))
      = filter (\<lambda>r. bo_enabled (bp_at s r)) (fp_hw_breakpoints (bu_fpb s))"
    by (rule filter_cong) (simp_all add: at)
  have g: "map (\<lambda>r. bo_addr (bp_at s' r)) (filter (\<lambda>r. bo_enabled (bp_at s r)) (fp_hw_breakpoints (bu_fpb s)))
      = map (\<lambda>r. bo_addr (bp_at s r)) (filter (\<lambda>r. bo_enabled (bp_at s r)) (fp_hw_breakpoints (bu_fpb s)))"
    by (rule map_cong) (simp_all add: at)
  show "fpb_ok s'"
    using assms unfolding fpb_ok_def Let_def hw f g by (auto simp: at apart_from_def)
qed

lemma apart_soft_find:
  assumes "soft_ok s" and "apart_from FpbOwner s s'"
  shows "soft_find a s' = soft_find a s" and "soft_ok s'" and "soft_bps s' = soft_bps s"
proof -
  have so: "bu_soft s' = bu_soft s" and len: "length (bu_heap s) \<le> length (bu_heap s')"
    using assms(2) by (simp_all add: apart_from_def)
  show "soft_find a s' = soft_find a s" by (simp add: soft_find_def so)
  have at: "bp_at s' r = bp_at s r" if "(b, r) \<in> set (bu_soft s)" for b r
    using assms that by (fastforce simp: soft_ok_def apart_from_def)
  show "soft_ok s'" using assms(1) len unfolding soft_ok_def so by (fastforce simp: at)
  show "soft_bps s' = soft_bps s" unfolding soft_bps_def so by (auto simp: at)
qed

subsection \<open>The contract of a provider\<close>

text \<open>
  What the manager relies on, whichever kind of breakpoint: the breakpoints found are the objects
  set and not removed, under their address; setting and removing touch no other breakpoint.
\<close>

definition units_ok :: "('c, 'z) bp_units_scheme \<Rightarrow> bool" where
  "units_ok s \<longleftrightarrow> fpb_ok s \<and> soft_ok s"

lemma unit_find_object:
  "units_ok s \<Longrightarrow> unit_find ow a s = Some r \<Longrightarrow>
     r < length (bu_heap s) \<and> bo_provider (bp_at s r) = ow \<and> bo_addr (bp_at s r) = a"
  using fpb_find_object [of s a r] soft_find_object [of s a r]
  by (cases ow) (auto simp: units_ok_def unit_find_def)

locale bp_provider =
  fixes pset :: "int \<Rightarrow> (('c, 'z) bp_units_scheme, ref option) exec"
    and premove :: "ref \<Rightarrow> (('c, 'z) bp_units_scheme, unit) exec"
    and ow :: bp_owner and cinv :: "'c \<Rightarrow> bool"
  assumes set_law: "units_ok s \<Longrightarrow> cinv (bu_core s) \<Longrightarrow> unit_find ow a s = None \<Longrightarrow>
      wp (pset a) (\<lambda>res s'. units_ok s' \<and> cinv (bu_core s') \<and> apart_from ow s s'
        \<and> (\<forall>b. b \<noteq> a \<longrightarrow> unit_find ow b s' = unit_find ow b s) \<and> unit_find ow a s' = res) (\<lambda>_ _. True) s"
    and remove_law: "units_ok s \<Longrightarrow> cinv (bu_core s) \<Longrightarrow> unit_find ow a s = Some r \<Longrightarrow>
      wp (premove r) (\<lambda>_ s'. units_ok s' \<and> cinv (bu_core s') \<and> apart_from ow s s'
        \<and> (\<forall>b. b \<noteq> a \<longrightarrow> unit_find ow b s' = unit_find ow b s)
        \<and> (unit_find ow a s' = None \<or> unit_find ow a s' = Some r) \<and> bo_addr (bp_at s' r) = a) (\<lambda>_ _. True) s"

subsection \<open>The core's memory\<close>

text \<open>
  The accesses of the core: halfwords of its memory and the words of the FPB.  A failed access may
  have changed memory or not.
\<close>

locale bp_target =
  fixes K :: "'c bp_core" and cinv :: "'c \<Rightarrow> bool" and cmem :: "'c \<Rightarrow> memory" and cregs :: "'c \<Rightarrow> int \<Rightarrow> int"
  assumes mem_byte: "cinv c \<Longrightarrow> is_byte (cmem c x)"
    and read16_law: "cinv c \<Longrightarrow> a mod 2 = 0 \<Longrightarrow> wp (bc_read16 K a)
      (\<lambda>v c'. cinv c' \<and> cmem c' = cmem c \<and> cregs c' = cregs c \<and> v = value_in (cmem c) a 16) (\<lambda>_. cinv) c"
    and write16_law: "cinv c \<Longrightarrow> a mod 2 = 0 \<Longrightarrow> is_uint 16 v \<Longrightarrow> wp (bc_write16 K a v)
      (\<lambda>_ c'. cinv c' \<and> cmem c' = mem_write (cmem c) a [v AND 0xff, drop_bit 8 v] \<and> cregs c' = cregs c) (\<lambda>_. cinv) c"
    and icache_law: "cinv c \<Longrightarrow> wp (bc_invalidate_icache K a)
      (\<lambda>_ c'. cinv c' \<and> cmem c' = cmem c \<and> cregs c' = cregs c) (\<lambda>_. cinv) c"
    and read32_law: "cinv c \<Longrightarrow> wp (bc_read32 K a)
      (\<lambda>v c'. cinv c' \<and> cmem c' = cmem c \<and> cregs c' = cregs c \<and> v = cregs c a) (\<lambda>_. cinv) c"
    and write32_law: "cinv c \<Longrightarrow> wp (bc_write32 K a v)
      (\<lambda>_ c'. cinv c' \<and> cmem c' = cmem c \<and> cregs c' = (cregs c)(a := v)) (\<lambda>_. cinv) c"
begin

lemma wp_on_target:
  "wp (on_target m) Q F s = wp m (\<lambda>x c. Q x (s\<lparr>bu_core := c\<rparr>)) (\<lambda>e c. F e (s\<lparr>bu_core := c\<rparr>)) (bu_core s)"
  by (auto simp: wp_def on_target_def split: prod.splits sum.splits)

abbreviation prog :: "('c, 'z) bp_units_scheme \<Rightarrow> memory" where
  "prog s \<equiv> unbroken (cmem (bu_core s)) s"

lemma bp_at_core: "bp_at (s\<lparr>bu_core := c\<rparr>) = bp_at s"
  by (rule ext) (simp add: bp_at_def)

lemma units_core [simp]:
  "units_ok (s\<lparr>bu_core := c\<rparr>) = units_ok s" "soft_find a (s\<lparr>bu_core := c\<rparr>) = soft_find a s"
  "fpb_find a (s\<lparr>bu_core := c\<rparr>) = fpb_find a s" "bp_at (s\<lparr>bu_core := c\<rparr>) r = bp_at s r"
  "apart_from ow t (s\<lparr>bu_core := c\<rparr>) = apart_from ow t s" "unbroken m (s\<lparr>bu_core := c\<rparr>) = unbroken m s"
  by (simp_all add: units_ok_def fpb_ok_def soft_ok_def bp_at_core soft_find_def fpb_find_def apart_from_def unbroken_def soft_bps_def Let_def)

lemma apart_refl [simp]: "apart_from ow s s"
  by (simp add: apart_from_def)

lemma wp_with_state: "wp (bind get_state f) Q F s = wp (f s) Q F s"
  by simp

text \<open>The state after a new software breakpoint object was made and filed.\<close>

definition filed :: "('c, 'z) bp_units_scheme \<Rightarrow> int \<Rightarrow> int \<Rightarrow> ('c, 'z) bp_units_scheme" where
  "filed s a instr = s\<lparr>bu_heap := bu_heap s @ [SoftwareBreakpoint\<lparr>bo_enabled := True, bo_addr := a, bo_original_instr := instr\<rparr>],
     bu_soft := od_set a (length (bu_heap s)) (bu_soft s)\<rparr>"

lemma filed_at: "r < length (bu_heap s) \<Longrightarrow> bp_at (filed s a i) r = bp_at s r"
  "bp_at (filed s a i) (length (bu_heap s)) = SoftwareBreakpoint\<lparr>bo_enabled := True, bo_addr := a, bo_original_instr := i\<rparr>"
  by (simp_all add: filed_def bp_at_def nth_append)

lemma filed_ok:
  assumes ok: "units_ok s" and new: "soft_find a s = None" and a: "a mod 2 = 0" and i: "is_uint 16 i"
  shows "units_ok (filed s a i)" and "apart_from SoftwareOwner s (filed s a i)"
    and "soft_find b (filed s a i) = (if b = a then Some (length (bu_heap s)) else soft_find b s)"
    and "soft_bps (filed s a i) = soft_bps s @ [SoftwareBreakpoint\<lparr>bo_enabled := True, bo_addr := a, bo_original_instr := i\<rparr>]"
proof -
  have so: "bu_soft (filed s a i) = bu_soft s @ [(a, length (bu_heap s))]"
    using new by (simp add: filed_def od_set_new soft_find_def)
  have len: "length (bu_heap (filed s a i)) = Suc (length (bu_heap s))" by (simp add: filed_def)
  have old: "\<forall>(b, r) \<in> set (bu_soft s). r < length (bu_heap s)" using ok by (auto simp: units_ok_def soft_ok_def)
  show ap: "apart_from SoftwareOwner s (filed s a i)"
    unfolding apart_from_def len by (auto simp: filed_at) (simp_all add: filed_def)
  show "soft_find b (filed s a i) = (if b = a then Some (length (bu_heap s)) else soft_find b s)"
    by (simp add: soft_find_def filed_def)
  show "soft_bps (filed s a i) = soft_bps s @ [SoftwareBreakpoint\<lparr>bo_enabled := True, bo_addr := a, bo_original_instr := i\<rparr>]"
    unfolding soft_bps_def so using old by (auto simp: filed_at)
  have so': "soft_ok (filed s a i)"
  proof -
    have "distinct (od_keys (bu_soft (filed s a i)))"
      using ok new by (auto simp: so units_ok_def soft_ok_def od_keys_def soft_find_def map_of_eq_None_iff)
    moreover have "\<forall>(b, r) \<in> set (bu_soft s). r < length (bu_heap (filed s a i)) \<and> bo_provider (bp_at (filed s a i) r) = SoftwareOwner
        \<and> bo_addr (bp_at (filed s a i) r) = b \<and> instr_ok (bp_at (filed s a i) r)"
      using ok old by (fastforce simp: units_ok_def soft_ok_def filed_at len)
    ultimately show ?thesis
      using a i unfolding soft_ok_def so
      by (auto simp: filed_at len instr_ok_def SoftwareBreakpoint_def Breakpoint_def)
  qed
  have "fpb_ok (filed s a i)" using apart_fpb_find(2) [OF _ ap] ok by (simp add: units_ok_def)
  then show "units_ok (filed s a i)" using so' by (simp add: units_ok_def)
qed

lemma filed_core: "s\<lparr>bu_core := c, bu_heap := bu_heap s @ [SoftwareBreakpoint\<lparr>bo_enabled := True, bo_addr := a, bo_original_instr := i\<rparr>],
    bu_soft := od_set a (length (bu_heap s)) (bu_soft s)\<rparr> = (filed s a i)\<lparr>bu_core := c\<rparr>"
  by (simp add: filed_def)

text \<open>Inserting: a new object holding the instruction, the breakpoint instruction in its place.\<close>

lemma soft_insert_wp:
  assumes c: "cinv (bu_core s)" and a: "a mod 2 = 0"
  shows "wp (soft_insert K a)
    (\<lambda>res s'. \<exists>c'. cinv c' \<and> cregs c' = cregs (bu_core s)
      \<and> cmem c' = mem_write (cmem (bu_core s)) a [BKPT_INSTR AND 0xff, drop_bit 8 BKPT_INSTR]
      \<and> res = Some (length (bu_heap s)) \<and> s' = (filed s a (value_in (cmem (bu_core s)) a 16))\<lparr>bu_core := c'\<rparr>)
    (\<lambda>e s'. \<exists>c'. cinv c' \<and> s' = s\<lparr>bu_core := c'\<rparr>) s" (is "wp _ ?Q ?F _")
proof -
  let ?i = "value_in (cmem (bu_core s)) a 16"
  let ?m = "mem_write (cmem (bu_core s)) a [BKPT_INSTR AND 0xff, drop_bit 8 BKPT_INSTR]"
  have bk: "is_uint 16 BKPT_INSTR" by (simp add: BKPT_INSTR_def is_uint_def)
  have 4: "wp (new_bp (SoftwareBreakpoint\<lparr>bo_enabled := True, bo_addr := a, bo_original_instr := ?i\<rparr>))
      (\<lambda>bp. wp (modify (\<lambda>s. s\<lparr>bu_soft := od_set a bp (bu_soft s)\<rparr>)) (\<lambda>_. wp (ret (Some bp)) ?Q ?F) ?F) ?F (s\<lparr>bu_core := c'\<rparr>)"
    if "cinv c'" "cregs c' = cregs (bu_core s)" "cmem c' = ?m" for c'
    using that by (simp add: wp_case new_bp_def filed_core) (intro exI [of _ c'], simp)
  have 3: "wp (bc_invalidate_icache K a) (\<lambda>_ c2. wp (new_bp (SoftwareBreakpoint\<lparr>bo_enabled := True, bo_addr := a, bo_original_instr := ?i\<rparr>))
      (\<lambda>bp. wp (modify (\<lambda>s. s\<lparr>bu_soft := od_set a bp (bu_soft s)\<rparr>)) (\<lambda>_. wp (ret (Some bp)) ?Q ?F) ?F) ?F (s\<lparr>bu_core := c2\<rparr>))
      (\<lambda>e c2. ?F e (s\<lparr>bu_core := c2\<rparr>)) c'"
    if "cinv c'" "cregs c' = cregs (bu_core s)" "cmem c' = ?m" for c'
    by (rule wp_mono [OF icache_law [OF that(1)]]) (use that 4 in auto)
  have 2: "wp (bc_write16 K a BKPT_INSTR) (\<lambda>_ c1. wp (bc_invalidate_icache K a) (\<lambda>_ c2. wp (new_bp (SoftwareBreakpoint\<lparr>bo_enabled := True, bo_addr := a, bo_original_instr := ?i\<rparr>))
      (\<lambda>bp. wp (modify (\<lambda>s. s\<lparr>bu_soft := od_set a bp (bu_soft s)\<rparr>)) (\<lambda>_. wp (ret (Some bp)) ?Q ?F) ?F) ?F (s\<lparr>bu_core := c2\<rparr>))
      (\<lambda>e c2. ?F e (s\<lparr>bu_core := c2\<rparr>)) c1) (\<lambda>e c2. ?F e (s\<lparr>bu_core := c2\<rparr>)) c'"
    if "cinv c'" "cregs c' = cregs (bu_core s)" "cmem c' = cmem (bu_core s)" for c'
    by (rule wp_mono [OF write16_law [OF that(1) a bk]]) (use that 3 in auto)
  show ?thesis
    unfolding soft_insert_def wp_bind wp_on_target
    by (rule wp_mono [OF read16_law [OF c a]]) (use 2 in \<open>auto simp: wp_on_target\<close>)
qed

lemma instr_uint: "cinv c \<Longrightarrow> is_uint 16 (value_in (cmem c) a 16)"
  using mem_byte [of c a] mem_byte [of c "a + 1"] by (auto simp: value_in_simps is_uint_def is_byte_def)

text \<open>Setting a software breakpoint leaves the program under the breakpoints as it is.\<close>

lemma prog_filed:
  assumes ok: "units_ok s" and c: "cinv (bu_core s)" and new: "soft_find a s = None" and a: "a mod 2 = 0"
  shows "unbroken (mem_write (cmem (bu_core s)) a [x, y]) (filed s a (value_in (cmem (bu_core s)) a 16)) = prog s"
proof -
  let ?i = "value_in (cmem (bu_core s)) a 16"
  let ?b = "SoftwareBreakpoint\<lparr>bo_enabled := True, bo_addr := a, bo_original_instr := ?i\<rparr>"
  let ?m = "mem_write (cmem (bu_core s)) a [x, y]"
  have i: "is_uint 16 ?i" by (rule instr_uint [OF c])
  have b: "bo_addr ?b = a" "instr_ok ?b" using a i by (simp_all add: instr_ok_def)
  have "a \<notin> fst ` set (bu_soft s)" using new by (simp add: soft_find_def map_of_eq_None_iff)
  then have others: "\<forall>b' \<in> set (soft_bps s). bo_addr b' \<noteq> bo_addr ?b \<and> instr_ok b'"
    using ok by (force simp: units_ok_def soft_ok_def soft_bps_def)
  have byte: "is_byte (cmem (bu_core s) a)" "is_byte (cmem (bu_core s) (a + 1))" by (rule mem_byte [OF c])+
  have "?i AND 0xff = cmem (bu_core s) a" "drop_bit 8 ?i = cmem (bu_core s) (a + 1)"
    using byte by (simp_all add: value_in_simps and_255_mod drop_bit_eq_div is_byte_def)
  then have restored: "patch ?m ?b = cmem (bu_core s)"
    by (auto simp: fun_eq_iff patch_at mem_write2)
  have "unbroken ?m (filed s a ?i) = patch (foldl patch ?m (soft_bps s)) ?b"
    by (simp add: unbroken_def filed_ok(4) [OF ok new a i])
  also have "\<dots> = foldl patch (patch ?m ?b) (soft_bps s)"
    by (rule patches_commute [OF others b(2), symmetric])
  finally show ?thesis by (simp add: restored unbroken_def)
qed

text \<open>
  \<open>soft_kept s s'\<close>: what every operation of the software provider keeps.
\<close>

definition soft_kept :: "('c, 'z) bp_units_scheme \<Rightarrow> ('c, 'z) bp_units_scheme \<Rightarrow> bool" where
  "soft_kept s s' \<longleftrightarrow> units_ok s' \<and> cinv (bu_core s') \<and> apart_from SoftwareOwner s s'"

lemma soft_set_wp:
  assumes ok: "units_ok s" and c: "cinv (bu_core s)" and new: "soft_find a s = None"
  shows "wp (soft_set K a) (\<lambda>res s'. soft_kept s s' \<and> (\<forall>b. b \<noteq> a \<longrightarrow> soft_find b s' = soft_find b s)
      \<and> soft_find a s' = res \<and> (res \<noteq> None \<longrightarrow> prog s' = prog s \<and> cregs (bu_core s') = cregs (bu_core s)
        \<and> cmem (bu_core s') = mem_write (cmem (bu_core s)) a [0, 0xbe])) (\<lambda>_ _. True) s" (is "wp _ ?Q _ _")
proof -
  have bytes: "BKPT_INSTR AND 0xff = 0" "drop_bit 8 BKPT_INSTR = 0xbe" by (simp_all add: BKPT_INSTR_def)
  have one: "wp (catch (soft_insert K a) is_transfer_error (\<lambda>_. ret None)) ?Q (\<lambda>_ _. True) s"
    if "a AND 1 = 0"
  proof -
    have a: "a mod 2 = 0" using that by (simp add: and_1_mod)
    note F = filed_ok [OF ok new a instr_uint [OF c]]
    show ?thesis
      unfolding wp_catch
      by (rule wp_mono [OF soft_insert_wp [OF c a]])
        (auto simp: soft_kept_def F ok new bytes prog_filed [OF ok c new a])
  qed
  show ?thesis
    unfolding soft_set_def wp_bind
    using one by (cases "soft_can_support K a") (auto simp del: wp_catch)
qed

definition deleted :: "('c, 'z) bp_units_scheme \<Rightarrow> int \<Rightarrow> ('c, 'z) bp_units_scheme" where
  "deleted s a = s\<lparr>bu_soft := od_del a (bu_soft s)\<rparr>"

lemma od_del_at: "distinct (od_keys (xs @ (a, r) # ys)) \<Longrightarrow> od_del a (xs @ (a, r) # ys) = xs @ ys"
proof -
  assume "distinct (od_keys (xs @ (a, r) # ys))"
  then have "\<forall>p \<in> set xs. fst p \<noteq> a" "\<forall>p \<in> set ys. fst p \<noteq> a" by (auto simp: od_keys_def)
  then have "filter (\<lambda>(k, v). k \<noteq> a) xs = xs" "filter (\<lambda>(k, v). k \<noteq> a) ys = ys"
    by (simp_all add: filter_id_conv split_def)
  then show "od_del a (xs @ (a, r) # ys) = xs @ ys" by (simp add: od_del_def)
qed

lemma deleted_ok:
  assumes ok: "units_ok s" and r: "soft_find a s = Some r"
  shows "units_ok (deleted s a)" and "apart_from SoftwareOwner s (deleted s a)"
    and "soft_find b (deleted s a) = (if b = a then None else soft_find b s)"
    and "unbroken (patch m (bp_at s r)) (deleted s a) = unbroken m s"
proof -
  have at: "bp_at (deleted s a) = bp_at s" by (rule ext) (simp add: deleted_def bp_at_def)
  have so: "bu_soft (deleted s a) = od_del a (bu_soft s)" by (simp add: deleted_def)
  show ap: "apart_from SoftwareOwner s (deleted s a)"
    by (simp add: apart_from_def at) (simp add: deleted_def)
  have "fpb_ok (deleted s a)" using apart_fpb_find(2) [OF _ ap] ok by (simp add: units_ok_def)
  moreover have "soft_ok (deleted s a)"
    using ok by (auto simp: units_ok_def soft_ok_def so at od_del_def) (auto simp: deleted_def od_keys_def distinct_map inj_on_def)
  ultimately show "units_ok (deleted s a)" by (simp add: units_ok_def)
  show "soft_find b (deleted s a) = (if b = a then None else soft_find b s)"
    by (simp add: soft_find_def so)
  obtain xs ys where sp: "bu_soft s = xs @ (a, r) # ys"
    using r by (metis soft_find_def map_of_SomeD split_list)
  have dist: "distinct (od_keys (xs @ (a, r) # ys))" using ok by (simp add: units_ok_def soft_ok_def sp)
  have inst: "\<forall>(b, r) \<in> set (bu_soft s). bo_addr (bp_at s r) = b \<and> instr_ok (bp_at s r)"
    using ok by (auto simp: units_ok_def soft_ok_def)
  have here: "bo_addr (bp_at s r) = a" "instr_ok (bp_at s r)" using inst by (auto simp: sp)
  let ?f = "bp_at s \<circ> snd"
  have "\<forall>b' \<in> set (map ?f xs). bo_addr b' \<noteq> bo_addr (bp_at s r) \<and> instr_ok b'"
  proof (rule ballI)
    fix b' assume "b' \<in> set (map ?f xs)"
    then obtain k r' where kr: "(k, r') \<in> set xs" "b' = bp_at s r'" by auto
    then have "bo_addr b' = k \<and> instr_ok b'" using inst by (auto simp: sp)
    moreover have "k \<noteq> a" using dist kr(1) by (force simp: od_keys_def)
    ultimately show "bo_addr b' \<noteq> bo_addr (bp_at s r) \<and> instr_ok b'" using here by simp
  qed
  then have swap: "foldl patch (patch m (bp_at s r)) (map ?f xs) = patch (foldl patch m (map ?f xs)) (bp_at s r)"
    by (rule patches_commute [OF _ here(2)])
  show "unbroken (patch m (bp_at s r)) (deleted s a) = unbroken m s"
    by (simp add: unbroken_def soft_bps_def so at sp od_del_at [OF dist] swap)
qed

text \<open>
  Removing either deletes the breakpoint and puts its instruction back, or a transfer failed and the
  provider still has it.
\<close>

lemma soft_remove_wp:
  assumes ok: "units_ok s" and c: "cinv (bu_core s)" and r: "soft_find a s = Some r"
  shows "wp (soft_remove K r) (\<lambda>_ s'. soft_kept s s' \<and> (\<forall>b. b \<noteq> a \<longrightarrow> soft_find b s' = soft_find b s)
      \<and> (soft_find a s' = Some r \<or> soft_find a s' = None \<and> prog s' = prog s \<and> cregs (bu_core s') = cregs (bu_core s))
      \<and> bo_addr (bp_at s' r) = a)
      (\<lambda>_ _. True) s" (is "wp _ ?Q _ _")
proof -
  let ?b = "bp_at s r"
  have b: "bo_addr ?b = a" "instr_ok ?b"
    using ok r by (auto simp: units_ok_def soft_ok_def soft_find_def dest!: map_of_SomeD)
  then have ib: "a mod 2 = 0" "is_uint 16 (bo_original_instr ?b)" by (auto simp: instr_ok_def)
  note D = deleted_ok [OF ok r]
  let ?F = "\<lambda>e s'. is_transfer_error e \<longrightarrow> (\<exists>c'. cinv c' \<and> s' = s\<lparr>bu_core := c'\<rparr>)"
  have failed: "?Q () (s\<lparr>bu_core := c'\<rparr>)" if "cinv c'" for c'
    using that ok r b(1) by (simp add: soft_kept_def)
  have at: "bp_at (deleted s a) r = bp_at s r" by (simp add: deleted_def bp_at_def)
  have del: "wp (soft_delete a) ?Q ?F (s\<lparr>bu_core := c'\<rparr>)"
    if "cinv c'" "cregs c' = cregs (bu_core s)" "cmem c' = patch (cmem (bu_core s)) ?b" for c'
  proof -
    have e: "s\<lparr>bu_core := c', bu_soft := od_del a (bu_soft s)\<rparr> = (deleted s a)\<lparr>bu_core := c'\<rparr>" by (simp add: deleted_def)
    show ?thesis
      using that r D b(1) by (simp add: wp_case soft_delete_def bind_def soft_find_def e soft_kept_def at)
  qed
  have body: "wp (bind (on_target (bc_write16 K a (bo_original_instr ?b))) (\<lambda>_.
        bind (on_target (bc_invalidate_icache K a)) (\<lambda>_. soft_delete a))) ?Q ?F s"
  proof -
    have ic: "wp (bc_invalidate_icache K a) (\<lambda>_ c2. wp (soft_delete a) ?Q ?F (s\<lparr>bu_core := c2\<rparr>)) (\<lambda>e c2. ?F e (s\<lparr>bu_core := c2\<rparr>)) c1"
      if "cinv c1" "cregs c1 = cregs (bu_core s)" "cmem c1 = patch (cmem (bu_core s)) ?b" for c1
      by (rule wp_mono [OF icache_law [OF that(1)]]) (use that del in auto)
    show ?thesis
      unfolding wp_bind wp_on_target
      by (rule wp_mono [OF write16_law [OF c ib]]) (use ic in \<open>auto simp: wp_on_target patch_def b(1)\<close>)
  qed
  have "wp (catch (bind (on_target (bc_write16 K a (bo_original_instr ?b))) (\<lambda>_.
        bind (on_target (bc_invalidate_icache K a)) (\<lambda>_. soft_delete a))) is_transfer_error (\<lambda>_. ret ())) ?Q (\<lambda>_ _. True) s"
    unfolding wp_catch by (rule wp_mono [OF body]) (use failed in auto)
  then show ?thesis by (simp only: soft_remove_def wp_with_state b(1))
qed

text \<open>A comparator taken into use, and given up.\<close>

definition armed :: "('c, 'z) bp_units_scheme \<Rightarrow> ref \<Rightarrow> int \<Rightarrow> ('c, 'z) bp_units_scheme" where
  "armed s r a = s\<lparr>bu_heap := (bu_heap s)[r := (bp_at s r)\<lparr>bo_enabled := True, bo_addr := a\<rparr>],
     bu_fpb := (bu_fpb s)\<lparr>fp_num_hw_breakpoint_used := fp_num_hw_breakpoint_used (bu_fpb s) + 1\<rparr>\<rparr>"

definition disarmed :: "('c, 'z) bp_units_scheme \<Rightarrow> ref \<Rightarrow> ('c, 'z) bp_units_scheme" where
  "disarmed s r = s\<lparr>bu_heap := (bu_heap s)[r := (bp_at s r)\<lparr>bo_enabled := False\<rparr>],
     bu_fpb := (bu_fpb s)\<lparr>fp_num_hw_breakpoint_used := fp_num_hw_breakpoint_used (bu_fpb s) - 1\<rparr>\<rparr>"

lemma heap_update_at: "r < length (bu_heap s) \<Longrightarrow>
    bp_at (s\<lparr>bu_heap := (bu_heap s)[r := b], bu_fpb := f\<rparr>) x = (if x = r then b else bp_at s x)"
  by (simp add: bp_at_def nth_list_update)

lemma armed_ok:
  assumes ok: "units_ok s" and new: "fpb_find a s = None"
    and r: "r \<in> set (fp_hw_breakpoints (bu_fpb s))" "\<not> bo_enabled (bp_at s r)"
  shows "units_ok (armed s r a)" and "apart_from FpbOwner s (armed s r a)"
    and "fpb_find b (armed s r a) = (if b = a then Some r else fpb_find b s)"
proof -
  have f: "fpb_ok s" using ok by (simp add: units_ok_def)
  have len: "r < length (bu_heap s)" and ow: "bo_provider (bp_at s r) = FpbOwner" using f r(1) by (auto simp: fpb_ok_iff)
  have at: "bp_at (armed s r a) x = (if x = r then (bp_at s r)\<lparr>bo_enabled := True, bo_addr := a\<rparr> else bp_at s x)" for x
    unfolding armed_def by (rule heap_update_at [OF len])
  have hw: "fp_hw_breakpoints (bu_fpb (armed s r a)) = fp_hw_breakpoints (bu_fpb s)" by (simp add: armed_def)
  have use: "in_use (armed s r a) = insert r (in_use s)" and fresh: "r \<notin> in_use s"
    using r by (auto simp: in_use_def hw at)
  have fin: "finite (in_use s)" by (simp add: in_use_def)
  have "inj_on (\<lambda>x. bo_addr (bp_at (armed s r a) x)) (insert r (in_use s))"
    using f new fresh unfolding fpb_ok_iff fpb_find_None inj_on_def at by auto
  then have fo: "fpb_ok (armed s r a)"
    using f fresh fin unfolding fpb_ok_iff use hw by (auto simp: at) (simp_all add: armed_def)
  show ap: "apart_from FpbOwner s (armed s r a)"
    using ow by (auto simp: apart_from_def at) (simp_all add: armed_def)
  show "units_ok (armed s r a)"
    using fo apart_soft_find(2) [OF _ ap] ok by (simp add: units_ok_def)
  show "fpb_find b (armed s r a) = (if b = a then Some r else fpb_find b s)"
  proof (cases "b = a")
    case True
    then show ?thesis using fpb_find_iff [OF fo, of a r] r(1) by (simp add: hw at)
  next
    case False
    have "fpb_find b (armed s r a) = Some x \<longleftrightarrow> fpb_find b s = Some x" for x
      unfolding fpb_find_iff [OF fo] fpb_find_iff [OF f] hw at using False r(2) by auto
    then show ?thesis using False by (metis not_Some_eq)
  qed
qed

lemma disarmed_ok:
  assumes ok: "units_ok s" and r: "fpb_find a s = Some r"
  shows "units_ok (disarmed s r)" and "apart_from FpbOwner s (disarmed s r)"
    and "fpb_find b (disarmed s r) = (if b = a then None else fpb_find b s)"
proof -
  have f: "fpb_ok s" using ok by (simp add: units_ok_def)
  note R = fpb_find_object [OF f r]
  have at: "bp_at (disarmed s r) x = (if x = r then (bp_at s r)\<lparr>bo_enabled := False\<rparr> else bp_at s x)" for x
    unfolding disarmed_def by (rule heap_update_at) (use R in simp)
  have hw: "fp_hw_breakpoints (bu_fpb (disarmed s r)) = fp_hw_breakpoints (bu_fpb s)" by (simp add: disarmed_def)
  have use: "in_use (disarmed s r) = in_use s - {r}" and here: "r \<in> in_use s"
    using R by (auto simp: in_use_def hw at)
  have fin: "finite (in_use s)" by (simp add: in_use_def)
  have inj: "inj_on (\<lambda>x. bo_addr (bp_at s x)) (in_use s)" using f by (simp add: fpb_ok_iff)
  have "inj_on (\<lambda>x. bo_addr (bp_at (disarmed s r) x)) (in_use s - {r})"
    using inj unfolding inj_on_def at by auto
  moreover have "int (card (in_use s - {r})) = int (card (in_use s)) - 1"
    using card_Suc_Diff1 [OF fin here] by linarith
  ultimately have fo: "fpb_ok (disarmed s r)"
    using f unfolding fpb_ok_iff use hw by (auto simp: at) (simp_all add: disarmed_def)
  show ap: "apart_from FpbOwner s (disarmed s r)"
    using R by (auto simp: apart_from_def at) (simp_all add: disarmed_def)
  show "units_ok (disarmed s r)"
    using fo apart_soft_find(2) [OF _ ap] ok by (simp add: units_ok_def)
  have "fpb_find b (disarmed s r) = Some x \<longleftrightarrow> b \<noteq> a \<and> fpb_find b s = Some x" for x
  proof -
    have only: "x = r" if "x \<in> set (fp_hw_breakpoints (bu_fpb s))" "bo_enabled (bp_at s x)" "bo_addr (bp_at s x) = a"
      using inj R that here by (auto simp: inj_on_def in_use_def)
    show ?thesis
    proof (cases "x = r")
      case True
      then show ?thesis unfolding fpb_find_iff [OF fo] fpb_find_iff [OF f] hw at using R by auto
    next
      case False
      then show ?thesis unfolding fpb_find_iff [OF fo] fpb_find_iff [OF f] hw at using only by auto
    qed
  qed
  then show "fpb_find b (disarmed s r) = (if b = a then None else fpb_find b s)" by (metis not_Some_eq)
qed

lemma apart_trans: "apart_from ow s t \<Longrightarrow> apart_from ow t u \<Longrightarrow> apart_from ow s u"
  by (auto simp: apart_from_def)

text \<open>The comparator registers hold what the objects say.\<close>

definition comps_ok :: "('c, 'z) bp_units_scheme \<Rightarrow> bool" where
  "comps_ok s \<longleftrightarrow> inj_on (\<lambda>r. bo_comp_register_addr (bp_at s r)) (set (fp_hw_breakpoints (bu_fpb s)))
     \<and> (\<forall>r \<in> set (fp_hw_breakpoints (bu_fpb s)). bo_comp_register_addr (bp_at s r) \<noteq> fp_address (bu_fpb s) + FP_CTRL
       \<and> cregs (bu_core s) (bo_comp_register_addr (bp_at s r))
           = (if bo_enabled (bp_at s r) then comp_value (fp_rev (bu_fpb s)) (bo_addr (bp_at s r)) else 0))"

definition enabled_at :: "('c, 'z) bp_units_scheme \<Rightarrow> 'c \<Rightarrow> ('c, 'z) bp_units_scheme" where
  "enabled_at s c = s\<lparr>bu_fpb := (bu_fpb s)\<lparr>fp_enabled := True\<rparr>, bu_core := c\<rparr>"

lemma enabled_at_ok:
  "bp_at (enabled_at s c) = bp_at s" "units_ok (enabled_at s c) = units_ok s" "apart_from FpbOwner s (enabled_at s c)"
  "fpb_find a (enabled_at s c) = fpb_find a s" "bu_core (enabled_at s c) = c"
  "fp_hw_breakpoints (bu_fpb (enabled_at s c)) = fp_hw_breakpoints (bu_fpb s)" "fp_rev (bu_fpb (enabled_at s c)) = fp_rev (bu_fpb s)"
  "fpb_available (enabled_at s c) = fpb_available s" "fpb_can_support a (enabled_at s c) = fpb_can_support a s"
proof -
  show at: "bp_at (enabled_at s c) = bp_at s" by (rule ext) (simp add: enabled_at_def bp_at_def)
  show "units_ok (enabled_at s c) = units_ok s"
    by (simp add: units_ok_def fpb_ok_def soft_ok_def at) (simp add: enabled_at_def Let_def)
  show "fpb_find a (enabled_at s c) = fpb_find a s" by (simp add: fpb_find_def at) (simp add: enabled_at_def)
  show "apart_from FpbOwner s (enabled_at s c)" by (simp add: apart_from_def at) (simp add: enabled_at_def)
qed (simp_all add: enabled_at_def fpb_available_def fpb_can_support_def)

lemma enabled_comps:
  "comps_ok s \<Longrightarrow> cregs c = (cregs (bu_core s))(fp_address (bu_fpb s) + FP_CTRL := v) \<Longrightarrow> comps_ok (enabled_at s c)"
  by (auto simp: comps_ok_def enabled_at_ok) (simp_all add: enabled_at_def)

lemma armed_comps:
  assumes ok: "comps_ok s" and r: "r \<in> set (fp_hw_breakpoints (bu_fpb s))" "r < length (bu_heap s)"
    and c: "cregs c = (cregs (bu_core s))(bo_comp_register_addr (bp_at s r) := comp_value (fp_rev (bu_fpb s)) a)"
  shows "comps_ok ((armed s r a)\<lparr>bu_core := c\<rparr>)"
proof -
  have at: "bp_at ((armed s r a)\<lparr>bu_core := c\<rparr>) x = (if x = r then (bp_at s r)\<lparr>bo_enabled := True, bo_addr := a\<rparr> else bp_at s x)" for x
    unfolding bp_at_core armed_def by (rule heap_update_at [OF r(2)])
  have f: "fp_hw_breakpoints (bu_fpb ((armed s r a)\<lparr>bu_core := c\<rparr>)) = fp_hw_breakpoints (bu_fpb s)"
    "fp_address (bu_fpb ((armed s r a)\<lparr>bu_core := c\<rparr>)) = fp_address (bu_fpb s)"
    "fp_rev (bu_fpb ((armed s r a)\<lparr>bu_core := c\<rparr>)) = fp_rev (bu_fpb s)" by (simp_all add: armed_def)
  have comp: "bo_comp_register_addr (bp_at ((armed s r a)\<lparr>bu_core := c\<rparr>) x) = bo_comp_register_addr (bp_at s x)" for x
    using at [of x] by (simp del: units_core)
  have inj: "inj_on (\<lambda>r. bo_comp_register_addr (bp_at s r)) (set (fp_hw_breakpoints (bu_fpb s)))"
    using ok by (simp add: comps_ok_def)
  show ?thesis
    unfolding comps_ok_def f comp
  proof (intro conjI ballI)
    show "inj_on (\<lambda>r. bo_comp_register_addr (bp_at s r)) (set (fp_hw_breakpoints (bu_fpb s)))" by (rule inj)
    fix x assume x: "x \<in> set (fp_hw_breakpoints (bu_fpb s))"
    show "bo_comp_register_addr (bp_at s x) \<noteq> fp_address (bu_fpb s) + FP_CTRL" using ok x by (simp add: comps_ok_def)
    have "x \<noteq> r \<Longrightarrow> bo_comp_register_addr (bp_at s x) \<noteq> bo_comp_register_addr (bp_at s r)"
      using inj x r(1) by (auto simp: inj_on_def)
    then show "cregs (bu_core ((armed s r a)\<lparr>bu_core := c\<rparr>)) (bo_comp_register_addr (bp_at s x))
        = (if bo_enabled (bp_at ((armed s r a)\<lparr>bu_core := c\<rparr>) x) then comp_value (fp_rev (bu_fpb s))
             (bo_addr (bp_at ((armed s r a)\<lparr>bu_core := c\<rparr>) x)) else 0)"
      using ok x by (auto simp: at c comps_ok_def simp del: units_core)
  qed
qed

definition fpb_kept :: "('c, 'z) bp_units_scheme \<Rightarrow> ('c, 'z) bp_units_scheme \<Rightarrow> bool" where
  "fpb_kept s s' \<longleftrightarrow> units_ok s' \<and> cinv (bu_core s') \<and> apart_from FpbOwner s s'
     \<and> cmem (bu_core s') = cmem (bu_core s) \<and> (comps_ok s \<longrightarrow> comps_ok s')"

lemma fpb_enable_wp:
  assumes "units_ok s" and c: "cinv (bu_core s)"
  shows "wp (fpb_enable K) (\<lambda>_ s'. fpb_kept s s' \<and> (\<exists>c. s' = enabled_at s c)) (\<lambda>_ _. True) s"
  unfolding fpb_enable_def wp_bind wp_get_state wp_on_target
proof (rule wp_mono [OF write32_law [OF c]])
  fix x c' assume c': "cinv c' \<and> cmem c' = cmem (bu_core s) \<and>
    cregs c' = (cregs (bu_core s))(fp_address (bu_fpb s) + FP_CTRL := FP_CTRL_KEY OR 1)"
  have e: "s\<lparr>bu_core := c', bu_fpb := (bu_fpb s)\<lparr>fp_enabled := True\<rparr>\<rparr> = enabled_at s c'" by (simp add: enabled_at_def)
  have "fpb_kept s (enabled_at s c')"
    using c' assms(1) enabled_comps [of s c'] by (simp add: fpb_kept_def enabled_at_ok)
  then show "wp (on_fpb (\<lambda>f. f\<lparr>fp_enabled := True\<rparr>)) (\<lambda>_ s'. fpb_kept s s' \<and> (\<exists>c. s' = enabled_at s c)) (\<lambda>_ _. True) (s\<lparr>bu_core := c'\<rparr>)"
    by (auto simp: on_fpb_def e)
qed simp

lemma arm_wp:
  assumes ok: "units_ok s" and c: "cinv (bu_core s)" and new: "fpb_find a s = None"
    and r: "r \<in> set (fp_hw_breakpoints (bu_fpb s))" "\<not> bo_enabled (bp_at s r)"
  shows "wp (fpb_arm K a r) (\<lambda>res s'. fpb_kept s s' \<and> res = Some r \<and> (\<exists>c. s' = (armed s r a)\<lparr>bu_core := c\<rparr>)) (\<lambda>_ _. True) s"
proof -
  have len: "r < length (bu_heap s)" using ok r(1) by (auto simp: units_ok_def fpb_ok_iff)
  show ?thesis
    unfolding fpb_arm_def wp_bind wp_get_state wp_modify wp_on_target
  proof (rule wp_mono)
    show "wp (bc_write32 K (bo_comp_register_addr (bp_at s r)) (comp_value (fp_rev (bu_fpb s)) a))
      (\<lambda>_ c'. cinv c' \<and> cmem c' = cmem (bu_core s) \<and> cregs c' = (cregs (bu_core s))(bo_comp_register_addr (bp_at s r) := comp_value (fp_rev (bu_fpb s)) a))
      (\<lambda>_. cinv) (bu_core (set_bp r (\<lambda>b. b\<lparr>bo_enabled := True\<rparr>) s))"
      using write32_law [OF c] by (simp add: set_bp_def)
    fix x c' assume c': "cinv c' \<and> cmem c' = cmem (bu_core s) \<and>
      cregs c' = (cregs (bu_core s))(bo_comp_register_addr (bp_at s r) := comp_value (fp_rev (bu_fpb s)) a)"
    let ?s1 = "set_bp r (\<lambda>b. b\<lparr>bo_addr := a\<rparr>) ((set_bp r (\<lambda>b. b\<lparr>bo_enabled := True\<rparr>) s)\<lparr>bu_core := c'\<rparr>)"
    have e: "?s1\<lparr>bu_fpb := (bu_fpb ?s1)\<lparr>fp_num_hw_breakpoint_used := fp_num_hw_breakpoint_used (bu_fpb ?s1) + 1\<rparr>\<rparr>
        = (armed s r a)\<lparr>bu_core := c'\<rparr>"
      using len by (simp add: set_bp_def armed_def bp_at_def)
    have "fpb_kept s ((armed s r a)\<lparr>bu_core := c'\<rparr>)"
      using c' armed_ok [OF ok new r] armed_comps [OF _ r(1) len, of c' a] by (simp add: fpb_kept_def)
    then show "wp (on_fpb (\<lambda>f. f\<lparr>fp_num_hw_breakpoint_used := fp_num_hw_breakpoint_used f + 1\<rparr>))
        (\<lambda>x. wp (ret (Some r)) (\<lambda>res s'. fpb_kept s s' \<and> res = Some r \<and> (\<exists>c. s' = (armed s r a)\<lparr>bu_core := c\<rparr>)) (\<lambda>_ _. True)) (\<lambda>_ _. True) ?s1"
      unfolding on_fpb_def wp_modify wp_ret e by auto
  qed simp
qed

lemma fpb_kept_trans: "fpb_kept s t \<Longrightarrow> fpb_kept t u \<Longrightarrow> fpb_kept s u"
  by (auto simp: fpb_kept_def intro: apart_trans)

lemma fpb_set_wp:
  assumes ok: "units_ok s" and c: "cinv (bu_core s)" and new: "fpb_find a s = None"
  shows "wp (fpb_set K a) (\<lambda>res s'. fpb_kept s s' \<and> (\<forall>b. b \<noteq> a \<longrightarrow> fpb_find b s' = fpb_find b s) \<and> fpb_find a s' = res
      \<and> (res \<noteq> None \<longleftrightarrow> fpb_can_support a s \<and> fpb_available s > 0) \<and> fp_enabled (bu_fpb s'))
    (\<lambda>_ _. True) s" (is "wp _ ?Q _ _")
proof -
  have avail: "fpb_available t = 0 \<longleftrightarrow> find (\<lambda>r. \<not> bo_enabled (bp_at t r)) (fp_hw_breakpoints (bu_fpb t)) = None"
    "fpb_available t \<ge> 0" if "units_ok t" for t :: "('c, 'z) bp_units_scheme"
  proof -
    have f: "distinct (fp_hw_breakpoints (bu_fpb t))" "fp_num_hw_breakpoint_used (bu_fpb t) = int (card (in_use t))"
      using that by (auto simp: units_ok_def fpb_ok_iff)
    have sub: "in_use t \<subseteq> set (fp_hw_breakpoints (bu_fpb t))" by (auto simp: in_use_def)
    have le: "card (in_use t) \<le> length (fp_hw_breakpoints (bu_fpb t))"
      using card_mono [OF finite_set sub] distinct_card [OF f(1)] by simp
    have eq: "card (in_use t) = length (fp_hw_breakpoints (bu_fpb t)) \<longleftrightarrow> in_use t = set (fp_hw_breakpoints (bu_fpb t))"
      using card_subset_eq [OF finite_set sub] distinct_card [OF f(1)] by auto
    have "fpb_available t = 0 \<longleftrightarrow> in_use t = set (fp_hw_breakpoints (bu_fpb t))"
      using eq le f(2) by (auto simp: fpb_available_def)
    then show "fpb_available t = 0 \<longleftrightarrow> find (\<lambda>r. \<not> bo_enabled (bp_at t r)) (fp_hw_breakpoints (bu_fpb t)) = None"
      by (auto simp: find_None_iff in_use_def)
    show "fpb_available t \<ge> 0" using le f(2) by (simp add: fpb_available_def)
  qed
  have rest: "wp (if \<not> fpb_can_support a t then ret None
       else if fpb_available t = 0 then ret None
       else (case find (\<lambda>r. \<not> bo_enabled (bp_at t r)) (fp_hw_breakpoints (bu_fpb t)) of
               None \<Rightarrow> ret None | Some r \<Rightarrow> fpb_arm K a r)) ?Q (\<lambda>_ _. True) t"
    if k: "fpb_kept s t" and t: "\<And>b. fpb_find b t = fpb_find b s" "fpb_can_support a t = fpb_can_support a s"
      "fpb_available t = fpb_available s" "fp_enabled (bu_fpb t)" for t
  proof -
    have T: "units_ok t" "cinv (bu_core t)" using k by (simp_all add: fpb_kept_def)
    show ?thesis
    proof (cases "fpb_can_support a t \<and> fpb_available t \<noteq> 0")
      case False
      then show ?thesis using k t new by auto
    next
      case True
      then obtain r where r: "find (\<lambda>r. \<not> bo_enabled (bp_at t r)) (fp_hw_breakpoints (bu_fpb t)) = Some r"
        using avail(1) [OF T(1)] by auto
      then have r': "r \<in> set (fp_hw_breakpoints (bu_fpb t))" "\<not> bo_enabled (bp_at t r)"
        by (auto simp: find_Some_iff)
      have new': "fpb_find a t = None" using new t(1) by simp
      have pos: "fpb_available s > 0" using True t(3) avail(2) [OF ok] by simp
      have en: "fp_enabled (bu_fpb (armed t r a))" using t(4) by (simp add: armed_def)
      have "wp (fpb_arm K a r) ?Q (\<lambda>_ _. True) t"
      proof (rule wp_mono [OF arm_wp [OF T new' r']])
        fix res s' assume "fpb_kept t s' \<and> res = Some r \<and> (\<exists>c. s' = (armed t r a)\<lparr>bu_core := c\<rparr>)"
        then obtain c' where h: "fpb_kept t s'" "res = Some r" "s' = (armed t r a)\<lparr>bu_core := c'\<rparr>" by blast
        show "?Q res s'"
          using fpb_kept_trans [OF k h(1)] True t(2) pos en armed_ok(3) [OF T(1) new' r'] t(1) by (simp add: h(2,3))
      qed simp
      then show ?thesis using True r by simp
    qed
  qed
  have self: "fpb_kept s s" using ok c by (simp add: fpb_kept_def)
  show ?thesis
  proof (cases "fp_enabled (bu_fpb s)")
    case True
    show ?thesis
      unfolding fpb_set_def wp_bind wp_get_state using rest [OF self refl refl refl True] True by simp
  next
    case False
    have "wp (fpb_enable K) (\<lambda>_ t. wp (if \<not> fpb_can_support a t then ret None
       else if fpb_available t = 0 then ret None
       else (case find (\<lambda>r. \<not> bo_enabled (bp_at t r)) (fp_hw_breakpoints (bu_fpb t)) of
               None \<Rightarrow> ret None | Some r \<Rightarrow> fpb_arm K a r)) ?Q (\<lambda>_ _. True) t) (\<lambda>_ _. True) s"
    proof (rule wp_mono [OF fpb_enable_wp [OF ok c]])
      fix x t assume "fpb_kept s t \<and> (\<exists>c. t = enabled_at s c)"
      then obtain c' where h: "fpb_kept s t" "t = enabled_at s c'" by blast
      show "wp (if \<not> fpb_can_support a t then ret None
       else if fpb_available t = 0 then ret None
       else (case find (\<lambda>r. \<not> bo_enabled (bp_at t r)) (fp_hw_breakpoints (bu_fpb t)) of
               None \<Rightarrow> ret None | Some r \<Rightarrow> fpb_arm K a r)) ?Q (\<lambda>_ _. True) t"
        by (rule rest [OF h(1)]) (simp_all add: h(2) enabled_at_ok, simp add: enabled_at_def)
    qed simp
    then show ?thesis
      unfolding fpb_set_def wp_bind wp_get_state using False by simp
  qed
qed

lemma disarmed_comps:
  assumes ok: "comps_ok s" and r: "r \<in> set (fp_hw_breakpoints (bu_fpb s))" "r < length (bu_heap s)"
    and c: "cregs c = (cregs (bu_core s))(bo_comp_register_addr (bp_at s r) := 0)"
  shows "comps_ok ((disarmed s r)\<lparr>bu_core := c\<rparr>)"
proof -
  have at: "bp_at ((disarmed s r)\<lparr>bu_core := c\<rparr>) x = (if x = r then (bp_at s r)\<lparr>bo_enabled := False\<rparr> else bp_at s x)" for x
    unfolding bp_at_core disarmed_def by (rule heap_update_at [OF r(2)])
  have f: "fp_hw_breakpoints (bu_fpb ((disarmed s r)\<lparr>bu_core := c\<rparr>)) = fp_hw_breakpoints (bu_fpb s)"
    "fp_address (bu_fpb ((disarmed s r)\<lparr>bu_core := c\<rparr>)) = fp_address (bu_fpb s)"
    "fp_rev (bu_fpb ((disarmed s r)\<lparr>bu_core := c\<rparr>)) = fp_rev (bu_fpb s)" by (simp_all add: disarmed_def)
  have comp: "bo_comp_register_addr (bp_at ((disarmed s r)\<lparr>bu_core := c\<rparr>) x) = bo_comp_register_addr (bp_at s x)" for x
    using at [of x] by (simp del: units_core)
  have inj: "inj_on (\<lambda>r. bo_comp_register_addr (bp_at s r)) (set (fp_hw_breakpoints (bu_fpb s)))"
    using ok by (simp add: comps_ok_def)
  show ?thesis
    unfolding comps_ok_def f comp
  proof (intro conjI ballI)
    show "inj_on (\<lambda>r. bo_comp_register_addr (bp_at s r)) (set (fp_hw_breakpoints (bu_fpb s)))" by (rule inj)
    fix x assume x: "x \<in> set (fp_hw_breakpoints (bu_fpb s))"
    show "bo_comp_register_addr (bp_at s x) \<noteq> fp_address (bu_fpb s) + FP_CTRL" using ok x by (simp add: comps_ok_def)
    have "x \<noteq> r \<Longrightarrow> bo_comp_register_addr (bp_at s x) \<noteq> bo_comp_register_addr (bp_at s r)"
      using inj x r(1) by (auto simp: inj_on_def)
    then show "cregs (bu_core ((disarmed s r)\<lparr>bu_core := c\<rparr>)) (bo_comp_register_addr (bp_at s x))
        = (if bo_enabled (bp_at ((disarmed s r)\<lparr>bu_core := c\<rparr>) x) then comp_value (fp_rev (bu_fpb s))
             (bo_addr (bp_at ((disarmed s r)\<lparr>bu_core := c\<rparr>) x)) else 0)"
      using ok x by (auto simp: at c comps_ok_def simp del: units_core)
  qed
qed

lemma fpb_remove_wp:
  assumes ok: "units_ok s" and c: "cinv (bu_core s)" and r: "fpb_find a s = Some r"
  shows "wp (fpb_remove K r) (\<lambda>_ s'. fpb_kept s s' \<and> (\<forall>b. fpb_find b s' = (if b = a then None else fpb_find b s))
      \<and> fpb_available s' = fpb_available s + 1 \<and> bo_addr (bp_at s' r) = a) (\<lambda>_ _. True) s"
proof -
  have fo: "fpb_ok s" using ok by (simp add: units_ok_def)
  note R = fpb_find_object [OF fo r]
  have "wp (bind (modify (set_bp r (\<lambda>b. b\<lparr>bo_enabled := False\<rparr>))) (\<lambda>_.
           bind (on_target (bc_write32 K (bo_comp_register_addr (bp_at s r)) 0)) (\<lambda>_.
             on_fpb (\<lambda>f. f\<lparr>fp_num_hw_breakpoint_used := fp_num_hw_breakpoint_used f - 1\<rparr>))))
      (\<lambda>_ s'. fpb_kept s s' \<and> (\<forall>b. fpb_find b s' = (if b = a then None else fpb_find b s)) \<and> fpb_available s' = fpb_available s + 1 \<and> bo_addr (bp_at s' r) = a) (\<lambda>_ _. True) s"
    unfolding wp_bind wp_modify wp_on_target
  proof (rule wp_mono)
    show "wp (bc_write32 K (bo_comp_register_addr (bp_at s r)) 0)
      (\<lambda>_ c'. cinv c' \<and> cmem c' = cmem (bu_core s) \<and> cregs c' = (cregs (bu_core s))(bo_comp_register_addr (bp_at s r) := 0))
      (\<lambda>_. cinv) (bu_core (set_bp r (\<lambda>b. b\<lparr>bo_enabled := False\<rparr>) s))"
      using write32_law [OF c] by (simp add: set_bp_def)
    fix x c' assume c': "cinv c' \<and> cmem c' = cmem (bu_core s) \<and> cregs c' = (cregs (bu_core s))(bo_comp_register_addr (bp_at s r) := 0)"
    let ?s1 = "(set_bp r (\<lambda>b. b\<lparr>bo_enabled := False\<rparr>) s)\<lparr>bu_core := c'\<rparr>"
    have e: "?s1\<lparr>bu_fpb := (bu_fpb ?s1)\<lparr>fp_num_hw_breakpoint_used := fp_num_hw_breakpoint_used (bu_fpb ?s1) - 1\<rparr>\<rparr>
        = (disarmed s r)\<lparr>bu_core := c'\<rparr>"
      using R by (simp add: set_bp_def disarmed_def bp_at_def)
    have "fpb_kept s ((disarmed s r)\<lparr>bu_core := c'\<rparr>)"
      using c' disarmed_ok [OF ok r] disarmed_comps [of s r c'] R by (simp add: fpb_kept_def)
    moreover have "fpb_available ((disarmed s r)\<lparr>bu_core := c'\<rparr>) = fpb_available s + 1"
      by (simp add: fpb_available_def disarmed_def)
    moreover have "bo_addr (bp_at ((disarmed s r)\<lparr>bu_core := c'\<rparr>) r) = a"
      using R by (simp add: disarmed_def heap_update_at)
    ultimately show "wp (on_fpb (\<lambda>f. f\<lparr>fp_num_hw_breakpoint_used := fp_num_hw_breakpoint_used f - 1\<rparr>))
        (\<lambda>_ s'. fpb_kept s s' \<and> (\<forall>b. fpb_find b s' = (if b = a then None else fpb_find b s)) \<and> fpb_available s' = fpb_available s + 1
          \<and> bo_addr (bp_at s' r) = a) (\<lambda>_ _. True) ?s1"
      unfolding on_fpb_def wp_modify e using disarmed_ok(3) [OF ok r] by simp
  qed simp
  then show ?thesis using R r by (simp add: fpb_remove_def)
qed

end

sublocale bp_target \<subseteq> soft: bp_provider "soft_set K" "soft_remove K" SoftwareOwner cinv
proof
  fix s a assume "units_ok (s :: ('c, 'z) bp_units_scheme)" "cinv (bu_core s)" "unit_find SoftwareOwner a s = None"
  then show "wp (soft_set K a) (\<lambda>res s'. units_ok s' \<and> cinv (bu_core s') \<and> apart_from SoftwareOwner s s'
        \<and> (\<forall>b. b \<noteq> a \<longrightarrow> unit_find SoftwareOwner b s' = unit_find SoftwareOwner b s) \<and> unit_find SoftwareOwner a s' = res) (\<lambda>_ _. True) s"
    by (intro wp_mono [OF soft_set_wp]) (simp_all add: unit_find_def soft_kept_def)
next
  fix s a r assume "units_ok (s :: ('c, 'z) bp_units_scheme)" "cinv (bu_core s)" "unit_find SoftwareOwner a s = Some r"
  then show "wp (soft_remove K r) (\<lambda>_ s'. units_ok s' \<and> cinv (bu_core s') \<and> apart_from SoftwareOwner s s'
        \<and> (\<forall>b. b \<noteq> a \<longrightarrow> unit_find SoftwareOwner b s' = unit_find SoftwareOwner b s)
        \<and> (unit_find SoftwareOwner a s' = None \<or> unit_find SoftwareOwner a s' = Some r) \<and> bo_addr (bp_at s' r) = a) (\<lambda>_ _. True) s"
    by (intro wp_mono [OF soft_remove_wp]) (auto simp: unit_find_def soft_kept_def)
qed

sublocale bp_target \<subseteq> hard: bp_provider "fpb_set K" "fpb_remove K" FpbOwner cinv
proof
  fix s a assume "units_ok (s :: ('c, 'z) bp_units_scheme)" "cinv (bu_core s)" "unit_find FpbOwner a s = None"
  then show "wp (fpb_set K a) (\<lambda>res s'. units_ok s' \<and> cinv (bu_core s') \<and> apart_from FpbOwner s s'
        \<and> (\<forall>b. b \<noteq> a \<longrightarrow> unit_find FpbOwner b s' = unit_find FpbOwner b s) \<and> unit_find FpbOwner a s' = res) (\<lambda>_ _. True) s"
    by (intro wp_mono [OF fpb_set_wp]) (simp_all add: unit_find_def fpb_kept_def)
next
  fix s a r assume "units_ok (s :: ('c, 'z) bp_units_scheme)" "cinv (bu_core s)" "unit_find FpbOwner a s = Some r"
  then show "wp (fpb_remove K r) (\<lambda>_ s'. units_ok s' \<and> cinv (bu_core s') \<and> apart_from FpbOwner s s'
        \<and> (\<forall>b. b \<noteq> a \<longrightarrow> unit_find FpbOwner b s' = unit_find FpbOwner b s)
        \<and> (unit_find FpbOwner a s' = None \<or> unit_find FpbOwner a s' = Some r) \<and> bo_addr (bp_at s' r) = a) (\<lambda>_ _. True) s"
    by (intro wp_mono [OF fpb_remove_wp]) (auto simp: unit_find_def fpb_kept_def)
qed

subsection \<open>A core to run on\<close>

text \<open>
  Memory and registers as functions; \<open>sb_icache_fails\<close> makes the cache maintenance fault,
  \<open>sb_write_fails\<close> the writes of memory.
\<close>

record sim_bp_core =
  sb_mem :: memory
  sb_regs :: "int \<Rightarrow> int"
  sb_icache_fails :: bool
  sb_write_fails :: bool

definition sim_bp :: "sim_bp_core bp_core" where
  "sim_bp = \<lparr>bc_map = demo_map,
     bc_read16 = (\<lambda>a c. (Inr (value_in (sb_mem c) a 16), c)),
     bc_write16 = (\<lambda>a v c. if sb_write_fails c then (Inl TransferError, c)
        else (Inr (), c\<lparr>sb_mem := mem_write (sb_mem c) a [v AND 0xff, drop_bit 8 v]\<rparr>)),
     bc_invalidate_icache = (\<lambda>a c. (if sb_icache_fails c then Inl TransferError else Inr (), c)),
     bc_read32 = (\<lambda>a c. (Inr (sb_regs c a), c)),
     bc_write32 = (\<lambda>a v c. (Inr (), c\<lparr>sb_regs := (sb_regs c)(a := v)\<rparr>))\<rparr>"

definition sim_bp_inv :: "sim_bp_core \<Rightarrow> bool" where
  "sim_bp_inv c \<longleftrightarrow> (\<forall>x. is_byte (sb_mem c x))"

interpretation sim_bp: bp_target sim_bp sim_bp_inv sb_mem sb_regs
proof
  fix c a v assume c: "sim_bp_inv c" and v: "is_uint 16 v"
  have "is_byte (v AND 0xff)" "is_byte (drop_bit 8 v)"
    using le_bytes2 [OF v] by (auto simp: is_byte_def and_255_mod)
  then show "wp (bc_write16 sim_bp a v) (\<lambda>_ c'. sim_bp_inv c' \<and> sb_mem c' = mem_write (sb_mem c) a [v AND 0xff, drop_bit 8 v]
      \<and> sb_regs c' = sb_regs c) (\<lambda>_. sim_bp_inv) c"
    using c by (auto simp: wp_case sim_bp_def sim_bp_inv_def mem_write2)
qed (auto simp: wp_case sim_bp_def sim_bp_inv_def)

definition demo_units :: "sim_bp_core bp_units" where
  "demo_units = \<lparr>bu_heap = [HardwareBreakpoint 0xE0002008, HardwareBreakpoint 0xE000200C],
     bu_fpb = (FPB 0xE0002000)\<lparr>fp_hw_breakpoints := [0, 1], fp_nb_code := 2\<rparr>, bu_soft = [],
     bu_core = \<lparr>sb_mem = (\<lambda>_. 0x11), sb_regs = (\<lambda>_. 0), sb_icache_fails = False, sb_write_fails = False\<rparr>\<rparr>"

lemma demo_units_ok: "units_ok demo_units" "sim_bp_inv (bu_core demo_units)" "sim_bp.comps_ok demo_units"
proof -
  have at: "bp_at demo_units 0 = HardwareBreakpoint 0xE0002008" "bp_at demo_units (Suc 0) = HardwareBreakpoint 0xE000200C"
    by (simp_all add: bp_at_def demo_units_def)
  have hw: "fp_hw_breakpoints (bu_fpb demo_units) = [0, Suc 0]" by (simp add: demo_units_def)
  show "units_ok demo_units"
    unfolding units_ok_def fpb_ok_def Let_def hw
    by (simp add: at HardwareBreakpoint_def Breakpoint_def) (simp add: demo_units_def soft_ok_def od_keys_def FPB_def)
  show "sim_bp_inv (bu_core demo_units)" by (simp add: sim_bp_inv_def demo_units_def is_byte_def)
  show "sim_bp.comps_ok demo_units"
    unfolding sim_bp.comps_ok_def hw
    by (simp add: at HardwareBreakpoint_def Breakpoint_def) (simp add: demo_units_def FPB_def FP_CTRL_def)
qed

lemma bkpt_value: "value_in (mem_write m a [0, 0xbe]) a 16 = BKPT_INSTR"
  by (simp add: value_in_simps mem_write2 BKPT_INSTR_def)

definition demo_soft :: "sim_bp_core bp_units" where
  "demo_soft = snd (soft_set sim_bp 0x20000010 demo_units)"

definition demo_hard :: "sim_bp_core bp_units" where
  "demo_hard = snd (fpb_set sim_bp 0x1000 demo_units)"

lemma demo_runs:
  "soft_set sim_bp 0x20000010 demo_units = (Inr (Some 2), demo_soft)"
  "fpb_set sim_bp 0x1000 demo_units = (Inr (Some 0), demo_hard)"
  "soft_find 0x20000010 demo_units = None" "fpb_find 0x1000 demo_units = None"
proof -
  have "fst (soft_set sim_bp 0x20000010 demo_units) = Inr (Some 2)" by code_simp
  then show "soft_set sim_bp 0x20000010 demo_units = (Inr (Some 2), demo_soft)"
    unfolding demo_soft_def by (metis prod.collapse)
  have "fst (fpb_set sim_bp 0x1000 demo_units) = Inr (Some 0)" by code_simp
  then show "fpb_set sim_bp 0x1000 demo_units = (Inr (Some 0), demo_hard)"
    unfolding demo_hard_def by (metis prod.collapse)
  show "soft_find 0x20000010 demo_units = None" "fpb_find 0x1000 demo_units = None" by code_simp+
qed

lemma demo_soft_ok: "units_ok demo_soft \<and> sim_bp_inv (bu_core demo_soft)"
  using wpD_Inr [OF sim_bp.soft_set_wp [OF demo_units_ok(1,2) demo_runs(3)] demo_runs(1)]
  by (simp add: sim_bp.soft_kept_def)

text \<open>
  A cache maintenance that faults after the breakpoint instruction was written: no breakpoint is
  reported and none is filed, but the instruction stays in memory.
\<close>

lemma failed_set_leaves_bkpt:
  "(let s = demo_units\<lparr>bu_core := (bu_core demo_units)\<lparr>sb_icache_fails := True\<rparr>\<rparr>; t = snd (soft_set sim_bp 0x20000010 s)
    in fst (soft_set sim_bp 0x20000010 s) = Inr None \<and> bu_soft t = [] \<and> sb_mem (bu_core t) 0x20000011 = 0xbe)"
  by code_simp

subsection \<open>Properties\<close>

text \<open>
  C16. The debugger never sees its own breakpoint instructions: a byte, an aligned halfword or an
  aligned word read from memory and passed through the filter is what the program has there, with the
  original instruction at every software breakpoint.
\<close>

theorem filter_hides_breakpoints:
  assumes "soft_ok s" and "\<forall>x. is_byte (m x)" and "width_ok addr sz"
  shows "soft_filter addr sz (value_in m addr sz) s = value_in (unbroken m s) addr sz"
proof -
  have "\<forall>b \<in> set (soft_bps s). instr_ok b" using assms(1) by (auto simp: soft_ok_def soft_bps_def)
  from filter_patches [OF this assms(3)] show ?thesis
    using assms(2) by (simp add: soft_filter_def unbroken_def soft_bps_def foldl_map)
qed

lemma filter_hides_breakpoints_witness:
  "soft_filter 0x20000010 32 (value_in (sb_mem (bu_core demo_soft)) 0x20000010 32) demo_soft
     = value_in (unbroken (sb_mem (bu_core demo_soft)) demo_soft) 0x20000010 32"
  by (rule filter_hides_breakpoints)
    (use demo_soft_ok in \<open>simp_all add: units_ok_def sim_bp_inv_def width_ok_def\<close>)


lemma soft_keeps_hard:
  assumes "bp_target K cinv cmem cregs" and "units_ok s" and "bp_target.soft_kept cinv s s'"
  shows "units_ok s'" and "\<forall>b. fpb_find b s' = fpb_find b s"
proof -
  have k: "units_ok s' \<and> apart_from SoftwareOwner s s'"
    using assms(3) unfolding bp_target.soft_kept_def [OF assms(1)] by blast
  then show "units_ok s'" by blast
  have "fpb_ok s" using assms(2) by (simp add: units_ok_def)
  then show "\<forall>b. fpb_find b s' = fpb_find b s" using k apart_fpb_find(1) by blast
qed

text \<open>
  C15. Software breakpoints are transparent to the program: setting one where there is none returns an
  object found under its address, puts the breakpoint instruction there and leaves the program as seen
  through the filter unchanged; removing it puts the instruction back or, when a transfer failed,
  leaves it filed; no other breakpoint of either provider is touched.
\<close>

theorem soft_breakpoints_transparent:
  assumes "bp_target K cinv cmem cregs" and "units_ok s" and "cinv (bu_core s)"
  shows "(soft_find a s = None \<longrightarrow> wp (soft_set K a)
      (\<lambda>res s'. units_ok s' \<and> soft_find a s' = res \<and> (\<forall>b. b \<noteq> a \<longrightarrow> soft_find b s' = soft_find b s)
        \<and> (\<forall>b. fpb_find b s' = fpb_find b s)
        \<and> (res \<noteq> None \<longrightarrow> unbroken (cmem (bu_core s')) s' = unbroken (cmem (bu_core s)) s
              \<and> value_in (cmem (bu_core s')) a 16 = BKPT_INSTR)) (\<lambda>_ _. True) s)
    \<and> (\<forall>r. soft_find a s = Some r \<longrightarrow> wp (soft_remove K r)
      (\<lambda>_ s'. units_ok s' \<and> (\<forall>b. b \<noteq> a \<longrightarrow> soft_find b s' = soft_find b s) \<and> (\<forall>b. fpb_find b s' = fpb_find b s)
        \<and> (soft_find a s' = Some r
           \<or> soft_find a s' = None \<and> unbroken (cmem (bu_core s')) s' = unbroken (cmem (bu_core s)) s)) (\<lambda>_ _. True) s)"
proof (intro conjI impI allI)
  assume new: "soft_find a s = None"
  show "wp (soft_set K a)
      (\<lambda>res s'. units_ok s' \<and> soft_find a s' = res \<and> (\<forall>b. b \<noteq> a \<longrightarrow> soft_find b s' = soft_find b s)
        \<and> (\<forall>b. fpb_find b s' = fpb_find b s)
        \<and> (res \<noteq> None \<longrightarrow> unbroken (cmem (bu_core s')) s' = unbroken (cmem (bu_core s)) s
              \<and> value_in (cmem (bu_core s')) a 16 = BKPT_INSTR)) (\<lambda>_ _. True) s"
    by (rule wp_mono [OF bp_target.soft_set_wp [OF assms new]], elim conjE, intro conjI impI)
      (use soft_keeps_hard [OF assms(1,2)] in \<open>(blast | simp add: bkpt_value)+\<close>)
next
  fix r assume r: "soft_find a s = Some r"
  show "wp (soft_remove K r)
      (\<lambda>_ s'. units_ok s' \<and> (\<forall>b. b \<noteq> a \<longrightarrow> soft_find b s' = soft_find b s) \<and> (\<forall>b. fpb_find b s' = fpb_find b s)
        \<and> (soft_find a s' = Some r
           \<or> soft_find a s' = None \<and> unbroken (cmem (bu_core s')) s' = unbroken (cmem (bu_core s)) s)) (\<lambda>_ _. True) s"
    by (rule wp_mono [OF bp_target.soft_remove_wp [OF assms r]], elim conjE, intro conjI)
      (use soft_keeps_hard [OF assms(1,2)] in \<open>blast+\<close>)
qed

lemma soft_breakpoints_transparent_witness:
  "soft_find 0x20000010 demo_soft = Some 2
     \<and> unbroken (sb_mem (bu_core demo_soft)) demo_soft = unbroken (sb_mem (bu_core demo_units)) demo_units
     \<and> value_in (sb_mem (bu_core demo_soft)) 0x20000010 16 = BKPT_INSTR"
  using wpD_Inr [OF soft_breakpoints_transparent [OF sim_bp.bp_target_axioms demo_units_ok(1,2),
      THEN conjunct1, THEN mp, OF demo_runs(3)] demo_runs(1)] by simp




end
