(* ===== verification/Breakpoint_Manager.thy ===== *)
theory Breakpoint_Manager
  imports Breakpoint_Units
begin

text \<open>
  The breakpoint manager of one core, \<open>pyocd/debug/breakpoints/manager.py\<close>: the breakpoints
  that are live on the target, those the client wants, and the flush that makes the first the second.
  It is a client of the providers' contract \<open>bp_provider\<close>.
\<close>

subsection \<open>State\<close>

text \<open>
  The providers are filed under their type; the software provider serves \<open>SW\<close> and the FPB
  \<open>HW\<close>.  \<open>bm_fpb\<close> says whether \<open>_fpb\<close> is set.
\<close>

record 'c bp_state = "'c bp_units" +
  bm_breakpoints :: "(int \<times> ref) list"
  bm_updated :: "(int \<times> ref) list"
  bm_providers :: "bp_type list"
  bm_fpb :: bool
  bm_ignore_notifications :: bool

definition BreakpointManager :: "'c bp_units \<Rightarrow> 'c bp_state" where
  "BreakpointManager u = bp_units.extend u \<lparr>bm_breakpoints = [], bm_updated = [], bm_providers = [],
     bm_fpb = False, bm_ignore_notifications = False\<rparr>"

definition UnrealizedBreakpoint :: breakpoint where
  "UnrealizedBreakpoint = Breakpoint ManagerOwner"

definition MIN_HW_BREAKPOINTS :: int where "MIN_HW_BREAKPOINTS = 0"

definition add_provider :: "bp_type \<Rightarrow> ('c bp_state, unit) exec" where
  "add_provider typ =
     bind (modify (\<lambda>s. s\<lparr>bm_providers := (if typ \<in> set (bm_providers s) then bm_providers s else bm_providers s @ [typ])\<rparr>)) (\<lambda>_.
       if typ = HW then modify (\<lambda>s. s\<lparr>bm_fpb := True\<rparr>) else ret ())"

subsection \<open>Requests\<close>

definition get_breakpoints :: "'c bp_state \<Rightarrow> int list" where
  "get_breakpoints s = od_keys (bm_breakpoints s)"

definition find_breakpoint :: "int \<Rightarrow> 'c bp_state \<Rightarrow> ref option" where
  "find_breakpoint addr s = map_of (bm_updated s) addr"

text \<open>The objects added and removed since the last flush.\<close>

definition get_updated_breakpoints :: "'c bp_state \<Rightarrow> ref list \<times> ref list" where
  "get_updated_breakpoints s =
     (filter (\<lambda>r. bo_addr (bp_at s r) \<notin> set (od_keys (bm_breakpoints s))) (map snd (bm_updated s)),
      filter (\<lambda>r. bo_addr (bp_at s r) \<notin> set (od_keys (bm_updated s))) (map snd (bm_breakpoints s)))"

text \<open>
  The three adjustments of \<open>_select_breakpoint_type\<close>: an automatic type is decided, a hardware
  breakpoint out of range falls back to software, and memory that cannot be written needs hardware.
\<close>

definition decide_auto :: "bool \<Rightarrow> bool \<Rightarrow> bool \<Rightarrow> bp_type \<Rightarrow> bp_type option" where
  "decide_auto in_range have_hw writable typ =
     (if typ = AUTO then
        (if \<not> in_range \<or> \<not> have_hw then (if writable then Some SW else None) else Some HW)
      else Some typ)"

definition fall_back_soft :: "bool \<Rightarrow> bool \<Rightarrow> bp_type \<Rightarrow> bp_type option" where
  "fall_back_soft in_range writable typ =
     (if typ = HW \<and> \<not> in_range then (if writable then Some SW else None) else Some typ)"

definition fall_back_hard :: "bool \<Rightarrow> bool \<Rightarrow> bool \<Rightarrow> bp_type \<Rightarrow> bp_type option" where
  "fall_back_hard in_range have_hw writable typ =
     (if \<not> writable then (if in_range \<and> have_hw then Some HW else None) else Some typ)"

definition select_breakpoint_type :: "'c bp_core \<Rightarrow> ref \<Rightarrow> bool \<Rightarrow> 'c bp_state \<Rightarrow> exn + bp_type option" where
  "select_breakpoint_type K bp allow_all_hw_bps s =
     res_bind (region_writable (bc_map K) (bo_addr (bp_at s bp))) (\<lambda>region.
       let typ = (case region of None \<Rightarrow> HW | Some _ \<Rightarrow> bo_type (bp_at s bp));
           writable = (case region of None \<Rightarrow> False | Some w \<Rightarrow> w);
           in_range = (bm_fpb s \<and> fpb_can_support (bo_addr (bp_at s bp)) s);
           have_hw = (bm_fpb s \<and> (fpb_available s > MIN_HW_BREAKPOINTS \<or> allow_all_hw_bps \<and> fpb_available s > 0))
       in Inr (Option.bind (decide_auto in_range have_hw writable typ)
                (\<lambda>t. Option.bind (fall_back_soft in_range writable t) (fall_back_hard in_range have_hw writable))))"

text \<open>The comparators that stay free once what is pending is flushed.\<close>

fun count_added :: "'c bp_core \<Rightarrow> 'c bp_state \<Rightarrow> ref list \<Rightarrow> int \<Rightarrow> exn + int" where
  "count_added K s [] free_bps = Inr free_bps"
| "count_added K s (bp # bps) free_bps =
     res_bind (select_breakpoint_type K bp False s) (\<lambda>likely.
       count_added K s bps (if likely = Some HW then free_bps - 1 else free_bps))"

definition check_added_breakpoint :: "'c bp_core \<Rightarrow> ref \<Rightarrow> 'c bp_state \<Rightarrow> exn + bool" where
  "check_added_breakpoint K bp s =
     (if \<not> bm_fpb s then
        res_bind (region_writable (bc_map K) (bo_addr (bp_at s bp))) (\<lambda>w. Inr (w = Some True))
      else
        res_bind (select_breakpoint_type K bp False s) (\<lambda>likely.
          if likely = Some SW then Inr True
          else (case get_updated_breakpoints s of (added, removed) \<Rightarrow>
            res_bind (count_added K s added
                (fpb_available s + int (length (filter (\<lambda>r. bo_type (bp_at s r) = HW) removed))))
              (\<lambda>free_bps. Inr (free_bps > MIN_HW_BREAKPOINTS)))))"

definition want :: "int \<Rightarrow> ref \<Rightarrow> 'c bp_state \<Rightarrow> 'c bp_state" where
  "want addr bp s = s\<lparr>bm_updated := od_set addr bp (bm_updated s)\<rparr>"

definition set_breakpoint :: "'c bp_core \<Rightarrow> int \<Rightarrow> bp_type \<Rightarrow> ('c bp_state, bool) exec" where
  "set_breakpoint K addr0 typ =
     (let addr = addr0 AND NOT 1 in
      bind get_state (\<lambda>s.
        if find_breakpoint addr s \<noteq> None then ret True
        else (case map_of (bm_breakpoints s) addr of
            Some bp \<Rightarrow> bind (modify (want addr bp)) (\<lambda>_. ret True)
          | None \<Rightarrow>
              bind (new_bp (UnrealizedBreakpoint\<lparr>bo_type := typ, bo_addr := addr\<rparr>)) (\<lambda>bp.
              bind get_state (\<lambda>s.
              bind (lift_res (check_added_breakpoint K bp s)) (\<lambda>ok.
                if \<not> ok then ret False
                else bind (modify (want addr bp)) (\<lambda>_. ret True)))))))"

definition remove_breakpoint :: "int \<Rightarrow> ('c bp_state, unit) exec" where
  "remove_breakpoint addr0 = modify (\<lambda>s. s\<lparr>bm_updated := od_del (addr0 AND NOT 1) (bm_updated s)\<rparr>)"

definition get_breakpoint_type :: "int \<Rightarrow> 'c bp_state \<Rightarrow> bp_type option" where
  "get_breakpoint_type addr s = map_option (\<lambda>r. bo_type (bp_at s r)) (find_breakpoint addr s)"

subsection \<open>Flushing\<close>

text \<open>
  \<open>bp.provider.remove_breakpoint(bp)\<close>.  The provider of an object that was never realized is the
  manager, whose method takes an address: the mask of the object raises.
\<close>

definition provider_remove :: "'c bp_core \<Rightarrow> ref \<Rightarrow> ('c bp_state, unit) exec" where
  "provider_remove K bp =
     bind get_state (\<lambda>s.
       case bo_provider (bp_at s bp) of
         ManagerOwner \<Rightarrow> raise TypeError
       | FpbOwner \<Rightarrow> fpb_remove K bp
       | SoftwareOwner \<Rightarrow> soft_remove K bp)"

definition provider_set :: "'c bp_core \<Rightarrow> bp_type \<Rightarrow> int \<Rightarrow> ('c bp_state, ref option) exec" where
  "provider_set K typ addr =
     bind get_state (\<lambda>s.
       if typ \<notin> set (bm_providers s) then raise KeyError
       else (case typ of HW \<Rightarrow> fpb_set K addr | SW \<Rightarrow> soft_set K addr | AUTO \<Rightarrow> raise KeyError))"

definition flush_remove :: "'c bp_core \<Rightarrow> ref \<Rightarrow> ('c bp_state, unit) exec" where
  "flush_remove K bp =
     bind (provider_remove K bp) (\<lambda>_.
     bind get_state (\<lambda>s.
       if bo_addr (bp_at s bp) \<notin> set (od_keys (bm_breakpoints s)) then raise KeyError
       else modify (\<lambda>s. s\<lparr>bm_breakpoints := od_del (bo_addr (bp_at s bp)) (bm_breakpoints s)\<rparr>)))"

definition flush_add :: "'c bp_core \<Rightarrow> bool \<Rightarrow> ref \<Rightarrow> ('c bp_state, unit) exec" where
  "flush_add K allow_all_hw_bps bp =
     bind get_state (\<lambda>s.
     bind (lift_res (select_breakpoint_type K bp allow_all_hw_bps s)) (\<lambda>sel.
       case sel of
         None \<Rightarrow> ret ()
       | Some typ \<Rightarrow>
           bind (catch (provider_set K typ (bo_addr (bp_at s bp))) (\<lambda>e. e = KeyError) (\<lambda>_. raise ValueError)) (\<lambda>res.
             case res of
               None \<Rightarrow> ret ()
             | Some r \<Rightarrow> modify (\<lambda>s. s\<lparr>bm_breakpoints := od_set (bo_addr (bp_at s r)) r (bm_breakpoints s)\<rparr>))))"

definition flush_body :: "'c bp_core \<Rightarrow> bool \<Rightarrow> ('c bp_state, unit) exec" where
  "flush_body K is_step =
     bind (modify (\<lambda>s. s\<lparr>bm_ignore_notifications := True\<rparr>)) (\<lambda>_.
     bind get_state (\<lambda>s.
       case get_updated_breakpoints s of (added, removed) \<Rightarrow>
         bind (for_each (flush_remove K) removed) (\<lambda>_.
         bind (for_each (flush_add K (\<not> is_step \<and> length added = 1)) added) (\<lambda>_.
           modify (\<lambda>s. s\<lparr>bm_updated := bm_breakpoints s\<rparr>)))))"

text \<open>\<open>try: m  finally: f\<close> where the cleanup cannot raise.\<close>

definition finally_do :: "('s, 'a) exec \<Rightarrow> ('s \<Rightarrow> 's) \<Rightarrow> ('s, 'a) exec" where
  "finally_do m f s = (case m s of (r, s') \<Rightarrow> (r, f s'))"

definition flush :: "'c bp_core \<Rightarrow> bool \<Rightarrow> ('c bp_state, unit) exec" where
  "flush K is_step = finally_do (flush_body K is_step) (\<lambda>s. s\<lparr>bm_ignore_notifications := False\<rparr>)"

definition remove_all_breakpoints :: "'c bp_core \<Rightarrow> ('c bp_state, unit) exec" where
  "remove_all_breakpoints K =
     bind get_state (\<lambda>s.
     bind (for_each (provider_remove K) (map snd (bm_breakpoints s))) (\<lambda>_.
       modify (\<lambda>s. s\<lparr>bm_breakpoints := []\<rparr>)))"

subsection \<open>Notifications\<close>

definition pre_run_handler :: "'c bp_core \<Rightarrow> bool \<Rightarrow> ('c bp_state, unit) exec" where
  "pre_run_handler K is_step =
     bind get_state (\<lambda>s. if \<not> bm_ignore_notifications s then flush K is_step else ret ())"

definition pre_disconnect_handler :: "('c bp_state, unit) exec" where
  "pre_disconnect_handler = ret ()"

definition pre_reset_catch_handler :: "'c bp_core \<Rightarrow> bool \<Rightarrow> ('c bp_state, unit) exec" where
  "pre_reset_catch_handler K vector_catch = (if vector_catch then remove_all_breakpoints K else ret ())"

definition post_reset_catch_handler :: "bool \<Rightarrow> ('c bp_state, unit) exec" where
  "post_reset_catch_handler vector_catch =
     (if vector_catch then bind get_state (\<lambda>s. if bm_fpb s then on_fpb (\<lambda>f. f\<lparr>fp_enabled := False\<rparr>) else ret ())
      else ret ())"

subsection \<open>The memory filter\<close>

text \<open>Only the software provider filters memory.\<close>

definition mgr_filter :: "int \<Rightarrow> int \<Rightarrow> int \<Rightarrow> 'c bp_state \<Rightarrow> int" where
  "mgr_filter addr sz d s = foldl (\<lambda>d p. soft_filter addr sz d s) d (filter (\<lambda>p. p = SW) (bm_providers s))"

text \<open>The block filters, one provider after the other; the element at index \<open>i\<close> is filtered as if at \<open>addr + i\<close>.\<close>

definition filter_block :: "int \<Rightarrow> int \<Rightarrow> int list \<Rightarrow> 'c bp_state \<Rightarrow> int list" where
  "filter_block sz addr ds s = foldl (\<lambda>ds p. map (\<lambda>(i, d). soft_filter (addr + int i) sz d s) (enumerate 0 ds)) ds
     (filter (\<lambda>p. p = SW) (bm_providers s))"

definition filter_memory_unaligned_8 :: "int \<Rightarrow> int list \<Rightarrow> 'c bp_state \<Rightarrow> int list" where
  "filter_memory_unaligned_8 addr ds s = filter_block 8 addr ds s"

definition filter_memory_aligned_32 :: "int \<Rightarrow> int list \<Rightarrow> 'c bp_state \<Rightarrow> int list" where
  "filter_memory_aligned_32 addr ds s = filter_block 32 addr ds s"

subsection \<open>Consistency\<close>

text \<open>
  \<open>live_ok\<close>: every live breakpoint is one its provider knows under that address.
  \<open>wanted_ok\<close>: a wanted breakpoint is the live object of its address or one not realized yet.
  \<open>no_leak\<close>: the providers have no breakpoint the manager does not.
\<close>

definition live_ok :: "'c bp_state \<Rightarrow> bool" where
  "live_ok s \<longleftrightarrow> distinct (od_keys (bm_breakpoints s))
     \<and> (\<forall>a r. map_of (bm_breakpoints s) a = Some r \<longrightarrow> (\<exists>ow. unit_find ow a s = Some r))"

definition unrealized_at :: "int \<Rightarrow> ref \<Rightarrow> 'c bp_state \<Rightarrow> bool" where
  "unrealized_at a r s \<longleftrightarrow> r < length (bu_heap s) \<and> bo_provider (bp_at s r) = ManagerOwner \<and> bo_addr (bp_at s r) = a"

definition wanted_ok :: "'c bp_state \<Rightarrow> bool" where
  "wanted_ok s \<longleftrightarrow> distinct (od_keys (bm_updated s))
     \<and> (\<forall>a r. map_of (bm_updated s) a = Some r \<longrightarrow>
          (case map_of (bm_breakpoints s) a of Some r' \<Rightarrow> r' = r | None \<Rightarrow> unrealized_at a r s))"

definition no_leak :: "'c bp_state \<Rightarrow> bool" where
  "no_leak s \<longleftrightarrow> (\<forall>ow a r. unit_find ow a s = Some r \<longrightarrow> map_of (bm_breakpoints s) a = Some r)"

definition mgr_ok :: "'c bp_state \<Rightarrow> bool" where
  "mgr_ok s \<longleftrightarrow> units_ok s \<and> live_ok s \<and> wanted_ok s \<and> no_leak s"

text \<open>The manager's own fields are no part of the units.\<close>

lemma units_mgr [simp]:
  "bp_at (s\<lparr>bm_breakpoints := d\<rparr>) = bp_at s" "bp_at (s\<lparr>bm_updated := d\<rparr>) = bp_at s"
  "bp_at (s\<lparr>bm_ignore_notifications := b\<rparr>) = bp_at s"
  "unit_find ow a (s\<lparr>bm_breakpoints := d\<rparr>) = unit_find ow a s" "unit_find ow a (s\<lparr>bm_updated := d\<rparr>) = unit_find ow a s"
  "unit_find ow a (s\<lparr>bm_ignore_notifications := b\<rparr>) = unit_find ow a s"
  "units_ok (s\<lparr>bm_breakpoints := d\<rparr>) = units_ok s" "units_ok (s\<lparr>bm_updated := d\<rparr>) = units_ok s"
  "units_ok (s\<lparr>bm_ignore_notifications := b\<rparr>) = units_ok s"
  by (simp_all add: bp_at_def [abs_def] unit_find_def fpb_find_def soft_find_def units_ok_def fpb_ok_def soft_ok_def Let_def
      split: bp_owner.split)

lemma ok_mgr [simp]:
  "live_ok (s\<lparr>bm_updated := d\<rparr>) = live_ok s" "live_ok (s\<lparr>bm_ignore_notifications := b\<rparr>) = live_ok s"
  "wanted_ok (s\<lparr>bm_ignore_notifications := b\<rparr>) = wanted_ok s"
  "no_leak (s\<lparr>bm_updated := d\<rparr>) = no_leak s" "no_leak (s\<lparr>bm_ignore_notifications := b\<rparr>) = no_leak s"
  "unrealized_at a r (s\<lparr>bm_breakpoints := d\<rparr>) = unrealized_at a r s" "unrealized_at a r (s\<lparr>bm_updated := d\<rparr>) = unrealized_at a r s"
  "unrealized_at a r (s\<lparr>bm_ignore_notifications := b\<rparr>) = unrealized_at a r s"
  by (simp_all add: live_ok_def wanted_ok_def no_leak_def unrealized_at_def cong: option.case_cong)

text \<open>
  What a call of a provider keeps: the manager's fields and the objects that are no provider's.
\<close>

definition mgr_kept :: "'c bp_state \<Rightarrow> 'c bp_state \<Rightarrow> bool" where
  "mgr_kept s s' \<longleftrightarrow> bm_breakpoints s' = bm_breakpoints s \<and> bm_updated s' = bm_updated s
     \<and> bm_providers s' = bm_providers s \<and> bm_fpb s' = bm_fpb s \<and> bm_ignore_notifications s' = bm_ignore_notifications s
     \<and> (\<forall>a r. unrealized_at a r s \<longrightarrow> unrealized_at a r s')"

lemma apart_mgr_kept:
  assumes "apart_from ow s s'" and "ow \<noteq> ManagerOwner"
  shows "mgr_kept s s'"
proof -
  have more: "bp_units.more s' = bp_units.more s" using assms(1) by (simp add: apart_from_def)
  have "bm_breakpoints s' = bm_breakpoints s \<and> bm_updated s' = bm_updated s
     \<and> bm_providers s' = bm_providers s \<and> bm_fpb s' = bm_fpb s \<and> bm_ignore_notifications s' = bm_ignore_notifications s"
    using more by (cases s; cases s') simp
  moreover have "unrealized_at a r s \<Longrightarrow> unrealized_at a r s'" for a r
    using assms by (fastforce simp: unrealized_at_def apart_from_def)
  ultimately show ?thesis by (simp add: mgr_kept_def)
qed

lemma apart_unit_find:
  assumes "units_ok s" and "apart_from ow s s'" and "ow' \<noteq> ow" and "ow \<noteq> ManagerOwner"
  shows "unit_find ow' b s' = unit_find ow' b s"
proof (cases ow')
  case ManagerOwner
  then show ?thesis by (simp add: unit_find_def)
next
  case FpbOwner
  then have "ow = SoftwareOwner" using assms by (cases ow) auto
  then have "fpb_find b s' = fpb_find b s" using assms apart_fpb_find(1) [of s s' b] by (simp add: units_ok_def)
  then show ?thesis using FpbOwner by (simp add: unit_find_def)
next
  case SoftwareOwner
  then have "bu_soft s' = bu_soft s" using assms by (auto simp: apart_from_def)
  then show ?thesis using SoftwareOwner by (simp add: unit_find_def soft_find_def)
qed

subsection \<open>Calls of a provider\<close>

text \<open>
  \<open>cleared A s s'\<close> and \<open>extended A s s'\<close>: what removing and what adding the breakpoints at
  the addresses \<open>A\<close> does to the whole.
\<close>

definition same_wants :: "'c bp_state \<Rightarrow> 'c bp_state \<Rightarrow> bool" where
  "same_wants s s' \<longleftrightarrow> bm_updated s' = bm_updated s \<and> bm_providers s' = bm_providers s \<and> bm_fpb s' = bm_fpb s
     \<and> (\<forall>a r. unrealized_at a r s \<longrightarrow> unrealized_at a r s')"

definition cleared :: "int set \<Rightarrow> 'c bp_state \<Rightarrow> 'c bp_state \<Rightarrow> bool" where
  "cleared A s s' \<longleftrightarrow> units_ok s' \<and> live_ok s' \<and> same_wants s s'
     \<and> bm_breakpoints s' = filter (\<lambda>p. fst p \<notin> A) (bm_breakpoints s)
     \<and> (\<forall>ow b. b \<notin> A \<longrightarrow> unit_find ow b s' = unit_find ow b s)
     \<and> (\<forall>ow b. unit_find ow b s' = None \<or> unit_find ow b s' = unit_find ow b s)"

definition extended :: "int set \<Rightarrow> 'c bp_state \<Rightarrow> 'c bp_state \<Rightarrow> bool" where
  "extended A s s' \<longleftrightarrow> units_ok s' \<and> live_ok s' \<and> same_wants s s'
     \<and> (\<forall>b. b \<notin> A \<longrightarrow> map_of (bm_breakpoints s') b = map_of (bm_breakpoints s) b)
     \<and> (\<forall>ow b. b \<notin> A \<longrightarrow> unit_find ow b s' = unit_find ow b s)
     \<and> (\<forall>ow b. unit_find ow b s' = unit_find ow b s \<or> b \<in> A \<and> unit_find ow b s' = map_of (bm_breakpoints s') b)"

lemma same_wants_refl [simp]: "same_wants s s"
  by (simp add: same_wants_def)

lemma same_wants_trans: "same_wants s t \<Longrightarrow> same_wants t u \<Longrightarrow> same_wants s u"
  by (simp add: same_wants_def)

lemma mgr_kept_wants: "mgr_kept s s' \<Longrightarrow> same_wants s (s'\<lparr>bm_breakpoints := d\<rparr>)" "mgr_kept s s' \<Longrightarrow> same_wants s s'"
  by (simp_all add: mgr_kept_def same_wants_def)

lemma cleared_trans: "cleared A s t \<Longrightarrow> cleared B t u \<Longrightarrow> cleared (A \<union> B) s u"
  unfolding cleared_def
  by (elim conjE, intro conjI)
    (assumption, assumption, (erule same_wants_trans, assumption), (simp add: conj_commute), simp, metis)

lemma extended_trans:
  assumes "extended A s t" and "extended B t u" and "A \<inter> B = {}"
  shows "extended (A \<union> B) s u"
proof -
  have "unit_find ow b u = unit_find ow b s \<or> b \<in> A \<union> B \<and> unit_find ow b u = map_of (bm_breakpoints u) b" for ow b
  proof -
    have "unit_find ow b u = unit_find ow b t \<or> b \<in> B \<and> unit_find ow b u = map_of (bm_breakpoints u) b"
      using assms(2) unfolding extended_def by blast
    moreover have "unit_find ow b t = unit_find ow b s \<or> b \<in> A \<and> unit_find ow b t = map_of (bm_breakpoints t) b"
      using assms(1) unfolding extended_def by blast
    moreover have "b \<in> A \<Longrightarrow> map_of (bm_breakpoints u) b = map_of (bm_breakpoints t) b"
      using assms(2,3) unfolding extended_def by blast
    ultimately show ?thesis by auto
  qed
  then show ?thesis
    using assms(1,2) same_wants_trans [of s t u] unfolding extended_def by simp
qed

lemma map_of_filter_key: "map_of (filter (\<lambda>p. fst p \<notin> A) d) k = (if k \<in> A then None else map_of d k)"
  by (induction d) auto

lemma od_del_filter: "od_del k d = filter (\<lambda>p. fst p \<notin> {k}) d"
  by (simp add: od_del_def split_def)

lemma live_find:
  "live_ok s \<Longrightarrow> map_of (bm_breakpoints s) a = Some r \<Longrightarrow> \<exists>ow. unit_find ow a s = Some r"
  by (simp add: live_ok_def)

text \<open>The contract of both providers at once, with the manager's part of the state.\<close>

definition type_owner :: "bp_type \<Rightarrow> bp_owner" where
  "type_owner typ = (case typ of HW \<Rightarrow> FpbOwner | SW \<Rightarrow> SoftwareOwner | AUTO \<Rightarrow> ManagerOwner)"

context bp_target
begin

lemma provider_set_wp:
  assumes ok: "units_ok s" and c: "cinv (bu_core s)" and new: "\<And>ow. unit_find ow a s = None"
  shows "wp (provider_set K typ a) (\<lambda>res s'. units_ok s' \<and> cinv (bu_core s') \<and> mgr_kept s s'
      \<and> (\<forall>ow b. unit_find ow b s' = (if b = a \<and> ow = type_owner typ then res else unit_find ow b s))) (\<lambda>_ _. True) s"
    (is "wp _ ?Q _ _")
proof -
  have one: "?Q res s'" if ow: "ow = type_owner typ" "ow \<noteq> ManagerOwner"
    and post: "units_ok s' \<and> cinv (bu_core s') \<and> apart_from ow s s' \<and> (\<forall>b. b \<noteq> a \<longrightarrow> unit_find ow b s' = unit_find ow b s)
        \<and> unit_find ow a s' = res" for ow res s'
  proof -
    have "unit_find ow' b s' = (if b = a \<and> ow' = type_owner typ then res else unit_find ow' b s)" for ow' b
      using apart_unit_find [OF ok, of ow s' ow' b] ow post by (cases "ow' = ow") auto
    then show ?thesis using post apart_mgr_kept [of ow s s'] ow by blast
  qed
  show ?thesis
  proof (cases "typ")
    case HW
    have "wp (fpb_set K a) ?Q (\<lambda>_ _. True) s"
      by (rule wp_mono [OF hard.set_law [OF ok c new]]) (rule one [of FpbOwner], auto simp: HW type_owner_def)
    then show ?thesis using HW by (simp add: provider_set_def)
  next
    case SW
    have "wp (soft_set K a) ?Q (\<lambda>_ _. True) s"
      by (rule wp_mono [OF soft.set_law [OF ok c new]]) (rule one [of SoftwareOwner], auto simp: SW type_owner_def)
    then show ?thesis using SW by (simp add: provider_set_def)
  qed (auto simp: provider_set_def)
qed

lemma provider_remove_wp:
  assumes ok: "units_ok s" and c: "cinv (bu_core s)" and r: "unit_find ow a s = Some r"
  shows "wp (provider_remove K r) (\<lambda>_ s'. units_ok s' \<and> cinv (bu_core s') \<and> mgr_kept s s' \<and> bo_addr (bp_at s' r) = a
      \<and> (\<forall>ow' b. ow' \<noteq> ow \<or> b \<noteq> a \<longrightarrow> unit_find ow' b s' = unit_find ow' b s)
      \<and> (unit_find ow a s' = None \<or> unit_find ow a s' = Some r)) (\<lambda>_ _. True) s"
    (is "wp _ ?Q _ _")
proof -
  have o: "bo_provider (bp_at s r) = ow" "ow \<noteq> ManagerOwner"
    using unit_find_object [OF ok r] r by (auto simp: unit_find_def)
  have one: "?Q x s'" if
    "units_ok s' \<and> cinv (bu_core s') \<and> apart_from ow s s' \<and> (\<forall>b. b \<noteq> a \<longrightarrow> unit_find ow b s' = unit_find ow b s)
        \<and> (unit_find ow a s' = None \<or> unit_find ow a s' = Some r) \<and> bo_addr (bp_at s' r) = a" for x s'
  proof -
    have "ow' \<noteq> ow \<or> b \<noteq> a \<Longrightarrow> unit_find ow' b s' = unit_find ow' b s" for ow' b
      using apart_unit_find [OF ok, of ow s' ow' b] o that by (cases "ow' = ow") auto
    then show ?thesis using that apart_mgr_kept [of ow s s'] o by blast
  qed
  show ?thesis
  proof (cases ow)
    case FpbOwner
    have "wp (fpb_remove K r) ?Q (\<lambda>_ _. True) s"
      by (rule wp_mono [OF hard.remove_law [OF ok c r [unfolded FpbOwner], folded FpbOwner]]) (erule one, rule TrueI)
    then show ?thesis using FpbOwner o by (simp add: provider_remove_def)
  next
    case SoftwareOwner
    have "wp (soft_remove K r) ?Q (\<lambda>_ _. True) s"
      by (rule wp_mono [OF soft.remove_law [OF ok c r [unfolded SoftwareOwner], folded SoftwareOwner]]) (erule one, rule TrueI)
    then show ?thesis using SoftwareOwner o by (simp add: provider_remove_def)
  qed (use o in simp)
qed

lemma flush_remove_wp:
  assumes ok: "units_ok s" "live_ok s" and c: "cinv (bu_core s)" and r: "map_of (bm_breakpoints s) a = Some r"
  shows "wp (flush_remove K r) (\<lambda>_ s'. cinv (bu_core s') \<and> cleared {a} s s') (\<lambda>_ _. True) s"
proof -
  obtain ow where ow: "unit_find ow a s = Some r" using live_find [OF ok(2) r] by blast
  have "cinv (bu_core (t\<lparr>bm_breakpoints := od_del a (bm_breakpoints t)\<rparr>))
      \<and> cleared {a} s (t\<lparr>bm_breakpoints := od_del a (bm_breakpoints t)\<rparr>)"
    if "cinv (bu_core t)" and t: "units_ok t" "mgr_kept s t" and u: "\<forall>ow' b. ow' \<noteq> ow \<or> b \<noteq> a \<longrightarrow> unit_find ow' b t = unit_find ow' b s"
      "unit_find ow a t = None \<or> unit_find ow a t = Some r" for t
  proof -
    let ?d = "od_del a (bm_breakpoints t)"
    have bm: "bm_breakpoints t = bm_breakpoints s" using t(2) by (simp add: mgr_kept_def)
    have find: "unit_find ow' b t = None \<or> unit_find ow' b t = unit_find ow' b s" for ow' b
      using u ow by (cases "ow' = ow \<and> b = a") auto
    have away: "unit_find ow' b t = unit_find ow' b s" if "b \<noteq> a" for ow' b using u(1) that by blast
    have "\<exists>ow'. unit_find ow' b t = Some x" if "b \<noteq> a" "map_of (bm_breakpoints s) b = Some x" for b x
      using live_find [OF ok(2) that(2)] away [OF that(1)] by simp
    then have "live_ok (t\<lparr>bm_breakpoints := ?d\<rparr>)"
      using ok(2) by (auto simp: live_ok_def bm)
    then show ?thesis
      unfolding cleared_def using that(1) t(1) away find mgr_kept_wants(1) [OF t(2)]
      by (intro conjI allI impI) (simp_all (no_asm_use) add: bm od_del_filter)
  qed
  note final = this
  show ?thesis
    unfolding flush_remove_def wp_bind
  proof (rule wp_mono [OF provider_remove_wp [OF ok(1) c ow]], elim conjE)
    fix t assume t: "units_ok t" "cinv (bu_core t)" "mgr_kept s t" "bo_addr (bp_at t r) = a"
      "\<forall>ow' b. ow' \<noteq> ow \<or> b \<noteq> a \<longrightarrow> unit_find ow' b t = unit_find ow' b s"
      "unit_find ow a t = None \<or> unit_find ow a t = Some r"
    have "a \<in> set (od_keys (bm_breakpoints t))" using t(3) r by (simp add: in_od_keys mgr_kept_def)
    then show "wp get_state (\<lambda>x. wp (if bo_addr (bp_at x r) \<notin> set (od_keys (bm_breakpoints x)) then raise KeyError
        else modify (\<lambda>s. s\<lparr>bm_breakpoints := od_del (bo_addr (bp_at s r)) (bm_breakpoints s)\<rparr>))
        (\<lambda>_ s'. cinv (bu_core s') \<and> cleared {a} s s') (\<lambda>_ _. True)) (\<lambda>_ _. True) t"
      using final [OF t(2,1,3,5,6)] t(4) by simp
  qed simp
qed

lemma removal_wp:
  assumes "units_ok s" and "live_ok s" and "cinv (bu_core s)"
    and "distinct (map fst xs)" and "\<forall>(a, r) \<in> set xs. map_of (bm_breakpoints s) a = Some r"
  shows "wp (for_each (flush_remove K) (map snd xs)) (\<lambda>_ s'. cinv (bu_core s') \<and> cleared (fst ` set xs) s s') (\<lambda>_ _. True) s"
  using assms
proof (induction xs arbitrary: s)
  case Nil
  then show ?case by (simp add: cleared_def)
next
  case (Cons p xs)
  obtain a r where p: "p = (a, r)" by (cases p)
  have r: "map_of (bm_breakpoints s) a = Some r" using Cons.prems(5) p by simp
  show ?case
    unfolding p list.map snd_conv for_each.simps wp_bind
  proof (rule wp_mono [OF flush_remove_wp [OF Cons.prems(1-3) r]], elim conjE)
    fix t assume t: "cinv (bu_core t)" "cleared {a} s t"
    have "\<forall>(b, x) \<in> set xs. map_of (bm_breakpoints t) b = Some x"
    proof (rule ballI)
      fix q assume q: "q \<in> set xs"
      then have "map_of (bm_breakpoints s) (fst q) = Some (snd q)" "fst q \<noteq> a"
        using Cons.prems(4,5) p by auto
      then show "case q of (b, x) \<Rightarrow> map_of (bm_breakpoints t) b = Some x"
        using t(2) map_of_filter_key [of "{a}" "bm_breakpoints s" "fst q"] by (simp add: cleared_def split_def)
    qed
    then have "wp (for_each (flush_remove K) (map snd xs)) (\<lambda>_ s'. cinv (bu_core s') \<and> cleared (fst ` set xs) t s') (\<lambda>_ _. True) t"
      using Cons.IH [of t] Cons.prems(4) t by (simp add: cleared_def)
    then show "wp (for_each (flush_remove K) (map snd xs)) (\<lambda>_ s'. cinv (bu_core s') \<and> cleared (fst ` set ((a, r) # xs)) s s') (\<lambda>_ _. True) t"
      by (rule wp_mono) (use cleared_trans [OF t(2)] in auto)
  qed simp
qed

lemma extended_here:
  assumes ok: "units_ok t" "live_ok s" and k: "mgr_kept s t" and new: "\<forall>ow. unit_find ow a s = None"
    and u: "\<forall>ow b. unit_find ow b t = (if b = a \<and> ow = w then Some r else unit_find ow b s)"
  shows "extended {a} s (t\<lparr>bm_breakpoints := od_set a r (bm_breakpoints t)\<rparr>)"
proof -
  have bm: "bm_breakpoints t = bm_breakpoints s" using k by (simp add: mgr_kept_def)
  have none: "map_of (bm_breakpoints s) a = None"
    using live_find [OF ok(2), of a] new by fastforce
  have "\<exists>ow. unit_find ow b t = Some x" if "map_of (od_set a r (bm_breakpoints s)) b = Some x" for b x
  proof (cases "b = a")
    case True
    then show ?thesis using that u by auto
  next
    case False
    then show ?thesis using that u live_find [OF ok(2), of b x] by auto
  qed
  then have live: "live_ok (t\<lparr>bm_breakpoints := od_set a r (bm_breakpoints t)\<rparr>)"
    using ok(2) by (auto simp: live_ok_def bm)
  show ?thesis
    unfolding extended_def
  proof (intro conjI allI impI)
    show "units_ok (t\<lparr>bm_breakpoints := od_set a r (bm_breakpoints t)\<rparr>)" using ok(1) by simp
    show "same_wants s (t\<lparr>bm_breakpoints := od_set a r (bm_breakpoints t)\<rparr>)" by (rule mgr_kept_wants(1) [OF k])
  qed (use u live in \<open>simp_all add: bm\<close>)
qed

lemma extended_none:
  assumes "units_ok t" and "live_ok s" and k: "mgr_kept s t" and u: "\<forall>ow b. unit_find ow b t = unit_find ow b s"
  shows "extended A s t"
proof -
  have bm: "bm_breakpoints t = bm_breakpoints s" using k by (simp add: mgr_kept_def)
  have "live_ok t" using assms(2) by (simp add: live_ok_def bm u)
  then show ?thesis
    unfolding extended_def using assms(1) mgr_kept_wants(2) [OF k] by (simp add: bm u)
qed

lemma flush_add_wp:
  assumes ok: "units_ok s" "live_ok s" and c: "cinv (bu_core s)" and r: "unrealized_at a r s"
    and new: "\<forall>ow. unit_find ow a s = None"
  shows "wp (flush_add K b r) (\<lambda>_ s'. cinv (bu_core s') \<and> extended {a} s s') (\<lambda>_ _. True) s"
proof -
  have addr: "bo_addr (bp_at s r) = a" using r by (simp add: unrealized_at_def)
  have refl: "extended {a} s s" by (rule extended_none) (simp_all add: ok mgr_kept_def)
  show ?thesis
  proof (cases "select_breakpoint_type K r b s")
    case (Inl e)
    then show ?thesis by (simp add: flush_add_def)
  next
    case (Inr sel)
    show ?thesis
    proof (cases sel)
      case None
      then show ?thesis using Inr refl c by (simp add: flush_add_def)
    next
      case (Some t)
      have "wp (provider_set K t a) (\<lambda>res s'. wp (case res of None \<Rightarrow> ret ()
               | Some r \<Rightarrow> modify (\<lambda>s. s\<lparr>bm_breakpoints := od_set (bo_addr (bp_at s r)) r (bm_breakpoints s)\<rparr>))
             (\<lambda>_ s'. cinv (bu_core s') \<and> extended {a} s s') (\<lambda>_ _. True) s') (\<lambda>_ _. True) s"
      proof (rule wp_mono [OF provider_set_wp [OF ok(1) c]], use new in blast, elim conjE)
        fix res s' assume s': "units_ok s'" "cinv (bu_core s')" "mgr_kept s s'"
          "\<forall>ow b. unit_find ow b s' = (if b = a \<and> ow = type_owner t then res else unit_find ow b s)"
        show "wp (case res of None \<Rightarrow> ret ()
               | Some r \<Rightarrow> modify (\<lambda>s. s\<lparr>bm_breakpoints := od_set (bo_addr (bp_at s r)) r (bm_breakpoints s)\<rparr>))
             (\<lambda>_ s'. cinv (bu_core s') \<and> extended {a} s s') (\<lambda>_ _. True) s'"
        proof (cases res)
          case None
          have "\<forall>ow b. unit_find ow b s' = unit_find ow b s" using s'(4) None new by simp
          then show ?thesis using None s'(2) extended_none [OF s'(1) ok(2) s'(3)] by simp
        next
          case (Some r')
          have "unit_find (type_owner t) a s' = Some r'" using s'(4) Some by simp
          then have "bo_addr (bp_at s' r') = a" using unit_find_object [OF s'(1)] by blast
          then show ?thesis
            using Some s'(2) extended_here [OF s'(1) ok(2) s'(3) new, of "type_owner t" r'] s'(4) by simp
        qed
      qed simp
      then have "wp (catch (provider_set K t a) (\<lambda>e. e = KeyError) (\<lambda>_. raise ValueError)) (\<lambda>res s'. wp (case res of None \<Rightarrow> ret ()
               | Some r \<Rightarrow> modify (\<lambda>s. s\<lparr>bm_breakpoints := od_set (bo_addr (bp_at s r)) r (bm_breakpoints s)\<rparr>))
             (\<lambda>_ s'. cinv (bu_core s') \<and> extended {a} s s') (\<lambda>_ _. True) s') (\<lambda>_ _. True) s"
        unfolding wp_catch by (rule wp_mono) simp_all
      then show ?thesis
        by (simp only: flush_add_def wp_get_state wp_bind wp_lift_res Inr Some addr sum.case option.case)
    qed
  qed
qed

lemma addition_wp:
  assumes "units_ok s" and "live_ok s" and "cinv (bu_core s)" and "distinct (map fst xs)"
    and "\<forall>(a, r) \<in> set xs. unrealized_at a r s \<and> (\<forall>ow. unit_find ow a s = None)"
  shows "wp (for_each (flush_add K b) (map snd xs)) (\<lambda>_ s'. cinv (bu_core s') \<and> extended (fst ` set xs) s s') (\<lambda>_ _. True) s"
  using assms
proof (induction xs arbitrary: s)
  case Nil
  have "extended {} s s" by (rule extended_none) (simp_all add: Nil.prems mgr_kept_def)
  then show ?case using Nil.prems(3) by simp
next
  case (Cons p xs)
  obtain a r where p: "p = (a, r)" by (cases p)
  have r: "unrealized_at a r s" "\<forall>ow. unit_find ow a s = None" using Cons.prems(5) p by simp_all
  show ?case
    unfolding p list.map snd_conv for_each.simps wp_bind
  proof (rule wp_mono [OF flush_add_wp [OF Cons.prems(1-3) r]], elim conjE)
    fix t assume t: "cinv (bu_core t)" "extended {a} s t"
    have "\<forall>(c, x) \<in> set xs. unrealized_at c x t \<and> (\<forall>ow. unit_find ow c t = None)"
    proof (rule ballI)
      fix q assume q: "q \<in> set xs"
      then have "unrealized_at (fst q) (snd q) s" "\<forall>ow. unit_find ow (fst q) s = None" "fst q \<noteq> a"
        using Cons.prems(4,5) p by auto
      then show "case q of (c, x) \<Rightarrow> unrealized_at c x t \<and> (\<forall>ow. unit_find ow c t = None)"
        using t(2) by (simp add: extended_def same_wants_def split_def)
    qed
    then have "wp (for_each (flush_add K b) (map snd xs)) (\<lambda>_ s'. cinv (bu_core s') \<and> extended (fst ` set xs) t s') (\<lambda>_ _. True) t"
      using Cons.IH [of t] Cons.prems(4) t by (simp add: extended_def)
    moreover have "{a} \<inter> fst ` set xs = {}" using Cons.prems(4) p by simp
    ultimately show "wp (for_each (flush_add K b) (map snd xs)) (\<lambda>_ s'. cinv (bu_core s') \<and> extended (fst ` set ((a, r) # xs)) s s') (\<lambda>_ _. True) t"
      by - (erule wp_mono, use extended_trans [OF t(2)] in auto)
  qed simp
qed

end

subsection \<open>The flush\<close>

lemma keyed_filter:
  assumes "\<forall>(a, r) \<in> set d. f r = a"
  shows "filter (\<lambda>r. f r \<notin> X) (map snd d) = map snd (filter (\<lambda>p. fst p \<notin> X) d)"
  using assms by (induction d) auto

lemma wanted_addr:
  assumes "units_ok s" and "live_ok s" and "wanted_ok s" and "map_of (bm_updated s) a = Some r"
  shows "bo_addr (bp_at s r) = a"
proof (cases "map_of (bm_breakpoints s) a")
  case None
  then show ?thesis using assms(3,4) by (auto simp: wanted_ok_def unrealized_at_def dest!: spec)
next
  case (Some r')
  then have "r' = r" using assms(3,4) by (auto simp: wanted_ok_def dest!: spec)
  then show ?thesis using live_find [OF assms(2) Some] unit_find_object [OF assms(1)] by blast
qed

lemma updated_breakpoints:
  assumes "units_ok s" and "live_ok s" and "wanted_ok s"
  shows "get_updated_breakpoints s =
    (map snd (filter (\<lambda>p. fst p \<notin> set (od_keys (bm_breakpoints s))) (bm_updated s)),
     map snd (filter (\<lambda>p. fst p \<notin> set (od_keys (bm_updated s))) (bm_breakpoints s)))"
proof -
  have "distinct (map fst (bm_updated s))" "distinct (map fst (bm_breakpoints s))"
    using assms(2,3) by (simp_all add: live_ok_def wanted_ok_def od_keys_def)
  then have u: "(a, r) \<in> set (bm_updated s) \<Longrightarrow> map_of (bm_updated s) a = Some r"
    and l: "(a, r) \<in> set (bm_breakpoints s) \<Longrightarrow> map_of (bm_breakpoints s) a = Some r" for a r by simp_all
  have "\<forall>(a, r) \<in> set (bm_updated s). bo_addr (bp_at s r) = a" using wanted_addr [OF assms u] by blast
  moreover have "bo_addr (bp_at s r) = a" if "(a, r) \<in> set (bm_breakpoints s)" for a r
    using live_find [OF assms(2) l [OF that]] unit_find_object [OF assms(1)] by blast
  then have "\<forall>(a, r) \<in> set (bm_breakpoints s). bo_addr (bp_at s r) = a" by blast
  ultimately show ?thesis by (simp only: get_updated_breakpoints_def keyed_filter)
qed

text \<open>
  What a flush achieves: the live breakpoints are wanted ones, those live before and still wanted are
  untouched, and the providers have no other, but for ones whose removal did not succeed.
\<close>

definition flushed :: "'c bp_state \<Rightarrow> 'c bp_state \<Rightarrow> bool" where
  "flushed s s' \<longleftrightarrow> units_ok s' \<and> live_ok s' \<and> wanted_ok s' \<and> bm_updated s' = bm_breakpoints s'
     \<and> set (od_keys (bm_breakpoints s')) \<subseteq> set (od_keys (bm_updated s))
     \<and> (\<forall>a. map_of (bm_breakpoints s) a \<noteq> None \<and> map_of (bm_updated s) a \<noteq> None \<longrightarrow>
          map_of (bm_breakpoints s') a = map_of (bm_breakpoints s) a)
     \<and> (\<forall>ow a. unit_find ow a s' = None \<or> unit_find ow a s' = map_of (bm_breakpoints s') a
          \<or> map_of (bm_breakpoints s) a \<noteq> None \<and> map_of (bm_updated s) a = None \<and> unit_find ow a s' = unit_find ow a s)"

lemma flushed_intro:
  assumes ok: "mgr_ok s" and t: "cleared R s t" and u: "extended A t u"
    and R: "R = set (od_keys (bm_breakpoints s)) - set (od_keys (bm_updated s))"
    and A: "A = set (od_keys (bm_updated s)) - set (od_keys (bm_breakpoints s))"
  shows "flushed s (u\<lparr>bm_updated := bm_breakpoints u\<rparr>)"
proof -
  have live: "map_of (bm_breakpoints t) a = (if a \<in> R then None else map_of (bm_breakpoints s) a)" for a
    using t by (simp add: cleared_def map_of_filter_key)
  have keep: "map_of (bm_breakpoints u) a = map_of (bm_breakpoints t) a" if "a \<notin> A" for a
    using u that by (simp add: extended_def)
  have "a \<in> set (od_keys (bm_updated s))" if "a \<in> set (od_keys (bm_breakpoints u))" for a
    using that live [of a] keep [of a] by (cases "a \<in> A") (auto simp: R A in_od_keys split: if_splits)
  moreover have "map_of (bm_breakpoints u) a = map_of (bm_breakpoints s) a"
    if "map_of (bm_breakpoints s) a \<noteq> None" "map_of (bm_updated s) a \<noteq> None" for a
    using that live [of a] keep [of a] by (simp add: R A in_od_keys)
  moreover have "unit_find ow a u = None \<or> unit_find ow a u = map_of (bm_breakpoints u) a
      \<or> map_of (bm_breakpoints s) a \<noteq> None \<and> map_of (bm_updated s) a = None \<and> unit_find ow a u = unit_find ow a s" for ow a
  proof (cases "a \<in> R")
    case True
    then have "a \<notin> A" by (simp add: R A)
    then have "unit_find ow a u = unit_find ow a t" using u by (simp add: extended_def)
    moreover have "unit_find ow a t = None \<or> unit_find ow a t = unit_find ow a s" using t by (simp add: cleared_def)
    ultimately show ?thesis using True by (auto simp: R in_od_keys)
  next
    case False
    then have 1: "unit_find ow a t = unit_find ow a s" using t by (simp add: cleared_def)
    have 2: "unit_find ow a s = None \<or> unit_find ow a s = map_of (bm_breakpoints s) a"
      using ok by (cases "unit_find ow a s") (auto simp: mgr_ok_def no_leak_def)
    have 3: "unit_find ow a u = unit_find ow a t \<or> a \<in> A \<and> unit_find ow a u = map_of (bm_breakpoints u) a"
      using u by (simp add: extended_def)
    show ?thesis
    proof (cases "unit_find ow a u = map_of (bm_breakpoints u) a \<or> unit_find ow a u = None")
      case other: False
      then have "unit_find ow a s = map_of (bm_breakpoints s) a" "unit_find ow a u = unit_find ow a s" using 1 2 3 by auto
      moreover have "a \<in> A"
      proof (rule ccontr)
        assume "a \<notin> A"
        then have "map_of (bm_breakpoints u) a = map_of (bm_breakpoints s) a" using keep [of a] live [of a] False by simp
        then show False using calculation other by simp
      qed
      then have "map_of (bm_breakpoints s) a = None" by (simp add: A in_od_keys)
      ultimately show ?thesis by simp
    qed blast
  qed
  moreover have "wanted_ok (u\<lparr>bm_updated := bm_breakpoints u\<rparr>)"
    using u by (simp add: extended_def live_ok_def wanted_ok_def)
  ultimately show ?thesis using u by (simp add: flushed_def extended_def subset_iff)
qed

lemma kept_when_notified: "mgr_ok s \<Longrightarrow> mgr_ok (s\<lparr>bm_ignore_notifications := b\<rparr>)"
  by (simp add: mgr_ok_def)

lemma flushed_ignore [simp]:
  "flushed (s\<lparr>bm_ignore_notifications := b\<rparr>) s' = flushed s s'"
  "flushed s (s'\<lparr>bm_ignore_notifications := b\<rparr>) = flushed s s'"
  by (simp_all add: flushed_def)

lemma wp_finally: "wp (finally_do m f) Q E s = wp m (\<lambda>x t. Q x (f t)) (\<lambda>e t. E e (f t)) s"
  by (auto simp: wp_def finally_do_def split: prod.splits sum.splits)

context bp_target
begin

lemma flush_body_wp:
  assumes ok: "mgr_ok s" and c: "cinv (bu_core s)"
  shows "wp (flush_body K is_step) (\<lambda>_ s'. cinv (bu_core s') \<and> flushed s s') (\<lambda>_ _. True) s"
proof -
  let ?s = "s\<lparr>bm_ignore_notifications := True\<rparr>"
  have ok': "units_ok ?s" "live_ok ?s" "wanted_ok ?s" "no_leak ?s" using ok by (simp_all add: mgr_ok_def)
  let ?gone = "filter (\<lambda>p. fst p \<notin> set (od_keys (bm_updated s))) (bm_breakpoints s)"
  let ?new = "filter (\<lambda>p. fst p \<notin> set (od_keys (bm_breakpoints s))) (bm_updated s)"
  have up: "get_updated_breakpoints ?s = (map snd ?new, map snd ?gone)"
    using updated_breakpoints [OF ok'(1-3)] by simp
  have dist: "distinct (map fst (bm_updated s))" "distinct (map fst (bm_breakpoints s))"
    using ok'(2,3) by (simp_all add: live_ok_def wanted_ok_def od_keys_def)
  have R: "fst ` set ?gone = set (od_keys (bm_breakpoints ?s)) - set (od_keys (bm_updated ?s))"
    and A: "fst ` set ?new = set (od_keys (bm_updated ?s)) - set (od_keys (bm_breakpoints ?s))"
    by (auto simp: od_keys_def)
  have gone: "\<forall>(a, r) \<in> set ?gone. map_of (bm_breakpoints ?s) a = Some r" using dist by auto
  have new: "\<forall>(a, r) \<in> set ?new. unrealized_at a r ?s \<and> (\<forall>ow. unit_find ow a ?s = None)"
  proof (rule ballI)
    fix q assume q: "q \<in> set ?new"
    then have n: "map_of (bm_breakpoints s) (fst q) = None" by (simp add: in_od_keys)
    have "map_of (bm_updated s) (fst q) = Some (snd q)" using q dist by simp
    then have "unrealized_at (fst q) (snd q) s" using ok'(3) n by (fastforce simp: wanted_ok_def)
    moreover have "unit_find ow (fst q) s = None" for ow
      using ok'(4) n by (cases "unit_find ow (fst q) s") (auto simp: no_leak_def)
    ultimately show "case q of (a, r) \<Rightarrow> unrealized_at a r ?s \<and> (\<forall>ow. unit_find ow a ?s = None)"
      by (simp add: split_def)
  qed
  have last: "wp (for_each (flush_add K b) (map snd ?new)) (\<lambda>_ u. wp (modify (\<lambda>s. s\<lparr>bm_updated := bm_breakpoints s\<rparr>))
      (\<lambda>_ s'. cinv (bu_core s') \<and> flushed s s') (\<lambda>_ _. True) u) (\<lambda>_ _. True) t"
    if t: "cinv (bu_core t)" "cleared (fst ` set ?gone) ?s t" for t b
  proof (rule wp_mono [OF addition_wp])
    show "units_ok t" "live_ok t" "cinv (bu_core t)" using t by (simp_all add: cleared_def)
    show "distinct (map fst ?new)" using dist(1) by (rule distinct_map_filter)
    show "\<forall>(a, r) \<in> set ?new. unrealized_at a r t \<and> (\<forall>ow. unit_find ow a t = None)"
    proof (rule ballI)
      fix q assume q: "q \<in> set ?new"
      have "unrealized_at (fst q) (snd q) ?s" "\<forall>ow. unit_find ow (fst q) ?s = None"
        using bspec [OF new q] by (simp_all add: split_def)
      then show "case q of (a, r) \<Rightarrow> unrealized_at a r t \<and> (\<forall>ow. unit_find ow a t = None)"
        using t(2) unfolding cleared_def same_wants_def split_def by metis
    qed
    fix u assume u: "cinv (bu_core u) \<and> extended (fst ` set ?new) t u"
    have "flushed ?s (u\<lparr>bm_updated := bm_breakpoints u\<rparr>)"
      by (rule flushed_intro [OF kept_when_notified [OF ok] t(2) _ R A]) (use u in blast)
    then show "wp (modify (\<lambda>s. s\<lparr>bm_updated := bm_breakpoints s\<rparr>)) (\<lambda>_ s'. cinv (bu_core s') \<and> flushed s s') (\<lambda>_ _. True) u"
      using u by simp
  qed simp
  have body: "wp (for_each (flush_remove K) (map snd ?gone)) (\<lambda>_ t. wp (for_each (flush_add K b) (map snd ?new))
      (\<lambda>_ u. wp (modify (\<lambda>s. s\<lparr>bm_updated := bm_breakpoints s\<rparr>)) (\<lambda>_ s'. cinv (bu_core s') \<and> flushed s s') (\<lambda>_ _. True) u)
      (\<lambda>_ _. True) t) (\<lambda>_ _. True) ?s" for b
  proof (rule wp_mono [OF removal_wp [OF ok'(1,2) _ distinct_map_filter [OF dist(2)] gone]])
    show "cinv (bu_core ?s)" using c by simp
  qed (elim conjE, erule (1) last, rule TrueI)
  show ?thesis
    using body [of "\<not> is_step \<and> length (map snd ?new) = 1"]
    by (simp only: flush_body_def wp_bind wp_modify wp_get_state up prod.case)
qed

lemma flush_wp:
  assumes "mgr_ok s" and "cinv (bu_core s)"
  shows "wp (flush K is_step) (\<lambda>_ s'. cinv (bu_core s') \<and> flushed s s' \<and> \<not> bm_ignore_notifications s')
    (\<lambda>_ s'. \<not> bm_ignore_notifications s') s"
  unfolding flush_def wp_finally by (rule wp_mono [OF flush_body_wp [OF assms]]) simp_all

end

subsection \<open>Requests\<close>

lemma new_bp_kept:
  assumes ok: "units_ok s"
  shows "units_ok (s\<lparr>bu_heap := bu_heap s @ [b]\<rparr>)" and "unit_find ow a (s\<lparr>bu_heap := bu_heap s @ [b]\<rparr>) = unit_find ow a s"
    and "unrealized_at a r s \<Longrightarrow> unrealized_at a r (s\<lparr>bu_heap := bu_heap s @ [b]\<rparr>)"
proof -
  let ?t = "s\<lparr>bu_heap := bu_heap s @ [b]\<rparr>"
  have at: "r < length (bu_heap s) \<Longrightarrow> bp_at ?t r = bp_at s r" for r by (simp add: bp_at_def nth_append)
  have ap: "apart_from ow s ?t" for ow by (simp add: apart_from_def at)
  have "fpb_ok s" "soft_ok s" using ok by (simp_all add: units_ok_def)
  then show "units_ok ?t" using apart_fpb_find(2) [OF _ ap] apart_soft_find(2) [OF _ ap] by (simp add: units_ok_def)
  show "unit_find ow a ?t = unit_find ow a s"
    using apart_unit_find [OF ok ap, of ow "if ow = FpbOwner then SoftwareOwner else FpbOwner" a] by (cases "ow = FpbOwner") simp_all
  show "unrealized_at a r s \<Longrightarrow> unrealized_at a r ?t" by (auto simp: unrealized_at_def at)
qed

lemma new_bp_mgr_ok:
  assumes ok: "mgr_ok s"
  shows "mgr_ok (s\<lparr>bu_heap := bu_heap s @ [b]\<rparr>)"
proof -
  have u: "units_ok s" using ok by (simp add: mgr_ok_def)
  have "wanted_ok (s\<lparr>bu_heap := bu_heap s @ [b]\<rparr>)"
    unfolding wanted_ok_def
  proof (intro conjI allI impI)
    show "distinct (od_keys (bm_updated (s\<lparr>bu_heap := bu_heap s @ [b]\<rparr>)))" using ok by (simp add: mgr_ok_def wanted_ok_def)
    fix a r assume "map_of (bm_updated (s\<lparr>bu_heap := bu_heap s @ [b]\<rparr>)) a = Some r"
    then have "case map_of (bm_breakpoints s) a of Some r' \<Rightarrow> r' = r | None \<Rightarrow> unrealized_at a r s"
      using ok by (simp add: mgr_ok_def wanted_ok_def)
    then show "case map_of (bm_breakpoints (s\<lparr>bu_heap := bu_heap s @ [b]\<rparr>)) a of Some r' \<Rightarrow> r' = r
        | None \<Rightarrow> unrealized_at a r (s\<lparr>bu_heap := bu_heap s @ [b]\<rparr>)"
      using new_bp_kept(3) [OF u] by (cases "map_of (bm_breakpoints s) a") simp_all
  qed
  then show ?thesis
    using ok new_bp_kept(1,2) [OF u] by (simp add: mgr_ok_def live_ok_def no_leak_def)
qed

lemma want_mgr_ok:
  assumes ok: "mgr_ok s" and r: "case map_of (bm_breakpoints s) a of Some r' \<Rightarrow> r' = r | None \<Rightarrow> unrealized_at a r s"
  shows "mgr_ok (want a r s)"
proof -
  have "wanted_ok (want a r s)"
    unfolding wanted_ok_def
  proof (intro conjI allI impI)
    show "distinct (od_keys (bm_updated (want a r s)))" using ok by (simp add: want_def mgr_ok_def wanted_ok_def)
    fix b x assume x: "map_of (bm_updated (want a r s)) b = Some x"
    have "case map_of (bm_breakpoints s) b of Some r' \<Rightarrow> r' = x | None \<Rightarrow> unrealized_at b x s"
    proof (cases "b = a")
      case True
      then show ?thesis using x r by (simp add: want_def cong: option.case_cong)
    next
      case False
      then show ?thesis using x ok by (simp add: want_def mgr_ok_def wanted_ok_def)
    qed
    then show "case map_of (bm_breakpoints (want a r s)) b of Some r' \<Rightarrow> r' = x | None \<Rightarrow> unrealized_at b x (want a r s)"
      by (cases "map_of (bm_breakpoints s) b") (simp_all add: want_def)
  qed
  then show ?thesis using ok by (simp add: mgr_ok_def want_def)
qed

lemma remove_mgr_ok: "mgr_ok s \<Longrightarrow> mgr_ok (s\<lparr>bm_updated := od_del a (bm_updated s)\<rparr>)"
  by (auto simp: mgr_ok_def wanted_ok_def cong: option.case_cong split: if_splits)

text \<open>What a request to set a breakpoint does, by its answer.\<close>

lemma set_breakpoint_wp:
  assumes ok: "mgr_ok s"
  shows "wp (set_breakpoint K addr t) (\<lambda>res s'. mgr_ok s' \<and> bm_breakpoints s' = bm_breakpoints s \<and> bu_core s' = bu_core s
        \<and> (\<forall>b. b \<noteq> addr AND NOT 1 \<longrightarrow> find_breakpoint b s' = find_breakpoint b s)
        \<and> (find_breakpoint (addr AND NOT 1) s' \<noteq> None \<longleftrightarrow> res))
      (\<lambda>_ s'. mgr_ok s' \<and> bm_breakpoints s' = bm_breakpoints s \<and> bm_updated s' = bm_updated s \<and> bu_core s' = bu_core s) s"
proof -
  define a where "a = addr AND NOT 1"
  let ?b = "UnrealizedBreakpoint\<lparr>bo_type := t, bo_addr := a\<rparr>"
  let ?t = "s\<lparr>bu_heap := bu_heap s @ [?b]\<rparr>"
  have t: "mgr_ok ?t" by (rule new_bp_mgr_ok [OF ok])
  have here: "unrealized_at a (length (bu_heap s)) ?t"
    by (simp add: unrealized_at_def bp_at_def UnrealizedBreakpoint_def Breakpoint_def)
  note defs = set_breakpoint_def Let_def a_def [symmetric]
  show ?thesis
  proof (cases "map_of (bm_updated s) a")
    case (Some r)
    then show ?thesis unfolding defs using ok by (simp add: find_breakpoint_def)
  next
    case none: None
    show ?thesis
    proof (cases "map_of (bm_breakpoints s) a")
      case (Some r)
      then have "mgr_ok (want a r s)" by (intro want_mgr_ok ok) simp
      then show ?thesis unfolding defs using none Some by (simp add: find_breakpoint_def want_def)
    next
      case None
      then have "mgr_ok (want a (length (bu_heap s)) ?t)" by (intro want_mgr_ok t) (simp add: here)
      then show ?thesis
        unfolding defs using none None t
        by (cases "check_added_breakpoint K (length (bu_heap s)) ?t")
          (simp_all add: find_breakpoint_def want_def wp_case bind_def new_bp_def split: if_splits)
    qed
  qed
qed

subsection \<open>A manager to run\<close>

definition demo_manager :: "sim_bp_core bp_state" where
  "demo_manager = (BreakpointManager demo_units)\<lparr>bm_providers := [SW, HW], bm_fpb := True\<rparr>"

lemma demo_manager_ok: "mgr_ok demo_manager" "sim_bp_inv (bu_core demo_manager)"
proof -
  have e: "bu_heap demo_manager = bu_heap demo_units" "bu_fpb demo_manager = bu_fpb demo_units"
    "bu_soft demo_manager = bu_soft demo_units" "bu_core demo_manager = bu_core demo_units"
    by (simp_all add: demo_manager_def BreakpointManager_def bp_units.defs)
  have at: "bp_at demo_manager = bp_at demo_units" by (rule ext) (simp add: bp_at_def e)
  have "units_ok demo_manager"
    using demo_units_ok(1) by (simp add: units_ok_def fpb_ok_def soft_ok_def Let_def e at)
  moreover have "unit_find ow a demo_manager = None" for ow a
  proof -
    have "fpb_find a demo_manager = None" by (simp add: fpb_find_def e at) (simp add: demo_units_def bp_at_def HardwareBreakpoint_def Breakpoint_def)
    moreover have "soft_find a demo_manager = None" by (simp add: soft_find_def e) (simp add: demo_units_def)
    ultimately show ?thesis by (cases ow) (simp_all add: unit_find_def)
  qed
  ultimately show "mgr_ok demo_manager"
    by (simp add: mgr_ok_def live_ok_def wanted_ok_def no_leak_def) (simp add: demo_manager_def BreakpointManager_def bp_units.defs od_keys_def)
  show "sim_bp_inv (bu_core demo_manager)" using demo_units_ok(2) by (simp add: e)
qed

text \<open>Runs of several calls, whatever they return.\<close>

definition after :: "('s, 'a) exec list \<Rightarrow> 's \<Rightarrow> 's" where
  "after ms s = foldl (\<lambda>s m. snd (m s)) s ms"

definition req :: "int \<Rightarrow> (sim_bp_core bp_state, unit) exec" where
  "req a = bind (set_breakpoint sim_bp a AUTO) (\<lambda>_. flush sim_bp False)"

definition unreq :: "int \<Rightarrow> (sim_bp_core bp_state, unit) exec" where
  "unreq a = bind (remove_breakpoint a) (\<lambda>_. flush sim_bp False)"

text \<open>
  All breakpoints are removed before a reset, but the wanted ones keep their comparator objects.  The
  next flush lets the FPB reuse those objects in its own order: the breakpoint at \<open>0x2000\<close> that was
  wanted and live before the reset is gone after it, and both comparators hold \<open>0x1000\<close>.
\<close>

definition reset_handlers :: "(sim_bp_core bp_state, unit) exec" where
  "reset_handlers = bind (pre_reset_catch_handler sim_bp True) (\<lambda>_. post_reset_catch_handler True)"

definition before_reset :: "sim_bp_core bp_state" where
  "before_reset = demo_manager\<lparr>
     bu_heap := [(HardwareBreakpoint 0xE0002008)\<lparr>bo_enabled := True, bo_addr := 0x2000\<rparr>,
       (HardwareBreakpoint 0xE000200C)\<lparr>bo_enabled := True, bo_addr := 0x1000\<rparr>],
     bu_fpb := (bu_fpb demo_units)\<lparr>fp_num_hw_breakpoint_used := 2, fp_enabled := True\<rparr>,
     bm_breakpoints := [(0x1000, 1), (0x2000, 0)], bm_updated := [(0x1000, 1), (0x2000, 0)]\<rparr>"

lemma before_reset_ok: "mgr_ok before_reset"
proof -
  have e: "fp_hw_breakpoints (bu_fpb before_reset) = [0, Suc 0]" "bu_soft before_reset = []" "length (bu_heap before_reset) = 2"
    "fp_num_hw_breakpoint_used (bu_fpb before_reset) = 2"
    "bm_breakpoints before_reset = [(0x1000, Suc 0), (0x2000, 0)]" "bm_updated before_reset = [(0x1000, Suc 0), (0x2000, 0)]"
    by (simp_all add: before_reset_def demo_manager_def BreakpointManager_def bp_units.defs demo_units_def)
  have at: "bp_at before_reset 0 = (HardwareBreakpoint 0xE0002008)\<lparr>bo_enabled := True, bo_addr := 0x2000\<rparr>"
    "bp_at before_reset (Suc 0) = (HardwareBreakpoint 0xE000200C)\<lparr>bo_enabled := True, bo_addr := 0x1000\<rparr>"
    by (simp_all add: before_reset_def bp_at_def)
  have f: "unit_find ow a before_reset =
      (if ow = FpbOwner \<and> a = 0x2000 then Some 0 else if ow = FpbOwner \<and> a = 0x1000 then Some (Suc 0) else None)" for ow a
    by (cases ow) (auto simp: unit_find_def fpb_find_def soft_find_def e at)
  show ?thesis
    by (auto simp: mgr_ok_def live_ok_def wanted_ok_def no_leak_def f e od_keys_def units_ok_def fpb_ok_def soft_ok_def Let_def at
        HardwareBreakpoint_def Breakpoint_def split: if_splits)
qed

lemma reset_loses_breakpoint:
  "(let t = after [reset_handlers, flush sim_bp False] before_reset
    in od_keys (bm_breakpoints t) = [0x1000] \<and> map (\<lambda>r. bo_addr (bp_at t r)) [0, 1] = [0x1000, 0x1000])"
  by code_simp

text \<open>
  A software breakpoint whose removal fails stays with its provider while the manager forgets it; set
  again, its original instruction is read from the breakpoint instruction still there, and is lost.
\<close>

definition fails :: "bool \<Rightarrow> (sim_bp_core bp_state, unit) exec" where
  "fails b = modify (\<lambda>s. s\<lparr>bu_core := (bu_core s)\<lparr>sb_write_fails := b\<rparr>\<rparr>)"

lemma failed_removal_loses_instruction:
  "(let s = after [req 0x20000010, fails True, unreq 0x20000010, fails False, req 0x20000010, unreq 0x20000010] demo_manager
    in od_keys (bm_breakpoints s) = [] \<and> bu_soft s = [] \<and> sb_mem (bu_core s) 0x20000011 = 0xbe)"
  by code_simp

text \<open>
  The filter of a block of words steps the address by one, not by four: a breakpoint in the second
  word is shown to the debugger.
\<close>

lemma word_filter_shows_breakpoint:
  "(let s = after [req 0x20000014] demo_manager
    in filter_memory_aligned_32 0x20000010 [0x11111111, 0x1111be00] s = [0x11111111, 0x1111be00])"
  by code_simp

subsection \<open>Properties\<close>



text \<open>
  C19. Requests keep the manager consistent and touch neither the target nor the live breakpoints:
  setting a breakpoint answers True exactly when the address, without its Thumb bit, is then wanted,
  and removing one makes exactly that address unwanted.
\<close>

theorem breakpoint_requests_correct:
  assumes "mgr_ok s"
  shows "wp (set_breakpoint K addr t) (\<lambda>res s'. mgr_ok s' \<and> bm_breakpoints s' = bm_breakpoints s \<and> bu_core s' = bu_core s
        \<and> (\<forall>b. b \<noteq> addr AND NOT 1 \<longrightarrow> find_breakpoint b s' = find_breakpoint b s)
        \<and> (find_breakpoint (addr AND NOT 1) s' \<noteq> None \<longleftrightarrow> res)) (\<lambda>_ s'. mgr_ok s' \<and> bm_updated s' = bm_updated s) s
    \<and> wp (remove_breakpoint addr) (\<lambda>_ s'. mgr_ok s' \<and> bm_breakpoints s' = bm_breakpoints s \<and> bu_core s' = bu_core s
        \<and> (\<forall>b. find_breakpoint b s' = (if b = addr AND NOT 1 then None else find_breakpoint b s))) (\<lambda>_ _. False) s"
proof
  show "wp (set_breakpoint K addr t) (\<lambda>res s'. mgr_ok s' \<and> bm_breakpoints s' = bm_breakpoints s \<and> bu_core s' = bu_core s
        \<and> (\<forall>b. b \<noteq> addr AND NOT 1 \<longrightarrow> find_breakpoint b s' = find_breakpoint b s)
        \<and> (find_breakpoint (addr AND NOT 1) s' \<noteq> None \<longleftrightarrow> res)) (\<lambda>_ s'. mgr_ok s' \<and> bm_updated s' = bm_updated s) s"
    by (rule wp_mono [OF set_breakpoint_wp [OF assms]]) blast+
  show "wp (remove_breakpoint addr) (\<lambda>_ s'. mgr_ok s' \<and> bm_breakpoints s' = bm_breakpoints s \<and> bu_core s' = bu_core s
        \<and> (\<forall>b. find_breakpoint b s' = (if b = addr AND NOT 1 then None else find_breakpoint b s))) (\<lambda>_ _. False) s"
    using remove_mgr_ok [OF assms] by (simp add: remove_breakpoint_def find_breakpoint_def)
qed

lemma breakpoint_requests_correct_witness:
  "wp (remove_breakpoint 0x1001) (\<lambda>_ s'. mgr_ok s' \<and> bm_breakpoints s' = bm_breakpoints before_reset \<and> bu_core s' = bu_core before_reset
        \<and> (\<forall>b. find_breakpoint b s' = (if b = 0x1001 AND NOT 1 then None else find_breakpoint b before_reset))) (\<lambda>_ _. False) before_reset"
  by (rule breakpoint_requests_correct [OF before_reset_ok, THEN conjunct2])

end
