(* ===== verification/Notification.thy ===== *)
theory Notification
  imports Prelude
begin

text \<open>
  Notifications, \<open>pyocd/utility/notification.py\<close>: callbacks subscribed to events, from any
  source or from one.  Callbacks are values of any type; what a callback does when it is called is a
  parameter of \<open>notify\<close>.
\<close>

subsection \<open>The notifier\<close>

record ('e, 's, 'd) notification =
  note_event :: 'e
  note_source :: 's
  note_data :: 'd

text \<open>\<open>_subscribers\<close>: for each event the subscribers for any source and those for each source.\<close>

type_synonym ('e, 's, 'c) notifier = "('e \<times> 'c list \<times> ('s \<times> 'c list) list) list"

definition list_at :: "'k \<Rightarrow> ('k \<times> 'c list) list \<Rightarrow> 'c list" where
  "list_at k d = (case map_of d k of None \<Rightarrow> [] | Some l \<Rightarrow> l)"

definition event_info :: "('e, 's, 'c) notifier \<Rightarrow> 'e \<Rightarrow> 'c list \<times> ('s \<times> 'c list) list" where
  "event_info n ev = (case map_of n ev of None \<Rightarrow> ([], []) | Some i \<Rightarrow> i)"

definition subscribe_one :: "'c \<Rightarrow> 's option \<Rightarrow> 'e \<Rightarrow> ('e, 's, 'c) notifier \<Rightarrow> ('e, 's, 'c) notifier" where
  "subscribe_one cb source ev n =
     (case event_info n ev of (anys, srcs) \<Rightarrow>
        od_set ev (case source of
            None \<Rightarrow> (anys @ [cb], srcs)
          | Some src \<Rightarrow> (anys, od_set src (list_at src srcs @ [cb]) srcs)) n)"

definition subscribe :: "'c \<Rightarrow> 'e list \<Rightarrow> 's option \<Rightarrow> ('e, 's, 'c) notifier \<Rightarrow> ('e, 's, 'c) notifier" where
  "subscribe cb events source n = foldl (\<lambda>n ev. subscribe_one cb source ev n) n events"

text \<open>\<open>events\<close> is None for all of them.\<close>

definition unsubscribe :: "'c \<Rightarrow> 'e list option \<Rightarrow> ('e, 's, 'c) notifier \<Rightarrow> ('e, 's, 'c) notifier" where
  "unsubscribe cb events n =
     map (\<lambda>(ev, anys, srcs).
       if events \<noteq> None \<and> ev \<notin> set (the events) then (ev, anys, srcs)
       else (ev, remove1 cb anys, map (\<lambda>(src, l). (src, remove1 cb l)) srcs)) n"

definition subscribers :: "('e, 's, 'c) notifier \<Rightarrow> 'e \<Rightarrow> 's option \<Rightarrow> 'c list" where
  "subscribers n ev source =
     (case map_of n ev of
        None \<Rightarrow> []
      | Some (anys, srcs) \<Rightarrow> anys @ (case source of None \<Rightarrow> [] | Some src \<Rightarrow> list_at src srcs))"

text \<open>The list is made before the first callback runs; a callback that raises ends the delivery.\<close>

definition notify :: "('c \<Rightarrow> ('e, 's, 'd) notification \<Rightarrow> ('t, unit) exec) \<Rightarrow> ('e, 's, 'c) notifier \<Rightarrow> 's \<Rightarrow>
    'e \<Rightarrow> 's option \<Rightarrow> 'd \<Rightarrow> ('t, unit) exec" where
  "notify call n self ev source d =
     (let note = \<lparr>note_event = ev, note_source = (case source of None \<Rightarrow> self | Some src \<Rightarrow> src), note_data = d\<rparr>
      in for_each (\<lambda>cb. call cb note) (subscribers n ev source))"

subsection \<open>Subscriptions as a list\<close>

text \<open>
  The specification: the subscriptions in the order they were made, each for an event and a source or
  any source.  Unsubscribing drops the callback's first subscription of each event and source.
\<close>

type_synonym ('e, 's, 'c) subscription = "'c \<times> 'e \<times> 's option"

definition spec_subscribe :: "'c \<Rightarrow> 'e list \<Rightarrow> 's option \<Rightarrow> ('e, 's, 'c) subscription list \<Rightarrow> ('e, 's, 'c) subscription list" where
  "spec_subscribe cb events source subs = subs @ map (\<lambda>ev. (cb, ev, source)) events"

fun spec_unsubscribe :: "'c \<Rightarrow> ('e \<Rightarrow> bool) \<Rightarrow> ('e \<times> 's option) list \<Rightarrow> ('e, 's, 'c) subscription list \<Rightarrow> ('e, 's, 'c) subscription list" where
  "spec_unsubscribe cb sel seen [] = []"
| "spec_unsubscribe cb sel seen ((c, g) # subs) =
     (if c = cb \<and> sel (fst g) \<and> g \<notin> set seen then spec_unsubscribe cb sel (g # seen) subs
      else (c, g) # spec_unsubscribe cb sel seen subs)"

definition group_of :: "'e \<times> 's option \<Rightarrow> ('e, 's, 'c) subscription list \<Rightarrow> 'c list" where
  "group_of g subs = map fst (filter (\<lambda>p. snd p = g) subs)"

definition spec_subscribers :: "('e, 's, 'c) subscription list \<Rightarrow> 'e \<Rightarrow> 's option \<Rightarrow> 'c list" where
  "spec_subscribers subs ev source =
     group_of (ev, None) subs @ (case source of None \<Rightarrow> [] | Some src \<Rightarrow> group_of (ev, Some src) subs)"

definition sub_group :: "('e, 's, 'c) notifier \<Rightarrow> 'e \<times> 's option \<Rightarrow> 'c list" where
  "sub_group n g = (case snd g of None \<Rightarrow> fst (event_info n (fst g)) | Some src \<Rightarrow> list_at src (snd (event_info n (fst g))))"

definition implements :: "('e, 's, 'c) notifier \<Rightarrow> ('e, 's, 'c) subscription list \<Rightarrow> bool" where
  "implements n subs \<longleftrightarrow> (\<forall>g. sub_group n g = group_of g subs)"

lemma subscribers_implements:
  assumes "implements n subs"
  shows "subscribers n ev source = spec_subscribers subs ev source"
proof -
  have "subscribers n ev source = sub_group n (ev, None) @ (case source of None \<Rightarrow> [] | Some src \<Rightarrow> sub_group n (ev, Some src))"
    by (simp add: subscribers_def sub_group_def event_info_def list_at_def split: option.split)
  then show ?thesis using assms by (simp add: implements_def spec_subscribers_def cong: option.case_cong)
qed

lemma list_at_Nil: "list_at k [] = []"
  by (simp add: list_at_def)

lemma list_at_od_set: "list_at k (od_set k' l d) = (if k = k' then l else list_at k d)"
  by (simp add: list_at_def)

lemma event_info_od_set: "event_info (od_set ev i n) e = (if e = ev then i else event_info n e)"
  by (simp add: event_info_def)

lemma sub_group_subscribe: "sub_group (subscribe_one cb source ev n) g = sub_group n g @ (if g = (ev, source) then [cb] else [])"
proof -
  obtain anys srcs where i: "event_info n ev = (anys, srcs)" by fastforce
  have e: "event_info (subscribe_one cb source ev n) e =
      (if e = ev then (case source of None \<Rightarrow> (anys @ [cb], srcs) | Some src \<Rightarrow> (anys, od_set src (list_at src srcs @ [cb]) srcs))
       else event_info n e)" for e
    by (simp add: subscribe_one_def i event_info_od_set)
  show ?thesis
    unfolding sub_group_def e by (cases g; cases "snd g"; cases source) (auto simp: i list_at_od_set)
qed

lemma implements_subscribe:
  "implements n subs \<Longrightarrow> implements (subscribe cb evs source n) (spec_subscribe cb evs source subs)"
proof (induction evs arbitrary: n subs)
  case Nil
  then show ?case by (simp add: subscribe_def spec_subscribe_def)
next
  case (Cons ev evs)
  have "implements (subscribe_one cb source ev n) (subs @ [(cb, ev, source)])"
    using Cons.prems by (auto simp: implements_def sub_group_subscribe group_of_def)
  from Cons.IH [OF this] show ?case by (simp add: subscribe_def spec_subscribe_def)
qed

lemma group_spec_unsubscribe:
  "group_of g (spec_unsubscribe cb sel seen subs) =
     (if sel (fst g) \<and> g \<notin> set seen then remove1 cb (group_of g subs) else group_of g subs)"
  by (induction cb sel seen subs rule: spec_unsubscribe.induct) (auto simp: group_of_def)

lemma map_of_map_entry: "map_of (map (\<lambda>(k, v). (k, f k v)) d) k = map_option (f k) (map_of d k)"
  by (induction d) auto

lemma sub_group_unsubscribe:
  "sub_group (unsubscribe cb events n) g =
     (if events = None \<or> fst g \<in> set (the events) then remove1 cb (sub_group n g) else sub_group n g)"
proof -
  have u: "unsubscribe cb events n = map (\<lambda>(ev, i). (ev, if events \<noteq> None \<and> ev \<notin> set (the events) then i
      else (remove1 cb (fst i), map (\<lambda>(src, l). (src, remove1 cb l)) (snd i)))) n"
    unfolding unsubscribe_def by (rule map_cong) auto
  have l: "list_at src (map (\<lambda>(src, l). (src, remove1 cb l)) d) = remove1 cb (list_at src d)" for src d
    by (simp add: list_at_def map_of_map_entry split: option.split)
  show ?thesis
    unfolding u sub_group_def event_info_def map_of_map_entry
    by (cases "map_of n (fst g)") (auto simp: l list_at_Nil split: option.split)
qed

lemma implements_unsubscribe:
  "implements n subs \<Longrightarrow> implements (unsubscribe cb events n)
     (spec_unsubscribe cb (\<lambda>ev. events = None \<or> ev \<in> set (the events)) [] subs)"
  by (auto simp: implements_def sub_group_unsubscribe group_spec_unsubscribe)

text \<open>A history of calls on one notifier.\<close>

datatype ('e, 's, 'c) sub_call = Subscribe 'c "'e list" "'s option" | Unsubscribe 'c "'e list option"

fun run_calls :: "('e, 's, 'c) sub_call list \<Rightarrow> ('e, 's, 'c) notifier \<Rightarrow> ('e, 's, 'c) notifier" where
  "run_calls [] n = n"
| "run_calls (Subscribe cb evs source # cs) n = run_calls cs (subscribe cb evs source n)"
| "run_calls (Unsubscribe cb evs # cs) n = run_calls cs (unsubscribe cb evs n)"

fun spec_calls :: "('e, 's, 'c) sub_call list \<Rightarrow> ('e, 's, 'c) subscription list \<Rightarrow> ('e, 's, 'c) subscription list" where
  "spec_calls [] subs = subs"
| "spec_calls (Subscribe cb evs source # cs) subs = spec_calls cs (spec_subscribe cb evs source subs)"
| "spec_calls (Unsubscribe cb evs # cs) subs =
     spec_calls cs (spec_unsubscribe cb (\<lambda>ev. evs = None \<or> ev \<in> set (the evs)) [] subs)"

lemma implements_calls: "implements n subs \<Longrightarrow> implements (run_calls cs n) (spec_calls cs subs)"
  by (induction cs n arbitrary: subs rule: run_calls.induct) (simp_all add: implements_subscribe implements_unsubscribe)

lemma implements_empty: "implements [] []"
  by (simp add: implements_def sub_group_def group_of_def event_info_def list_at_def split: option.split)

text \<open>
  Unsubscribing a callback that is subscribed twice leaves it subscribed, and a notification sent
  without a source does not reach those who subscribed to the notifier as the source.
\<close>

lemma twice_subscribed_stays:
  "subscribers (unsubscribe c None (subscribe c [e] None (subscribe c [e] None []))) e None = [c]"
  by (simp add: subscribers_def unsubscribe_def subscribe_def subscribe_one_def event_info_def)

lemma own_source_not_notified:
  "notify call (subscribe c [e] (Some self) []) self e None d = ret ()"
  "notify call (subscribe c [e] (Some self) []) self e (Some self) d
     = bind (call c \<lparr>note_event = e, note_source = self, note_data = d\<rparr>) (\<lambda>_. ret ())"
  by (simp_all add: notify_def subscribers_def subscribe_def subscribe_one_def event_info_def list_at_def)


end
