(* ===== verification/Options.thy ===== *)
theory Options
  imports Notification Complex_Main
begin

text \<open>
  Session options: the table of \<open>pyocd/core/options.py\<close> and the layers of
  \<open>pyocd/core/options_manager.py\<close>, which notifies changes of an option's effective value.
\<close>

subsection \<open>The table\<close>

datatype opt_type = TBool | TInt | TFloat | TStr | TDict | TList | TTuple

text \<open>Option values; a float is given by the number its literal denotes.\<close>

datatype opt_value =
    VNone
  | VBool bool
  | VInt int
  | VFloat rat
  | VStr string
  | VList "opt_value list"
  | VTuple "opt_value list"
  | VDict "(string \<times> opt_value) list"

datatype option_info = OptionInfo (oi_name: string) (oi_type: "opt_type list") (oi_default: opt_value)

definition common_options :: "option_info list" where
  "common_options = [
    OptionInfo ''adi.v5.max_invalid_ap_count'' [TInt] (VInt 3),
    OptionInfo ''allow_no_cores'' [TBool] (VBool False),
    OptionInfo ''auto_unlock'' [TBool] (VBool True),
    OptionInfo ''cache.enable_memory'' [TBool] (VBool True),
    OptionInfo ''cache.enable_register'' [TBool] (VBool True),
    OptionInfo ''cache.read_code_from_elf'' [TBool] (VBool True),
    OptionInfo ''chip_erase'' [TStr] (VStr ''sector''),
    OptionInfo ''cmsis_dap.prefer_v1'' [TBool] (VBool False),
    OptionInfo ''commander.history_length'' [TInt] (VInt 1000),
    OptionInfo ''config_file'' [TStr] (VNone),
    OptionInfo ''connect_mode'' [TStr] (VStr ''halt''),
    OptionInfo ''cpu.step.instruction.timeout'' [TFloat] (VFloat (0)),
    OptionInfo ''dap_protocol'' [TStr] (VStr ''default''),
    OptionInfo ''dap_swj_enable'' [TBool] (VBool True),
    OptionInfo ''dap_swj_use_dormant'' [TBool] (VBool False),
    OptionInfo ''debug.log_flm_info'' [TBool] (VBool False),
    OptionInfo ''debug.traceback'' [TBool] (VBool False),
    OptionInfo ''enable_multicore_debug'' [TBool] (VBool False),
    OptionInfo ''fast_program'' [TBool] (VBool False),
    OptionInfo ''flash.timeout.init'' [TFloat] (VFloat (5)),
    OptionInfo ''flash.timeout.analyzer'' [TFloat] (VFloat (30)),
    OptionInfo ''flash.timeout.erase_all'' [TFloat] (VFloat (240)),
    OptionInfo ''flash.timeout.erase_sector'' [TFloat] (VFloat (10)),
    OptionInfo ''flash.timeout.program'' [TFloat] (VFloat (10)),
    OptionInfo ''frequency'' [TInt] (VInt 1000000),
    OptionInfo ''hide_programming_progress'' [TBool] (VBool False),
    OptionInfo ''keep_unwritten'' [TBool] (VBool False),
    OptionInfo ''load.pre_reset'' [TStr] (VNone),
    OptionInfo ''load.post_reset'' [TStr] (VNone),
    OptionInfo ''logging'' [TStr, TDict] (VNone),
    OptionInfo ''no_config'' [TBool] (VBool False),
    OptionInfo ''pack'' [TStr, TList] (VNone),
    OptionInfo ''pack.debug_sequences.debugvars'' [TStr] (VNone),
    OptionInfo ''pack.debug_sequences.disabled_sequences'' [TStr, TList] (VNone),
    OptionInfo ''pack.debug_sequences.enable'' [TBool] (VBool True),
    OptionInfo ''primary_core'' [TInt] (VInt 0),
    OptionInfo ''probeserver.port'' [TInt] (VInt 5555),
    OptionInfo ''project_dir'' [TStr] (VNone),
    OptionInfo ''reset_type'' [TStr] (VStr ''default''),
    OptionInfo ''reset.hold_time'' [TFloat] (VFloat (1/10)),
    OptionInfo ''reset.post_delay'' [TFloat] (VFloat (1/10)),
    OptionInfo ''reset.halt_timeout'' [TFloat] (VFloat (2)),
    OptionInfo ''reset.dap_recover.timeout'' [TFloat] (VFloat (2)),
    OptionInfo ''reset.core_recover.timeout'' [TFloat] (VFloat (2)),
    OptionInfo ''resume_on_disconnect'' [TBool] (VBool True),
    OptionInfo ''scan_all_aps'' [TBool] (VBool False),
    OptionInfo ''serve_local_only'' [TBool] (VBool True),
    OptionInfo ''smart_flash'' [TBool] (VBool True),
    OptionInfo ''target_override'' [TStr] (VNone),
    OptionInfo ''test_binary'' [TStr] (VNone),
    OptionInfo ''user_script'' [TStr] (VNone),
    OptionInfo ''warning.cortex_m_default'' [TBool] (VBool True)]"

definition server_options :: "option_info list" where
  "server_options = [
    OptionInfo ''enable_semihosting'' [TBool] (VBool False),
    OptionInfo ''enable_swv'' [TBool] (VBool False),
    OptionInfo ''debug.status_fault_retry_timeout'' [TFloat] (VFloat (1)),
    OptionInfo ''gdbserver_port'' [TInt, TTuple] (VInt 3333),
    OptionInfo ''persist'' [TBool] (VBool False),
    OptionInfo ''report_core_number'' [TBool] (VBool False),
    OptionInfo ''rtos.enable'' [TBool] (VBool True),
    OptionInfo ''rtos.name'' [TStr] (VNone),
    OptionInfo ''semihost_console_type'' [TStr] (VStr ''telnet''),
    OptionInfo ''semihost_use_syscalls'' [TBool] (VBool False),
    OptionInfo ''semihost.commandline'' [TStr] (VStr ''''),
    OptionInfo ''step_into_interrupt'' [TBool] (VBool False),
    OptionInfo ''swv_clock'' [TInt] (VInt 1000000),
    OptionInfo ''swv_system_clock'' [TInt] (VNone),
    OptionInfo ''swv_raw_enable'' [TBool] (VBool True),
    OptionInfo ''swv_raw_port'' [TInt] (VInt 3443),
    OptionInfo ''telnet_port'' [TInt, TTuple] (VInt 4444),
    OptionInfo ''vector_catch'' [TStr] (VStr ''h''),
    OptionInfo ''register_fields'' [TBool] (VBool True),
    OptionInfo ''soft_bkpt_as_hard'' [TBool] (VBool False),
    OptionInfo ''telnet_mode'' [TStr, TTuple] (VNone),
    OptionInfo ''telnet_file_in'' [TStr, TTuple] (VNone),
    OptionInfo ''telnet_file_out'' [TStr, TTuple] (VNone),
    OptionInfo ''rtt'' [TTuple] (VNone),
    OptionInfo ''systemview_file'' [TStr] (VNone),
    OptionInfo ''systemview_auto_start'' [TBool] (VNone),
    OptionInfo ''systemview_auto_stop'' [TBool] (VNone)]"

definition BUILTIN_OPTIONS :: "option_info list" where
  "BUILTIN_OPTIONS = common_options @ server_options"

definition add_option_set :: "option_info list \<Rightarrow> (string \<times> option_info) list \<Rightarrow> (string \<times> option_info) list" where
  "add_option_set options info = od_update info (map (\<lambda>oi. (oi_name oi, oi)) options)"

definition OPTIONS_INFO :: "(string \<times> option_info) list" where
  "OPTIONS_INFO = add_option_set BUILTIN_OPTIONS []"

text \<open>\<open>isinstance\<close>; a bool is an int.\<close>

fun has_type :: "opt_value \<Rightarrow> opt_type \<Rightarrow> bool" where
  "has_type (VBool _) t = (t = TBool \<or> t = TInt)"
| "has_type (VInt _) t = (t = TInt)"
| "has_type (VFloat _) t = (t = TFloat)"
| "has_type (VStr _) t = (t = TStr)"
| "has_type (VList _) t = (t = TList)"
| "has_type (VTuple _) t = (t = TTuple)"
| "has_type (VDict _) t = (t = TDict)"
| "has_type VNone t = False"

text \<open>\<open>name.replace("__", ".").lower()\<close>.\<close>

fun dots :: "string \<Rightarrow> string" where
  "dots (a # b # s) = (if a = CHR ''_'' \<and> b = CHR ''_'' then CHR ''.'' # dots s else a # dots (b # s))"
| "dots s = s"

definition option_key :: "string \<Rightarrow> string" where
  "option_key nm = lower (dots nm)"

definition option_ok :: "option_info \<Rightarrow> bool" where
  "option_ok oi \<longleftrightarrow> (oi_default oi = VNone \<or> list_ex (has_type (oi_default oi)) (oi_type oi)) \<and> option_key (oi_name oi) = oi_name oi"

lemma options_ok: "list_all option_ok BUILTIN_OPTIONS"
  by code_simp

lemma options_distinct: "distinct (map oi_name BUILTIN_OPTIONS)"
  by code_simp


text \<open>Python's \<open>==\<close>: numbers by value, containers by their elements, dicts in any order.\<close>

fun number_of :: "opt_value \<Rightarrow> rat option" where
  "number_of (VBool b) = Some (if b then 1 else 0)"
| "number_of (VInt i) = Some (of_int i)"
| "number_of (VFloat q) = Some q"
| "number_of _ = None"

function (sequential) py_eq :: "opt_value \<Rightarrow> opt_value \<Rightarrow> bool" where
  "py_eq (VList xs) (VList ys) = (length xs = length ys \<and> (\<forall>p \<in> set (zip xs ys). py_eq (fst p) (snd p)))"
| "py_eq (VTuple xs) (VTuple ys) = (length xs = length ys \<and> (\<forall>p \<in> set (zip xs ys). py_eq (fst p) (snd p)))"
| "py_eq (VDict d) (VDict e) = (length d = length e
     \<and> (\<forall>p \<in> set d. case map_of e (fst p) of None \<Rightarrow> False | Some w \<Rightarrow> py_eq (snd p) w))"
| "py_eq a b = (case (number_of a, number_of b) of (Some x, Some y) \<Rightarrow> x = y | _ \<Rightarrow> a = b)"
  by pat_completeness auto

lemma size_zip_fst: "p \<in> set (zip xs ys) \<Longrightarrow> size (fst p) < Suc (size_list size xs)"
  by (induction xs ys rule: list_induct2') auto

lemma size_dict_snd: "p \<in> set d \<Longrightarrow> size (snd p) < Suc (size_list (size_prod (\<lambda>_. 0) size) d)"
proof (induction d)
  case (Cons q d)
  then show ?case by (cases q) (auto simp: prod.size)
qed simp

termination py_eq
  by (relation "measure (\<lambda>(a, b). size a)") (auto dest: size_zip_fst size_dict_snd)

subsection \<open>The options manager\<close>

record option_change_info =
  oc_new_value :: opt_value
  oc_old_value :: opt_value

type_synonym layer = "(string \<times> opt_value) list"

text \<open>The manager is the source of its own notifications; callbacks run on its state.\<close>

record 'c options_manager =
  om_subscribers :: "(string, unit, 'c) notifier"
  om_layers :: "layer list"

type_synonym 'c option_callbacks =
  "'c \<Rightarrow> (string, unit, option_change_info) notification \<Rightarrow> ('c options_manager, unit) exec"

definition OptionsManager :: "'c options_manager" where
  "OptionsManager = \<lparr>om_subscribers = [], om_layers = []\<rparr>"

definition convert_options :: "layer \<Rightarrow> layer" where
  "convert_options new_options =
     foldl (\<lambda>out (nm, v). if v = VNone then out else od_set (option_key nm) v out) [] new_options"

definition is_set :: "string \<Rightarrow> 'c options_manager \<Rightarrow> bool" where
  "is_set key m \<longleftrightarrow> list_ex (\<lambda>layer. map_of layer key \<noteq> None) (om_layers m)"

definition get_default :: "string \<Rightarrow> opt_value" where
  "get_default key = (case map_of OPTIONS_INFO key of None \<Rightarrow> VNone | Some oi \<Rightarrow> oi_default oi)"

fun layers_get :: "layer list \<Rightarrow> string \<Rightarrow> opt_value" where
  "layers_get [] key = get_default key"
| "layers_get (layer # layers) key = (case map_of layer key of Some v \<Rightarrow> v | None \<Rightarrow> layers_get layers key)"

definition get :: "string \<Rightarrow> 'c options_manager \<Rightarrow> opt_value" where
  "get key m = layers_get (om_layers m) key"

definition values_of :: "layer \<Rightarrow> 'c options_manager \<Rightarrow> layer" where
  "values_of filtered m = map (\<lambda>(nm, v). (nm, get nm m)) filtered"

definition notify_change :: "'c option_callbacks \<Rightarrow> string \<Rightarrow> opt_value \<Rightarrow> opt_value \<Rightarrow> ('c options_manager, unit) exec" where
  "notify_change call nm new_value old_value =
     bind get_state (\<lambda>m. notify call (om_subscribers m) () nm None \<lparr>oc_new_value = new_value, oc_old_value = old_value\<rparr>)"

text \<open>\<open>_notify_changes\<close>; the names of \<open>options\<close> are those of \<open>previous\<close>.\<close>

definition notify_changes :: "'c option_callbacks \<Rightarrow> layer \<Rightarrow> layer \<Rightarrow> ('c options_manager, unit) exec" where
  "notify_changes call previous options =
     for_each (\<lambda>(nm, new_value). case map_of previous nm of
         None \<Rightarrow> raise KeyError
       | Some previous_value \<Rightarrow>
           if \<not> py_eq new_value previous_value then notify_change call nm new_value previous_value else ret ()) options"

definition update_layers :: "'c option_callbacks \<Rightarrow> layer option \<Rightarrow> (layer \<Rightarrow> layer list \<Rightarrow> layer list) \<Rightarrow> ('c options_manager, unit) exec" where
  "update_layers call new_options op =
     (case new_options of
        None \<Rightarrow> ret ()
      | Some new \<Rightarrow>
          (let filtered = convert_options new in
           bind get_state (\<lambda>m.
           bind (modify (\<lambda>m. m\<lparr>om_layers := op filtered (om_layers m)\<rparr>)) (\<lambda>_.
           bind get_state (\<lambda>m'.
             notify_changes call (values_of filtered m) (values_of filtered m'))))))"

definition add_front :: "'c option_callbacks \<Rightarrow> layer option \<Rightarrow> ('c options_manager, unit) exec" where
  "add_front call new_options = update_layers call new_options (\<lambda>l ls. l # ls)"

definition add_back :: "'c option_callbacks \<Rightarrow> layer option \<Rightarrow> ('c options_manager, unit) exec" where
  "add_back call new_options = update_layers call new_options (\<lambda>l ls. ls @ [l])"

definition update :: "'c option_callbacks \<Rightarrow> layer \<Rightarrow> ('c options_manager, unit) exec" where
  "update call new_options =
     (let filtered = convert_options new_options in
      bind get_state (\<lambda>m.
        case om_layers m of
          [] \<Rightarrow> raise IndexError
        | first # rest \<Rightarrow>
            bind (modify (\<lambda>m. m\<lparr>om_layers := od_update first filtered # rest\<rparr>)) (\<lambda>_.
              notify_changes call (values_of filtered m) filtered)))"

definition set_option :: "'c option_callbacks \<Rightarrow> string \<Rightarrow> opt_value \<Rightarrow> ('c options_manager, unit) exec" where
  "set_option call key v = update call [(key, v)]"

subsection \<open>Effective values\<close>

lemma distinct_convert: "distinct (od_keys (convert_options new))"
proof -
  have "distinct (od_keys out) \<Longrightarrow>
      distinct (od_keys (foldl (\<lambda>out (nm, v). if v = VNone then out else od_set (option_key nm) v out) out new))" for out
    by (induction new arbitrary: out) auto
  then show ?thesis by (simp add: convert_options_def od_keys_def)
qed

text \<open>The options whose effective value is another one, with it and the one before.\<close>

definition changes :: "string list \<Rightarrow> 'c options_manager \<Rightarrow> 'c options_manager \<Rightarrow> (string \<times> opt_value \<times> opt_value) list" where
  "changes keys m m' = map (\<lambda>k. (k, get k m', get k m)) (filter (\<lambda>k. \<not> py_eq (get k m') (get k m)) keys)"

definition notify_all :: "'c option_callbacks \<Rightarrow> (string \<times> opt_value \<times> opt_value) list \<Rightarrow> ('c options_manager, unit) exec" where
  "notify_all call cs = for_each (\<lambda>(k, new, old). notify_change call k new old) cs"

lemma map_of_values: "nm \<in> set (od_keys f) \<Longrightarrow> map_of (values_of f m) nm = Some (get nm m)"
  by (induction f) (auto simp: values_of_def od_keys_def)

lemma notify_changes_eq:
  assumes "map fst new = od_keys f" and "\<forall>(nm, v) \<in> set new. v = get nm m'"
  shows "notify_changes call (values_of f m) new = notify_all call (changes (od_keys f) m m')"
proof -
  have "set (map fst new) \<subseteq> set (od_keys f) \<Longrightarrow> \<forall>(nm, v) \<in> set new. v = get nm m' \<Longrightarrow>
      notify_changes call (values_of f m) new = notify_all call (changes (map fst new) m m')" for new
    by (induction new) (auto simp: notify_changes_def notify_all_def changes_def map_of_values)
  from this [of new] show ?thesis using assms by simp
qed

lemma update_layers_eq:
  "update_layers call (Some new) op m =
     (let m' = m\<lparr>om_layers := op (convert_options new) (om_layers m)\<rparr>
      in notify_all call (changes (od_keys (convert_options new)) m m') m')"
proof -
  let ?f = "convert_options new"
  let ?m = "m\<lparr>om_layers := op ?f (om_layers m)\<rparr>"
  have "map fst (values_of ?f ?m) = od_keys ?f" "\<forall>(nm, v) \<in> set (values_of ?f ?m). v = get nm ?m"
    by (auto simp: values_of_def od_keys_def split_def)
  from notify_changes_eq [OF this, of call m] show ?thesis by (simp add: update_layers_def Let_def bind_def)
qed

lemma map_of_rev_dict: "distinct (od_keys f) \<Longrightarrow> map_of (rev f) k = map_of f k"
proof (cases "map_of f k")
  case None
  moreover have "map_of (rev f) k = None" using None by (simp add: map_of_eq_None_iff)
  ultimately show ?thesis by simp
next
  case (Some v)
  moreover assume "distinct (od_keys f)"
  ultimately show ?thesis by (simp add: od_keys_def rev_map [symmetric] map_of_eq_Some_iff)
qed

lemma get_front: "map_of f k = Some v \<Longrightarrow> om_layers m = od_update l f # ls \<Longrightarrow> distinct (od_keys f) \<Longrightarrow> get k m = v"
proof -
  assume a: "map_of f k = Some v" "om_layers m = od_update l f # ls" "distinct (od_keys f)"
  have "map_of (rev f) k = Some v" using a(1,3) by (simp add: map_of_rev_dict)
  then show "get k m = v" by (simp add: get_def a(2) map_of_od_update)
qed


lemma update_eq:
  "update call new m =
     (case om_layers m of
        [] \<Rightarrow> (Inl IndexError, m)
      | first # rest \<Rightarrow>
          (let m' = m\<lparr>om_layers := od_update first (convert_options new) # rest\<rparr>
           in notify_all call (changes (od_keys (convert_options new)) m m') m'))"
proof (cases "om_layers m")
  case (Cons first rest)
  let ?f = "convert_options new"
  let ?m = "m\<lparr>om_layers := od_update first ?f # rest\<rparr>"
  have "v = get nm ?m" if "(nm, v) \<in> set ?f" for nm v
  proof -
    have "map_of ?f nm = Some v" using that distinct_convert [of new] by (simp add: od_keys_def)
    then show ?thesis using get_front [of ?f nm v ?m first rest] distinct_convert by simp
  qed
  then have "\<forall>(nm, v) \<in> set ?f. v = get nm ?m" by blast
  from notify_changes_eq [OF _ this, of ?f call m] show ?thesis
    using Cons by (simp add: update_def Let_def bind_def od_keys_def)
qed (simp add: update_def Let_def bind_def)

lemma get_od_update: "layers_get (od_update l f # ls) k =
    (case map_of (rev f) k of Some v \<Rightarrow> v | None \<Rightarrow> layers_get (l # ls) k)"
  by (simp add: map_of_od_update split: option.split)

lemma layers_get_append: "layers_get (ls @ [l]) k =
    (if list_ex (\<lambda>layer. map_of layer k \<noteq> None) ls then layers_get ls k else layers_get [l] k)"
  by (induction ls) (auto split: option.split)

text \<open>
  C30. The option layers: options set at the front override everything, options added at the behind only
  what no layer sets; exactly the given options whose effective value changes are notified, each once,
  with its new and its old value; setting without any layer raises IndexError.
\<close>

theorem option_layers_correct:
  "\<exists>front behind set'.
     (\<forall>k. get k front = (case map_of (convert_options new) k of Some v \<Rightarrow> v | None \<Rightarrow> get k m))
   \<and> add_front call (Some new) m = notify_all call (changes (od_keys (convert_options new)) m front) front
   \<and> (\<forall>k. get k behind = (if is_set k m then get k m else case map_of (convert_options new) k of Some v \<Rightarrow> v | None \<Rightarrow> get_default k))
   \<and> add_back call (Some new) m = notify_all call (changes (od_keys (convert_options new)) m behind) behind
   \<and> (om_layers m = [] \<and> update call new m = (Inl IndexError, m)
      \<or> (\<forall>k. get k set' = (case map_of (convert_options new) k of Some v \<Rightarrow> v | None \<Rightarrow> get k m))
        \<and> length (om_layers set') = length (om_layers m)
        \<and> update call new m = notify_all call (changes (od_keys (convert_options new)) m set') set')"
proof -
  let ?f = "convert_options new"
  let ?front = "m\<lparr>om_layers := ?f # om_layers m\<rparr>" and ?behind = "m\<lparr>om_layers := om_layers m @ [?f]\<rparr>"
    and ?set = "m\<lparr>om_layers := od_update (hd (om_layers m)) ?f # tl (om_layers m)\<rparr>"
  have r: "map_of (rev ?f) k = map_of ?f k" for k by (rule map_of_rev_dict [OF distinct_convert])
  have "get k ?front = (case map_of ?f k of Some v \<Rightarrow> v | None \<Rightarrow> get k m)" for k
    by (simp add: get_def split: option.split)
  moreover have "add_front call (Some new) m = notify_all call (changes (od_keys ?f) m ?front) ?front"
    by (simp add: add_front_def update_layers_eq Let_def)
  moreover have "get k ?behind = (if is_set k m then get k m else case map_of ?f k of Some v \<Rightarrow> v | None \<Rightarrow> get_default k)" for k
    by (simp add: get_def is_set_def layers_get_append split: option.split)
  moreover have "add_back call (Some new) m = notify_all call (changes (od_keys ?f) m ?behind) ?behind"
    by (simp add: add_back_def update_layers_eq Let_def)
  moreover have "om_layers m = [] \<and> update call new m = (Inl IndexError, m)
      \<or> (\<forall>k. get k ?set = (case map_of ?f k of Some v \<Rightarrow> v | None \<Rightarrow> get k m))
        \<and> length (om_layers ?set) = length (om_layers m)
        \<and> update call new m = notify_all call (changes (od_keys ?f) m ?set) ?set"
    by (cases "om_layers m") (simp_all add: update_eq get_def map_of_od_update r Let_def split: option.split)
  ultimately show ?thesis by blast
qed


end
