(* ===== verification/Flash_Algo.thy ===== *)
theory Flash_Algo
  imports Memory_Interface Mask Complex_Main
begin

text \<open>
  The flash driver of \<open>pyocd/flash/flash.py\<close>: it loads a flash algorithm into the target's RAM,
  calls its functions, and tracks for which operation the algorithm is initialised.  The target is a
  parameter; a driver without an algorithm and the optional register checks of
  \<open>flash_algo_debug\<close> are left out.
\<close>

subsection \<open>Geometry\<close>

record sector_info =
  si_base_addr :: int
  si_erase_weight :: rat
  si_size :: int

record page_info =
  pi_base_addr :: int
  pi_program_weight :: rat
  pi_size :: int

record flash_info =
  fi_rom_start :: int
  fi_erase_weight :: rat
  fi_crc_supported :: bool

text \<open>
  What the driver reads of a flash region and of the regions of its submap; weights are seconds.
\<close>

record flash_area =
  ar_start :: int
  ar_end :: int
  ar_sector_size :: int
  ar_page_size :: int
  ar_phrase_size :: int
  ar_erase_sector_weight :: rat
  ar_program_page_weight :: rat

record flash_region = flash_area +
  fr_erase_all_weight :: rat
  fr_readable :: bool
  fr_erasable :: bool
  fr_erased_readable :: bool
  fr_erased_byte :: int
  fr_subregions :: "flash_area list"

definition area_contains :: "('z) flash_area_scheme \<Rightarrow> int \<Rightarrow> bool" where
  "area_contains r addr \<longleftrightarrow> ar_start r \<le> addr \<and> addr \<le> ar_end r"

definition area_of :: "flash_region \<Rightarrow> flash_area" where
  "area_of r = flash_area.truncate r"

definition get_region_or_subregion :: "flash_region \<Rightarrow> int \<Rightarrow> flash_area option" where
  "get_region_or_subregion r addr =
     (if \<not> area_contains r addr then None
      else (case find (\<lambda>s. area_contains s addr) (fr_subregions r) of
              Some s \<Rightarrow> Some s | None \<Rightarrow> Some (area_of r)))"

definition get_sector_info :: "flash_region \<Rightarrow> int \<Rightarrow> exn + sector_info option" where
  "get_sector_info r addr =
     (case get_region_or_subregion r addr of
        None \<Rightarrow> Inr None
      | Some a \<Rightarrow> res_bind (align_down addr (ar_sector_size a)) (\<lambda>base.
          Inr (Some \<lparr>si_base_addr = base, si_erase_weight = ar_erase_sector_weight a, si_size = ar_sector_size a\<rparr>)))"

definition get_page_info :: "flash_region \<Rightarrow> int \<Rightarrow> exn + page_info option" where
  "get_page_info r addr =
     (case get_region_or_subregion r addr of
        None \<Rightarrow> Inr None
      | Some a \<Rightarrow> res_bind (align_down addr (ar_page_size a)) (\<lambda>base.
          Inr (Some \<lparr>pi_base_addr = base, pi_program_weight = ar_program_page_weight a, pi_size = ar_page_size a\<rparr>)))"

subsection \<open>The algorithm and the target\<close>

datatype operation = ERASE | PROGRAM | VERIFY

fun operation_value :: "operation \<Rightarrow> int" where
  "operation_value ERASE = 1"
| "operation_value PROGRAM = 2"
| "operation_value VERIFY = 3"

datatype run_state = RUNNING | HALTED | RESET | SLEEPING | LOCKUP

text \<open>The algorithm's dictionary; a key that may be missing is an option.\<close>

record flash_algo =
  fa_load_address :: int
  fa_instructions :: "int list"
  fa_pc_init :: "int option"
  fa_pc_unInit :: "int option"
  fa_pc_eraseAll :: "int option"
  fa_pc_erase_sector :: int
  fa_pc_program_page :: int
  fa_page_buffers :: "int list"
  fa_begin_stack :: int
  fa_end_stack :: "int option"
  fa_static_base :: int
  fa_min_program_length :: int
  fa_analyzer_supported :: bool
  fa_analyzer_address :: int

text \<open>
  What the driver uses of the target.  \<open>tg_ticks\<close> is how often \<open>Timeout.check\<close> succeeds before
  the deadline of a wait that begins in this state.
\<close>

record 't target_ops =
  tg_halt :: "('t, unit) exec"
  tg_write_block32 :: "int \<Rightarrow> int list \<Rightarrow> ('t, unit) exec"
  tg_read_block32 :: "int \<Rightarrow> int \<Rightarrow> ('t, int list) exec"
  tg_write_block8 :: "int \<Rightarrow> int list \<Rightarrow> ('t, unit) exec"
  tg_write32 :: "int \<Rightarrow> int \<Rightarrow> ('t, unit) exec"
  tg_read32 :: "int \<Rightarrow> ('t, int) exec"
  tg_write_registers :: "string list \<Rightarrow> int list \<Rightarrow> ('t, unit) exec"
  tg_read_register :: "string \<Rightarrow> ('t, int) exec"
  tg_resume :: "('t, unit) exec"
  tg_reset_and_halt :: "('t, unit) exec"
  tg_get_state :: "('t, run_state) exec"
  tg_ticks :: "'t \<Rightarrow> nat"
  tg_cortex_m :: bool

record 't flash =
  fl_target :: 't
  fl_did_prepare :: bool
  fl_active :: "operation option"

definition Flash :: "'t \<Rightarrow> 't flash" where
  "Flash target = \<lparr>fl_target = target, fl_did_prepare = False, fl_active = None\<rparr>"

definition STACK_CANARY :: int where "STACK_CANARY = 0xdeadf00d"
definition TIMEOUT_ERROR :: int where "TIMEOUT_ERROR = -1"
definition XPSR_THUMB :: int where "XPSR_THUMB = 0x01000000"

definition ANALYZER_CODE :: "int list" where
  "ANALYZER_CODE = [
    0x2780b5f0, 0x25004684, 0x4e2b2401, 0x447e4a2b, 0x0023007f, 0x425b402b, 0x40130868, 0x08584043,
    0x425b4023, 0x40584013, 0x40200843, 0x40104240, 0x08434058, 0x42404020, 0x40584010, 0x40200843,
    0x40104240, 0x08434058, 0x42404020, 0x40584010, 0x40200843, 0x40104240, 0x08584043, 0x425b4023,
    0x40434013, 0xc6083501, 0xd1d242bd, 0xd01f2900, 0x46602301, 0x469c25ff, 0x00894e11, 0x447e1841,
    0x88034667, 0x409f8844, 0x2f00409c, 0x2201d012, 0x4252193f, 0x34017823, 0x402b4053, 0x599b009b,
    0x405a0a12, 0xd1f542bc, 0xc00443d2, 0xd1e74281, 0xbdf02000, 0xe7f82200, 0x000000b2, 0xedb88320,
    0x00000042]"

definition end_flash_algo :: "flash_algo \<Rightarrow> int" where
  "end_flash_algo fa = fa_load_address fa + int (length (fa_instructions fa)) * 4"

definition is_api_valid :: "flash_algo \<Rightarrow> int option \<Rightarrow> bool" where
  "is_api_valid fa pc = (case pc of None \<Rightarrow> False | Some a \<Rightarrow> fa_load_address fa \<le> a \<and> a < end_flash_algo fa)"

definition is_erase_all_supported :: "flash_algo \<Rightarrow> bool" where
  "is_erase_all_supported fa = is_api_valid fa (fa_pc_eraseAll fa)"

definition double_buffer_supported :: "flash_algo \<Rightarrow> bool" where
  "double_buffer_supported fa \<longleftrightarrow> length (fa_page_buffers fa) > 1"

definition minimum_program_length :: "flash_algo \<Rightarrow> flash_region \<Rightarrow> int" where
  "minimum_program_length fa r = (if fa_min_program_length fa \<noteq> 0 then fa_min_program_length fa else ar_phrase_size r)"

definition get_flash_info :: "flash_algo \<Rightarrow> flash_region \<Rightarrow> flash_info" where
  "get_flash_info fa r = \<lparr>fi_rom_start = ar_start r, fi_erase_weight = fr_erase_all_weight r,
     fi_crc_supported = fa_analyzer_supported fa\<rparr>"

subsection \<open>Calling the algorithm\<close>

definition on_tgt :: "('t, 'a) exec \<Rightarrow> ('t flash, 'a) exec" where
  "on_tgt m s = (case m (fl_target s) of (r, t) \<Rightarrow> (r, s\<lparr>fl_target := t\<rparr>))"

definition opt_arg :: "string \<Rightarrow> int option \<Rightarrow> (string \<times> int) list" where
  "opt_arg nm v = (case v of None \<Rightarrow> [] | Some x \<Rightarrow> [(nm, x)])"

definition call_registers :: "'t target_ops \<Rightarrow> flash_algo \<Rightarrow> int \<Rightarrow> int option \<Rightarrow> int option \<Rightarrow> int option \<Rightarrow> int option \<Rightarrow> bool \<Rightarrow> (string \<times> int) list" where
  "call_registers T fa pc r0 r1 r2 r3 ini =
     [(''pc'', pc)] @ opt_arg ''r0'' r0 @ opt_arg ''r1'' r1 @ opt_arg ''r2'' r2 @ opt_arg ''r3'' r3
     @ (if ini then [(''r9'', fa_static_base fa)] else []) @ (if ini then [(''sp'', fa_begin_stack fa)] else [])
     @ (if ini \<and> tg_cortex_m T then [(''xpsr'', XPSR_THUMB)] else []) @ [(''lr'', fa_load_address fa + 1)]"

definition call_function :: "'t target_ops \<Rightarrow> flash_algo \<Rightarrow> int \<Rightarrow> int option \<Rightarrow> int option \<Rightarrow> int option \<Rightarrow> int option \<Rightarrow> bool \<Rightarrow> ('t flash, unit) exec" where
  "call_function T fa pc r0 r1 r2 r3 ini =
     (let regs = call_registers T fa pc r0 r1 r2 r3 ini in
      bind (on_tgt (tg_write_registers T (map fst regs) (map snd regs))) (\<lambda>_. on_tgt (tg_resume T)))"

text \<open>The polling loop: None when the time is over.\<close>

fun poll_state :: "'t target_ops \<Rightarrow> nat \<Rightarrow> ('t flash, run_state option) exec" where
  "poll_state T 0 = ret None"
| "poll_state T (Suc n) =
     bind (catch (bind (on_tgt (tg_get_state T)) (\<lambda>st. ret (if st \<noteq> RUNNING then Some st else None)))
            (\<lambda>e. e = TransferTimeoutError \<or> is_transfer_fault e) (\<lambda>_. ret None)) (\<lambda>r.
       case r of Some st \<Rightarrow> ret (Some st) | None \<Rightarrow> poll_state T n)"

definition check_canary :: "'t target_ops \<Rightarrow> flash_algo \<Rightarrow> ('t flash, unit) exec" where
  "check_canary T fa =
     (case fa_end_stack fa of
        None \<Rightarrow> ret ()
      | Some a \<Rightarrow> bind (on_tgt (tg_read32 T a)) (\<lambda>canary.
          if canary \<noteq> STACK_CANARY then raise (FlashFailure None None) else ret ()))"

definition wait_for_completion :: "'t target_ops \<Rightarrow> flash_algo \<Rightarrow> ('t flash, int) exec" where
  "wait_for_completion T fa =
     bind get_state (\<lambda>s.
     bind (poll_state T (tg_ticks T (fl_target s))) (\<lambda>res.
       case res of
         None \<Rightarrow>
           bind (on_tgt (tg_halt T)) (\<lambda>_.
           bind (on_tgt (tg_read_register T ''ipsr'')) (\<lambda>_. ret TIMEOUT_ERROR))
       | Some st \<Rightarrow>
           if st \<noteq> HALTED then
             bind (on_tgt (tg_halt T)) (\<lambda>_.
             bind (on_tgt (tg_read_register T ''ipsr'')) (\<lambda>_. raise (FlashFailure None None)))
           else bind (check_canary T fa) (\<lambda>_. on_tgt (tg_read_register T ''r0''))))"

definition call_and_wait :: "'t target_ops \<Rightarrow> flash_algo \<Rightarrow> int \<Rightarrow> int option \<Rightarrow> int option \<Rightarrow> int option \<Rightarrow> int option \<Rightarrow> bool \<Rightarrow> ('t flash, int) exec" where
  "call_and_wait T fa pc r0 r1 r2 r3 ini =
     bind (call_function T fa pc r0 r1 r2 r3 ini) (\<lambda>_. wait_for_completion T fa)"

text \<open>The check of a function's result.\<close>

definition check_result :: "exn \<Rightarrow> (int \<Rightarrow> exn) \<Rightarrow> int \<Rightarrow> ('t flash, unit) exec" where
  "check_result timed_out failed r =
     (if r = TIMEOUT_ERROR then raise timed_out else if r \<noteq> 0 then raise (failed r) else ret ())"

subsection \<open>Operations\<close>

definition flash_uninit :: "'t target_ops \<Rightarrow> flash_algo \<Rightarrow> ('t flash, unit) exec" where
  "flash_uninit T fa =
     bind get_state (\<lambda>s.
       case fl_active s of
         None \<Rightarrow> ret ()
       | Some op \<Rightarrow>
           bind (case fa_pc_unInit fa of
                   Some pc \<Rightarrow>
                     if is_api_valid fa (Some pc) then
                       bind (call_and_wait T fa pc (Some (operation_value op)) None None None False)
                         (check_result (FlashFailure None None) (\<lambda>r. FlashFailure None (Some r)))
                     else ret ()
                 | None \<Rightarrow> ret ()) (\<lambda>_.
             modify (\<lambda>s. s\<lparr>fl_active := None\<rparr>)))"

definition load_algo :: "'t target_ops \<Rightarrow> flash_algo \<Rightarrow> bool \<Rightarrow> ('t flash, unit) exec" where
  "load_algo T fa reset =
     bind (if reset then on_tgt (tg_reset_and_halt T) else ret ()) (\<lambda>_.
     bind (on_tgt (tg_write_block32 T (fa_load_address fa) (fa_instructions fa))) (\<lambda>_.
     bind (case fa_end_stack fa of None \<Rightarrow> ret () | Some a \<Rightarrow> on_tgt (tg_write32 T a STACK_CANARY)) (\<lambda>_.
       modify (\<lambda>s. s\<lparr>fl_did_prepare := True\<rparr>))))"

definition flash_init :: "'t target_ops \<Rightarrow> flash_algo \<Rightarrow> flash_region \<Rightarrow> operation \<Rightarrow> int option \<Rightarrow> int \<Rightarrow> bool \<Rightarrow> ('t flash, unit) exec" where
  "flash_init T fa r op address clock reset =
     (let address = (case address of None \<Rightarrow> fi_rom_start (get_flash_info fa r) | Some a \<Rightarrow> a) in
      bind get_state (\<lambda>s.
      bind (assert_that (fl_did_prepare s \<or> fl_active s = None)) (\<lambda>_.
      bind (on_tgt (tg_halt T)) (\<lambda>_.
        if fl_active s = Some op then ret ()
        else
          bind (if fl_active s \<noteq> None then flash_uninit T fa else ret ()) (\<lambda>_.
          bind get_state (\<lambda>s.
          bind (if \<not> fl_did_prepare s then load_algo T fa reset else ret ()) (\<lambda>_.
          bind (case fa_pc_init fa of
                  Some pc \<Rightarrow>
                    if is_api_valid fa (Some pc) then
                      bind (call_and_wait T fa pc (Some address) (Some clock) (Some (operation_value op)) None True)
                        (check_result (FlashFailure None None) (\<lambda>r. FlashFailure None (Some r)))
                    else ret ()
                | None \<Rightarrow> ret ()) (\<lambda>_.
            modify (\<lambda>s. s\<lparr>fl_active := Some op\<rparr>)))))))))"

definition flash_cleanup :: "'t target_ops \<Rightarrow> flash_algo \<Rightarrow> ('t flash, unit) exec" where
  "flash_cleanup T fa = bind (flash_uninit T fa) (\<lambda>_. modify (\<lambda>s. s\<lparr>fl_did_prepare := False\<rparr>))"

definition need_operation :: "operation \<Rightarrow> ('t flash, unit) exec" where
  "need_operation op = bind get_state (\<lambda>s. assert_that (fl_active s = Some op))"

definition flash_erase_all :: "'t target_ops \<Rightarrow> flash_algo \<Rightarrow> ('t flash, unit) exec" where
  "flash_erase_all T fa =
     bind (need_operation ERASE) (\<lambda>_.
     bind (assert_that (is_erase_all_supported fa)) (\<lambda>_.
       case fa_pc_eraseAll fa of
         None \<Rightarrow> raise AssertionError
       | Some pc \<Rightarrow> bind (call_and_wait T fa pc None None None None False)
           (check_result (FlashEraseFailure None None) (\<lambda>r. FlashEraseFailure None (Some r)))))"

definition flash_erase_sector :: "'t target_ops \<Rightarrow> flash_algo \<Rightarrow> int \<Rightarrow> ('t flash, unit) exec" where
  "flash_erase_sector T fa addr =
     bind (need_operation ERASE) (\<lambda>_.
     bind (call_and_wait T fa (fa_pc_erase_sector fa) (Some addr) None None None False)
       (check_result (FlashEraseFailure None None) (\<lambda>r. FlashEraseFailure (Some addr) (Some r))))"

text \<open>\<open>override_security_bits\<close> returns the data unless a subclass changes it.\<close>

definition program_from_buffer :: "'t target_ops \<Rightarrow> flash_algo \<Rightarrow> int \<Rightarrow> int list \<Rightarrow> ('t flash, unit) exec" where
  "program_from_buffer T fa addr bs =
     (case fa_page_buffers fa of
        [] \<Rightarrow> raise IndexError
      | buf # _ \<Rightarrow>
          bind (on_tgt (tg_write_block8 T buf bs)) (\<lambda>_.
          bind (call_and_wait T fa (fa_pc_program_page fa) (Some addr) (Some (int (length bs))) (Some buf) None False)
            (check_result (FlashProgramFailure None None) (\<lambda>r. FlashProgramFailure (Some addr) (Some r)))))"

definition flash_program_page :: "'t target_ops \<Rightarrow> flash_algo \<Rightarrow> int \<Rightarrow> int list \<Rightarrow> ('t flash, unit) exec" where
  "flash_program_page T fa addr bs = bind (need_operation PROGRAM) (\<lambda>_. program_from_buffer T fa addr bs)"

definition py_mod :: "int \<Rightarrow> int \<Rightarrow> exn + int" where
  "py_mod a b = (if b = 0 then Inl ZeroDivisionError else Inr (a mod b))"

definition flash_program_phrase :: "'t target_ops \<Rightarrow> flash_algo \<Rightarrow> flash_region \<Rightarrow> int \<Rightarrow> int list \<Rightarrow> ('t flash, unit) exec" where
  "flash_program_phrase T fa r addr bs =
     bind (need_operation PROGRAM) (\<lambda>_.
     bind (lift_res (py_mod addr (minimum_program_length fa r))) (\<lambda>m.
       if m \<noteq> 0 then raise (FlashFailure (Some addr) None)
       else if int (length bs) mod minimum_program_length fa r \<noteq> 0 then raise (FlashFailure (Some addr) None)
       else program_from_buffer T fa addr bs))"

definition load_page_buffer :: "'t target_ops \<Rightarrow> flash_algo \<Rightarrow> nat \<Rightarrow> int \<Rightarrow> int list \<Rightarrow> ('t flash, unit) exec" where
  "load_page_buffer T fa n addr bs =
     bind (assert_that (n < length (fa_page_buffers fa))) (\<lambda>_.
       on_tgt (tg_write_block8 T (fa_page_buffers fa ! n) bs))"

definition start_program_page_with_buffer :: "'t target_ops \<Rightarrow> flash_algo \<Rightarrow> flash_region \<Rightarrow> nat \<Rightarrow> int \<Rightarrow> ('t flash, unit) exec" where
  "start_program_page_with_buffer T fa r n addr =
     bind (assert_that (n < length (fa_page_buffers fa))) (\<lambda>_.
     bind (need_operation PROGRAM) (\<lambda>_.
     bind (lift_res (get_page_info r addr)) (\<lambda>info.
       case info of
         None \<Rightarrow> raise AssertionError
       | Some p \<Rightarrow> call_function T fa (fa_pc_program_page fa) (Some addr) (Some (pi_size p)) (Some (fa_page_buffers fa ! n)) None False)))"

text \<open>The commands of the CRC analyzer, one word for each range.\<close>

definition crc_command :: "int \<times> int \<Rightarrow> exn + int" where
  "crc_command q = (case q of (addr, sz) \<Rightarrow>
     (let size_val = msb sz in
      res_bind (py_floordiv addr sz) (\<lambda>addr_val.
        if push_bit (nat size_val) 1 \<noteq> sz then Inl AssertionError
        else if addr mod sz \<noteq> 0 then Inl AssertionError
        else Inr (size_val OR push_bit 16 addr_val))))"

definition compute_crcs :: "'t target_ops \<Rightarrow> flash_algo \<Rightarrow> (int \<times> int) list \<Rightarrow> ('t flash, int list) exec" where
  "compute_crcs T fa sectors =
     bind (assert_that (fa_analyzer_supported fa)) (\<lambda>_.
     bind (on_tgt (tg_write_block32 T (fa_analyzer_address fa) ANALYZER_CODE)) (\<lambda>_.
     bind (lift_res (res_map crc_command sectors)) (\<lambda>cmds.
       case fa_page_buffers fa of
         [] \<Rightarrow> raise IndexError
       | buf # _ \<Rightarrow>
           bind (on_tgt (tg_write_block32 T buf cmds)) (\<lambda>_.
           bind (call_and_wait T fa (fa_analyzer_address fa) (Some buf) (Some (int (length cmds))) None None False) (\<lambda>_.
             on_tgt (tg_read_block32 T buf (int (length cmds))))))))"

end
