(* ===== verification/Flash_Builder.thy ===== *)
theory Flash_Builder
  imports Flash_Algo
begin

text \<open>
  The flash builder of \<open>pyocd/flash/builder.py\<close>: data to be programmed in one flash region is
  collected, laid out in pages and sectors, compared with the flash, and the sectors that differ are
  erased and programmed.  The driver is a parameter.  Progress callbacks, elapsed times and log output
  are left out; weights are exact rationals.
\<close>

subsection \<open>Parameters and state\<close>

datatype flash_event = PRE_FLASH_ERASE | POST_FLASH_ERASE | PRE_FLASH_PROGRAM | POST_FLASH_PROGRAM

text \<open>
  What the builder uses of the driver, of its target's memory and of the session's notifications.
  \<open>fo_crc32\<close> is the library's \<open>crc32\<close>.
\<close>

record 's flash_ops =
  fo_region :: flash_region
  fo_info :: flash_info
  fo_erase_all_supported :: bool
  fo_double_supported :: bool
  fo_init :: "operation \<Rightarrow> ('s, unit) exec"
  fo_uninit :: "('s, unit) exec"
  fo_cleanup :: "('s, unit) exec"
  fo_erase_all :: "('s, unit) exec"
  fo_erase_sector :: "int \<Rightarrow> ('s, unit) exec"
  fo_program_page :: "int \<Rightarrow> int list \<Rightarrow> ('s, unit) exec"
  fo_load_page_buffer :: "nat \<Rightarrow> int \<Rightarrow> int list \<Rightarrow> ('s, unit) exec"
  fo_start_program :: "nat \<Rightarrow> int \<Rightarrow> ('s, unit) exec"
  fo_wait :: "('s, int) exec"
  fo_compute_crcs :: "(int \<times> int) list \<Rightarrow> ('s, int list) exec"
  fo_read_block8 :: "int \<Rightarrow> int \<Rightarrow> ('s, int list) exec"
  fo_notify :: "flash_event \<Rightarrow> ('s, unit) exec"
  fo_crc32 :: "int list \<Rightarrow> int"

definition PAGE_ESTIMATE_SIZE :: nat where "PAGE_ESTIMATE_SIZE = 32"
definition DATA_TRANSFER_B_PER_S :: rat where "DATA_TRANSFER_B_PER_S = 40 * 1000"

record flash_page =
  pg_addr :: int
  pg_size :: int
  pg_data :: "int list"
  pg_program_weight :: rat
  pg_erased :: "bool option"
  pg_same :: "bool option"
  pg_crc :: int
  pg_cached :: "int list option"

definition FlashPage :: "page_info \<Rightarrow> flash_page" where
  "FlashPage i = \<lparr>pg_addr = pi_base_addr i, pg_size = pi_size i, pg_data = [], pg_program_weight = pi_program_weight i,
     pg_erased = None, pg_same = None, pg_crc = 0, pg_cached = None\<rparr>"

definition get_program_weight :: "flash_page \<Rightarrow> rat" where
  "get_program_weight p = pg_program_weight p + of_int (int (length (pg_data p))) / DATA_TRANSFER_B_PER_S"

definition get_verify_weight :: "flash_page \<Rightarrow> rat" where
  "get_verify_weight p = of_int (pg_size p) / DATA_TRANSFER_B_PER_S"

text \<open>
  A page object is in the builder's page list and in its sector's; the latter holds positions of the
  former.
\<close>

record flash_sector =
  sc_addr :: int
  sc_subsector_size :: int
  sc_max_page_count :: int
  sc_pages :: "nat list"
  sc_erase_weight :: rat
  sc_n_subsectors :: int

definition FlashSector :: "sector_info \<Rightarrow> int \<Rightarrow> flash_sector" where
  "FlashSector i n = \<lparr>sc_addr = si_base_addr i, sc_subsector_size = si_size i, sc_max_page_count = 0, sc_pages = [],
     sc_erase_weight = si_erase_weight i, sc_n_subsectors = n\<rparr>"

definition sc_size :: "flash_sector \<Rightarrow> int" where
  "sc_size c = sc_n_subsectors c * sc_subsector_size c"

definition sc_addrs :: "flash_sector \<Rightarrow> int list" where
  "sc_addrs c = map (\<lambda>i. sc_addr c + int i * sc_subsector_size c) [0..<nat (sc_n_subsectors c)]"

datatype program_kind = FLASH_SECTOR_ERASE | FLASH_CHIP_ERASE
datatype analysis_kind = FLASH_ANALYSIS_CRC32 | FLASH_ANALYSIS_PARTIAL_PAGE_READ

record programming_info =
  pf_program_type :: "program_kind option"
  pf_analyze_type :: "analysis_kind option"
  pf_total_byte_count :: int
  pf_program_byte_count :: int
  pf_program_page_count :: int
  pf_erase_byte_count :: int
  pf_erase_sector_count :: int
  pf_skipped_byte_count :: int
  pf_skipped_page_count :: int

definition ProgrammingInfo :: programming_info where
  "ProgrammingInfo = \<lparr>pf_program_type = None, pf_analyze_type = None, pf_total_byte_count = 0, pf_program_byte_count = 0,
     pf_program_page_count = 0, pf_erase_byte_count = 0, pf_erase_sector_count = 0, pf_skipped_byte_count = 0,
     pf_skipped_page_count = 0\<rparr>"

record 's builder =
  fb_flash :: 's
  fb_operations :: "(int \<times> int list) list"
  fb_sectors :: "flash_sector list"
  fb_pages :: "flash_page list"
  fb_perf :: programming_info
  fb_enable_double :: bool
  fb_buffered_size :: int
  fb_program_byte_count :: int
  fb_chip_erase_count :: int
  fb_chip_erase_weight :: rat
  fb_sector_erase_count :: int
  fb_sector_erase_weight :: rat
  fb_last_erase_was_chip :: bool
  fb_algo_inited_for_read :: bool
  fb_prepared :: bool

definition FlashBuilder :: "'s \<Rightarrow> 's builder" where
  "FlashBuilder flash = \<lparr>fb_flash = flash, fb_operations = [], fb_sectors = [], fb_pages = [], fb_perf = ProgrammingInfo,
     fb_enable_double = True, fb_buffered_size = 0, fb_program_byte_count = 0, fb_chip_erase_count = 0,
     fb_chip_erase_weight = 0, fb_sector_erase_count = 0, fb_sector_erase_weight = 0, fb_last_erase_was_chip = False,
     fb_algo_inited_for_read = False, fb_prepared = False\<rparr>"

definition on_flash :: "('s, 'a) exec \<Rightarrow> ('s builder, 'a) exec" where
  "on_flash m b = (case m (fb_flash b) of (r, s) \<Rightarrow> (r, b\<lparr>fb_flash := s\<rparr>))"

definition page_at :: "'s builder \<Rightarrow> nat \<Rightarrow> flash_page" where
  "page_at b i = fb_pages b ! i"

definition set_page :: "nat \<Rightarrow> (flash_page \<Rightarrow> flash_page) \<Rightarrow> 's builder \<Rightarrow> 's builder" where
  "set_page i f b = b\<lparr>fb_pages := (fb_pages b)[i := f (fb_pages b ! i)]\<rparr>"

subsection \<open>Adding data\<close>

fun overlapping :: "(int \<times> int list) list \<Rightarrow> bool" where
  "overlapping ((a, d) # (a', d') # ops) = (a + int (length d) > a' \<or> overlapping ((a', d') # ops))"
| "overlapping _ = False"

definition add_data :: "'s flash_ops \<Rightarrow> int \<Rightarrow> int list \<Rightarrow> ('s builder, unit) exec" where
  "add_data D addr ds =
     (if ds = [] then ret ()
      else if \<not> (area_contains (fo_region D) addr \<and> area_contains (fo_region D) (addr + int (length ds) - 1))
      then raise ValueError
      else bind (modify (\<lambda>b. b\<lparr>fb_operations := sort_key fst (fb_operations b @ [(addr, ds)]),
             fb_buffered_size := fb_buffered_size b + int (length ds)\<rparr>)) (\<lambda>_.
        bind get_state (\<lambda>b.
          if overlapping (fb_operations b) then raise ValueError
          else modify (\<lambda>b. b\<lparr>fb_prepared := False\<rparr>))))"

definition enable_read_access :: "'s flash_ops \<Rightarrow> ('s builder, unit) exec" where
  "enable_read_access D =
     bind get_state (\<lambda>b.
       if \<not> fb_algo_inited_for_read b then
         bind (catch (on_flash (fo_init D VERIFY)) is_flash_failure (\<lambda>_. on_flash (fo_init D ERASE))) (\<lambda>_.
           modify (\<lambda>b. b\<lparr>fb_algo_inited_for_read := True\<rparr>))
       else ret ())"

subsection \<open>Sectors and pages\<close>

text \<open>\<open>create_flash_sector\<close>, called with the current page's information.\<close>

definition create_flash_sector :: "sector_info \<Rightarrow> page_info \<Rightarrow> exn + flash_sector" where
  "create_flash_sector s p =
     (if pi_size p > si_size s then
        res_bind (py_mod (pi_size p) (si_size s)) (\<lambda>m.
          if m \<noteq> 0 then Inl AssertionError else Inr (FlashSector s (pi_size p div si_size s)))
      else Inr (FlashSector s 1))"

text \<open>
  \<open>_FlashSector.add_page\<close> for the page at position \<open>i\<close> of a list of pages.  (The limit that
  is already stored when an assertion fails is not kept.)
\<close>

definition sector_add_page :: "flash_page list \<Rightarrow> nat \<Rightarrow> flash_sector \<Rightarrow> exn + flash_sector" where
  "sector_add_page pages i c =
     res_bind (if sc_pages c = [] then
         res_bind (py_mod (sc_size c) (pg_size (pages ! i))) (\<lambda>m.
           if m \<noteq> 0 then Inl AssertionError else Inr (c\<lparr>sc_max_page_count := sc_size c div pg_size (pages ! i)\<rparr>))
       else Inr c) (\<lambda>c.
       if \<not> int (length (sc_pages c)) < sc_max_page_count c then Inl AssertionError
       else Inr (c\<lparr>sc_pages := sort_key (\<lambda>j. pg_addr (pages ! j)) (sc_pages c @ [i])\<rparr>))"

text \<open>A new page is added to sector \<open>k\<close>, then to the page list; the very first the other way round.\<close>

definition add_page :: "nat \<Rightarrow> flash_page \<Rightarrow> ('s builder, unit) exec" where
  "add_page k pg =
     bind get_state (\<lambda>b.
     bind (lift_res (sector_add_page (fb_pages b @ [pg]) (length (fb_pages b)) (fb_sectors b ! k))) (\<lambda>c.
       modify (\<lambda>b. b\<lparr>fb_sectors := (fb_sectors b)[k := c], fb_pages := fb_pages b @ [pg]\<rparr>)))"

definition add_first_page :: "flash_page \<Rightarrow> flash_sector \<Rightarrow> ('s builder, unit) exec" where
  "add_first_page pg c =
     bind (modify (\<lambda>b. b\<lparr>fb_pages := fb_pages b @ [pg], fb_sectors := fb_sectors b @ [c]\<rparr>)) (\<lambda>_.
     bind get_state (\<lambda>b.
     bind (lift_res (sector_add_page (fb_pages b) (length (fb_pages b) - 1) c)) (\<lambda>c.
       modify (\<lambda>b. b\<lparr>fb_sectors := (fb_sectors b)[length (fb_sectors b) - 1 := c]\<rparr>))))"

definition need_sector_info :: "'s flash_ops \<Rightarrow> int \<Rightarrow> exn + sector_info" where
  "need_sector_info D a = res_bind (get_sector_info (fo_region D) a) (\<lambda>i.
     case i of None \<Rightarrow> Inl (FlashFailure (Some a) None) | Some i \<Rightarrow> Inr i)"

definition need_page_info :: "'s flash_ops \<Rightarrow> int \<Rightarrow> exn + page_info" where
  "need_page_info D a = res_bind (get_page_info (fo_region D) a) (\<lambda>i.
     case i of None \<Rightarrow> Inl (FlashFailure (Some a) None) | Some i \<Rightarrow> Inr i)"

definition begin_sector :: "'s flash_ops \<Rightarrow> sector_info \<Rightarrow> page_info \<Rightarrow> ('s builder, unit) exec" where
  "begin_sector D s p =
     bind (lift_res (create_flash_sector s p)) (\<lambda>c. modify (\<lambda>b. b\<lparr>fb_sectors := fb_sectors b @ [c]\<rparr>))"

text \<open>The contents between written data: read from the target, or taken as erased.\<close>

definition old_data :: "'s flash_ops \<Rightarrow> bool \<Rightarrow> int \<Rightarrow> int \<Rightarrow> ('s builder, int list) exec" where
  "old_data D keep_unwritten addr n =
     (if keep_unwritten \<and> fr_readable (fo_region D) then
        bind (enable_read_access D) (\<lambda>_. on_flash (fo_read_block8 D addr n))
      else ret (replicate (nat n) (fr_erased_byte (fo_region D))))"

text \<open>The current page is the last of the page list, the current sector the last of the sector list.\<close>

definition append_data :: "int list \<Rightarrow> int \<Rightarrow> ('s builder, unit) exec" where
  "append_data ds n =
     modify (\<lambda>b. (set_page (length (fb_pages b) - 1) (\<lambda>p. p\<lparr>pg_data := pg_data p @ ds\<rparr>) b)
       \<lparr>fb_program_byte_count := fb_program_byte_count b + n\<rparr>)"

definition fill_to :: "'s flash_ops \<Rightarrow> bool \<Rightarrow> int \<Rightarrow> ('s builder, unit) exec" where
  "fill_to D keep_unwritten addr =
     bind get_state (\<lambda>b.
       let p = last (fb_pages b); page_data_end = pg_addr p + int (length (pg_data p)) in
       if addr \<noteq> page_data_end then
         bind (old_data D keep_unwritten page_data_end (addr - page_data_end)) (\<lambda>ds.
           append_data ds (addr - page_data_end))
       else ret ())"

definition fill_end_of_page_gap :: "'s flash_ops \<Rightarrow> bool \<Rightarrow> ('s builder, unit) exec" where
  "fill_end_of_page_gap D keep_unwritten =
     bind get_state (\<lambda>b. fill_to D keep_unwritten (pg_addr (last (fb_pages b)) + pg_size (last (fb_pages b))))"

definition next_sector :: "'s flash_ops \<Rightarrow> page_info \<Rightarrow> int \<Rightarrow> ('s builder, unit) exec" where
  "next_sector D pinfo addr =
     bind get_state (\<lambda>b.
       let c = last (fb_sectors b) in
       if addr \<ge> sc_addr c + sc_size c then
         bind (lift_res (need_sector_info D addr)) (\<lambda>s. begin_sector D s pinfo)
       else ret ())"

text \<open>The page's information is the new page's when one is begun.\<close>

definition next_page :: "'s flash_ops \<Rightarrow> bool \<Rightarrow> page_info \<Rightarrow> int \<Rightarrow> ('s builder, page_info) exec" where
  "next_page D keep_unwritten pinfo addr =
     bind get_state (\<lambda>b.
       let p = last (fb_pages b) in
       if addr \<ge> pg_addr p + pg_size p then
         bind (fill_end_of_page_gap D keep_unwritten) (\<lambda>_.
         bind (lift_res (need_page_info D addr)) (\<lambda>pinfo.
         bind get_state (\<lambda>b.
         bind (add_page (length (fb_sectors b) - 1) (FlashPage pinfo)) (\<lambda>_. ret pinfo))))
       else ret pinfo)"

text \<open>
  The inner loop over one operation's data.  An amount that is not positive would leave the loop where
  it is for ever.
\<close>

function place_data :: "'s flash_ops \<Rightarrow> bool \<Rightarrow> page_info \<Rightarrow> int \<Rightarrow> int list \<Rightarrow> ('s builder, page_info) exec" where
  "place_data D keep_unwritten pinfo addr ds =
     (if ds = [] then ret pinfo
      else
        bind (next_sector D pinfo addr) (\<lambda>_.
        bind (next_page D keep_unwritten pinfo addr) (\<lambda>pinfo.
        bind (fill_to D keep_unwritten addr) (\<lambda>_.
        bind get_state (\<lambda>b.
          let amount = min (pi_size pinfo - int (length (pg_data (last (fb_pages b))))) (int (length ds)) in
          if amount \<le> 0 then raise Diverges
          else bind (append_data (take (nat amount) ds) amount) (\<lambda>_.
            place_data D keep_unwritten pinfo (addr + amount) (drop (nat amount) ds)))))))"
  by pat_completeness auto
termination
  by (relation "measure (\<lambda>(D, k, p, a, ds). length ds)") (auto simp: min_def split: if_splits)

declare place_data.simps [simp del]

fun place_operations :: "'s flash_ops \<Rightarrow> bool \<Rightarrow> page_info \<Rightarrow> (int \<times> int list) list \<Rightarrow> ('s builder, unit) exec" where
  "place_operations D keep_unwritten pinfo [] = ret ()"
| "place_operations D keep_unwritten pinfo ((addr, ds) # ops) =
     bind (place_data D keep_unwritten pinfo addr ds) (\<lambda>pinfo. place_operations D keep_unwritten pinfo ops)"

definition add_page_with_existing_data :: "'s flash_ops \<Rightarrow> nat \<Rightarrow> int \<Rightarrow> ('s builder, int) exec" where
  "add_page_with_existing_data D k addr =
     bind (lift_res (need_page_info D addr)) (\<lambda>i.
     bind (enable_read_access D) (\<lambda>_.
     bind (on_flash (fo_read_block8 D (pi_base_addr i) (pi_size i))) (\<lambda>ds.
     bind (add_page k ((FlashPage i)\<lparr>pg_data := ds, pg_same := Some True\<rparr>)) (\<lambda>_.
     bind (modify (\<lambda>b. b\<lparr>fb_program_byte_count := fb_program_byte_count b + int (length ds)\<rparr>)) (\<lambda>_.
       ret (pi_size i))))))"

text \<open>
  The loop over a sector's pages; each step moves to the next page of the list, which may have been
  inserted.  Its fuel is the number of pages a sector can have and one more.
\<close>

fun fill_between :: "'s flash_ops \<Rightarrow> nat \<Rightarrow> nat \<Rightarrow> nat \<Rightarrow> int \<Rightarrow> ('s builder, int) exec" where
  "fill_between D 0 k n addr = raise Diverges"
| "fill_between D (Suc fuel) k n addr =
     bind get_state (\<lambda>b.
       if n < length (sc_pages (fb_sectors b ! k)) then
         (let p = page_at b (sc_pages (fb_sectors b ! k) ! n) in
          bind (if pg_addr p \<noteq> addr then add_page_with_existing_data D k addr else ret (pg_size p)) (\<lambda>sz.
            fill_between D fuel k (Suc n) (addr + sz)))
       else ret addr)"

fun fill_after :: "'s flash_ops \<Rightarrow> nat \<Rightarrow> nat \<Rightarrow> int \<Rightarrow> ('s builder, unit) exec" where
  "fill_after D 0 k addr = raise Diverges"
| "fill_after D (Suc fuel) k addr =
     bind get_state (\<lambda>b.
       if addr < sc_addr (fb_sectors b ! k) + sc_size (fb_sectors b ! k) then
         bind (add_page_with_existing_data D k addr) (\<lambda>sz. fill_after D fuel k (addr + sz))
       else ret ())"

definition fill_unwritten_sector_pages :: "'s flash_ops \<Rightarrow> ('s builder, unit) exec" where
  "fill_unwritten_sector_pages D =
     bind get_state (\<lambda>b.
       for_each (\<lambda>k.
         bind get_state (\<lambda>b.
           let c = fb_sectors b ! k; fuel = nat (sc_max_page_count c) + 2 in
           bind (fill_between D fuel k 0 (sc_addr c)) (\<lambda>addr. fill_after D fuel k addr)))
         [0..<length (fb_sectors b)])"

definition build_sectors_and_pages :: "'s flash_ops \<Rightarrow> bool \<Rightarrow> ('s builder, unit) exec" where
  "build_sectors_and_pages D keep_unwritten =
     bind get_state (\<lambda>b.
     bind (assert_that (fb_operations b \<noteq> [])) (\<lambda>_.
     bind (modify (\<lambda>b. b\<lparr>fb_program_byte_count := 0\<rparr>)) (\<lambda>_.
       let flash_addr = fst (hd (fb_operations b)) in
       bind (lift_res (need_sector_info D flash_addr)) (\<lambda>s.
       bind (lift_res (need_page_info D flash_addr)) (\<lambda>p.
       bind (lift_res (create_flash_sector s p)) (\<lambda>c.
       bind (add_first_page (FlashPage p) c) (\<lambda>_.
       bind (place_operations D keep_unwritten p (fb_operations b)) (\<lambda>_.
       bind (fill_end_of_page_gap D keep_unwritten) (\<lambda>_.
         if keep_unwritten \<and> fr_readable (fo_region D) then fill_unwritten_sector_pages D else ret ())))))))))"


subsection \<open>Comparing with the flash\<close>

definition sector_pages :: "'s builder \<Rightarrow> flash_sector \<Rightarrow> flash_page list" where
  "sector_pages b c = map (page_at b) (sc_pages c)"

definition are_any_pages_not_same :: "'s builder \<Rightarrow> flash_sector \<Rightarrow> bool" where
  "are_any_pages_not_same b c = list_ex (\<lambda>p. pg_same p \<noteq> Some True) (sector_pages b c)"

definition mark_all_pages_not_same :: "flash_sector \<Rightarrow> 's builder \<Rightarrow> 's builder" where
  "mark_all_pages_not_same c b = foldl (\<lambda>b i. set_page i (\<lambda>p. p\<lparr>pg_same := Some False\<rparr>) b) b (sc_pages c)"

definition mark_all_pages_for_programming :: "('s builder, unit) exec" where
  "mark_all_pages_for_programming = modify (\<lambda>b. foldl (\<lambda>b c. mark_all_pages_not_same c b) b (fb_sectors b))"

definition prepare_sectors_and_pages :: "'s flash_ops \<Rightarrow> bool \<Rightarrow> bool \<Rightarrow> ('s builder, unit) exec" where
  "prepare_sectors_and_pages D keep_unwritten smart_flash =
     bind get_state (\<lambda>b.
       if \<not> fb_prepared b then
         bind (build_sectors_and_pages D keep_unwritten) (\<lambda>_.
         bind (if \<not> smart_flash then mark_all_pages_for_programming else ret ()) (\<lambda>_.
           modify (\<lambda>b. b\<lparr>fb_prepared := True\<rparr>)))
       else ret ())"

definition data_erased :: "'s flash_ops \<Rightarrow> int list \<Rightarrow> bool" where
  "data_erased D ds = list_all (\<lambda>b. b = fr_erased_byte (fo_region D)) ds"

definition count_erased :: "'s flash_ops \<Rightarrow> flash_page \<Rightarrow> flash_page" where
  "count_erased D p = (if pg_erased p = None then p\<lparr>pg_erased := Some (data_erased D (pg_data p))\<rparr> else p)"

definition compute_chip_erase_pages_and_weight :: "'s flash_ops \<Rightarrow> ('s builder, int \<times> rat) exec" where
  "compute_chip_erase_pages_and_weight D =
     bind (modify (\<lambda>b. b\<lparr>fb_pages := map (count_erased D) (fb_pages b)\<rparr>)) (\<lambda>_.
     bind get_state (\<lambda>b.
       let ps = filter (\<lambda>p. pg_erased p = Some False) (fb_pages b);
           n = int (length ps); w = fi_erase_weight (fo_info D) + sum_list (map get_program_weight ps) in
       bind (modify (\<lambda>b. b\<lparr>fb_chip_erase_count := n, fb_chip_erase_weight := w\<rparr>)) (\<lambda>_. ret (n, w))))"

definition compute_sector_erase_pages_weight_min :: "'s builder \<Rightarrow> rat" where
  "compute_sector_erase_pages_weight_min b = sum_list (map get_verify_weight (fb_pages b))"

definition analyze_page_partial :: "'s flash_ops \<Rightarrow> nat \<Rightarrow> ('s builder, unit) exec" where
  "analyze_page_partial D i =
     bind get_state (\<lambda>b.
       let p = page_at b i in
       if pg_same p = None then
         (let n = min PAGE_ESTIMATE_SIZE (length (pg_data p)) in
          bind (on_flash (fo_read_block8 D (pg_addr p) (int n))) (\<lambda>ds.
            if \<not> same ds (take n (pg_data p)) then modify (set_page i (\<lambda>p. p\<lparr>pg_same := Some False\<rparr>))
            else modify (set_page i (\<lambda>p. p\<lparr>pg_cached := Some ds\<rparr>))))
       else ret ())"

definition analyze_pages_with_partial_read :: "'s flash_ops \<Rightarrow> ('s builder, unit) exec" where
  "analyze_pages_with_partial_read D =
     bind (enable_read_access D) (\<lambda>_.
     bind get_state (\<lambda>b. for_each (analyze_page_partial D) [0..<length (fb_pages b)]))"

text \<open>The data of a page, padded as the analyzer sees it.\<close>

definition padded_data :: "flash_page \<Rightarrow> int list" where
  "padded_data p = pg_data p @ replicate (nat (pg_size p - int (length (pg_data p)))) 0xFF"

definition note_crc :: "bool \<Rightarrow> nat \<times> int \<Rightarrow> 's builder \<Rightarrow> 's builder" where
  "note_crc assume_estimate_correct q b = (case q of (i, crc) \<Rightarrow>
     (let page_same = (pg_crc (page_at b i) = crc) in
      if assume_estimate_correct then set_page i (\<lambda>p. p\<lparr>pg_same := Some page_same\<rparr>) b
      else if \<not> page_same then set_page i (\<lambda>p. p\<lparr>pg_same := Some False\<rparr>) b
      else b))"

definition analyze_pages_with_crc32 :: "'s flash_ops \<Rightarrow> bool \<Rightarrow> ('s builder, unit) exec" where
  "analyze_pages_with_crc32 D assume_estimate_correct =
     bind get_state (\<lambda>b.
       let unknown = filter (\<lambda>i. pg_same (page_at b i) = None) [0..<length (fb_pages b)] in
       bind (modify (\<lambda>b. foldl (\<lambda>b i. set_page i (\<lambda>p. p\<lparr>pg_crc := fo_crc32 D (padded_data p) AND 0xFFFFFFFF\<rparr>) b) b unknown)) (\<lambda>_.
         if unknown \<noteq> [] then
           bind (enable_read_access D) (\<lambda>_.
           bind (on_flash (fo_compute_crcs D (map (\<lambda>i. (pg_addr (page_at b i), pg_size (page_at b i))) unknown))) (\<lambda>crcs.
             modify (\<lambda>b. foldl (\<lambda>b q. note_crc assume_estimate_correct q b) b (zip unknown crcs))))
         else ret ()))"

definition any_unknown :: "'s builder \<Rightarrow> bool" where
  "any_unknown b = list_ex (\<lambda>p. pg_same p = None) (fb_pages b)"

definition sector_weight :: "'s builder \<Rightarrow> flash_sector \<Rightarrow> rat" where
  "sector_weight b c =
     sum_list (map (\<lambda>p. case pg_same p of Some False \<Rightarrow> get_program_weight p | None \<Rightarrow> get_verify_weight p | Some True \<Rightarrow> 0) (sector_pages b c))
     + (if are_any_pages_not_same b c then sc_erase_weight c else 0)"

definition compute_sector_erase_pages_and_weight :: "'s flash_ops \<Rightarrow> bool \<Rightarrow> ('s builder, int \<times> rat) exec" where
  "compute_sector_erase_pages_and_weight D fast_verify =
     bind get_state (\<lambda>b.
     bind (if any_unknown b then
         (if fi_crc_supported (fo_info D) then
            bind (analyze_pages_with_crc32 D fast_verify) (\<lambda>_.
              modify (\<lambda>b. b\<lparr>fb_perf := (fb_perf b)\<lparr>pf_analyze_type := Some FLASH_ANALYSIS_CRC32\<rparr>\<rparr>))
          else if fr_readable (fo_region D) then
            bind (analyze_pages_with_partial_read D) (\<lambda>_.
              modify (\<lambda>b. b\<lparr>fb_perf := (fb_perf b)\<lparr>pf_analyze_type := Some FLASH_ANALYSIS_PARTIAL_PAGE_READ\<rparr>\<rparr>))
          else mark_all_pages_for_programming)
       else ret ()) (\<lambda>_.
     bind get_state (\<lambda>b.
       let n = sum_list (map (\<lambda>c. int (length (filter (\<lambda>p. pg_same p = Some False) (sector_pages b c)))) (fb_sectors b));
           w = sum_list (map (sector_weight b) (fb_sectors b)) in
       bind (modify (\<lambda>b. b\<lparr>fb_sector_erase_count := n, fb_sector_erase_weight := w\<rparr>)) (\<lambda>_. ret (n, w)))))"

definition scan_page :: "'s flash_ops \<Rightarrow> nat \<Rightarrow> ('s builder, unit) exec" where
  "scan_page D i =
     bind get_state (\<lambda>b.
       let p = page_at b i; got = (case pg_cached p of None \<Rightarrow> [] | Some ds \<Rightarrow> ds); offset = int (length got) in
       bind (assert_that (int (length (pg_data p)) = pg_size p)) (\<lambda>_.
       bind (on_flash (fo_read_block8 D (pg_addr p + offset) (pg_size p - offset))) (\<lambda>ds.
         modify (set_page i (\<lambda>p. p\<lparr>pg_same := Some (same (pg_data p) (got @ ds)), pg_cached := None\<rparr>)))))"

text \<open>A sector that needs a page programmed is erased, so all its pages are.\<close>

definition mark_erased_sectors :: "'s builder \<Rightarrow> 's builder" where
  "mark_erased_sectors b = foldl (\<lambda>b c. if are_any_pages_not_same b c then mark_all_pages_not_same c b else b) b (fb_sectors b)"

definition scan_pages_for_same :: "'s flash_ops \<Rightarrow> ('s builder, unit) exec" where
  "scan_pages_for_same D =
     bind get_state (\<lambda>b.
       let unknown = filter (\<lambda>i. pg_same (page_at b i) = None) [0..<length (fb_pages b)] in
       bind (if unknown \<noteq> [] then bind (enable_read_access D) (\<lambda>_. for_each (scan_page D) unknown) else ret ()) (\<lambda>_.
         modify mark_erased_sectors))"

definition finalize_smart_flash :: "'s flash_ops \<Rightarrow> bool \<Rightarrow> ('s builder, unit) exec" where
  "finalize_smart_flash D fast_verify =
     bind get_state (\<lambda>b.
       if \<not> any_unknown b then ret ()
       else
         bind (compute_sector_erase_pages_and_weight D fast_verify) (\<lambda>_.
         bind get_state (\<lambda>b. if any_unknown b then scan_pages_for_same D else ret ())))"

subsection \<open>Erasing\<close>

definition chip_erase :: "'s flash_ops \<Rightarrow> ('s builder, unit) exec" where
  "chip_erase D =
     bind (on_flash (fo_init D ERASE)) (\<lambda>_. bind (on_flash (fo_erase_all D)) (\<lambda>_. on_flash (fo_uninit D)))"

definition erase_one_sector :: "'s flash_ops \<Rightarrow> flash_sector \<Rightarrow> ('s builder, unit) exec" where
  "erase_one_sector D c =
     bind get_state (\<lambda>b.
       if are_any_pages_not_same b c \<and> fr_erasable (fo_region D) then
         for_each (\<lambda>a. on_flash (fo_erase_sector D a)) (sc_addrs c)
       else ret ())"

definition erase_sectors :: "'s flash_ops \<Rightarrow> ('s builder, unit) exec" where
  "erase_sectors D =
     bind (on_flash (fo_init D ERASE)) (\<lambda>_.
     bind get_state (\<lambda>b.
     bind (for_each (erase_one_sector D) (fb_sectors b)) (\<lambda>_. on_flash (fo_uninit D))))"

text \<open>The argument \<open>chip_erase\<close>: None and \<open>auto\<close> leave the choice to the estimate.\<close>

definition convert_chip_erase :: "string option \<Rightarrow> exn + bool option" where
  "convert_chip_erase v =
     (if v = None \<or> v = Some ''auto'' then Inr None
      else if v = Some ''sector'' then Inr (Some False)
      else if v = Some ''chip'' then Inr (Some True)
      else Inl ValueError)"

definition choose_chip_erase :: "'s flash_ops \<Rightarrow> bool option \<Rightarrow> ('s builder, bool) exec" where
  "choose_chip_erase D choice =
     bind get_state (\<lambda>b.
       let choice = (if \<not> fo_erase_all_supported D then Some False else choice);
           choice = (if pg_addr (hd (fb_pages b)) > ar_start (fo_region D) \<and> choice = None then Some False else choice) in
       bind (compute_chip_erase_pages_and_weight D) (\<lambda>(n, w).
       bind get_state (\<lambda>b.
         ret (case choice of None \<Rightarrow> w < compute_sector_erase_pages_weight_min b | Some c \<Rightarrow> c))))"

definition erase :: "'s flash_ops \<Rightarrow> string option \<Rightarrow> bool \<Rightarrow> bool \<Rightarrow> bool \<Rightarrow> ('s builder, unit) exec" where
  "erase D chip smart_flash fast_verify keep_unwritten =
     (let readable = fr_erased_readable (fo_region D);
          smart_flash = (readable \<and> smart_flash); fast_verify = (readable \<and> fast_verify); keep_unwritten = (readable \<and> keep_unwritten) in
      bind (on_flash (fo_notify D PRE_FLASH_ERASE)) (\<lambda>_.
      bind get_state (\<lambda>b.
        if fb_operations b = [] then ret ()
        else
          bind (prepare_sectors_and_pages D keep_unwritten smart_flash) (\<lambda>_.
          bind (lift_res (convert_chip_erase chip)) (\<lambda>choice.
          bind (choose_chip_erase D choice) (\<lambda>whole.
          bind (if smart_flash \<and> \<not> whole then finalize_smart_flash D fast_verify else ret ()) (\<lambda>_.
          bind (modify (\<lambda>b. b\<lparr>fb_algo_inited_for_read := False\<rparr>)) (\<lambda>_.
          bind (if whole then chip_erase D else erase_sectors D) (\<lambda>_.
          bind (on_flash (fo_cleanup D)) (\<lambda>_.
          bind (modify (\<lambda>b. b\<lparr>fb_last_erase_was_chip := whole\<rparr>)) (\<lambda>_.
            on_flash (fo_notify D POST_FLASH_ERASE))))))))))))"

subsection \<open>Programming\<close>

text \<open>The first page from position \<open>i\<close> on that is not known to be the same, and the position after it.\<close>

function next_nonsame_page :: "'s builder \<Rightarrow> nat \<Rightarrow> (flash_page option \<times> nat)" where
  "next_nonsame_page b i =
     (if i \<ge> length (fb_pages b) then (None, i)
      else if pg_same (page_at b i) = Some True then next_nonsame_page b (Suc i)
      else (Some (page_at b i), Suc i))"
  by pat_completeness auto
termination
  by (relation "measure (\<lambda>(b, i). length (fb_pages b) - i)") auto

function next_unerased_page :: "'s builder \<Rightarrow> nat \<Rightarrow> (flash_page option \<times> nat)" where
  "next_unerased_page b i =
     (if i \<ge> length (fb_pages b) then (None, i)
      else if pg_erased (page_at b i) = Some True then next_unerased_page b (Suc i)
      else (Some (page_at b i), Suc i))"
  by pat_completeness auto
termination
  by (relation "measure (\<lambda>(b, i). length (fb_pages b) - i)") auto

declare next_nonsame_page.simps [simp del] next_unerased_page.simps [simp del]

text \<open>The loop over the pages; \<open>i\<close> is the position after the current one, whose data is in \<open>buf\<close>.\<close>

lemma next_nonsame_less: "next_nonsame_page b i = (Some p, j) \<Longrightarrow> i < j \<and> j \<le> length (fb_pages b)"
proof (induction b i rule: next_nonsame_page.induct)
  case (1 b i)
  then show ?case using next_nonsame_page.simps [of b i] by (auto split: if_splits)
qed

fun program_buffers :: "nat \<Rightarrow> 's flash_ops \<Rightarrow> nat \<Rightarrow> nat \<Rightarrow> flash_page \<Rightarrow> nat \<Rightarrow> ('s builder, unit) exec" where
  "program_buffers 0 D buf next_buf page i = raise Diverges"
| "program_buffers (Suc fuel) D buf next_buf page i =
     bind (assert_that (pg_same page \<noteq> None)) (\<lambda>_.
     bind (on_flash (fo_start_program D buf (pg_addr page))) (\<lambda>_.
     bind get_state (\<lambda>b.
       case next_nonsame_page b i of (following, j) \<Rightarrow>
       bind (case following of None \<Rightarrow> ret () | Some p \<Rightarrow> on_flash (fo_load_page_buffer D next_buf (pg_addr p) (pg_data p))) (\<lambda>_.
       bind (on_flash (fo_wait D)) (\<lambda>res.
         if res = TIMEOUT_ERROR then raise (FlashProgramFailure (Some (pg_addr page)) (Some res))
         else if res \<noteq> 0 then raise (FlashProgramFailure (Some (pg_addr page)) (Some res))
         else (case following of None \<Rightarrow> ret () | Some p \<Rightarrow> program_buffers fuel D next_buf buf p j))))))"

definition program_double_buffer :: "'s flash_ops \<Rightarrow> ('s builder, unit) exec" where
  "program_double_buffer D =
     bind get_state (\<lambda>b.
       case next_nonsame_page b 0 of
         (None, _) \<Rightarrow> ret ()
       | (Some page, i) \<Rightarrow>
           bind (on_flash (fo_init D PROGRAM)) (\<lambda>_.
           bind (on_flash (fo_load_page_buffer D 0 (pg_addr page) (pg_data page))) (\<lambda>_.
           bind (program_buffers (Suc (length (fb_pages b))) D 0 1 page i) (\<lambda>_. on_flash (fo_uninit D)))))"

definition program_sector :: "'s flash_ops \<Rightarrow> flash_sector \<Rightarrow> ('s builder, unit) exec" where
  "program_sector D c =
     bind get_state (\<lambda>b.
       if are_any_pages_not_same b c then
         for_each (\<lambda>p. on_flash (fo_program_page D (pg_addr p) (pg_data p))) (sector_pages b c)
       else ret ())"

definition program_pages :: "'s flash_ops \<Rightarrow> ('s builder, unit) exec" where
  "program_pages D =
     bind (on_flash (fo_init D PROGRAM)) (\<lambda>_.
     bind get_state (\<lambda>b.
     bind (for_each (program_sector D) (fb_sectors b)) (\<lambda>_. on_flash (fo_uninit D))))"

definition account :: "'s builder \<Rightarrow> programming_info \<Rightarrow> programming_info" where
  "account b perf =
     (let skipped = filter (\<lambda>p. pg_same p = Some True) (fb_pages b);
          programmed = filter (\<lambda>p. pg_same p \<noteq> Some True) (fb_pages b);
          erased = filter (are_any_pages_not_same b) (fb_sectors b) in
      perf\<lparr>pf_program_type := Some (if fb_last_erase_was_chip b then FLASH_CHIP_ERASE else FLASH_SECTOR_ERASE),
        pf_total_byte_count := fb_program_byte_count b,
        pf_program_byte_count := sum_list (map pg_size programmed), pf_program_page_count := int (length programmed),
        pf_erase_byte_count := sum_list (map sc_size erased), pf_erase_sector_count := int (length erased),
        pf_skipped_byte_count := sum_list (map pg_size skipped), pf_skipped_page_count := int (length skipped)\<rparr>)"

text \<open>None is returned when there is nothing to program.\<close>

definition program :: "'s flash_ops \<Rightarrow> bool \<Rightarrow> bool \<Rightarrow> bool \<Rightarrow> ('s builder, programming_info option) exec" where
  "program D smart_flash fast_verify keep_unwritten =
     (let readable = fr_erased_readable (fo_region D);
          smart_flash = (readable \<and> smart_flash); fast_verify = (readable \<and> fast_verify); keep_unwritten = (readable \<and> keep_unwritten) in
      bind (on_flash (fo_notify D PRE_FLASH_PROGRAM)) (\<lambda>_.
      bind get_state (\<lambda>b.
        if fb_operations b = [] then ret None
        else
          bind (prepare_sectors_and_pages D keep_unwritten smart_flash) (\<lambda>_.
          bind (if smart_flash then finalize_smart_flash D fast_verify else ret ()) (\<lambda>_.
          bind (modify (\<lambda>b. b\<lparr>fb_algo_inited_for_read := False\<rparr>)) (\<lambda>_.
          bind (if fo_double_supported D \<and> fb_enable_double b then program_double_buffer D else program_pages D) (\<lambda>_.
          bind (on_flash (fo_cleanup D)) (\<lambda>_.
          bind (modify (\<lambda>b. b\<lparr>fb_perf := account b (fb_perf b)\<rparr>)) (\<lambda>_.
          bind (on_flash (fo_notify D POST_FLASH_PROGRAM)) (\<lambda>_.
          bind get_state (\<lambda>b. ret (Some (fb_perf b)))))))))))))"

end
