(* ===== verification/Flash_Layout.thy ===== *)
theory Flash_Layout
  imports Flash_Builder
begin

text \<open>
  What programming with the flash builder achieves: the driver's contract as a locale, the layout of
  the data in pages and sectors, and the contents of the flash after erasing and programming.
\<close>

subsection \<open>The data to be programmed\<close>

definition written :: "(int \<times> int list) list \<Rightarrow> memory \<Rightarrow> memory" where
  "written ops m = foldl (\<lambda>m (a, d). mem_write m a d) m ops"

definition ops_ok :: "flash_region \<Rightarrow> (int \<times> int list) list \<Rightarrow> bool" where
  "ops_ok R ops \<longleftrightarrow> list_all (\<lambda>(a, d). d \<noteq> [] \<and> ar_start R \<le> a \<and> a + int (length d) \<le> ar_end R + 1) ops \<and> \<not> overlapping ops"

lemma ops_ok_Cons: "ops_ok R ((a, d) # ops) \<Longrightarrow> ops_ok R ops"
  by (cases ops) (auto simp: ops_ok_def)

lemma ops_later: "ops_ok R ((a, d) # ops) \<Longrightarrow> (a', d') \<in> set ops \<Longrightarrow> a + int (length d) \<le> a'"
proof (induction ops arbitrary: a d)
  case (Cons q ops)
  obtain b e where q: "q = (b, e)" by (cases q)
  have b: "a + int (length d) \<le> b" using Cons.prems(1) q by (simp add: ops_ok_def)
  have "ops_ok R ((b, e) # ops)" using ops_ok_Cons [OF Cons.prems(1)] q by simp
  then show ?case using Cons.IH [of b e] Cons.prems(2) q b by fastforce
qed simp

lemma written_Cons: "written ((a, d) # ops) m = written ops (mem_write m a d)"
  by (simp add: written_def)

lemma written_outside: "(\<And>a d. (a, d) \<in> set ops \<Longrightarrow> x < a \<or> a + int (length d) \<le> x) \<Longrightarrow> written ops m x = m x"
proof (induction ops arbitrary: m)
  case (Cons q ops)
  obtain a d where q: "q = (a, d)" by (cases q)
  have "x < a \<or> a + int (length d) \<le> x" using Cons.prems q by simp
  then have "mem_write m a d x = m x" by (auto simp: mem_write_def)
  then show ?case using Cons.IH [of "mem_write m a d"] Cons.prems q by (simp add: written_Cons)
qed (simp add: written_def)

lemma written_inside:
  "ops_ok R ops \<Longrightarrow> (a, d) \<in> set ops \<Longrightarrow> mem_bytes (written ops m) a (length d) = d"
proof (induction ops arbitrary: m)
  case (Cons q ops)
  obtain b e where q: "q = (b, e)" by (cases q)
  have ok: "ops_ok R ops" using ops_ok_Cons Cons.prems(1) q by blast
  show ?case
  proof (cases "(a, d) = (b, e)")
    case True
    have "written ops (mem_write m a d) x = mem_write m a d x" if "x < a + int (length d)" for x
      by (rule written_outside) (use ops_later [of R b e ops] Cons.prems(1) q True that in force)
    then have "mem_bytes (written ops (mem_write m a d)) a (length d) = mem_bytes (mem_write m a d) a (length d)"
      by (intro mem_bytes_cong) simp
    then show ?thesis using q True by (simp add: written_Cons)
  next
    case False
    then have "(a, d) \<in> set ops" using Cons.prems(2) q by auto
    then show ?thesis using Cons.IH [OF ok] q by (simp add: written_Cons)
  qed
qed simp

lemma add_data_wp:
  assumes "ops_ok (fo_region D) (fb_operations b)"
  shows "wp (add_data D addr ds)
      (\<lambda>_ b'. ops_ok (fo_region D) (fb_operations b') \<and> set (fb_operations b') = set (fb_operations b) \<union> (if ds = [] then {} else {(addr, ds)})
        \<and> fb_flash b' = fb_flash b)
      (\<lambda>e b'. e = ValueError \<and> fb_flash b' = fb_flash b) b"
  using assms by (auto simp: add_data_def ops_ok_def area_contains_def list_all_iff)

subsection \<open>Geometry\<close>

text \<open>Uniform sectors of whole pages; the region consists of whole sectors.\<close>

definition geometry_ok :: "flash_region \<Rightarrow> bool" where
  "geometry_ok R \<longleftrightarrow> 0 < ar_page_size R \<and> 0 < ar_sector_size R \<and> ar_page_size R dvd ar_sector_size R \<and> fr_subregions R = []
     \<and> ar_sector_size R dvd ar_start R \<and> ar_sector_size R dvd (ar_end R + 1)"

lemma align_bounds: "0 < (m::int) \<Longrightarrow> a div m * m \<le> a \<and> a < a div m * m + m"
  using div_mult_mod_eq [of a m] pos_mod_bound [of m a] pos_mod_sign [of m a] by linarith

lemma multiple_gap:
  assumes "0 < (m::int)" and "m dvd a" and "m dvd b" and "a < b + m"
  shows "a \<le> b"
proof -
  obtain j k where jk: "a = m * j" "b = m * k" using assms(2,3) by (auto elim!: dvdE)
  have "m * j < m * (k + 1)" using assms(4) jk by (simp add: distrib_left)
  then have "j \<le> k" using assms(1) by (simp add: mult_less_cancel_left_pos)
  then show ?thesis using jk assms(1) by (simp add: mult_left_mono)
qed

lemma need_page_info_ok:
  assumes "geometry_ok (fo_region D)" and "area_contains (fo_region D) a"
  shows "need_page_info D a = Inr \<lparr>pi_base_addr = a div ar_page_size (fo_region D) * ar_page_size (fo_region D),
    pi_program_weight = ar_program_page_weight (fo_region D), pi_size = ar_page_size (fo_region D)\<rparr>"
  using assms by (simp add: need_page_info_def get_page_info_def get_region_or_subregion_def geometry_ok_def align_down_def
      py_floordiv_def area_of_def flash_area.defs)

lemma need_sector_info_ok:
  assumes "geometry_ok (fo_region D)" and "area_contains (fo_region D) a"
  shows "need_sector_info D a = Inr \<lparr>si_base_addr = a div ar_sector_size (fo_region D) * ar_sector_size (fo_region D),
    si_erase_weight = ar_erase_sector_weight (fo_region D), si_size = ar_sector_size (fo_region D)\<rparr>"
  using assms by (simp add: need_sector_info_def get_sector_info_def get_region_or_subregion_def geometry_ok_def align_down_def
      py_floordiv_def area_of_def flash_area.defs)

text \<open>A sector has room for as many pages as there are page addresses in it.\<close>

lemma count_slots:
  fixes A P S :: int
  assumes "0 < P" and "P dvd S" and "P dvd A" and "distinct xs" and S: "0 \<le> S div P"
    and x: "\<And>x. x \<in> set xs \<Longrightarrow> P dvd x \<and> A \<le> x \<and> x < A + S"
  shows "int (length xs) \<le> S div P"
proof -
  let ?f = "\<lambda>x. (x - A) div P"
  have f: "x = A + P * ?f x" if "x \<in> set xs" for x
  proof -
    have "P dvd x - A" using x [OF that] assms(3) by (simp add: dvd_diff)
    then show ?thesis by simp
  qed
  have inj: "inj_on ?f (set xs)" by (rule inj_onI) (metis f)
  have "?f ` set xs \<subseteq> {0..<S div P}"
  proof (rule image_subsetI)
    fix y assume y: "y \<in> set xs"
    have "0 \<le> ?f y" using x [OF y] assms(1) by (simp add: pos_imp_zdiv_nonneg_iff)
    moreover have "P * ?f y < P * (S div P)" using f [OF y] x [OF y] assms(2) by simp
    ultimately show "?f y \<in> {0..<S div P}" using assms(1) by (simp add: mult_less_cancel_left_pos)
  qed
  then have "card (?f ` set xs) \<le> card {0..<S div P}" by (intro card_mono) auto
  then have "length xs \<le> nat (S div P)" using assms(4) by (simp add: card_image [OF inj] distinct_card)
  then show ?thesis using S by simp
qed


subsection \<open>The driver's contract\<close>

text \<open>
  What the builder relies on.  Operations that return have the stated effect on the flash's contents,
  which only erasing and programming change; those that raise, raise the driver's errors \<open>derr\<close>.
\<close>

locale flash_driver =
  fixes D :: "'s flash_ops" and sinv :: "'s \<Rightarrow> bool" and fmem :: "'s \<Rightarrow> memory" and fact :: "'s \<Rightarrow> operation option"
    and derr :: "exn \<Rightarrow> bool"
  assumes geo: "geometry_ok (fo_region D)"
    and init_law: "sinv s \<Longrightarrow> wp (fo_init D op) (\<lambda>_ s'. sinv s' \<and> fmem s' = fmem s \<and> fact s' = Some op)
      (\<lambda>e s'. derr e \<and> (fact s = None \<longrightarrow> sinv s' \<and> fmem s' = fmem s \<and> fact s' = None)) s"
    and uninit_law: "sinv s \<Longrightarrow> wp (fo_uninit D) (\<lambda>_ s'. sinv s' \<and> fmem s' = fmem s) (\<lambda>e _. derr e) s"
    and cleanup_law: "sinv s \<Longrightarrow> wp (fo_cleanup D) (\<lambda>_ s'. sinv s' \<and> fmem s' = fmem s) (\<lambda>e _. derr e) s"
    and notify_law: "sinv s \<Longrightarrow> wp (fo_notify D ev) (\<lambda>_ s'. sinv s' \<and> fmem s' = fmem s \<and> fact s' = fact s) (\<lambda>e _. derr e) s"
    and read_law: "sinv s \<Longrightarrow> 0 \<le> n \<Longrightarrow> ar_start (fo_region D) \<le> a \<Longrightarrow> a + n \<le> ar_end (fo_region D) + 1 \<Longrightarrow>
      wp (fo_read_block8 D a n) (\<lambda>ds s'. sinv s' \<and> fmem s' = fmem s \<and> fact s' = fact s \<and> ds = mem_bytes (fmem s) a (nat n)) (\<lambda>e _. derr e) s"
    and crc_law: "sinv s \<Longrightarrow> fi_crc_supported (fo_info D) \<Longrightarrow> wp (fo_compute_crcs D qs)
      (\<lambda>cs s'. sinv s' \<and> fmem s' = fmem s \<and> fact s' = fact s \<and> cs = map (\<lambda>(a, n). fo_crc32 D (mem_bytes (fmem s) a (nat n)) AND 0xFFFFFFFF) qs)
      (\<lambda>e _. derr e) s"
    and erase_law: "sinv s \<Longrightarrow> fact s = Some ERASE \<Longrightarrow> ar_sector_size (fo_region D) dvd a \<Longrightarrow> ar_start (fo_region D) \<le> a \<Longrightarrow>
      a + ar_sector_size (fo_region D) \<le> ar_end (fo_region D) + 1 \<Longrightarrow>
      wp (fo_erase_sector D a) (\<lambda>_ s'. sinv s' \<and> fact s' = fact s \<and> fmem s' = (\<lambda>x. if a \<le> x \<and> x < a + ar_sector_size (fo_region D)
        then fr_erased_byte (fo_region D) else fmem s x)) (\<lambda>e _. derr e) s"
    and program_law: "sinv s \<Longrightarrow> fact s = Some PROGRAM \<Longrightarrow> ar_page_size (fo_region D) dvd a \<Longrightarrow> ar_start (fo_region D) \<le> a \<Longrightarrow>
      a + ar_page_size (fo_region D) \<le> ar_end (fo_region D) + 1 \<Longrightarrow> int (length ds) = ar_page_size (fo_region D) \<Longrightarrow>
      (\<And>x. a \<le> x \<Longrightarrow> x < a + ar_page_size (fo_region D) \<Longrightarrow> fmem s x = fr_erased_byte (fo_region D)) \<Longrightarrow>
      wp (fo_program_page D a ds) (\<lambda>_ s'. sinv s' \<and> fact s' = fact s \<and> fmem s' = mem_write (fmem s) a ds) (\<lambda>e _. derr e) s"

definition same_layout :: "'s builder \<Rightarrow> 's builder \<Rightarrow> bool" where
  "same_layout b b' \<longleftrightarrow> fb_operations b' = fb_operations b \<and> fb_sectors b' = fb_sectors b \<and> fb_pages b' = fb_pages b
     \<and> fb_enable_double b' = fb_enable_double b \<and> fb_prepared b' = fb_prepared b"

lemma same_layout_refl [simp]: "same_layout b b"
  by (simp add: same_layout_def)

lemma same_layout_flash [simp]:
  "same_layout b (b'\<lparr>fb_flash := s\<rparr>) = same_layout b b'"
  "same_layout b (b'\<lparr>fb_algo_inited_for_read := r\<rparr>) = same_layout b b'"
  by (simp_all add: same_layout_def)

lemma wp_on_flash:
  "wp (on_flash m) Q F b = wp m (\<lambda>x s. Q x (b\<lparr>fb_flash := s\<rparr>)) (\<lambda>e s. F e (b\<lparr>fb_flash := s\<rparr>)) (fb_flash b)"
  by (auto simp: wp_def on_flash_def split: prod.splits sum.splits)

text \<open>What lies between the data: the old contents when they are kept, else erased bytes.\<close>

definition gap_memory :: "'s flash_ops \<Rightarrow> bool \<Rightarrow> memory \<Rightarrow> memory" where
  "gap_memory D keep M = (if keep \<and> fr_readable (fo_region D) then M else (\<lambda>_. fr_erased_byte (fo_region D)))"

lemma mem_bytes_const: "mem_bytes (\<lambda>_. e) a n = replicate n e"
  by (simp add: mem_bytes_def map_replicate_const)

context flash_driver
begin

abbreviation P where "P \<equiv> ar_page_size (fo_region D)"
abbreviation S where "S \<equiv> ar_sector_size (fo_region D)"
abbreviation first where "first \<equiv> ar_start (fo_region D)"
abbreviation past where "past \<equiv> ar_end (fo_region D) + 1"
abbreviation blank where "blank \<equiv> fr_erased_byte (fo_region D)"

lemma sizes: "0 < P" "0 < S" "P dvd S" "S dvd first" "S dvd past" "P dvd first" "P dvd past" "P \<le> S"
  using geo by (auto simp: geometry_ok_def intro: dvd_trans zdvd_imp_le)

definition drv :: "memory \<Rightarrow> 's builder \<Rightarrow> bool" where
  "drv M b \<longleftrightarrow> sinv (fb_flash b) \<and> fmem (fb_flash b) = M \<and> (fb_algo_inited_for_read b \<or> fact (fb_flash b) = None)"

lemma drv_upd [simp]:
  "drv M (b\<lparr>fb_flash := s\<rparr>) \<longleftrightarrow> sinv s \<and> fmem s = M \<and> (fb_algo_inited_for_read b \<or> fact s = None)"
  "drv M (b\<lparr>fb_pages := ps\<rparr>) = drv M b" "drv M (b\<lparr>fb_sectors := cs\<rparr>) = drv M b"
  "drv M (b\<lparr>fb_program_byte_count := n\<rparr>) = drv M b" "drv M (b\<lparr>fb_prepared := r\<rparr>) = drv M b"
  "drv M (b\<lparr>fb_perf := pf\<rparr>) = drv M b" "drv M (set_page i f b) = drv M b"
  "drv M (b\<lparr>fb_last_erase_was_chip := r\<rparr>) = drv M b"
  by (simp_all add: drv_def set_page_def)

lemma enable_read_wp:
  assumes b: "drv M b"
  shows "wp (enable_read_access D) (\<lambda>_ b'. drv M b' \<and> same_layout b b' \<and> fb_program_byte_count b' = fb_program_byte_count b)
    (\<lambda>e _. derr e) b"
proof (cases "fb_algo_inited_for_read b")
  case False
  have s: "sinv (fb_flash b)" "fmem (fb_flash b) = M" "fact (fb_flash b) = None" using b False by (simp_all add: drv_def)
  let ?Q = "\<lambda>_ s'. drv M (b\<lparr>fb_flash := s', fb_algo_inited_for_read := True\<rparr>)"
  have post: "?Q () s'" if "sinv s'" "fmem s' = M" for s' using that by (simp add: drv_def)
  have again: "wp (fo_init D ERASE) ?Q (\<lambda>e _. derr e) s'" if "sinv s'" "fmem s' = M" for s'
    by (rule wp_mono [OF init_law [OF that(1)]]) (use that post in simp_all)
  have "wp (fo_init D VERIFY) ?Q
      (\<lambda>e s'. if is_flash_failure e then wp (fo_init D ERASE) ?Q (\<lambda>e _. derr e) s' else derr e) (fb_flash b)"
    by (rule wp_mono [OF init_law [OF s(1)]]) (use s again post in auto)
  then show ?thesis
    using False by (simp add: enable_read_access_def wp_on_flash if_distrib [of "\<lambda>f. f _"])
      (erule wp_mono, auto split: if_splits)
qed (use b in \<open>simp add: enable_read_access_def\<close>)

lemma read_wp:
  assumes "drv M b" and "0 \<le> n" and "first \<le> a" and "a + n \<le> past"
  shows "wp (on_flash (fo_read_block8 D a n)) (\<lambda>ds b'. drv M b' \<and> same_layout b b' \<and> ds = mem_bytes M a (nat n)
      \<and> fb_program_byte_count b' = fb_program_byte_count b) (\<lambda>e _. derr e) b"
  unfolding wp_on_flash
  by (rule wp_mono [OF read_law]) (use assms in \<open>auto simp: drv_def\<close>)

lemma old_data_wp:
  assumes "drv M b" and "0 \<le> n" and "first \<le> a" and "a + n \<le> past"
  shows "wp (old_data D keep a n) (\<lambda>ds b'. drv M b' \<and> same_layout b b' \<and> ds = mem_bytes (gap_memory D keep M) a (nat n)
      \<and> fb_program_byte_count b' = fb_program_byte_count b) (\<lambda>e _. derr e) b"
proof (cases "keep \<and> fr_readable (fo_region D)")
  case True
  have "wp (on_flash (fo_read_block8 D a n)) (\<lambda>ds b'. drv M b' \<and> same_layout b b' \<and> ds = mem_bytes (gap_memory D keep M) a (nat n)
      \<and> fb_program_byte_count b' = fb_program_byte_count b) (\<lambda>e _. derr e) b1"
    if "drv M b1" "same_layout b b1" "fb_program_byte_count b1 = fb_program_byte_count b" for b1
    by (rule wp_mono [OF read_wp [OF that(1) assms(2-4)]]) (use that True in \<open>auto simp: gap_memory_def same_layout_def\<close>)
  then show ?thesis
    using True by (simp add: old_data_def) (rule wp_mono [OF enable_read_wp [OF assms(1)]], auto)
next
  case False
  then show ?thesis using assms(1) by (auto simp: old_data_def gap_memory_def mem_bytes_const)
qed

end


subsection \<open>Laying out the data\<close>

text \<open>
  While the operations are placed, the pages before the last are full, the last one is filled up to the
  position \<open>f\<close>, every page holds the bytes of \<open>W\<close> at its place, and the sectors list the pages
  in order.
\<close>

definition page_built :: "flash_region \<Rightarrow> memory \<Rightarrow> flash_page \<Rightarrow> bool" where
  "page_built R W p \<longleftrightarrow> ar_page_size R dvd pg_addr p \<and> pg_size p = ar_page_size R
     \<and> pg_data p = mem_bytes W (pg_addr p) (length (pg_data p)) \<and> int (length (pg_data p)) \<le> ar_page_size R
     \<and> pg_same p = None \<and> pg_cached p = None \<and> pg_erased p = None"

definition page_full :: "flash_page \<Rightarrow> bool" where
  "page_full p \<longleftrightarrow> int (length (pg_data p)) = pg_size p"

definition sector_shape :: "flash_region \<Rightarrow> flash_sector \<Rightarrow> bool" where
  "sector_shape R c \<longleftrightarrow> sc_n_subsectors c = 1 \<and> sc_subsector_size c = ar_sector_size R \<and> ar_sector_size R dvd sc_addr c
     \<and> ar_start R \<le> sc_addr c \<and> sc_addr c + ar_sector_size R \<le> ar_end R + 1"

definition in_sector :: "flash_region \<Rightarrow> flash_sector \<Rightarrow> int \<Rightarrow> bool" where
  "in_sector R c a \<longleftrightarrow> sc_addr c \<le> a \<and> a < sc_addr c + ar_sector_size R"

definition sector_built :: "flash_region \<Rightarrow> flash_page list \<Rightarrow> flash_sector \<Rightarrow> bool" where
  "sector_built R pages c \<longleftrightarrow> sector_shape R c \<and> sc_max_page_count c = ar_sector_size R div ar_page_size R
     \<and> sc_pages c \<noteq> [] \<and> (\<forall>i \<in> set (sc_pages c). i < length pages \<and> in_sector R c (pg_addr (pages ! i)))"

definition page_end :: "flash_page list \<Rightarrow> int" where
  "page_end pages = pg_addr (last pages) + int (length (pg_data (last pages)))"

definition pages_built :: "flash_region \<Rightarrow> memory \<Rightarrow> flash_page list \<Rightarrow> bool" where
  "pages_built R W pages \<longleftrightarrow> pages \<noteq> [] \<and> list_all (page_built R W) pages \<and> list_all page_full (butlast pages)
     \<and> sorted_wrt (<) (map pg_addr pages)"

definition sectors_built :: "flash_region \<Rightarrow> flash_page list \<Rightarrow> flash_sector list \<Rightarrow> bool" where
  "sectors_built R pages secs \<longleftrightarrow> secs \<noteq> [] \<and> concat (map sc_pages secs) = [0..<length pages]
     \<and> list_all (sector_built R pages) secs \<and> sorted_wrt (<) (map sc_addr secs)"

lemma sc_size_shape: "sector_shape R c \<Longrightarrow> sc_size c = ar_sector_size R"
  by (simp add: sector_shape_def sc_size_def)

text \<open>Filling the last page up to a position.\<close>

lemma pages_fill:
  assumes "pages_built R W pages" and "page_end pages \<le> t" and "t \<le> pg_addr (last pages) + ar_page_size R"
    and "ds = mem_bytes W (page_end pages) (nat (t - page_end pages))"
    and "pages' = pages[length pages - 1 := (last pages)\<lparr>pg_data := pg_data (last pages) @ ds\<rparr>]"
  shows "pages_built R W pages'" and "page_end pages' = t" and "pg_addr (last pages') = pg_addr (last pages)"
    and "map pg_addr pages' = map pg_addr pages" and "pg_size (last pages') = ar_page_size R"
proof -
  obtain qs p where pages: "pages = qs @ [p]" using assms(1) by (metis pages_built_def rev_exhaust)
  let ?p = "p\<lparr>pg_data := pg_data p @ ds\<rparr>"
  have e: "pages' = qs @ [?p]" using assms(5) pages by (simp add: list_update_append)
  have p: "page_built R W p" using assms(1) pages by (simp add: pages_built_def)
  have f: "page_end pages = pg_addr p + int (length (pg_data p))" by (simp add: page_end_def pages)
  have len: "length (pg_data p @ ds) = length (pg_data p) + nat (t - page_end pages)" using assms(4) by simp
  have d: "pg_data p @ ds = mem_bytes W (pg_addr p) (length (pg_data p @ ds))"
    unfolding len mem_bytes_add using p assms(4) f by (simp add: page_built_def)
  have "page_built R W ?p"
    using p d len assms(2,3) f pages by (simp add: page_built_def)
  then show "pages_built R W pages'" using assms(1) by (simp add: pages_built_def e pages)
  show "page_end pages' = t" using len assms(2) f by (simp add: page_end_def e pages)
  show "pg_addr (last pages') = pg_addr (last pages)" "map pg_addr pages' = map pg_addr pages" by (simp_all add: e pages)
  show "pg_size (last pages') = ar_page_size R" using p by (simp add: e page_built_def)
qed

lemma sectors_same_addrs:
  assumes "map pg_addr pages' = map pg_addr pages"
  shows "sectors_built R pages' secs = sectors_built R pages secs" and "sector_built R pages' c = sector_built R pages c"
proof -
  have "length pages' = length pages" using assms by (metis length_map)
  moreover have "i < length pages \<Longrightarrow> pg_addr (pages' ! i) = pg_addr (pages ! i)" for i
    using assms calculation by (metis nth_map)
  ultimately have "sector_built R pages' c = sector_built R pages c" for c by (auto simp: sector_built_def)
  then have "sector_built R pages' = sector_built R pages" by blast
  then show "sectors_built R pages' secs = sectors_built R pages secs" and "sector_built R pages' c = sector_built R pages c"
    using \<open>length pages' = length pages\<close> by (simp_all add: sectors_built_def)
qed

text \<open>A new page after all others is added to the last sector.\<close>

lemma sector_add_ok:
  assumes "0 < ar_page_size R" and "ar_page_size R dvd ar_sector_size R" and "0 < ar_sector_size R"
    and c: "sector_shape R c" "sc_pages c \<noteq> [] \<Longrightarrow> sector_built R pages c"
    and pg: "pg_size pg = ar_page_size R" "ar_page_size R dvd pg_addr pg" "in_sector R c (pg_addr pg)"
    and old: "\<And>i. i \<in> set (sc_pages c) \<Longrightarrow> ar_page_size R dvd pg_addr (pages ! i) \<and> pg_addr (pages ! i) < pg_addr pg"
    and sorted: "sorted_wrt (<) (map (\<lambda>i. pg_addr (pages ! i)) (sc_pages c))"
  shows "\<exists>c'. sector_add_page (pages @ [pg]) (length pages) c = Inr c' \<and> sc_pages c' = sc_pages c @ [length pages]
    \<and> sc_addr c' = sc_addr c \<and> sector_built R (pages @ [pg]) c'"
proof -
  let ?max = "ar_sector_size R div ar_page_size R"
  let ?c = "if sc_pages c = [] then c\<lparr>sc_max_page_count := ?max\<rparr> else c"
  have sz: "sc_size c = ar_sector_size R" using c(1) by (rule sc_size_shape)
  have idx: "i < length pages" if "i \<in> set (sc_pages c)" for i
  proof -
    have "sc_pages c \<noteq> []" using that by auto
    then show ?thesis using c(2) that by (simp add: sector_built_def)
  qed
  have max: "sc_max_page_count ?c = ?max" using c(2) by (simp add: sector_built_def)
  let ?xs = "map (\<lambda>i. pg_addr (pages ! i)) (sc_pages c) @ [pg_addr pg]"
  have "sorted_wrt (<) ?xs" using sorted old by (auto simp: sorted_wrt_append)
  then have dist: "distinct ?xs" and srt: "sorted ?xs" by (simp_all only: strict_sorted_iff)
  have "int (length ?xs) \<le> ?max"
  proof (rule count_slots [OF assms(1,2) _ dist])
    show "ar_page_size R dvd sc_addr c" using c(1) assms(2) by (auto simp: sector_shape_def intro: dvd_trans)
    show "0 \<le> ?max" using assms by (simp add: pos_imp_zdiv_nonneg_iff)
    fix x assume x: "x \<in> set ?xs"
    show "ar_page_size R dvd x \<and> sc_addr c \<le> x \<and> x < sc_addr c + ar_sector_size R"
    proof (cases "x = pg_addr pg")
      case True
      then show ?thesis using pg by (simp add: in_sector_def)
    next
      case False
      then obtain i where i: "i \<in> set (sc_pages c)" "x = pg_addr (pages ! i)" using x by auto
      then have "sector_built R pages c" by (intro c(2)) auto
      then show ?thesis using i old by (auto simp: sector_built_def in_sector_def)
    qed
  qed
  then have room: "int (length (sc_pages ?c)) < sc_max_page_count ?c" using max by simp
  have key: "map (\<lambda>j. pg_addr ((pages @ [pg]) ! j)) (sc_pages c @ [length pages]) = ?xs"
    using idx by (simp add: nth_append)
  then have srt': "sort_key (\<lambda>j. pg_addr ((pages @ [pg]) ! j)) (sc_pages c @ [length pages]) = sc_pages c @ [length pages]"
    by (intro sort_key_id_if_sorted) (simp only: key srt)
  let ?c' = "?c\<lparr>sc_pages := sc_pages c @ [length pages]\<rparr>"
  have first: "(if sc_pages c = [] then res_bind (py_mod (sc_size c) (pg_size ((pages @ [pg]) ! length pages))) (\<lambda>m.
           if m \<noteq> 0 then Inl AssertionError else Inr (c\<lparr>sc_max_page_count := sc_size c div pg_size ((pages @ [pg]) ! length pages)\<rparr>))
       else Inr c) = (Inr ?c :: exn + flash_sector)"
    using assms(1,2) sz pg(1) by (simp add: py_mod_def dvd_eq_mod_eq_0)
  have "sector_add_page (pages @ [pg]) (length pages) c = Inr ?c'"
    unfolding sector_add_page_def first res_bind_simps using room srt' by simp
  moreover have "sector_built R (pages @ [pg]) ?c'"
    using c max pg by (auto simp: sector_built_def sector_shape_def nth_append in_sector_def dest: idx)
  ultimately show ?thesis by (intro exI [of _ ?c']) simp
qed


lemma last_sector_pages:
  assumes "sectors_built R pages secs" and "pages \<noteq> []"
  shows "length pages - 1 \<in> set (sc_pages (last secs))"
proof -
  obtain cs c where secs: "secs = cs @ [c]" using assms(1) by (metis sectors_built_def rev_exhaust)
  have c: "sc_pages c \<noteq> []" using assms(1) secs by (simp add: sectors_built_def sector_built_def)
  have "concat (map sc_pages cs) @ sc_pages c = [0..<length pages]" using assms(1) secs by (simp add: sectors_built_def)
  then have "last (sc_pages c) = length pages - 1" using c assms(2) by (metis last_appendR last_upt length_greater_0_conv)
  then show ?thesis using c secs by (metis last_in_set last_snoc)
qed

lemma last_page_in_sector:
  assumes "sectors_built R pages secs" and "pages \<noteq> []"
  shows "in_sector R (last secs) (pg_addr (last pages))" and "sector_shape R (last secs)"
proof -
  have "sector_built R pages (last secs)" using assms(1) by (simp add: sectors_built_def list_all_iff)
  then show "in_sector R (last secs) (pg_addr (last pages))" "sector_shape R (last secs)"
    using last_sector_pages [OF assms] assms(2) by (auto simp: sector_built_def last_conv_nth)
qed

lemma sorted_below_last: "sorted_wrt (<) (map f xs) \<Longrightarrow> x \<in> set xs \<Longrightarrow> f x \<le> (f (last xs) :: int)"
  by (induction xs) (auto simp: less_imp_le)

lemma sorted_sub:
  assumes "sorted_wrt (<) (map pg_addr pages)" and "concat (map sc_pages secs) = [0..<length pages]" and "c \<in> set secs"
  shows "sorted_wrt (<) (map (\<lambda>i. pg_addr (pages ! i)) (sc_pages c))"
proof -
  obtain xs ys where "secs = xs @ c # ys" using assms(3) by (meson split_list)
  then have "[0..<length pages] = concat (map sc_pages xs) @ sc_pages c @ concat (map sc_pages ys)" using assms(2) by simp
  moreover have "sorted_wrt (<) (map (\<lambda>i. pg_addr (pages ! i)) [0..<length pages])"
  proof -
    have "map (\<lambda>i. pg_addr (pages ! i)) [0..<length pages] = map pg_addr (map ((!) pages) [0..<length pages])" by simp
    then show ?thesis using assms(1) by (simp only: map_nth)
  qed
  ultimately show ?thesis by (simp add: sorted_wrt_append)
qed

lemma sorted_snoc: "sorted_wrt (<) xs \<Longrightarrow> (\<And>y. y \<in> set xs \<Longrightarrow> y < x) \<Longrightarrow> sorted_wrt (<) (xs @ [x])"
  by (simp add: sorted_wrt_append)

text \<open>
  A full last page is followed by the page at \<open>a\<close>, in the last sector or in a new one \<open>c\<close>.
\<close>

lemma pages_snoc:
  assumes pb: "pages_built R W pages" and full: "page_end pages = pg_addr (last pages) + ar_page_size R"
    and pg: "page_built R W pg" "pg_data pg = []" "page_end pages \<le> pg_addr pg" and pos: "0 < ar_page_size R"
  shows "pages_built R W (pages @ [pg])" and "page_end (pages @ [pg]) = pg_addr pg"
proof -
  have "page_built R W (last pages)" using pb by (simp add: pages_built_def list_all_iff)
  then have "page_full (last pages)" using full by (simp add: page_full_def page_built_def page_end_def)
  moreover have "pages = butlast pages @ [last pages]" using pb by (simp add: pages_built_def)
  moreover have "list_all page_full (butlast pages)" using pb by (simp add: pages_built_def)
  ultimately have all: "list_all page_full pages" by (metis list_all_append list.pred_inject)
  have "y < pg_addr pg" if "y \<in> set (map pg_addr pages)" for y
    using that sorted_below_last [of pg_addr pages] pb full pg(3) pos by (fastforce simp: pages_built_def)
  then show "pages_built R W (pages @ [pg])"
    using pb all pg(1) by (auto simp: pages_built_def sorted_wrt_append)
  show "page_end (pages @ [pg]) = pg_addr pg" by (simp add: page_end_def pg(2))
qed

lemma sector_built_more: "sector_built R pages c \<Longrightarrow> sector_built R (pages @ [pg]) c"
  by (auto simp: sector_built_def nth_append)

lemma sectors_snoc_last:
  assumes "0 < ar_page_size R" and "ar_page_size R dvd ar_sector_size R" and "0 < ar_sector_size R"
    and pb: "pages_built R W pages" and full: "page_end pages = pg_addr (last pages) + ar_page_size R"
    and sb: "sectors_built R pages secs"
    and pg: "pg_size pg = ar_page_size R" "ar_page_size R dvd pg_addr pg" "page_end pages \<le> pg_addr pg"
    and ins: "in_sector R (last secs) (pg_addr pg)"
  shows "\<exists>c'. sector_add_page (pages @ [pg]) (length pages) (secs ! (length secs - 1)) = Inr c'
    \<and> sectors_built R (pages @ [pg]) (secs[length secs - 1 := c'])"
proof -
  obtain cs c where secs: "secs = cs @ [c]" using sb by (metis sectors_built_def rev_exhaust)
  have c: "sector_built R pages c" using sb secs by (simp add: sectors_built_def)
  have old: "ar_page_size R dvd pg_addr (pages ! i) \<and> pg_addr (pages ! i) < pg_addr pg" if "i \<in> set (sc_pages c)" for i
  proof -
    have i: "pages ! i \<in> set pages" using that c by (simp add: sector_built_def)
    then have "pg_addr (pages ! i) \<le> pg_addr (last pages)" using sorted_below_last [of pg_addr pages] pb by (simp add: pages_built_def)
    moreover have "ar_page_size R dvd pg_addr (pages ! i)" using pb i by (simp add: pages_built_def list_all_iff page_built_def)
    ultimately show ?thesis using full pg(3) assms(1) by simp
  qed
  have "sorted_wrt (<) (map (\<lambda>i. pg_addr (pages ! i)) (sc_pages c))"
    by (rule sorted_sub [where secs = secs]) (use pb sb secs in \<open>simp_all add: pages_built_def sectors_built_def\<close>)
  from sector_add_ok [OF assms(1-3) _ c pg(1,2) _ old this]
  obtain c' where c': "sector_add_page (pages @ [pg]) (length pages) c = Inr c'" "sc_pages c' = sc_pages c @ [length pages]"
    "sc_addr c' = sc_addr c" "sector_built R (pages @ [pg]) c'"
    using c ins secs by (auto simp: sector_built_def)
  have "sectors_built R (pages @ [pg]) (cs @ [c'])"
    using sb c' secs by (auto simp: sectors_built_def list_all_iff intro: sector_built_more)
  then show ?thesis using c'(1) secs by (auto simp: nth_append list_update_append)
qed

lemma sectors_snoc_new:
  assumes "0 < ar_page_size R" and "ar_page_size R dvd ar_sector_size R" and "0 < ar_sector_size R"
    and sb: "sectors_built R pages secs" and c: "sector_shape R c" "sc_pages c = []"
    and after: "sc_addr (last secs) + ar_sector_size R \<le> sc_addr c"
    and pg: "pg_size pg = ar_page_size R" "ar_page_size R dvd pg_addr pg" "in_sector R c (pg_addr pg)"
  shows "\<exists>c'. sector_add_page (pages @ [pg]) (length pages) ((secs @ [c]) ! (length (secs @ [c]) - 1)) = Inr c'
    \<and> sectors_built R (pages @ [pg]) ((secs @ [c])[length (secs @ [c]) - 1 := c'])"
proof -
  from sector_add_ok [OF assms(1-3) c(1) _ pg, of pages] c(2)
  obtain c' where c': "sector_add_page (pages @ [pg]) (length pages) c = Inr c'" "sc_pages c' = [length pages]"
    "sc_addr c' = sc_addr c" "sector_built R (pages @ [pg]) c'" by auto
  have "y < sc_addr c" if "y \<in> set (map sc_addr secs)" for y
    using that sorted_below_last [of sc_addr secs] sb after assms(3) by (fastforce simp: sectors_built_def)
  then have "sectors_built R (pages @ [pg]) (secs @ [c'])"
    using sb c' by (auto simp: sectors_built_def list_all_iff intro: sector_built_more sorted_snoc)
  then show ?thesis using c'(1) by (auto simp: nth_append list_update_append)
qed


text \<open>Bytes the pages hold, and how they grow.\<close>

definition page_area :: "flash_page list \<Rightarrow> int set" where
  "page_area pages = (\<Union>p \<in> set pages. {pg_addr p..<pg_addr p + int (length (pg_data p))})"

lemma page_area_append: "page_area (ps @ qs) = page_area ps \<union> page_area qs"
  by (simp add: page_area_def)

lemma page_area_fill:
  assumes "pages \<noteq> []" and "page_end pages \<le> t" and "length ds = nat (t - page_end pages)"
    and "pages' = pages[length pages - 1 := (last pages)\<lparr>pg_data := pg_data (last pages) @ ds\<rparr>]"
  shows "page_area pages' = page_area pages \<union> {page_end pages..<t}"
proof -
  obtain qs p where pages: "pages = qs @ [p]" using assms(1) by (metis rev_exhaust)
  show ?thesis using assms(2,3) unfolding assms(4)
    by (auto simp: pages list_update_append page_area_append) (auto simp: page_area_def page_end_def)
qed

lemma page_area_snoc: "pg_data pg = [] \<Longrightarrow> page_area (pages @ [pg]) = page_area pages"
  by (simp add: page_area_append) (simp add: page_area_def)

definition laid :: "flash_region \<Rightarrow> memory \<Rightarrow> 's builder \<Rightarrow> bool" where
  "laid R W b \<longleftrightarrow> pages_built R W (fb_pages b) \<and> sectors_built R (fb_pages b) (fb_sectors b)"

lemma same_layout_laid:
  "same_layout b b' \<Longrightarrow> fb_pages b' = fb_pages b" "same_layout b b' \<Longrightarrow> fb_sectors b' = fb_sectors b"
  "same_layout b b' \<Longrightarrow> laid R W b' = laid R W b"
  by (simp_all add: same_layout_def laid_def)

text \<open>The addresses of the data.\<close>

definition op_area :: "(int \<times> int list) list \<Rightarrow> int set" where
  "op_area ops = (\<Union>(a, d) \<in> set ops. {a..<a + int (length d)})"

context flash_driver
begin

definition upto :: "memory \<Rightarrow> memory \<Rightarrow> int \<Rightarrow> int set \<Rightarrow> 's builder \<Rightarrow> bool" where
  "upto M W f A b \<longleftrightarrow> drv M b \<and> laid (fo_region D) W b \<and> page_end (fb_pages b) = f \<and> page_area (fb_pages b) = A"

lemma in_region:
  assumes "laid (fo_region D) W b"
  shows "first \<le> pg_addr (last (fb_pages b))" and "pg_addr (last (fb_pages b)) + P \<le> past"
    and "pg_addr (last (fb_pages b)) + P \<le> sc_addr (last (fb_sectors b)) + S" and "sc_addr (last (fb_sectors b)) \<le> pg_addr (last (fb_pages b))"
    and "P dvd pg_addr (last (fb_pages b))" and "pg_size (last (fb_pages b)) = P" and "page_end (fb_pages b) \<le> pg_addr (last (fb_pages b)) + P"
    and "pg_addr (last (fb_pages b)) \<le> page_end (fb_pages b)" and "sc_size (last (fb_sectors b)) = S" and "fb_pages b \<noteq> []"
proof -
  let ?p = "last (fb_pages b)" and ?c = "last (fb_sectors b)"
  have ne: "fb_pages b \<noteq> []" using assms by (simp add: laid_def pages_built_def)
  have p: "page_built (fo_region D) W ?p" using assms ne by (simp add: laid_def pages_built_def list_all_iff)
  have c: "in_sector (fo_region D) ?c (pg_addr ?p)" "sector_shape (fo_region D) ?c"
    using last_page_in_sector [of _ "fb_pages b"] assms ne by (auto simp: laid_def)
  have "pg_addr ?p + P \<le> sc_addr ?c + S"
  proof (rule multiple_gap [OF sizes(1)])
    have "P dvd sc_addr ?c" using c(2) sizes(3) by (auto simp: sector_shape_def intro: dvd_trans)
    then show "P dvd sc_addr ?c + S" using sizes(3) by simp
    show "P dvd pg_addr ?p + P" using p by (simp add: page_built_def)
    show "pg_addr ?p + P < sc_addr ?c + S + P" using c(1) by (simp add: in_sector_def)
  qed
  then show "first \<le> pg_addr ?p" "pg_addr ?p + P \<le> past" "pg_addr ?p + P \<le> sc_addr ?c + S" "sc_addr ?c \<le> pg_addr ?p"
    "P dvd pg_addr ?p" "pg_size ?p = P" "page_end (fb_pages b) \<le> pg_addr ?p + P" "pg_addr ?p \<le> page_end (fb_pages b)"
    "sc_size ?c = S" "fb_pages b \<noteq> []"
    using p c ne by (auto simp: in_sector_def sector_shape_def page_built_def page_end_def sc_size_def)
qed

text \<open>Filling the current page with what was there, and appending data to it.\<close>

definition filled :: "memory \<Rightarrow> memory \<Rightarrow> 's builder \<Rightarrow> int \<Rightarrow> 's builder \<Rightarrow> bool" where
  "filled M W b f b' \<longleftrightarrow> drv M b' \<and> pages_built (fo_region D) W (fb_pages b') \<and> fb_sectors b' = fb_sectors b
     \<and> map pg_addr (fb_pages b') = map pg_addr (fb_pages b) \<and> page_end (fb_pages b') = f
     \<and> page_area (fb_pages b') = page_area (fb_pages b) \<union> {page_end (fb_pages b)..<f}"

lemma filled_last: "filled M W b f b' \<Longrightarrow> fb_pages b \<noteq> [] \<Longrightarrow> pg_addr (last (fb_pages b')) = pg_addr (last (fb_pages b))"
  by (metis filled_def last_map map_is_Nil_conv)

lemma filled_laid: "filled M W b f b' \<Longrightarrow> laid (fo_region D) W b \<Longrightarrow> laid (fo_region D) W b'"
  using sectors_same_addrs(1) [of "fb_pages b'" "fb_pages b"] by (simp add: filled_def laid_def)

lemma append_data_wp:
  assumes b: "drv M b" "pages_built (fo_region D) W (fb_pages b)"
    and ds: "ds = mem_bytes W (page_end (fb_pages b)) (nat n)" and n: "0 \<le> n"
    and fits: "page_end (fb_pages b) + n \<le> pg_addr (last (fb_pages b)) + P"
  shows "wp (append_data ds n) (\<lambda>_ b'. filled M W b (page_end (fb_pages b) + n) b') E b"
proof -
  let ?pages = "(fb_pages b)[length (fb_pages b) - 1 := (last (fb_pages b))\<lparr>pg_data := pg_data (last (fb_pages b)) @ ds\<rparr>]"
  have ne: "fb_pages b \<noteq> []" using b(2) by (simp add: pages_built_def)
  note fill = pages_fill [OF b(2) _ fits, of ds ?pages]
  have "page_area ?pages = page_area (fb_pages b) \<union> {page_end (fb_pages b)..<page_end (fb_pages b) + n}"
    by (rule page_area_fill [OF ne]) (use ds n in simp_all)
  then show ?thesis
    using b(1) fill ds n ne by (simp add: append_data_def set_page_def last_conv_nth filled_def)
qed

lemma fill_to_wp:
  assumes b: "drv M b" "pages_built (fo_region D) W (fb_pages b)"
    and t: "page_end (fb_pages b) \<le> t" "t \<le> pg_addr (last (fb_pages b)) + P"
    and in_region: "first \<le> pg_addr (last (fb_pages b))" "pg_addr (last (fb_pages b)) + P \<le> past"
    and gap: "\<And>x. page_end (fb_pages b) \<le> x \<Longrightarrow> x < t \<Longrightarrow> W x = gap_memory D keep M x"
  shows "wp (fill_to D keep t) (\<lambda>_ b'. filled M W b t b') (\<lambda>e _. derr e) b"
proof (cases "t = page_end (fb_pages b)")
  case True
  then show ?thesis using b by (simp add: fill_to_def page_end_def [symmetric] Let_def filled_def)
next
  case False
  let ?f = "page_end (fb_pages b)"
  have start: "first \<le> ?f" using in_region(1) by (simp add: page_end_def)
  have W: "mem_bytes (gap_memory D keep M) ?f (nat (t - ?f)) = mem_bytes W ?f (nat (t - ?f))"
    by (rule mem_bytes_cong) (use gap t(1) in simp)
  have app: "wp (append_data ds (t - ?f)) (\<lambda>_ b'. filled M W b t b') (\<lambda>e _. derr e) b1"
    if "drv M b1" "same_layout b b1" "ds = mem_bytes W ?f (nat (t - ?f))" for ds b1
  proof -
    have same: "fb_pages b1 = fb_pages b" "fb_sectors b1 = fb_sectors b" using that(2) by (simp_all add: same_layout_laid)
    have "wp (append_data ds (t - ?f)) (\<lambda>_ b'. filled M W b1 (page_end (fb_pages b1) + (t - ?f)) b') (\<lambda>e _. derr e) b1"
      by (rule append_data_wp) (use that same b t in simp_all)
    then show ?thesis by (rule wp_mono) (simp_all add: filled_def same)
  qed
  have old: "wp (old_data D keep ?f (t - ?f)) (\<lambda>ds b1. drv M b1 \<and> same_layout b b1 \<and> ds = mem_bytes (gap_memory D keep M) ?f (nat (t - ?f))
      \<and> fb_program_byte_count b1 = fb_program_byte_count b) (\<lambda>e _. derr e) b"
    by (rule old_data_wp) (use b t start in_region in simp_all)
  have "wp (old_data D keep ?f (t - ?f)) (\<lambda>ds. wp (append_data ds (t - ?f)) (\<lambda>_ b'. filled M W b t b') (\<lambda>e _. derr e)) (\<lambda>e _. derr e) b"
    by (rule wp_mono [OF old]) (use app W in auto)
  then show ?thesis using False by (simp add: fill_to_def page_end_def [symmetric] Let_def)
qed

lemma fill_end_wp:
  assumes b: "drv M b" "pages_built (fo_region D) W (fb_pages b)"
    and in_region: "first \<le> pg_addr (last (fb_pages b))" "pg_addr (last (fb_pages b)) + P \<le> past"
    and gap: "\<And>x. page_end (fb_pages b) \<le> x \<Longrightarrow> x < pg_addr (last (fb_pages b)) + P \<Longrightarrow> W x = gap_memory D keep M x"
  shows "wp (fill_end_of_page_gap D keep) (\<lambda>_ b'. filled M W b (pg_addr (last (fb_pages b)) + P) b') (\<lambda>e _. derr e) b"
proof -
  have p: "page_built (fo_region D) W (last (fb_pages b))" using b(2) by (simp add: pages_built_def list_all_iff)
  then show ?thesis using fill_to_wp [OF b _ _ in_region gap, of "pg_addr (last (fb_pages b)) + P"]
    by (simp add: fill_end_of_page_gap_def page_built_def page_end_def)
qed

text \<open>The page at \<open>a\<close>, and moving on to it.\<close>

definition base :: "int \<Rightarrow> int" where "base a = a div P * P"

lemma base_page: "P dvd base a" "base a \<le> a" "a < base a + P"
  using align_bounds [OF sizes(1), of a] by (simp_all add: base_def)

lemma base_above: "P dvd x \<Longrightarrow> x \<le> a \<Longrightarrow> x \<le> base a"
  by (rule multiple_gap [OF sizes(1)]) (use base_page [of a] in auto)

lemma base_below: "P dvd x \<Longrightarrow> a < x \<Longrightarrow> base a + P \<le> x"
  by (rule multiple_gap [OF sizes(1)]) (use base_page [of a] in auto)

definition info_at :: "int \<Rightarrow> page_info" where
  "info_at a = \<lparr>pi_base_addr = base a, pi_program_weight = ar_program_page_weight (fo_region D), pi_size = P\<rparr>"

lemma info_at_ok: "first \<le> a \<Longrightarrow> a < past \<Longrightarrow> need_page_info D a = Inr (info_at a)"
  using need_page_info_ok [OF geo, of a] by (simp add: area_contains_def info_at_def base_def)

lemma new_page: "page_built (fo_region D) W (FlashPage (info_at a))" "pg_data (FlashPage (info_at a)) = []"
  "pg_addr (FlashPage (info_at a)) = base a" "pg_size (FlashPage (info_at a)) = P"
  using sizes(1) base_page(1) by (simp_all add: page_built_def FlashPage_def info_at_def)

lemma next_page_new:
  assumes b: "drv M b" "pages_built (fo_region D) W (fb_pages b)"
    and region: "first \<le> pg_addr (last (fb_pages b))" "a < past"
    and beyond: "pg_addr (last (fb_pages b)) + P \<le> a"
    and gap: "\<And>x. page_end (fb_pages b) \<le> x \<Longrightarrow> x < a \<Longrightarrow> W x = gap_memory D keep M x"
    and add: "\<And>pages. map pg_addr pages = map pg_addr (fb_pages b) \<Longrightarrow> pages_built (fo_region D) W pages \<Longrightarrow>
       page_end pages = pg_addr (last pages) + P \<Longrightarrow>
       \<exists>c. sector_add_page (pages @ [FlashPage (info_at a)]) (length pages) (fb_sectors b ! (length (fb_sectors b) - 1)) = Inr c
         \<and> sectors_built (fo_region D) (pages @ [FlashPage (info_at a)]) ((fb_sectors b)[length (fb_sectors b) - 1 := c])"
  shows "wp (next_page D keep pinfo a)
      (\<lambda>i b'. drv M b' \<and> laid (fo_region D) W b' \<and> page_end (fb_pages b') = base a \<and> pg_addr (last (fb_pages b')) = base a
        \<and> page_area (fb_pages b) \<subseteq> page_area (fb_pages b') \<and> pi_size i = P) (\<lambda>e _. derr e) b"
proof -
  let ?p = "last (fb_pages b)" and ?pg = "FlashPage (info_at a)"
  let ?Q = "\<lambda>i b'. drv M b' \<and> laid (fo_region D) W b' \<and> page_end (fb_pages b') = base a \<and> pg_addr (last (fb_pages b')) = base a
        \<and> page_area (fb_pages b) \<subseteq> page_area (fb_pages b') \<and> pi_size i = P"
  have p: "page_built (fo_region D) W ?p" "fb_pages b \<noteq> []" using b(2) by (simp_all add: pages_built_def list_all_iff)
  then have pv: "P dvd pg_addr ?p" "pg_size ?p = P" by (simp_all add: page_built_def)
  have pb: "pg_addr ?p + P \<le> base a" by (rule base_above) (use pv beyond in simp_all)
  have app: "wp (add_page (length (fb_sectors b1) - 1) ?pg) (\<lambda>_. ?Q (info_at a)) (\<lambda>e _. derr e) b1"
    if f: "filled M W b (pg_addr ?p + P) b1" for b1
  proof -
    have l: "pg_addr (last (fb_pages b1)) = pg_addr ?p" using filled_last [OF f p(2)] .
    have b1: "pages_built (fo_region D) W (fb_pages b1)" "page_end (fb_pages b1) = pg_addr (last (fb_pages b1)) + P"
      "map pg_addr (fb_pages b1) = map pg_addr (fb_pages b)" "fb_sectors b1 = fb_sectors b" "drv M b1"
      "page_area (fb_pages b) \<subseteq> page_area (fb_pages b1)"
      using f l by (auto simp: filled_def)
    obtain c where c: "sector_add_page (fb_pages b1 @ [?pg]) (length (fb_pages b1)) (fb_sectors b ! (length (fb_sectors b) - 1)) = Inr c"
      "sectors_built (fo_region D) (fb_pages b1 @ [?pg]) ((fb_sectors b)[length (fb_sectors b) - 1 := c])"
      using add [OF b1(3,1,2)] by blast
    have snoc: "pages_built (fo_region D) W (fb_pages b1 @ [?pg])" "page_end (fb_pages b1 @ [?pg]) = pg_addr ?pg"
      by (rule pages_snoc [OF b1(1,2) new_page(1,2) _ sizes(1)], use b1(2) l pb new_page(3) in simp)+
    show ?thesis
      using c snoc b1 new_page by (simp add: add_page_def laid_def page_area_snoc) (simp add: info_at_def)
  qed
  have info: "need_page_info D a = Inr (info_at a)" by (rule info_at_ok) (use region beyond sizes(1) in simp_all)
  have upper: "pg_addr ?p + P \<le> past" using beyond region(2) by simp
  have gap': "W x = gap_memory D keep M x" if "page_end (fb_pages b) \<le> x" "x < pg_addr ?p + P" for x using gap that beyond by simp
  have "wp (fill_end_of_page_gap D keep) (\<lambda>_ b1. wp (add_page (length (fb_sectors b1) - 1) ?pg) (\<lambda>_. ?Q (info_at a)) (\<lambda>e _. derr e) b1)
      (\<lambda>e _. derr e) b"
    by (rule wp_mono [OF fill_end_wp [OF b region(1) upper gap']]) (use app in auto)
  then show ?thesis using pv beyond by (simp add: next_page_def Let_def info)
qed

definition new_sector :: "int \<Rightarrow> flash_sector" where
  "new_sector a = FlashSector \<lparr>si_base_addr = a div S * S, si_erase_weight = ar_erase_sector_weight (fo_region D), si_size = S\<rparr> 1"

lemma new_sector_ok:
  assumes "first \<le> a" and "a < past"
  shows "sector_shape (fo_region D) (new_sector a)" and "sc_pages (new_sector a) = []" and "in_sector (fo_region D) (new_sector a) (base a)"
    and "sc_addr (new_sector a) = a div S * S"
proof -
  have b: "a div S * S \<le> a" "a < a div S * S + S" using align_bounds [OF sizes(2), of a] by simp_all
  have "first \<le> a div S * S" by (rule multiple_gap [OF sizes(2)]) (use sizes b assms in auto)
  moreover have "a div S * S + S \<le> past" by (rule multiple_gap [OF sizes(2)]) (use sizes b assms in auto)
  ultimately show "sector_shape (fo_region D) (new_sector a)" by (simp add: sector_shape_def new_sector_def FlashSector_def)
  have "P dvd a div S * S" using sizes(3) by (meson dvd_trans dvd_triv_right)
  then show "in_sector (fo_region D) (new_sector a) (base a)"
    using base_above [of "a div S * S" a] base_page(2) [of a] b by (simp add: in_sector_def new_sector_def FlashSector_def)
qed (simp_all add: new_sector_def FlashSector_def)

lemma begin_sector_wp:
  assumes "first \<le> a" and "a < past" and "pi_size i = P"
  shows "wp (bind (lift_res (need_sector_info D a)) (\<lambda>s. begin_sector D s i)) Q E b
    = Q () (b\<lparr>fb_sectors := fb_sectors b @ [new_sector a]\<rparr>)"
  using assms sizes(8) need_sector_info_ok [OF geo, of a]
  by (simp add: area_contains_def begin_sector_def create_flash_sector_def new_sector_def)

text \<open>Moving on to the sector and page of \<open>a\<close>.\<close>

lemma move_on_wp:
  assumes b: "drv M b" "laid (fo_region D) W b" and i: "pi_size i = P" and region: "page_end (fb_pages b) \<le> a" "a < past"
    and gap: "\<And>x. page_end (fb_pages b) \<le> x \<Longrightarrow> x < a \<Longrightarrow> W x = gap_memory D keep M x"
  shows "wp (bind (next_sector D i a) (\<lambda>_. next_page D keep i a)) (\<lambda>i' b'. drv M b' \<and> laid (fo_region D) W b'
      \<and> page_end (fb_pages b') \<le> a \<and> pg_addr (last (fb_pages b')) \<le> a \<and> a < pg_addr (last (fb_pages b')) + P
      \<and> page_area (fb_pages b) \<subseteq> page_area (fb_pages b') \<and> pi_size i' = P \<and> page_end (fb_pages b) \<le> page_end (fb_pages b'))
    (\<lambda>e _. derr e) b"
proof -
  note R = in_region [OF b(2)]
  let ?p = "last (fb_pages b)" and ?c = "last (fb_sectors b)"
  have l: "pages_built (fo_region D) W (fb_pages b)" "sectors_built (fo_region D) (fb_pages b) (fb_sectors b)"
    using b(2) by (simp_all add: laid_def)
  have a: "first \<le> a" using R region by simp
  note arith = sizes(1,3,2)
  have post: "wp (next_page D keep i a) (\<lambda>i' b'. drv M b' \<and> laid (fo_region D) W b'
      \<and> page_end (fb_pages b') \<le> a \<and> pg_addr (last (fb_pages b')) \<le> a \<and> a < pg_addr (last (fb_pages b')) + P
      \<and> page_area (fb_pages b) \<subseteq> page_area (fb_pages b') \<and> pi_size i' = P \<and> page_end (fb_pages b) \<le> page_end (fb_pages b'))
      (\<lambda>e _. derr e) b1"
    if beyond: "pg_addr ?p + P \<le> a" and b1: "drv M b1" "fb_pages b1 = fb_pages b"
      and add: "\<And>pages. map pg_addr pages = map pg_addr (fb_pages b) \<Longrightarrow> pages_built (fo_region D) W pages \<Longrightarrow>
       page_end pages = pg_addr (last pages) + P \<Longrightarrow>
       \<exists>c. sector_add_page (pages @ [FlashPage (info_at a)]) (length pages) (fb_sectors b1 ! (length (fb_sectors b1) - 1)) = Inr c
         \<and> sectors_built (fo_region D) (pages @ [FlashPage (info_at a)]) ((fb_sectors b1)[length (fb_sectors b1) - 1 := c])" for b1
  proof (rule wp_mono [OF next_page_new [OF b1(1) _ _ region(2) _ _ add]])
    have "page_end (fb_pages b) \<le> base a" using base_above [of "pg_addr ?p + P" a] R beyond by simp
    then show "drv M s' \<and> laid (fo_region D) W s' \<and> page_end (fb_pages s') \<le> a \<and> pg_addr (last (fb_pages s')) \<le> a \<and>
       a < pg_addr (last (fb_pages s')) + P \<and> page_area (fb_pages b) \<subseteq> page_area (fb_pages s') \<and> pi_size x = P \<and>
       page_end (fb_pages b) \<le> page_end (fb_pages s')"
      if "drv M s' \<and> laid (fo_region D) W s' \<and> page_end (fb_pages s') = base a \<and> pg_addr (last (fb_pages s')) = base a \<and>
        page_area (fb_pages b1) \<subseteq> page_area (fb_pages s') \<and> pi_size x = P" for x s'
      using that base_page [of a] b1(2) by simp
  qed (use l R beyond gap b1(2) in simp_all)
  show ?thesis
  proof (cases "a < pg_addr ?p + P")
    case True
    then have "a < sc_addr ?c + S" using R by simp
    then show ?thesis using b i region R True by (simp add: next_sector_def next_page_def Let_def)
  next
    case beyond: False
    show ?thesis
    proof (cases "sc_addr ?c + S \<le> a")
      case True
      let ?b = "b\<lparr>fb_sectors := fb_sectors b @ [new_sector a]\<rparr>"
      note n = new_sector_ok [OF a region(2)]
      have after: "sc_addr ?c + S \<le> sc_addr (new_sector a)"
        unfolding n(4) by (rule multiple_gap [OF sizes(2)])
          (use l(2) align_bounds [OF sizes(2), of a] True in \<open>auto simp: sectors_built_def list_all_iff sector_built_def sector_shape_def\<close>)
      have "wp (next_page D keep i a) (\<lambda>i' b'. drv M b' \<and> laid (fo_region D) W b'
        \<and> page_end (fb_pages b') \<le> a \<and> pg_addr (last (fb_pages b')) \<le> a \<and> a < pg_addr (last (fb_pages b')) + P
        \<and> page_area (fb_pages b) \<subseteq> page_area (fb_pages b') \<and> pi_size i' = P \<and> page_end (fb_pages b) \<le> page_end (fb_pages b'))
        (\<lambda>e _. derr e) ?b"
      proof (rule post)
        fix pages :: "flash_page list" assume 1: "map pg_addr pages = map pg_addr (fb_pages b)"
        have sb: "sectors_built (fo_region D) pages (fb_sectors b)" using sectors_same_addrs(1) [OF 1] l(2) by simp
        show "\<exists>c. sector_add_page (pages @ [FlashPage (info_at a)]) (length pages) (fb_sectors ?b ! (length (fb_sectors ?b) - 1)) = Inr c
         \<and> sectors_built (fo_region D) (pages @ [FlashPage (info_at a)]) ((fb_sectors ?b)[length (fb_sectors ?b) - 1 := c])"
          using sectors_snoc_new [OF arith sb n(1,2) after, of "FlashPage (info_at a)"] new_page base_page n(3) by simp
      qed (use beyond b in simp_all)
      then show ?thesis using True R begin_sector_wp [OF a region(2) i, where b = b] by (simp add: next_sector_def Let_def)
    next
      case False
      have "wp (next_page D keep i a) (\<lambda>i' b'. drv M b' \<and> laid (fo_region D) W b'
        \<and> page_end (fb_pages b') \<le> a \<and> pg_addr (last (fb_pages b')) \<le> a \<and> a < pg_addr (last (fb_pages b')) + P
        \<and> page_area (fb_pages b) \<subseteq> page_area (fb_pages b') \<and> pi_size i' = P \<and> page_end (fb_pages b) \<le> page_end (fb_pages b'))
        (\<lambda>e _. derr e) b"
      proof (rule post)
        fix pages assume 1: "map pg_addr pages = map pg_addr (fb_pages b)" and 2: "pages_built (fo_region D) W pages"
          and 3: "page_end pages = pg_addr (last pages) + P"
        have sb: "sectors_built (fo_region D) pages (fb_sectors b)" using sectors_same_addrs(1) [OF 1] l(2) by simp
        have lp: "pg_addr (last pages) = pg_addr ?p" using 1 R(10) by (metis last_map map_is_Nil_conv)
        have pb: "page_end pages \<le> base a" using base_above [of "pg_addr ?p + P" a] R beyond 3 lp by simp
        have "in_sector (fo_region D) ?c (base a)"
          using pb 3 lp R False base_page(2) [of a] sizes(1) by (simp add: in_sector_def)
        then show "\<exists>c. sector_add_page (pages @ [FlashPage (info_at a)]) (length pages) (fb_sectors b ! (length (fb_sectors b) - 1)) = Inr c
         \<and> sectors_built (fo_region D) (pages @ [FlashPage (info_at a)]) ((fb_sectors b)[length (fb_sectors b) - 1 := c])"
          using sectors_snoc_last [OF arith 2 3 sb, of "FlashPage (info_at a)"] new_page base_page pb by simp
      qed (use beyond b in simp_all)
      then show ?thesis using False R by (simp add: next_sector_def Let_def)
    qed
  qed
qed

definition placed :: "memory \<Rightarrow> memory \<Rightarrow> 's builder \<Rightarrow> int set \<Rightarrow> page_info \<Rightarrow> 's builder \<Rightarrow> bool" where
  "placed M W b A i b' \<longleftrightarrow> drv M b' \<and> laid (fo_region D) W b' \<and> page_area (fb_pages b) \<union> A \<subseteq> page_area (fb_pages b') \<and> pi_size i = P"

lemma append_amount_wp:
  assumes b: "drv M b" "laid (fo_region D) W b" and a: "page_end (fb_pages b) = a" "a < pg_addr (last (fb_pages b)) + P"
    and ds: "ds \<noteq> []" "mem_bytes W a (length ds) = ds"
    and amount: "amount = min (P - int (length (pg_data (last (fb_pages b))))) (int (length ds))"
  shows "0 < amount" and "wp (append_data (take (nat amount) ds) amount) (\<lambda>_ b'. drv M b' \<and> laid (fo_region D) W b'
    \<and> page_end (fb_pages b') = a + amount \<and> page_area (fb_pages b') = page_area (fb_pages b) \<union> {a..<a + amount}) E b"
proof -
  have len: "P - int (length (pg_data (last (fb_pages b)))) = pg_addr (last (fb_pages b)) + P - a" using a(1) by (simp add: page_end_def)
  have n: "0 < int (length ds)" using ds(1) by simp
  show pos: "0 < amount" unfolding amount len using a(2) n by (simp add: min_def)
  have "take (nat amount) (mem_bytes W a (length ds)) = mem_bytes W a (nat amount)"
  proof -
    have "amount \<le> int (length ds)" unfolding amount by simp
    then have "min (nat amount) (length ds) = nat amount" by simp
    then show ?thesis by (simp add: take_mem_bytes)
  qed
  then have tk: "take (nat amount) ds = mem_bytes W a (nat amount)" using ds(2) by simp
  have fits: "a + amount \<le> pg_addr (last (fb_pages b)) + P" using amount len by linarith
  have "wp (append_data (take (nat amount) ds) amount) (\<lambda>_ b'. filled M W b (page_end (fb_pages b) + amount) b') E b"
    by (rule append_data_wp) (use b a tk pos fits in \<open>simp_all add: laid_def\<close>)
  then show "wp (append_data (take (nat amount) ds) amount) (\<lambda>_ b'. drv M b' \<and> laid (fo_region D) W b'
    \<and> page_end (fb_pages b') = a + amount \<and> page_area (fb_pages b') = page_area (fb_pages b) \<union> {a..<a + amount}) E b"
    by (rule wp_mono) (use filled_laid [OF _ b(2)] a in \<open>auto simp: filled_def\<close>)
qed

lemma place_data_wp:
  assumes "drv M b" "laid (fo_region D) W b" and "pi_size i = P" and "page_end (fb_pages b) \<le> a" and "a + int (length ds) \<le> past"
    and "mem_bytes W a (length ds) = ds"
    and "\<And>x. page_end (fb_pages b) \<le> x \<Longrightarrow> x < a \<Longrightarrow> W x = gap_memory D keep M x"
  shows "wp (place_data D keep i a ds) (\<lambda>i' b'. placed M W b {a..<a + int (length ds)} i' b'
      \<and> page_end (fb_pages b') = (if ds = [] then page_end (fb_pages b) else a + int (length ds))) (\<lambda>e _. derr e) b"
  using assms
proof (induction "length ds" arbitrary: ds a b i rule: less_induct)
  case less
  let ?E = "\<lambda>e (_ :: 's builder). derr e"
  let ?Q = "\<lambda>i' b'. placed M W b {a..<a + int (length ds)} i' b'
      \<and> page_end (fb_pages b') = (if ds = [] then page_end (fb_pages b) else a + int (length ds))"
  show ?case
  proof (cases "ds = []")
    case True
    then show ?thesis using less.prems by (subst place_data.simps) (simp add: placed_def)
  next
    case False
    have tail: "wp (place_data D keep i' (a + amount) (drop (nat amount) ds)) ?Q ?E b3"
      if b3: "drv M b3" "laid (fo_region D) W b3" "page_end (fb_pages b3) = a + amount" "page_area (fb_pages b) \<union> {a..<a + amount} \<subseteq> page_area (fb_pages b3)"
        and n: "0 < amount" "amount \<le> int (length ds)" and i': "pi_size i' = P" for b3 i' amount
    proof -
      have m: "mem_bytes W (a + amount) (length (drop (nat amount) ds)) = drop (nat amount) ds"
        using less.prems(6) n drop_mem_bytes [of "nat amount" W a "length ds"] by simp
      have "wp (place_data D keep i' (a + amount) (drop (nat amount) ds))
        (\<lambda>i' b'. placed M W b3 {a + amount..<a + amount + int (length (drop (nat amount) ds))} i' b'
          \<and> page_end (fb_pages b') = (if drop (nat amount) ds = [] then page_end (fb_pages b3) else a + amount + int (length (drop (nat amount) ds)))) ?E b3"
        by (rule less.hyps) (use b3 n i' m less.prems(5) in auto)
      then show ?thesis
      proof (rule wp_mono)
        fix x s' assume 1: "placed M W b3 {a + amount..<a + amount + int (length (drop (nat amount) ds))} x s'
          \<and> page_end (fb_pages s') = (if drop (nat amount) ds = [] then page_end (fb_pages b3) else a + amount + int (length (drop (nat amount) ds)))"
        have l: "a + amount + int (length (drop (nat amount) ds)) = a + int (length ds)" using n by simp
        have "{a..<a + int (length ds)} = {a..<a + amount} \<union> {a + amount..<a + int (length ds)}" using n by auto
        moreover have "drop (nat amount) ds = [] \<Longrightarrow> amount = int (length ds)" using n by simp
        ultimately show "?Q x s'" using 1 b3 False unfolding l by (auto simp: placed_def)
      qed simp
    qed
    have step: "wp (fill_to D keep a) (\<lambda>_ b2. wp (let amount = min (pi_size i' - int (length (pg_data (last (fb_pages b2))))) (int (length ds)) in
          if amount \<le> 0 then raise Diverges
          else bind (append_data (take (nat amount) ds) amount) (\<lambda>_. place_data D keep i' (a + amount) (drop (nat amount) ds))) ?Q ?E b2) ?E b1"
      if b1: "drv M b1" "laid (fo_region D) W b1" "page_end (fb_pages b1) \<le> a" "pg_addr (last (fb_pages b1)) \<le> a"
        "a < pg_addr (last (fb_pages b1)) + P" "page_area (fb_pages b) \<subseteq> page_area (fb_pages b1)" "pi_size i' = P"
        "page_end (fb_pages b) \<le> page_end (fb_pages b1)" for b1 i'
    proof (rule wp_mono [OF fill_to_wp [OF b1(1)]])
      note R = in_region [OF b1(2)]
      show "pages_built (fo_region D) W (fb_pages b1)" using b1(2) by (simp add: laid_def)
      show "page_end (fb_pages b1) \<le> a" "a \<le> pg_addr (last (fb_pages b1)) + P" "first \<le> pg_addr (last (fb_pages b1))"
        "pg_addr (last (fb_pages b1)) + P \<le> past" using b1 R by simp_all
      show "W x = gap_memory D keep M x" if "page_end (fb_pages b1) \<le> x" "x < a" for x using less.prems(7) that b1(8) by simp
      fix u b2 assume f: "filled M W b1 a b2"
      let ?amount = "min (P - int (length (pg_data (last (fb_pages b2))))) (int (length ds))"
      have b2: "drv M b2" "laid (fo_region D) W b2" "page_end (fb_pages b2) = a" "a < pg_addr (last (fb_pages b2)) + P"
        "page_area (fb_pages b) \<subseteq> page_area (fb_pages b2)"
        using f b1 filled_laid [OF f b1(2)] filled_last [OF f R(10)] by (auto simp: filled_def)
      obtain amount where am: "amount = ?amount" by simp
      note app = append_amount_wp [OF b2(1-4) False less.prems(6) am]
      have "amount \<le> int (length ds)" unfolding am by simp
      then have "wp (place_data D keep i' (a + amount) (drop (nat amount) ds)) ?Q ?E b3"
        if "drv M b3 \<and> laid (fo_region D) W b3 \<and> page_end (fb_pages b3) = a + amount \<and> page_area (fb_pages b3) = page_area (fb_pages b2) \<union> {a..<a + amount}" for b3
        using that tail [of b3 amount i'] app(1) b1(7) b2(5) by blast
      then have "wp (append_data (take (nat ?amount) ds) ?amount) (\<lambda>_ b3. wp (place_data D keep i' (a + ?amount) (drop (nat ?amount) ds)) ?Q ?E b3) ?E b2"
        unfolding am [symmetric] by (intro wp_mono [OF app(2)]) simp_all
      then show "wp (let amount = min (pi_size i' - int (length (pg_data (last (fb_pages b2))))) (int (length ds)) in
          if amount \<le> 0 then raise Diverges
          else bind (append_data (take (nat amount) ds) amount) (\<lambda>_. place_data D keep i' (a + amount) (drop (nat amount) ds))) ?Q ?E b2"
        using app(1) by (simp add: Let_def b1(7) am [symmetric])
    qed simp
    have "wp (bind (next_sector D i a) (\<lambda>_. next_page D keep i a)) (\<lambda>i' b1. wp (fill_to D keep a) (\<lambda>_ b2.
        wp (let amount = min (pi_size i' - int (length (pg_data (last (fb_pages b2))))) (int (length ds)) in
          if amount \<le> 0 then raise Diverges
          else bind (append_data (take (nat amount) ds) amount) (\<lambda>_. place_data D keep i' (a + amount) (drop (nat amount) ds))) ?Q ?E b2) ?E b1) ?E b"
    proof (rule wp_mono [OF move_on_wp [OF less.prems(1-4) _ less.prems(7)]])
      have "0 < int (length ds)" using False by simp
      then show "a < past" using less.prems(5) by linarith
    qed (use step in auto)
    then show ?thesis using False by (subst place_data.simps) simp
  qed
qed

text \<open>All operations in turn.\<close>

lemma op_area_Cons: "op_area ((a, d) # ops) = {a..<a + int (length d)} \<union> op_area ops"
  by (simp add: op_area_def)

lemma op_area_later: "ops_ok (fo_region D) ((a, d) # ops) \<Longrightarrow> x \<in> op_area ops \<Longrightarrow> a + int (length d) \<le> x"
  using ops_later [of "fo_region D" a d ops] by (fastforce simp: op_area_def)

lemma place_operations_wp:
  assumes "drv M b" "laid (fo_region D) W b" and "pi_size i = P" and "ops_ok (fo_region D) ops"
    and "ops \<noteq> [] \<Longrightarrow> page_end (fb_pages b) \<le> fst (hd ops)"
    and "\<And>a d. (a, d) \<in> set ops \<Longrightarrow> mem_bytes W a (length d) = d"
    and "\<And>x. page_end (fb_pages b) \<le> x \<Longrightarrow> x \<notin> op_area ops \<Longrightarrow> W x = gap_memory D keep M x"
  shows "wp (place_operations D keep i ops) (\<lambda>_ b'. drv M b' \<and> laid (fo_region D) W b'
      \<and> page_area (fb_pages b) \<union> op_area ops \<subseteq> page_area (fb_pages b')
      \<and> (\<forall>x. page_end (fb_pages b') \<le> x \<longrightarrow> W x = gap_memory D keep M x)) (\<lambda>e _. derr e) b"
  using assms
proof (induction ops arbitrary: b i)
  case Nil
  then show ?case by (simp add: op_area_def)
next
  case (Cons q ops)
  obtain a d where q: "q = (a, d)" by (cases q)
  let ?E = "\<lambda>e (_ :: 's builder). derr e"
  have ok: "d \<noteq> []" "a + int (length d) \<le> past" using Cons.prems(4) by (simp_all add: q ops_ok_def)
  have ops: "ops_ok (fo_region D) ops" using ops_ok_Cons Cons.prems(4) q by blast
  have gap: "W x = gap_memory D keep M x" if "page_end (fb_pages b) \<le> x" "x < a" for x
  proof (rule Cons.prems(7) [OF that(1)])
    show "x \<notin> op_area (q # ops)"
      using that(2) op_area_later [of a d ops x] Cons.prems(4) by (auto simp: q op_area_Cons)
  qed
  have next_a: "a + int (length d) \<le> fst (hd ops)" if "ops \<noteq> []"
    using ops_later [of "fo_region D" a d ops "fst (hd ops)" "snd (hd ops)"] Cons.prems(4) that q by simp
  have rest: "wp (place_operations D keep i' ops) (\<lambda>_ b'. drv M b' \<and> laid (fo_region D) W b'
      \<and> page_area (fb_pages b) \<union> op_area (q # ops) \<subseteq> page_area (fb_pages b')
      \<and> (\<forall>x. page_end (fb_pages b') \<le> x \<longrightarrow> W x = gap_memory D keep M x)) ?E b1"
    if b1: "placed M W b {a..<a + int (length d)} i' b1" "page_end (fb_pages b1) = a + int (length d)" for i' b1
  proof (rule wp_mono [OF Cons.IH [of b1 i']])
    show "drv M b1" "laid (fo_region D) W b1" "pi_size i' = P" using b1 by (simp_all add: placed_def)
    show "page_end (fb_pages b1) \<le> fst (hd ops)" if "ops \<noteq> []" using next_a that b1(2) by simp
    show "mem_bytes W a' (length d') = d'" if "(a', d') \<in> set ops" for a' d' using Cons.prems(6) that by simp
    show "W x = gap_memory D keep M x" if "page_end (fb_pages b1) \<le> x" "x \<notin> op_area ops" for x
      using that b1(2) Cons.prems(5) ok(1) by (intro Cons.prems(7)) (auto simp: q op_area_Cons)
  qed (use ops b1 q in \<open>auto simp: placed_def op_area_Cons\<close>)
  have "wp (place_data D keep i a d) (\<lambda>i'. wp (place_operations D keep i' ops) (\<lambda>_ b'. drv M b' \<and> laid (fo_region D) W b'
      \<and> page_area (fb_pages b) \<union> op_area (q # ops) \<subseteq> page_area (fb_pages b')
      \<and> (\<forall>x. page_end (fb_pages b') \<le> x \<longrightarrow> W x = gap_memory D keep M x)) ?E) ?E b"
    by (rule wp_mono [OF place_data_wp [OF Cons.prems(1-3) _ ok(2) _ gap]]) (use Cons.prems(5,6) rest ok(1) q in auto)
  then show ?case by (simp add: q)
qed

lemma first_page_wp:
  assumes b: "drv M b" "fb_pages b = []" "fb_sectors b = []" and a: "first \<le> a" "a < past"
  shows "wp (add_first_page (FlashPage (info_at a)) (new_sector a))
    (\<lambda>_ b'. drv M b' \<and> laid (fo_region D) W b' \<and> page_end (fb_pages b') = base a) E b"
proof -
  let ?pg = "FlashPage (info_at a)"
  note n = new_sector_ok [OF a] and pg = new_page(1) [of W a] new_page(2-4) [of a] and arith = sizes(1,3,2)
  obtain c where c: "sector_add_page ([] @ [?pg]) (length ([] :: flash_page list)) (new_sector a) = Inr c" "sc_pages c = [0]"
    "sector_built (fo_region D) ([] @ [?pg]) c"
    using sector_add_ok [OF arith n(1), of "[]" ?pg] n(2,3) pg base_page(1) [of a] by auto
  have "pages_built (fo_region D) W [?pg]" using pg(1) by (simp add: pages_built_def)
  moreover have "sectors_built (fo_region D) [?pg] [c]" using c(2,3) by (simp add: sectors_built_def)
  ultimately show ?thesis using b c(1) pg(2,3) by (simp add: add_first_page_def laid_def page_end_def)
qed

definition target_memory :: "bool \<Rightarrow> (int \<times> int list) list \<Rightarrow> memory \<Rightarrow> memory" where
  "target_memory keep ops M = written ops (gap_memory D keep M)"

lemma target_outside: "x \<notin> op_area ops \<Longrightarrow> target_memory keep ops M x = gap_memory D keep M x"
  unfolding target_memory_def by (rule written_outside) (fastforce simp: op_area_def)

lemma target_inside: "ops_ok (fo_region D) ops \<Longrightarrow> (a, d) \<in> set ops \<Longrightarrow> mem_bytes (target_memory keep ops M) a (length d) = d"
  unfolding target_memory_def by (rule written_inside)

definition all_placed :: "memory \<Rightarrow> memory \<Rightarrow> int set \<Rightarrow> 's builder \<Rightarrow> bool" where
  "all_placed M W A b \<longleftrightarrow> drv M b \<and> laid (fo_region D) W b \<and> page_end (fb_pages b) = pg_addr (last (fb_pages b)) + P
     \<and> A \<subseteq> page_area (fb_pages b)"

lemma build_wp:
  assumes b: "drv M b" "fb_pages b = []" "fb_sectors b = []" and ops: "ops_ok (fo_region D) (fb_operations b)" "fb_operations b \<noteq> []"
    and W: "W = target_memory keep (fb_operations b) M"
    and fill: "\<And>b'. all_placed M W (op_area (fb_operations b)) b' \<Longrightarrow>
      wp (if keep \<and> fr_readable (fo_region D) then fill_unwritten_sector_pages D else ret ()) Q (\<lambda>e _. derr e) b'"
  shows "wp (build_sectors_and_pages D keep) Q (\<lambda>e _. derr e) b"
proof -
  obtain a d rest where q: "fb_operations b = (a, d) # rest" using ops(2) by (cases "fb_operations b") auto
  let ?b = "b\<lparr>fb_program_byte_count := 0\<rparr>" and ?E = "\<lambda>e (_ :: 's builder). derr e" and ?ops = "fb_operations b"
  have a: "first \<le> a" "a < past" using ops(1) q by (simp_all add: ops_ok_def) (use length_greater_0_conv [of d] in linarith)
  let ?fill = "if keep \<and> fr_readable (fo_region D) then fill_unwritten_sector_pages D else ret ()"
  have last: "wp (fill_end_of_page_gap D keep) (\<lambda>_. wp ?fill Q ?E) ?E b2"
    if b2: "drv M b2 \<and> laid (fo_region D) W b2 \<and> page_area (fb_pages b1) \<union> op_area ?ops \<subseteq> page_area (fb_pages b2)
        \<and> (\<forall>x. page_end (fb_pages b2) \<le> x \<longrightarrow> W x = gap_memory D keep M x)" for b1 b2
  proof (rule wp_mono [OF fill_end_wp])
    have l: "laid (fo_region D) W b2" using b2 by simp
    note R = in_region [OF l]
    show "drv M b2" "pages_built (fo_region D) W (fb_pages b2)" using b2 by (simp_all add: laid_def)
    show "first \<le> pg_addr (last (fb_pages b2))" "pg_addr (last (fb_pages b2)) + P \<le> past" using R by simp_all
    show "W x = gap_memory D keep M x" if "page_end (fb_pages b2) \<le> x" for x using b2 that by simp
    fix u b3 assume f: "filled M W b2 (pg_addr (last (fb_pages b2)) + P) b3"
    have "all_placed M W (op_area ?ops) b3"
      using f b2 filled_laid [OF f l] filled_last [OF f R(10)] unfolding all_placed_def by (auto simp: filled_def)
    then show "wp ?fill Q ?E b3" by (rule fill)
  qed simp
  have ops_wp: "wp (place_operations D keep (info_at a) ?ops) (\<lambda>_. wp (fill_end_of_page_gap D keep) (\<lambda>_. wp ?fill Q ?E) ?E) ?E b1"
    if b1: "drv M b1 \<and> laid (fo_region D) W b1 \<and> page_end (fb_pages b1) = base a" for b1
  proof (rule wp_mono [OF place_operations_wp])
    show "drv M b1" "laid (fo_region D) W b1" using b1 by simp_all
    show "page_end (fb_pages b1) \<le> fst (hd ?ops)" using b1 q base_page(2) [of a] by simp
    show "mem_bytes W a' (length d') = d'" if "(a', d') \<in> set ?ops" for a' d' unfolding W by (rule target_inside [OF ops(1) that])
    show "W x = gap_memory D keep M x" if "x \<notin> op_area ?ops" for x unfolding W by (rule target_outside [OF that])
    fix u b2 assume "drv M b2 \<and> laid (fo_region D) W b2 \<and> page_area (fb_pages b1) \<union> op_area ?ops \<subseteq> page_area (fb_pages b2)
        \<and> (\<forall>x. page_end (fb_pages b2) \<le> x \<longrightarrow> W x = gap_memory D keep M x)"
    then show "wp (fill_end_of_page_gap D keep) (\<lambda>_. wp ?fill Q ?E) ?E b2" by (rule last)
  qed (use ops in \<open>simp_all add: info_at_def\<close>)
  have "wp (add_first_page (FlashPage (info_at a)) (new_sector a))
      (\<lambda>_. wp (place_operations D keep (info_at a) ?ops) (\<lambda>_. wp (fill_end_of_page_gap D keep) (\<lambda>_. wp ?fill Q ?E) ?E) ?E) ?E ?b"
  proof (rule wp_mono [OF first_page_wp [where W = W]])
    show "drv M ?b" "fb_pages ?b = []" "fb_sectors ?b = []" "first \<le> a" "a < past" using b a by simp_all
  qed (rule ops_wp)
  then show ?thesis
    using ops(2) a need_sector_info_ok [OF geo, of a] info_at_ok [OF a] sizes(8)
    by (simp add: build_sectors_and_pages_def q Let_def area_contains_def create_flash_sector_def new_sector_def)
      (simp add: info_at_def)
qed

end

end
