(* ===== verification/Flash_Fill.thy ===== *)
theory Flash_Fill
  imports Flash_Layout
begin

text \<open>
  Completing the sectors: with unwritten data kept, every page of a sector is in the list, those the
  operations do not touch with the flash's own contents.
\<close>

subsection \<open>Sectors with pages in any order of the page list\<close>

definition page_ok :: "flash_region \<Rightarrow> memory \<Rightarrow> memory \<Rightarrow> flash_page \<Rightarrow> bool" where
  "page_ok R W M p \<longleftrightarrow> ar_page_size R dvd pg_addr p \<and> pg_size p = ar_page_size R
     \<and> pg_data p = mem_bytes W (pg_addr p) (nat (ar_page_size R)) \<and> pg_cached p = None
     \<and> (pg_same p = None \<or> pg_same p = Some True \<and> pg_data p = mem_bytes M (pg_addr p) (nat (ar_page_size R)))"

definition sector_addrs :: "flash_page list \<Rightarrow> flash_sector \<Rightarrow> int list" where
  "sector_addrs pages c = map (\<lambda>i. pg_addr (pages ! i)) (sc_pages c)"

definition sector_ok :: "flash_region \<Rightarrow> flash_page list \<Rightarrow> flash_sector \<Rightarrow> bool" where
  "sector_ok R pages c \<longleftrightarrow> sector_shape R c \<and> sc_max_page_count c = ar_sector_size R div ar_page_size R
     \<and> sc_pages c \<noteq> [] \<and> (\<forall>i \<in> set (sc_pages c). i < length pages \<and> in_sector R c (pg_addr (pages ! i)))
     \<and> sorted_wrt (<) (sector_addrs pages c)"

definition layout_ok :: "flash_region \<Rightarrow> memory \<Rightarrow> memory \<Rightarrow> flash_page list \<Rightarrow> flash_sector list \<Rightarrow> bool" where
  "layout_ok R W M pages secs \<longleftrightarrow> list_all (page_ok R W M) pages \<and> list_all (sector_ok R pages) secs
     \<and> sorted_wrt (<) (map sc_addr secs) \<and> (\<Union>c \<in> set secs. set (sc_pages c)) = {..<length pages}"

lemma laid_layout_ok:
  assumes "laid R W b" and "page_end (fb_pages b) = pg_addr (last (fb_pages b)) + ar_page_size R"
  shows "layout_ok R W M (fb_pages b) (fb_sectors b)"
proof -
  let ?ps = "fb_pages b" and ?cs = "fb_sectors b"
  have p: "pages_built R W ?ps" and s: "sectors_built R ?ps ?cs" using assms(1) by (simp_all add: laid_def)
  have lp: "page_full (last ?ps)"
    using assms(2) p by (simp add: pages_built_def list_all_iff page_end_def page_full_def page_built_def)
  have "page_full q" if "q \<in> set ?ps" for q
  proof -
    have "set ?ps = set (butlast ?ps @ [last ?ps])" using p by (simp add: pages_built_def del: set_append)
    then show ?thesis using that p lp by (auto simp: pages_built_def list_all_iff)
  qed
  then have "page_ok R W M q" if "q \<in> set ?ps" for q
  proof -
    have b: "page_built R W q" using that p by (simp add: pages_built_def list_all_iff)
    have f: "int (length (pg_data q)) = ar_page_size R" using \<open>\<And>q. q \<in> set ?ps \<Longrightarrow> page_full q\<close> [OF that] b by (simp add: page_full_def page_built_def)
    then have l: "length (pg_data q) = nat (ar_page_size R)" by simp
    have "pg_data q = mem_bytes W (pg_addr q) (nat (ar_page_size R))" using b unfolding page_built_def l by blast
    then show ?thesis using b by (simp add: page_built_def page_ok_def)
  qed
  moreover have "sector_ok R ?ps c" if "c \<in> set ?cs" for c
    using that s p sorted_sub [of ?ps ?cs c]
    by (simp add: sectors_built_def list_all_iff sector_built_def sector_ok_def sector_addrs_def pages_built_def)
  moreover have "set (concat (map sc_pages ?cs)) = {..<length ?ps}" using s by (simp add: sectors_built_def lessThan_atLeast0)
  ultimately show ?thesis using s by (simp add: layout_ok_def list_all_iff sectors_built_def)
qed

lemma multiples_close:
  assumes "0 < (m::int)" and "m dvd a" and "m dvd b" and "a < b + m" and "b < a + m"
  shows "a = b"
  using multiple_gap [OF assms(1-4)] multiple_gap [OF assms(1) assms(3) assms(2) assms(5)] by simp

lemma sectors_apart:
  assumes "layout_ok R W M pages secs" and "0 < ar_sector_size R" and "c \<in> set secs" "c' \<in> set secs" and "in_sector R c x" "in_sector R c' x"
  shows "c' = c"
proof -
  have sh: "sector_shape R c" "sector_shape R c'" using assms(1,3,4) by (simp_all add: layout_ok_def list_all_iff sector_ok_def)
  have "sc_addr c' = sc_addr c"
    by (rule multiples_close [OF assms(2)]) (use sh assms(5,6) in \<open>auto simp: sector_shape_def in_sector_def\<close>)
  moreover have "distinct (map sc_addr secs)" using assms(1) by (simp add: layout_ok_def strict_sorted_iff)
  ultimately show ?thesis using assms(3,4) by (simp add: distinct_map inj_on_def)
qed

lemma page_of_sector:
  assumes "layout_ok R W M pages secs" and "0 < ar_sector_size R" and "c \<in> set secs" and "i < length pages" and "in_sector R c (pg_addr (pages ! i))"
  shows "i \<in> set (sc_pages c)"
proof -
  obtain c' where c': "c' \<in> set secs" "i \<in> set (sc_pages c')" using assms(1,4) by (auto simp: layout_ok_def)
  then have "in_sector R c' (pg_addr (pages ! i))" using assms(1) by (simp add: layout_ok_def list_all_iff sector_ok_def)
  then show ?thesis using sectors_apart [OF assms(1,2,3) c'(1) assms(5)] c'(2) by simp
qed

lemma in_sector_addrs: "a \<in> set (sector_addrs pages c) \<longleftrightarrow> (\<exists>i \<in> set (sc_pages c). pg_addr (pages ! i) = a)"
  by (auto simp: sector_addrs_def)

lemma no_page_at:
  assumes "layout_ok R W M pages secs" and "0 < ar_sector_size R" and "c \<in> set secs" and "in_sector R c a" and "a \<notin> set (sector_addrs pages c)"
    and "p \<in> set pages"
  shows "pg_addr p \<noteq> a"
proof
  assume a: "pg_addr p = a"
  obtain i where i: "i < length pages" "pages ! i = p" using assms(6) by (metis in_set_conv_nth)
  have "i \<in> set (sc_pages c)" using page_of_sector [OF assms(1-3) i(1)] assms(4) a i(2) by simp
  then show False using assms(5) a i(2) by (auto simp: in_sector_addrs)
qed

text \<open>A page in a free slot of a sector.\<close>

lemma strict_sort_key: "distinct (map f xs) \<Longrightarrow> sorted_wrt (<) (map f (sort_key f xs))"
  by (simp add: strict_sorted_iff distinct_map)

lemma UN_update: "k < length xs \<Longrightarrow> g (xs ! k) \<subseteq> g y \<Longrightarrow> (\<Union>x \<in> set (xs[k := y]). g x) = g y \<union> (\<Union>x \<in> set xs. g x)"
proof (induction xs arbitrary: k)
  case (Cons x xs)
  then show ?case by (cases k) auto
qed simp

lemma insert_page:
  assumes pos: "0 < ar_page_size R" "ar_page_size R dvd ar_sector_size R" "0 < ar_sector_size R"
    and ok: "layout_ok R W M pages secs" and k: "k < length secs" and pg: "page_ok R W M pg"
    and a: "in_sector R (secs ! k) (pg_addr pg)" "pg_addr pg \<notin> set (sector_addrs pages (secs ! k))"
  shows "\<exists>c. sector_add_page (pages @ [pg]) (length pages) (secs ! k) = Inr c \<and> layout_ok R W M (pages @ [pg]) (secs[k := c])
    \<and> sc_addr c = sc_addr (secs ! k) \<and> set (sector_addrs (pages @ [pg]) c) = insert (pg_addr pg) (set (sector_addrs pages (secs ! k)))"
proof -
  let ?c = "secs ! k" and ?max = "ar_sector_size R div ar_page_size R" and ?ps = "pages @ [pg]"
  have c: "sector_ok R pages ?c" using ok k by (simp add: layout_ok_def list_all_iff)
  have idx: "i < length pages" if "i \<in> set (sc_pages ?c)" for i using c that by (simp add: sector_ok_def)
  have key: "map (\<lambda>i. pg_addr (?ps ! i)) (sc_pages d) = sector_addrs pages d" if "sector_ok R pages d" for d
    using that by (simp add: sector_addrs_def nth_append sector_ok_def)
  let ?xs = "pg_addr pg # sector_addrs pages ?c"
  have dist: "distinct ?xs" using c a(2) by (simp add: sector_ok_def strict_sorted_iff)
  have "int (length ?xs) \<le> ?max"
  proof (rule count_slots [OF pos(1,2) _ dist])
    show "ar_page_size R dvd sc_addr ?c" using c pos(2) by (auto simp: sector_ok_def sector_shape_def intro: dvd_trans)
    show "0 \<le> ?max" using pos by (simp add: pos_imp_zdiv_nonneg_iff)
    fix x assume "x \<in> set ?xs"
    then consider "x = pg_addr pg" | i where "i \<in> set (sc_pages ?c)" "x = pg_addr (pages ! i)" by (auto simp: sector_addrs_def)
    then show "ar_page_size R dvd x \<and> sc_addr ?c \<le> x \<and> x < sc_addr ?c + ar_sector_size R"
    proof cases
      case 1
      then show ?thesis using pg a(1) by (simp add: page_ok_def in_sector_def)
    next
      case 2
      then have "pages ! i \<in> set pages" "in_sector R ?c x" using c by (simp_all add: sector_ok_def)
      then show ?thesis using ok 2 by (simp add: layout_ok_def list_all_iff page_ok_def in_sector_def)
    qed
  qed
  then have room: "int (length (sc_pages ?c)) < sc_max_page_count ?c" using c by (simp add: sector_ok_def sector_addrs_def)
  define js where "js = sort_key (\<lambda>j. pg_addr (?ps ! j)) (sc_pages ?c @ [length pages])"
  let ?new = "?c\<lparr>sc_pages := js\<rparr>"
  have add: "sector_add_page ?ps (length pages) ?c = Inr ?new"
    using c room by (simp add: sector_add_page_def sector_ok_def js_def)
  have sorted: "sorted_wrt (<) (map (\<lambda>j. pg_addr (?ps ! j)) js)"
    unfolding js_def by (rule strict_sort_key) (use dist in \<open>simp add: key [OF c]\<close>)
  have members: "set js = insert (length pages) (set (sc_pages ?c))" by (simp add: js_def)
  have "i < length ?ps \<and> in_sector R ?new (pg_addr (?ps ! i))" if "i \<in> set js" for i
    using that c a(1) idx unfolding members by (auto simp: sector_ok_def nth_append in_sector_def less_SucI)
  moreover have "js \<noteq> []" using members by auto
  ultimately have new: "sector_ok R ?ps ?new"
    using c sorted by (simp add: sector_ok_def sector_shape_def sector_addrs_def)
  have old: "sector_ok R ?ps d" if "sector_ok R pages d" for d
  proof -
    have "sector_addrs ?ps d = sector_addrs pages d" using key [OF that] by (simp add: sector_addrs_def)
    then show ?thesis using that by (simp add: sector_ok_def nth_append less_SucI)
  qed
  have all: "list_all (sector_ok R ?ps) (secs[k := ?new])"
    using ok old new set_update_subset_insert [of secs k "?new"] by (fastforce simp: layout_ok_def list_all_iff)
  have addrs: "map sc_addr (secs[k := ?new]) = map sc_addr secs" using k by (intro nth_equalityI) (auto simp: nth_list_update)
  have union: "(\<Union>d \<in> set (secs[k := ?new]). set (sc_pages d)) = {..<length ?ps}"
  proof -
    have "(\<Union>d \<in> set (secs[k := ?new]). set (sc_pages d)) = set js \<union> (\<Union>d \<in> set secs. set (sc_pages d))"
      by (subst UN_update [OF k]) (simp_all add: members subset_insertI)
    then show ?thesis using ok idx unfolding members by (auto simp: layout_ok_def lessThan_Suc)
  qed
  have "layout_ok R W M ?ps (secs[k := ?new])"
    using ok pg all addrs union by (simp add: layout_ok_def)
  moreover have "set (sector_addrs ?ps ?new) = insert (pg_addr pg) (set (sector_addrs pages ?c))"
    using idx unfolding sector_addrs_def by (simp add: members image_Un nth_append cong: image_cong)
  ultimately show ?thesis using add by (intro exI [of _ "?new"]) simp
qed

subsection \<open>Filling a sector\<close>

definition slot :: "flash_region \<Rightarrow> flash_sector \<Rightarrow> nat \<Rightarrow> int" where
  "slot R c j = sc_addr c + int j * ar_page_size R"

lemma slots_first:
  assumes "sorted_wrt (<) xs" and "0 < (P::int)" and "P dvd A" and "\<And>x. x \<in> set xs \<Longrightarrow> P dvd x \<and> A \<le> x"
    and "\<And>j. j < n \<Longrightarrow> A + int j * P \<in> set xs"
  shows "n \<le> length xs \<and> (\<forall>j < n. xs ! j = A + int j * P)"
  using assms
proof (induction xs arbitrary: A n)
  case Nil
  then show ?case by (cases n) auto
next
  case (Cons x xs)
  show ?case
  proof (cases n)
    case (Suc m)
    have "A \<in> set (x # xs)" using Cons.prems(5) [of 0] Suc by simp
    moreover have "A \<le> x" using Cons.prems(4) by simp
    ultimately have x: "x = A" using Cons.prems(1) by auto
    have above: "P dvd y \<and> A + P \<le> y" if "y \<in> set xs" for y
    proof -
      have "A < y" "P dvd y" using that Cons.prems(1,4) x by auto
      then show ?thesis using multiple_gap [of P "A + P" y] Cons.prems(2,3) by simp
    qed
    have later: "A + P + int j * P \<in> set xs" if "j < m" for j
    proof -
      have "A + int (Suc j) * P \<in> set (x # xs)" using Cons.prems(5) [of "Suc j"] that Suc by blast
      moreover have "0 < int (Suc j) * P" using Cons.prems(2) by simp
      ultimately show ?thesis using x by (auto simp: algebra_simps)
    qed
    have "m \<le> length xs \<and> (\<forall>j < m. xs ! j = A + P + int j * P)"
      by (rule Cons.IH) (use Cons.prems above later in auto)
    then show ?thesis using Suc x by (auto simp: less_Suc_eq_0_disj algebra_simps)
  qed simp
qed

definition grown :: "nat \<Rightarrow> int set \<Rightarrow> 's builder \<Rightarrow> 's builder \<Rightarrow> bool" where
  "grown k A b b' \<longleftrightarrow> length (fb_sectors b') = length (fb_sectors b) \<and> (\<forall>j < length (fb_sectors b).
     sc_addr (fb_sectors b' ! j) = sc_addr (fb_sectors b ! j)
     \<and> set (sector_addrs (fb_pages b') (fb_sectors b' ! j)) = set (sector_addrs (fb_pages b) (fb_sectors b ! j)) \<union> (if j = k then A else {}))"

lemma grown_refl: "grown k {} b b"
  by (simp add: grown_def)

lemma grown_trans: "grown k A b b1 \<Longrightarrow> grown k B b1 b2 \<Longrightarrow> grown k (A \<union> B) b b2"
  by (auto simp: grown_def)

lemma grown_sectors: "grown k A b b' \<Longrightarrow> length (fb_sectors b') = length (fb_sectors b)"
  "grown k A b b' \<Longrightarrow> j < length (fb_sectors b) \<Longrightarrow> sc_addr (fb_sectors b' ! j) = sc_addr (fb_sectors b ! j)"
  "grown k A b b' \<Longrightarrow> k < length (fb_sectors b) \<Longrightarrow>
    set (sector_addrs (fb_pages b') (fb_sectors b' ! k)) = set (sector_addrs (fb_pages b) (fb_sectors b ! k)) \<union> A"
  by (simp_all add: grown_def)

context flash_driver
begin

definition filling :: "memory \<Rightarrow> memory \<Rightarrow> int set \<Rightarrow> 's builder \<Rightarrow> bool" where
  "filling M W A b \<longleftrightarrow> drv M b \<and> layout_ok (fo_region D) W M (fb_pages b) (fb_sectors b) \<and> A \<subseteq> page_area (fb_pages b)"

abbreviation addrs where "addrs b k \<equiv> sector_addrs (fb_pages b) (fb_sectors b ! k)"
abbreviation slot_at where "slot_at b k \<equiv> slot (fo_region D) (fb_sectors b ! k)"

lemma filling_sector:
  assumes "filling M W A b" and "k < length (fb_sectors b)"
  shows "sector_ok (fo_region D) (fb_pages b) (fb_sectors b ! k)" and "P dvd sc_addr (fb_sectors b ! k)"
    and "\<And>x. x \<in> set (addrs b k) \<Longrightarrow> P dvd x \<and> sc_addr (fb_sectors b ! k) \<le> x \<and> x < sc_addr (fb_sectors b ! k) + S"
    and "int (length (addrs b k)) \<le> S div P" and "sc_size (fb_sectors b ! k) = S"
proof -
  let ?c = "fb_sectors b ! k"
  show c: "sector_ok (fo_region D) (fb_pages b) ?c" using assms by (simp add: filling_def layout_ok_def list_all_iff)
  show d: "P dvd sc_addr ?c" using c sizes(3) by (auto simp: sector_ok_def sector_shape_def intro: dvd_trans)
  show a: "P dvd x \<and> sc_addr ?c \<le> x \<and> x < sc_addr ?c + S" if x: "x \<in> set (addrs b k)" for x
  proof -
    obtain i where i: "i \<in> set (sc_pages ?c)" "x = pg_addr (fb_pages b ! i)" using x by (auto simp: sector_addrs_def)
    then have "fb_pages b ! i \<in> set (fb_pages b)" "in_sector (fo_region D) ?c x" using c by (simp_all add: sector_ok_def)
    then show ?thesis using assms(1) i(2) by (simp add: filling_def layout_ok_def list_all_iff page_ok_def in_sector_def)
  qed
  have "distinct (addrs b k)" using c by (simp add: sector_ok_def strict_sorted_iff)
  then show "int (length (addrs b k)) \<le> S div P"
    by (rule count_slots [OF sizes(1,3) d]) (use a sizes in \<open>auto simp: pos_imp_zdiv_nonneg_iff\<close>)
  show "sc_size ?c = S" using c by (simp add: sector_ok_def sc_size_shape)
qed

lemma slots_of_sector:
  assumes "filling M W A b" and "k < length (fb_sectors b)" and "\<And>j. j < n \<Longrightarrow> slot_at b k j \<in> set (addrs b k)"
  shows "n \<le> length (addrs b k)" and "\<And>j. j < n \<Longrightarrow> addrs b k ! j = slot_at b k j"
proof -
  note F = filling_sector [OF assms(1,2)]
  have "n \<le> length (addrs b k) \<and> (\<forall>j < n. addrs b k ! j = sc_addr (fb_sectors b ! k) + int j * P)"
    by (rule slots_first) (use F sizes(1) assms(3) in \<open>auto simp: sector_ok_def slot_def\<close>)
  then show "n \<le> length (addrs b k)" and "\<And>j. j < n \<Longrightarrow> addrs b k ! j = slot_at b k j" by (simp_all add: slot_def)
qed

lemma add_existing_wp:
  assumes b: "filling M W A b" "k < length (fb_sectors b)" and outside: "\<And>x. x \<notin> A \<Longrightarrow> W x = M x"
    and j: "int j * P < S" "slot_at b k j \<notin> set (addrs b k)"
  shows "wp (add_page_with_existing_data D k (slot_at b k j))
    (\<lambda>n b'. n = P \<and> filling M W A b' \<and> grown k {slot_at b k j} b b') (\<lambda>e _. derr e) b"
proof -
  let ?c = "fb_sectors b ! k" and ?a = "slot_at b k j"
  note F = filling_sector [OF b]
  have shape: "sector_shape (fo_region D) ?c" using F(1) by (simp add: sector_ok_def)
  have dvd: "P dvd ?a" using F(2) by (simp add: slot_def)
  have insec: "in_sector (fo_region D) ?c ?a" using j(1) sizes(1) by (simp add: in_sector_def slot_def)
  have "?a + P \<le> sc_addr ?c + S"
    by (rule multiple_gap [OF sizes(1)]) (use dvd F(2) sizes(3) insec in \<open>auto simp: in_sector_def\<close>)
  then have region: "first \<le> ?a" "?a + P \<le> past" using shape insec by (auto simp: sector_shape_def in_sector_def)
  have l: "layout_ok (fo_region D) W M (fb_pages b) (fb_sectors b)" and dM: "drv M b" and A: "A \<subseteq> page_area (fb_pages b)"
    using b(1) by (simp_all add: filling_def)
  have same: "W x = M x" if x: "?a \<le> x" "x < ?a + P" for x
  proof (rule outside, rule notI)
    assume "x \<in> A"
    then obtain p where p: "p \<in> set (fb_pages b)" "pg_addr p \<le> x" "x < pg_addr p + int (length (pg_data p))"
      using A by (auto simp: page_area_def)
    have pok: "page_ok (fo_region D) W M p" using l p(1) by (simp add: layout_ok_def list_all_iff)
    then have len: "int (length (pg_data p)) = P" using sizes(1) by (simp add: page_ok_def)
    have "pg_addr p = ?a"
      by (rule multiples_close [OF sizes(1)]) (use pok dvd p x len in \<open>auto simp: page_ok_def\<close>)
    moreover have "pg_addr p \<noteq> ?a"
      by (rule no_page_at [OF l sizes(2) _ insec j(2) p(1)]) (use b(2) in simp)
    ultimately show False by simp
  qed
  let ?i = "info_at ?a" and ?pg = "(FlashPage (info_at ?a))\<lparr>pg_data := mem_bytes M ?a (nat P), pg_same := Some True\<rparr>"
  have base: "base ?a = ?a"
    by (rule multiples_close [OF sizes(1) base_page(1) dvd]) (use base_page(2,3) [of ?a] sizes(1) in linarith)+
  have info: "need_page_info D ?a = Inr ?i" by (rule info_at_ok) (use region sizes(1) in simp_all)
  have WM: "mem_bytes W ?a (nat P) = mem_bytes M ?a (nat P)" by (rule mem_bytes_cong) (use same sizes(1) in simp)
  have pg: "page_ok (fo_region D) W M ?pg" "pg_addr ?pg = ?a"
    using dvd WM by (simp_all add: page_ok_def FlashPage_def info_at_def base)
  obtain c where c: "sector_add_page (fb_pages b @ [?pg]) (length (fb_pages b)) ?c = Inr c"
    "layout_ok (fo_region D) W M (fb_pages b @ [?pg]) ((fb_sectors b)[k := c])"
    "sc_addr c = sc_addr ?c" "set (sector_addrs (fb_pages b @ [?pg]) c) = insert ?a (set (addrs b k))"
    using insert_page [OF sizes(1,3,2) l b(2) pg(1)] insec j(2) unfolding pg(2) by blast
  have others: "sector_addrs (fb_pages b @ [?pg]) (fb_sectors b ! m) = addrs b m" if "m < length (fb_sectors b)" for m
  proof -
    have "sector_ok (fo_region D) (fb_pages b) (fb_sectors b ! m)" using that l by (simp add: layout_ok_def list_all_iff)
    then show ?thesis by (simp add: sector_addrs_def sector_ok_def nth_append)
  qed
  have final: "filling M W A b' \<and> grown k {?a} b b'"
    if "drv M b'" "fb_pages b' = fb_pages b @ [?pg]" "fb_sectors b' = (fb_sectors b)[k := c]" for b'
    using that c A others b(2) by (auto simp: filling_def grown_def page_area_append nth_list_update)
  have app: "wp (add_page k ((FlashPage ?i)\<lparr>pg_data := ds, pg_same := Some True\<rparr>))
      (\<lambda>_. wp (modify (\<lambda>b. b\<lparr>fb_program_byte_count := fb_program_byte_count b + int (length ds)\<rparr>))
        (\<lambda>_ b'. P = P \<and> filling M W A b' \<and> grown k {?a} b b') (\<lambda>e _. derr e)) (\<lambda>e _. derr e) b2"
    if "drv M b2" "fb_pages b2 = fb_pages b" "fb_sectors b2 = fb_sectors b" "ds = mem_bytes M ?a (nat P)" for b2 ds
    using that c(1) final by (simp add: add_page_def)
  have rd: "wp (on_flash (fo_read_block8 D ?a P)) (\<lambda>ds. wp (add_page k ((FlashPage ?i)\<lparr>pg_data := ds, pg_same := Some True\<rparr>))
      (\<lambda>_. wp (modify (\<lambda>b. b\<lparr>fb_program_byte_count := fb_program_byte_count b + int (length ds)\<rparr>))
        (\<lambda>_ b'. P = P \<and> filling M W A b' \<and> grown k {?a} b b') (\<lambda>e _. derr e)) (\<lambda>e _. derr e)) (\<lambda>e _. derr e) b1"
    if "drv M b1" "same_layout b b1" for b1
    by (rule wp_mono [OF read_wp [OF that(1)]])
      (use app same_layout_laid [OF that(2)] same_layout_laid region sizes(1) in \<open>auto simp: same_layout_def\<close>)
  have "wp (enable_read_access D) (\<lambda>_. wp (on_flash (fo_read_block8 D ?a P)) (\<lambda>ds. wp (add_page k ((FlashPage ?i)\<lparr>pg_data := ds, pg_same := Some True\<rparr>))
      (\<lambda>_. wp (modify (\<lambda>b. b\<lparr>fb_program_byte_count := fb_program_byte_count b + int (length ds)\<rparr>))
        (\<lambda>_ b'. P = P \<and> filling M W A b' \<and> grown k {?a} b b') (\<lambda>e _. derr e)) (\<lambda>e _. derr e)) (\<lambda>e _. derr e)) (\<lambda>e _. derr e) b"
    by (rule wp_mono [OF enable_read_wp [OF dM]]) (use rd in auto)
  moreover have "pi_base_addr ?i = ?a" "pi_size ?i = P" by (simp_all add: info_at_def base)
  ultimately show ?thesis by (simp add: add_page_with_existing_data_def info)
qed

lemma slot_grown: "grown k B b b' \<Longrightarrow> k < length (fb_sectors b) \<Longrightarrow> slot_at b' k j = slot_at b k j"
  by (simp add: slot_def grown_def)

lemma slot_Suc: "slot_at b k n + P = slot_at b k (Suc n)"
  by (simp add: slot_def algebra_simps)

lemma slot_less: "int n < S div P \<longleftrightarrow> int n * P < S"
proof -
  have "S = (S div P) * P" using sizes(3) by simp
  then show ?thesis using sizes(1) by (metis mult_less_cancel_right_pos)
qed

definition slots_filled :: "'s builder \<Rightarrow> nat \<Rightarrow> nat \<Rightarrow> bool" where
  "slots_filled b k n \<longleftrightarrow> set (addrs b k) = slot_at b k ` {..<n}"

lemma slots_filledI:
  assumes "filling M W A b" and "k < length (fb_sectors b)" and "\<And>j. j < n \<Longrightarrow> slot_at b k j \<in> set (addrs b k)" and "length (addrs b k) \<le> n"
  shows "slots_filled b k n"
proof -
  note L = slots_of_sector [OF assms(1-3)]
  have "set (addrs b k) = (\<lambda>j. addrs b k ! j) ` {..<n}" using L(1) assms(4) by (force simp: set_conv_nth)
  also have "\<dots> = slot_at b k ` {..<n}" by (rule image_cong) (use L(2) in auto)
  finally show ?thesis by (simp add: slots_filled_def)
qed

declare fill_between.simps [simp del] fill_after.simps [simp del]

lemma fill_between_wp:
  assumes "filling M W A b" and "k < length (fb_sectors b)" and outside: "\<And>x. x \<notin> A \<Longrightarrow> W x = M x"
    and "\<And>j. j < n \<Longrightarrow> slot_at b k j \<in> set (addrs b k)" and "S div P < int fuel + int n"
  shows "wp (fill_between D fuel k n (slot_at b k n)) (\<lambda>a b'. \<exists>m B. a = slot_at b' k m \<and> filling M W A b' \<and> grown k B b b'
    \<and> slots_filled b' k m) (\<lambda>e _. derr e) b"
  using assms(1,2,4,5)
proof (induction fuel arbitrary: n b)
  case 0
  have "n \<le> length (addrs b k)" by (rule slots_of_sector(1) [OF 0(1,2)]) (use 0(3) in simp)
  then show ?case using filling_sector(4) [OF 0(1,2)] 0(4) by simp
next
  case (Suc fuel)
  let ?E = "\<lambda>e (_ :: 's builder). derr e" and ?c = "fb_sectors b ! k"
  let ?Q = "\<lambda>a b'. \<exists>m B. a = slot_at b' k m \<and> filling M W A b' \<and> grown k B b b' \<and> slots_filled b' k m"
  note F = filling_sector [OF Suc.prems(1,2)]
  have len: "length (sc_pages ?c) = length (addrs b k)" by (simp add: sector_addrs_def)
  show ?case
  proof (cases "n < length (sc_pages ?c)")
    case False
    have "slots_filled b k n" by (rule slots_filledI [OF Suc.prems(1-3)]) (use False in \<open>simp_all add: len\<close>)
    then show ?thesis using False Suc.prems(1) grown_refl by (auto simp: fill_between.simps)
  next
    case True
    let ?p = "page_at b (sc_pages ?c ! n)"
    have i: "sc_pages ?c ! n < length (fb_pages b)" using F(1) True by (simp add: sector_ok_def)
    have p: "pg_addr ?p = addrs b k ! n" "pg_size ?p = P"
      using True i Suc.prems(1) by (simp_all add: sector_addrs_def page_at_def filling_def layout_ok_def list_all_length page_ok_def)
    have nP: "int n * P < S" using True len F(4) slot_less [of n] by simp
    have next_step: "wp (fill_between D fuel k (Suc n) (slot_at b k n + P)) ?Q ?E b1"
      if b1: "filling M W A b1" "grown k B b b1" "slot_at b k n \<in> set (addrs b1 k)" for b1 B
    proof -
      note s = slot_grown [OF b1(2) Suc.prems(2)]
      have "wp (fill_between D fuel k (Suc n) (slot_at b1 k (Suc n)))
        (\<lambda>a b'. \<exists>m B. a = slot_at b' k m \<and> filling M W A b' \<and> grown k B b1 b' \<and> slots_filled b' k m) ?E b1"
      proof (rule Suc.IH)
        show "slot_at b1 k j \<in> set (addrs b1 k)" if "j < Suc n" for j
          using that Suc.prems(3) b1(3) grown_sectors(3) [OF b1(2) Suc.prems(2)] s by (auto simp: less_Suc_eq)
      qed (use b1 Suc.prems grown_sectors(1) [OF b1(2)] in simp_all)
      then have "wp (fill_between D fuel k (Suc n) (slot_at b1 k (Suc n))) ?Q ?E b1"
        by (rule wp_mono) (use grown_trans [OF b1(2)] in blast)+
      then show ?thesis by (simp add: slot_Suc s)
    qed
    show ?thesis
    proof (cases "pg_addr ?p = slot_at b k n")
      case same: True
      have "slot_at b k n \<in> set (addrs b k)" using same p True len by (metis nth_mem)
      then show ?thesis using next_step [OF Suc.prems(1) grown_refl] True same p(2) by (simp add: Let_def fill_between.simps)
    next
      case differs: False
      have free: "slot_at b k n \<notin> set (addrs b k)"
      proof
        assume "slot_at b k n \<in> set (addrs b k)"
        then have all: "slot_at b k j \<in> set (addrs b k)" if "j < Suc n" for j using that Suc.prems(3) by (auto simp: less_Suc_eq)
        have "addrs b k ! n = slot_at b k n" by (rule slots_of_sector(2) [OF Suc.prems(1,2), of "Suc n"]) (use all in simp_all)
        then show False using differs p(1) by simp
      qed
      have "wp (add_page_with_existing_data D k (slot_at b k n)) (\<lambda>sz. wp (fill_between D fuel k (Suc n) (slot_at b k n + sz)) ?Q ?E) ?E b"
      proof (rule wp_mono [OF add_existing_wp [OF Suc.prems(1,2) outside nP free]])
        fix sz b1 assume b1: "sz = P \<and> filling M W A b1 \<and> grown k {slot_at b k n} b b1"
        then have "slot_at b k n \<in> set (addrs b1 k)" using grown_sectors(3) [of k "{slot_at b k n}" b b1] Suc.prems(2) by simp
        then show "wp (fill_between D fuel k (Suc n) (slot_at b k n + sz)) ?Q ?E b1" using b1 next_step by blast
      qed simp_all
      then show ?thesis using True differs by (simp add: Let_def fill_between.simps)
    qed
  qed
qed

lemma fill_after_wp:
  assumes "filling M W A b" and "k < length (fb_sectors b)" and outside: "\<And>x. x \<notin> A \<Longrightarrow> W x = M x"
    and "slots_filled b k n" and "S div P < int fuel + int n"
  shows "wp (fill_after D fuel k (slot_at b k n)) (\<lambda>_ b'. \<exists>m B. S \<le> int m * P \<and> filling M W A b' \<and> grown k B b b'
    \<and> slots_filled b' k m) (\<lambda>e _. derr e) b"
  using assms(1,2,4,5)
proof (induction fuel arbitrary: n b)
  case 0
  have "n \<le> length (addrs b k)" by (rule slots_of_sector(1) [OF 0(1,2)]) (use 0(3) in \<open>auto simp: slots_filled_def\<close>)
  then show ?case using filling_sector(4) [OF 0(1,2)] 0(4) by simp
next
  case (Suc fuel)
  let ?E = "\<lambda>e (_ :: 's builder). derr e" and ?c = "fb_sectors b ! k"
  let ?Q = "\<lambda>_ b'. \<exists>m B. S \<le> int m * P \<and> filling M W A b' \<and> grown k B b b' \<and> slots_filled b' k m"
  have size: "sc_size ?c = S" by (rule filling_sector(5) [OF Suc.prems(1,2)])
  show ?case
  proof (cases "int n * P < S")
    case False
    then have "S \<le> int n * P" by simp
    then have "?Q () b" using Suc.prems(1,3) grown_refl by blast
    then show ?thesis using False size by (simp add: slot_def fill_after.simps)
  next
    case True
    have inj: "slot_at b k i = slot_at b k j \<longleftrightarrow> i = j" for i j using sizes(1) by (simp add: slot_def)
    have free: "slot_at b k n \<notin> set (addrs b k)" using Suc.prems(3) inj by (auto simp: slots_filled_def)
    have next_step: "wp (fill_after D fuel k (slot_at b k n + P)) ?Q ?E b1"
      if b1: "filling M W A b1" "grown k {slot_at b k n} b b1" for b1
    proof -
      note s = slot_grown [OF b1(2) Suc.prems(2)]
      have "wp (fill_after D fuel k (slot_at b1 k (Suc n)))
        (\<lambda>_ b'. \<exists>m B. S \<le> int m * P \<and> filling M W A b' \<and> grown k B b1 b' \<and> slots_filled b' k m) ?E b1"
      proof (rule Suc.IH)
        show "slots_filled b1 k (Suc n)"
          using Suc.prems(3) grown_sectors(3) [OF b1(2) Suc.prems(2)] s by (simp add: slots_filled_def lessThan_Suc)
      qed (use b1 Suc.prems grown_sectors(1) [OF b1(2)] in simp_all)
      then have "wp (fill_after D fuel k (slot_at b1 k (Suc n))) ?Q ?E b1"
        by (rule wp_mono) (use grown_trans [OF b1(2)] in blast)+
      then show ?thesis by (simp add: slot_Suc s)
    qed
    have "wp (add_page_with_existing_data D k (slot_at b k n)) (\<lambda>sz. wp (fill_after D fuel k (slot_at b k n + sz)) ?Q ?E) ?E b"
      by (rule wp_mono [OF add_existing_wp [OF Suc.prems(1,2) outside True free]]) (use next_step in auto)
    then show ?thesis using True size by (simp add: slot_def fill_after.simps)
  qed
qed

text \<open>Every sector is complete in the end.\<close>

definition complete :: "'s builder \<Rightarrow> nat \<Rightarrow> bool" where
  "complete b k \<longleftrightarrow> (\<forall>j. int j * P < S \<longrightarrow> slot_at b k j \<in> set (addrs b k))"

lemma complete_filled: "slots_filled b k m \<Longrightarrow> S \<le> int m * P \<Longrightarrow> complete b k"
proof (unfold complete_def slots_filled_def, intro allI impI)
  fix j assume 1: "set (addrs b k) = slot_at b k ` {..<m}" and 2: "S \<le> int m * P" and 3: "int j * P < S"
  have "int j * P < int m * P" using 2 3 by simp
  then have "j < m" using sizes(1) by (simp add: mult_less_cancel_right)
  then show "slot_at b k j \<in> set (addrs b k)" using 1 by simp
qed

lemma complete_grown:
  assumes "grown k B b b'" and "j < length (fb_sectors b)" and "complete b j"
  shows "complete b' j"
proof -
  have "set (addrs b j) \<subseteq> set (addrs b' j)" "sc_addr (fb_sectors b' ! j) = sc_addr (fb_sectors b ! j)"
    using assms(1,2) by (auto simp: grown_def)
  then show ?thesis using assms(3) by (auto simp: complete_def slot_def)
qed

lemma fill_unwritten_wp:
  assumes b: "filling M W A b" and outside: "\<And>x. x \<notin> A \<Longrightarrow> W x = M x"
  shows "wp (fill_unwritten_sector_pages D) (\<lambda>_ b'. filling M W A b' \<and> (\<forall>k < length (fb_sectors b'). complete b' k)) (\<lambda>e _. derr e) b"
proof -
  let ?E = "\<lambda>e (_ :: 's builder). derr e" and ?n = "length (fb_sectors b)"
  let ?I = "\<lambda>ks b'. filling M W A b' \<and> length (fb_sectors b') = ?n \<and> (\<forall>k < length ks. complete b' k)"
  let ?f = "\<lambda>k. bind get_state (\<lambda>b. let c = fb_sectors b ! k; fuel = nat (sc_max_page_count c) + 2 in
      bind (fill_between D fuel k 0 (sc_addr c)) (\<lambda>addr. fill_after D fuel k addr))"
  have step: "wp (?f k) (\<lambda>_. ?I (ks @ [k])) ?E b1" if ks: "[0..<?n] = ks @ k # rest" and I: "?I ks b1" for ks k rest b1
  proof -
    have k: "k = length ks" "k < ?n"
    proof -
      have "length ks < ?n" using arg_cong [OF ks, of length] by simp
      moreover have "[0..<?n] ! length ks = k" using ks by simp
      ultimately show "k = length ks" "k < ?n" by simp_all
    qed
    let ?fuel = "nat (sc_max_page_count (fb_sectors b1 ! k)) + 2"
    have F: "filling M W A b1" "k < length (fb_sectors b1)" using I k by simp_all
    have "sc_max_page_count (fb_sectors b1 ! k) = S div P" using filling_sector(1) [OF F] by (simp add: sector_ok_def)
    then have fuel: "S div P < int ?fuel + int m" for m by simp
    have after: "wp (fill_after D ?fuel k (slot_at b2 k m)) (\<lambda>_. ?I (ks @ [k])) ?E b2"
      if b2: "filling M W A b2" "grown k B b1 b2" "slots_filled b2 k m" for b2 m B
    proof (rule wp_mono [OF fill_after_wp [OF b2(1) _ outside b2(3) fuel]])
      show "k < length (fb_sectors b2)" using F(2) grown_sectors(1) [OF b2(2)] by simp
      fix u b3 assume b3: "\<exists>m B. S \<le> int m * P \<and> filling M W A b3 \<and> grown k B b2 b3 \<and> slots_filled b3 k m"
      then obtain m B' where "S \<le> int m * P" "filling M W A b3" "grown k B' b2 b3" "slots_filled b3 k m" by blast
      moreover have "grown k (B \<union> B') b1 b3" using grown_trans [OF b2(2)] calculation(3) .
      ultimately show "?I (ks @ [k]) b3"
        using I k complete_filled [of b3 k m] complete_grown [of k "B \<union> B'" b1 b3] grown_sectors(1) [of k "B \<union> B'" b1 b3]
        by (auto simp: less_Suc_eq)
    qed simp_all
    have "wp (fill_between D ?fuel k 0 (slot_at b1 k 0)) (\<lambda>a. wp (fill_after D ?fuel k a) (\<lambda>_. ?I (ks @ [k])) ?E) ?E b1"
      by (rule wp_mono [OF fill_between_wp [OF F outside _ fuel]]) (use after in auto)
    then show ?thesis by (simp add: slot_def Let_def)
  qed
  have "wp (for_each ?f [0..<?n]) (\<lambda>_. ?I [0..<?n]) ?E b"
    by (rule wp_for_each [where I = ?I]) (erule (1) step, use b in simp)
  then show ?thesis unfolding fill_unwritten_sector_pages_def wp_bind wp_get_state
    by (rule wp_mono) simp_all
qed

end

end
