(* ===== verification/Flash_Program.thy ===== *)
theory Flash_Program
  imports Flash_Fill
begin

text \<open>
  Comparing the pages with the flash, erasing and programming: what is left in the flash in the end.
\<close>

subsection \<open>Judged pages\<close>

text \<open>A page said to be the same is what the flash holds; a cached beginning was read from there.\<close>

definition page_judged :: "flash_region \<Rightarrow> memory \<Rightarrow> memory \<Rightarrow> flash_page \<Rightarrow> bool" where
  "page_judged R W M p \<longleftrightarrow> ar_page_size R dvd pg_addr p \<and> pg_size p = ar_page_size R
     \<and> pg_data p = mem_bytes W (pg_addr p) (nat (ar_page_size R))
     \<and> (pg_same p = Some True \<longrightarrow> pg_data p = mem_bytes M (pg_addr p) (nat (ar_page_size R)))
     \<and> (\<forall>ds. pg_cached p = Some ds \<longrightarrow> ds = mem_bytes M (pg_addr p) (length ds) \<and> int (length ds) \<le> ar_page_size R)"

definition grid_ok :: "flash_region \<Rightarrow> flash_page list \<Rightarrow> flash_sector list \<Rightarrow> bool" where
  "grid_ok R pages secs \<longleftrightarrow> list_all (sector_ok R pages) secs
     \<and> sorted_wrt (<) (map sc_addr secs) \<and> (\<Union>c \<in> set secs. set (sc_pages c)) = {..<length pages}"

lemma layout_ok_grid: "layout_ok R W M pages secs \<longleftrightarrow> list_all (page_ok R W M) pages \<and> grid_ok R pages secs"
  by (simp add: layout_ok_def grid_ok_def)

lemma page_ok_judged: "page_ok R W M p \<Longrightarrow> page_judged R W M p"
  by (auto simp: page_ok_def page_judged_def)

lemma addrs_nth: "map pg_addr ps = map pg_addr qs \<Longrightarrow> i < length ps \<Longrightarrow> pg_addr (ps ! i) = pg_addr (qs ! i)"
  by (metis length_map nth_map)

lemma sector_ok_same_addrs:
  assumes "map pg_addr pages' = map pg_addr pages"
  shows "sector_ok R pages' c = sector_ok R pages c"
proof -
  have l: "length pages' = length pages" using assms by (metis length_map)
  have a: "sector_addrs pages' c = sector_addrs pages c" if "\<forall>i \<in> set (sc_pages c). i < length pages"
    using that addrs_nth [OF assms] l by (simp add: sector_addrs_def)
  show ?thesis using a addrs_nth [OF assms] l by (fastforce simp: sector_ok_def)
qed

lemma grid_same_addrs: "map pg_addr pages' = map pg_addr pages \<Longrightarrow> grid_ok R pages' secs = grid_ok R pages secs"
  using sector_ok_same_addrs [of pages' pages R] by (simp add: grid_ok_def list_all_iff) (metis length_map)

definition judged :: "flash_region \<Rightarrow> memory \<Rightarrow> memory \<Rightarrow> 's builder \<Rightarrow> 's builder \<Rightarrow> bool" where
  "judged R W M b0 b \<longleftrightarrow> fb_sectors b = fb_sectors b0 \<and> map pg_addr (fb_pages b) = map pg_addr (fb_pages b0)
     \<and> fb_operations b = fb_operations b0 \<and> fb_prepared b = fb_prepared b0 \<and> fb_enable_double b = fb_enable_double b0
     \<and> list_all (page_judged R W M) (fb_pages b)"

lemma judged_length: "judged R W M b0 b \<Longrightarrow> length (fb_pages b) = length (fb_pages b0)"
  by (metis judged_def length_map)

lemma judged_set_page:
  assumes "judged R W M b0 b" and "i < length (fb_pages b)" and "page_judged R W M (f (fb_pages b ! i))" and "pg_addr (f (fb_pages b ! i)) = pg_addr (fb_pages b ! i)"
  shows "judged R W M b0 (set_page i f b)"
proof -
  have "map pg_addr ((fb_pages b)[i := f (fb_pages b ! i)]) = map pg_addr (fb_pages b)"
    using assms(2,4) by (intro nth_equalityI) (auto simp: nth_list_update)
  moreover have "list_all (page_judged R W M) ((fb_pages b)[i := f (fb_pages b ! i)])"
    using assms by (auto simp: judged_def list_all_length nth_list_update)
  ultimately show ?thesis using assms(1) by (simp add: judged_def set_page_def)
qed

lemma page_judged_False: "page_judged R W M p \<Longrightarrow> page_judged R W M (p\<lparr>pg_same := Some False\<rparr>)"
  by (simp add: page_judged_def)

lemma judged_mark:
  "judged R W M b0 b \<Longrightarrow> i < length (fb_pages b0) \<Longrightarrow> judged R W M b0 (set_page i (\<lambda>p. p\<lparr>pg_same := Some False\<rparr>) b)"
  using judged_length [of R W M b0 b] by (intro judged_set_page) (simp_all add: page_judged_False judged_def list_all_length)

lemma fold_keeps: "(\<And>x b. x \<in> set xs \<Longrightarrow> Q b \<Longrightarrow> Q (f b x)) \<Longrightarrow> Q b \<Longrightarrow> Q (foldl f b xs)"
  by (induction xs arbitrary: b) auto

definition sectors_in :: "'s builder \<Rightarrow> bool" where
  "sectors_in b \<longleftrightarrow> (\<forall>c \<in> set (fb_sectors b). \<forall>i \<in> set (sc_pages c). i < length (fb_pages b))"

lemma grid_sectors_in: "grid_ok R (fb_pages b) (fb_sectors b) \<Longrightarrow> sectors_in b"
  by (auto simp: grid_ok_def sectors_in_def list_all_iff sector_ok_def)

lemma judged_mark_sector:
  "sectors_in b0 \<Longrightarrow> c \<in> set (fb_sectors b0) \<Longrightarrow> judged R W M b0 b \<Longrightarrow> judged R W M b0 (mark_all_pages_not_same c b)"
  unfolding mark_all_pages_not_same_def by (rule fold_keeps) (auto intro: judged_mark simp: sectors_in_def)

definition device :: "'s builder \<Rightarrow> 's \<times> bool" where
  "device b = (fb_flash b, fb_algo_inited_for_read b)"

lemma judged_mark_all:
  assumes "sectors_in b0" and "judged R W M b0 b"
  shows "wp mark_all_pages_for_programming (\<lambda>_ b'. judged R W M b0 b' \<and> device b' = device b) E b"
proof -
  have "judged R W M b0 (foldl (\<lambda>b c. mark_all_pages_not_same c b) b (fb_sectors b))"
    by (rule fold_keeps) (use assms judged_mark_sector [OF assms(1)] in \<open>auto simp: judged_def\<close>)
  moreover have "device (mark_all_pages_not_same c b') = device b'" for c and b' :: "'a builder"
    unfolding mark_all_pages_not_same_def by (rule fold_keeps [where Q = "\<lambda>x. device x = device b'"]) (simp_all add: set_page_def device_def)
  then have "device (foldl (\<lambda>b c. mark_all_pages_not_same c b) b (fb_sectors b)) = device b"
    by (intro fold_keeps [where Q = "\<lambda>x. device x = device b"]) simp_all
  ultimately show ?thesis by (simp add: mark_all_pages_for_programming_def)
qed

lemma judged_mark_erased:
  assumes "sectors_in b0" and "judged R W M b0 b"
  shows "judged R W M b0 (mark_erased_sectors b)" and "device (mark_erased_sectors b) = device b"
proof -
  show "judged R W M b0 (mark_erased_sectors b)"
    unfolding mark_erased_sectors_def
    by (rule fold_keeps) (use assms judged_mark_sector [OF assms(1)] in \<open>auto simp: judged_def\<close>)
  have f: "device (mark_all_pages_not_same c b') = device b'" for c and b' :: "'a builder"
    unfolding mark_all_pages_not_same_def by (rule fold_keeps [where Q = "\<lambda>x. device x = device b'"]) (simp_all add: set_page_def device_def)
  show "device (mark_erased_sectors b) = device b"
    unfolding mark_erased_sectors_def by (intro fold_keeps [where Q = "\<lambda>x. device x = device b"]) (simp_all add: f)
qed

text \<open>After marking, a page is known.\<close>

lemma judged_perf [simp]:
  "judged R W M b0 (b\<lparr>fb_flash := s\<rparr>) = judged R W M b0 b" "judged R W M b0 (b\<lparr>fb_algo_inited_for_read := r\<rparr>) = judged R W M b0 b"
  "judged R W M b0 (b\<lparr>fb_perf := pf\<rparr>) = judged R W M b0 b" "judged R W M b0 (b\<lparr>fb_last_erase_was_chip := w\<rparr>) = judged R W M b0 b"
  "judged R W M b0 (b\<lparr>fb_sector_erase_count := n, fb_sector_erase_weight := x\<rparr>) = judged R W M b0 b"
  "judged R W M b0 (b\<lparr>fb_chip_erase_count := n, fb_chip_erase_weight := x\<rparr>) = judged R W M b0 b"
  by (simp_all add: judged_def)

lemma judged_same_layout: "judged R W M b0 b \<Longrightarrow> same_layout b b' \<Longrightarrow> judged R W M b0 b'"
  by (simp add: judged_def same_layout_def)

lemma page_judged_area:
  assumes "0 < ar_page_size R" and "judged R W M b0 b" and "judged R W M b0 b0"
  shows "page_area (fb_pages b) = page_area (fb_pages b0)"
proof -
  have area: "page_area ps = (\<Union>a \<in> set (map pg_addr ps). {a..<a + ar_page_size R})" if "list_all (page_judged R W M) ps" for ps
    using that assms(1) by (auto simp: page_area_def list_all_iff page_judged_def)
  have "page_area (fb_pages b) = (\<Union>a \<in> set (map pg_addr (fb_pages b)). {a..<a + ar_page_size R})"
    by (rule area) (use assms(2) in \<open>simp add: judged_def\<close>)
  also have "\<dots> = (\<Union>a \<in> set (map pg_addr (fb_pages b0)). {a..<a + ar_page_size R})" using assms(2) by (simp add: judged_def)
  also have "\<dots> = page_area (fb_pages b0)"
    by (rule area [symmetric]) (use assms(3) in \<open>simp add: judged_def\<close>)
  finally show ?thesis .
qed

definition known :: "'s builder \<Rightarrow> bool" where
  "known b \<longleftrightarrow> list_all (\<lambda>p. pg_same p \<noteq> None) (fb_pages b)"

lemma known_any: "known b \<longleftrightarrow> \<not> any_unknown b"
  by (auto simp: known_def any_unknown_def list_all_iff list_ex_iff)

lemma known_set_page: "known b \<Longrightarrow> known (set_page i (\<lambda>p. p\<lparr>pg_same := Some x\<rparr>) b)"
  by (cases "i < length (fb_pages b)") (auto simp: known_def set_page_def list_all_length nth_list_update)

lemma known_mark: "known b \<Longrightarrow> known (mark_all_pages_not_same c b)"
  unfolding mark_all_pages_not_same_def by (rule fold_keeps) (auto intro: known_set_page)

lemma known_mark_erased: "known b \<Longrightarrow> known (mark_erased_sectors b)"
  unfolding mark_erased_sectors_def by (rule fold_keeps) (auto intro: known_mark)

subsection \<open>What laying out leaves alone\<close>

definition plan :: "'s builder \<Rightarrow> (int \<times> int list) list \<times> bool" where
  "plan b = (fb_operations b, fb_enable_double b)"

definition keeps :: "('s builder, 'a) exec \<Rightarrow> bool" where
  "keeps m \<longleftrightarrow> (\<forall>b. plan (snd (m b)) = plan b)"

named_theorems keeps_rules

lemma keeps_ret [keeps_rules]: "keeps (ret x)" "keeps (raise e)" "keeps get_state" "keeps (lift_res r)" "keeps (assert_that v)"
  by (simp_all add: keeps_def assert_that_def)

lemma keeps_bind [keeps_rules]: "keeps m \<Longrightarrow> (\<And>x. keeps (f x)) \<Longrightarrow> keeps (bind m f)"
  unfolding keeps_def bind_def by (metis (no_types, lifting) case_prod_conv prod.collapse snd_conv sum.case_eq_if)

lemma keeps_catch [keeps_rules]: "keeps m \<Longrightarrow> (\<And>e. keeps (h e)) \<Longrightarrow> keeps (catch m p h)"
  unfolding keeps_def catch_def by (auto split: prod.splits sum.splits) (metis snd_conv)+

lemma keeps_on_flash [keeps_rules]: "keeps (on_flash m)"
  by (simp add: keeps_def on_flash_def plan_def split: prod.split)

lemma keeps_modify: "(\<And>b. plan (f b) = plan b) \<Longrightarrow> keeps (modify f)"
  by (simp add: keeps_def)

lemma keeps_if [keeps_rules]: "(c \<Longrightarrow> keeps m) \<Longrightarrow> (\<not> c \<Longrightarrow> keeps n) \<Longrightarrow> keeps (if c then m else n)"
  by simp

lemma keeps_let [keeps_rules]: "keeps (f x) \<Longrightarrow> keeps (Let x f)"
  by simp

lemma keeps_for_each [keeps_rules]: "(\<And>x. keeps (f x)) \<Longrightarrow> keeps (for_each f xs)"
  by (induction xs) (auto intro: keeps_rules)

lemma plan_set_page [simp]: "plan (set_page i f b) = plan b"
  by (simp add: plan_def set_page_def)

lemma keeps_steps [keeps_rules]: "keeps (append_data ds n)" "keeps (add_page k pg)" "keeps (begin_sector D s i)" "keeps (add_first_page pg c)"
  "keeps (enable_read_access D)" "keeps (old_data D keep a n)" "keeps (fill_to D keep a)" "keeps (fill_end_of_page_gap D keep)"
  "keeps (next_sector D i a)" "keeps (next_page D keep i a)" "keeps (add_page_with_existing_data D k a)"
proof -
  show ap: "keeps (append_data ds n)" for ds n
    unfolding append_data_def by (rule keeps_modify) (simp add: plan_def set_page_def)
  show add: "keeps (add_page k pg)" for k pg
    unfolding add_page_def by (intro keeps_rules keeps_modify) (simp_all add: plan_def)
  show bs: "keeps (begin_sector D s i)" for s i
    unfolding begin_sector_def by (intro keeps_rules keeps_modify) (simp_all add: plan_def)
  show "keeps (add_first_page pg c)"
    unfolding add_first_page_def by (intro keeps_rules keeps_modify) (simp_all add: plan_def)
  show er: "keeps (enable_read_access D)"
    unfolding enable_read_access_def by (intro keeps_rules keeps_modify) (simp_all add: plan_def)
  show od: "keeps (old_data D keep a n)" for a n
    unfolding old_data_def by (intro keeps_rules er)
  show ft: "keeps (fill_to D keep a)" for a
    unfolding fill_to_def by (intro keeps_rules ap od)
  show fe: "keeps (fill_end_of_page_gap D keep)"
    unfolding fill_end_of_page_gap_def by (intro keeps_rules ft)
  show "keeps (next_sector D i a)"
    unfolding next_sector_def by (intro keeps_rules bs)
  show "keeps (next_page D keep i a)"
    unfolding next_page_def by (intro keeps_rules fe add)
  show "keeps (add_page_with_existing_data D k a)"
    unfolding add_page_with_existing_data_def by (intro keeps_rules er add keeps_modify) (simp_all add: plan_def)
qed

lemma keeps_place_data [keeps_rules]: "keeps (place_data D keep i a ds)"
proof (induction "length ds" arbitrary: i a ds rule: less_induct)
  case less
  show ?case
    by (subst place_data.simps) (intro keeps_rules less, simp add: min_def split: if_splits)
qed

lemma keeps_place_operations [keeps_rules]: "keeps (place_operations D keep i ops)"
proof (induction ops arbitrary: i)
  case (Cons q ops)
  then show ?case by (cases q) (simp only: place_operations.simps, intro keeps_rules)
qed (simp only: place_operations.simps, rule keeps_rules)

lemma keeps_fill [keeps_rules]: "keeps (fill_between D fuel k n a)" "keeps (fill_after D fuel k a)" "keeps (fill_unwritten_sector_pages D)"
proof -
  show b: "keeps (fill_between D fuel k n a)" for fuel k n a
    by (induction fuel arbitrary: n a) (auto simp: fill_between.simps intro!: keeps_rules)
  show c: "keeps (fill_after D fuel k a)" for fuel k a
    by (induction fuel arbitrary: a) (auto simp: fill_after.simps intro!: keeps_rules)
  show "keeps (fill_unwritten_sector_pages D)"
    unfolding fill_unwritten_sector_pages_def by (intro keeps_rules b c)
qed

lemma keeps_build: "keeps (build_sectors_and_pages D keep)"
  unfolding build_sectors_and_pages_def by (intro keeps_rules keeps_modify) (simp_all add: plan_def)

lemma wp_keeps: "keeps m \<Longrightarrow> wp m (\<lambda>_ b'. plan b' = plan b) (\<lambda>_ _. True) b"
  by (auto simp: keeps_def wp_def split: prod.splits sum.splits) (metis snd_conv)

subsection \<open>Comparing\<close>

context flash_driver
begin

abbreviation jd where "jd W M b0 b \<equiv> drv M b \<and> judged (fo_region D) W M b0 b"

lemma page_region:
  assumes "grid_ok (fo_region D) (fb_pages b0) (fb_sectors b0)" and "judged (fo_region D) W M b0 b" and "i < length (fb_pages b)"
  shows "first \<le> pg_addr (fb_pages b ! i)" and "pg_addr (fb_pages b ! i) + P \<le> past" and "page_judged (fo_region D) W M (fb_pages b ! i)"
proof -
  let ?p = "fb_pages b ! i"
  show p: "page_judged (fo_region D) W M ?p" using assms(2,3) by (simp add: judged_def list_all_length)
  have addr: "pg_addr ?p = pg_addr (fb_pages b0 ! i)" using assms(2,3) by (intro addrs_nth) (simp_all add: judged_def)
  have "i < length (fb_pages b0)" using assms(3) judged_length [OF assms(2)] by simp
  then obtain c where c: "c \<in> set (fb_sectors b0)" "i \<in> set (sc_pages c)" using assms(1) by (auto simp: grid_ok_def)
  then have s: "sector_shape (fo_region D) c" "in_sector (fo_region D) c (pg_addr ?p)"
    using assms(1) unfolding addr by (simp_all add: grid_ok_def list_all_iff sector_ok_def)
  show "first \<le> pg_addr ?p" using s by (simp add: sector_shape_def in_sector_def)
  have "pg_addr ?p + P \<le> sc_addr c + S"
  proof (rule multiple_gap [OF sizes(1)])
    show "P dvd pg_addr ?p + P" using p by (simp add: page_judged_def)
    have "P dvd sc_addr c" using s(1) sizes(3) by (auto simp: sector_shape_def intro: dvd_trans)
    then show "P dvd sc_addr c + S" using sizes(3) by simp
    show "pg_addr ?p + P < sc_addr c + S + P" using s(2) by (simp add: in_sector_def)
  qed
  then show "pg_addr ?p + P \<le> past" using s(1) by (simp add: sector_shape_def)
qed

lemma enable_read_judged: "jd W M b0 b \<Longrightarrow> wp (enable_read_access D) (\<lambda>_ b'. jd W M b0 b' \<and> fb_pages b' = fb_pages b) (\<lambda>e _. derr e) b"
  by (rule wp_mono [OF enable_read_wp [of M b]]) (auto intro: judged_same_layout simp: same_layout_def)

lemma read_judged:
  assumes "grid_ok (fo_region D) (fb_pages b0) (fb_sectors b0)" and "jd W M b0 b" and "i < length (fb_pages b)" and "0 \<le> k" "0 \<le> n" "k + n \<le> P"
  shows "wp (on_flash (fo_read_block8 D (pg_addr (page_at b i) + k) n))
    (\<lambda>ds b'. jd W M b0 b' \<and> fb_pages b' = fb_pages b \<and> ds = mem_bytes M (pg_addr (page_at b i) + k) (nat n)) (\<lambda>e _. derr e) b"
  by (rule wp_mono [OF read_wp [of M b]])
    (use assms page_region [OF assms(1) conjunct2 [OF assms(2)] assms(3)] in \<open>auto intro: judged_same_layout simp: same_layout_def page_at_def\<close>)

lemma count_erased_wp:
  "jd W M b0 b \<Longrightarrow> wp (compute_chip_erase_pages_and_weight D) (\<lambda>_. jd W M b0) E b"
proof -
  assume b: "jd W M b0 b"
  have same: "pg_addr (count_erased D p) = pg_addr p" "page_judged (fo_region D) W M (count_erased D p) = page_judged (fo_region D) W M p" for p
    by (simp_all add: count_erased_def page_judged_def)
  have "judged (fo_region D) W M b0 (b\<lparr>fb_pages := map (count_erased D) (fb_pages b)\<rparr>)"
    using b same by (simp add: judged_def list_all_iff o_def)
  moreover have "drv M (b\<lparr>fb_pages := ps, fb_chip_erase_count := n, fb_chip_erase_weight := w\<rparr>)" for ps n w
    using b by (simp add: drv_def)
  ultimately show ?thesis by (simp add: compute_chip_erase_pages_and_weight_def Let_def judged_def)
qed

lemma analyze_partial_wp:
  assumes "grid_ok (fo_region D) (fb_pages b0) (fb_sectors b0)" and "jd W M b0 b" and "i < length (fb_pages b)"
  shows "wp (analyze_page_partial D i) (\<lambda>_. jd W M b0) (\<lambda>e _. derr e) b"
proof (cases "pg_same (page_at b i) = None")
  case True
  let ?p = "page_at b i" let ?n = "min PAGE_ESTIMATE_SIZE (length (pg_data ?p))"
  let ?set = "\<lambda>ds. if \<not> same ds (take ?n (pg_data ?p)) then modify (set_page i (\<lambda>p. p\<lparr>pg_same := Some False\<rparr>))
            else modify (set_page i (\<lambda>p. p\<lparr>pg_cached := Some ds\<rparr>)) :: ('s builder, unit) exec"
  note R = page_region [OF assms(1) conjunct2 [OF assms(2)] assms(3)]
  have len: "int ?n \<le> P" using R(3) sizes(1) by (simp add: page_judged_def page_at_def)
  have step: "wp (?set ds) (\<lambda>_. jd W M b0) (\<lambda>e _. derr e) b1"
    if b1: "jd W M b0 b1 \<and> fb_pages b1 = fb_pages b \<and> ds = mem_bytes M (pg_addr ?p + 0) (nat (int ?n))" for ds b1
  proof -
    have i: "i < length (fb_pages b1)" "page_judged (fo_region D) W M (fb_pages b1 ! i)" using b1 assms(3) R(3) by simp_all
    have "judged (fo_region D) W M b0 (set_page i (\<lambda>p. p\<lparr>pg_same := Some False\<rparr>) b1)"
      by (rule judged_set_page) (use b1 i page_judged_False in simp_all)
    moreover have "judged (fo_region D) W M b0 (set_page i (\<lambda>p. p\<lparr>pg_cached := Some ds\<rparr>) b1)"
      by (rule judged_set_page) (use b1 i len in \<open>auto simp: page_judged_def page_at_def\<close>)
    ultimately show ?thesis using b1 by simp
  qed
  have "wp (on_flash (fo_read_block8 D (pg_addr ?p + 0) (int ?n))) (\<lambda>ds. wp (?set ds) (\<lambda>_. jd W M b0) (\<lambda>e _. derr e)) (\<lambda>e _. derr e) b"
    by (rule wp_mono [OF read_judged [OF assms]]) (use len step in auto)
  then show ?thesis using True by (simp add: analyze_page_partial_def Let_def)
qed (use assms(2) in \<open>simp add: analyze_page_partial_def Let_def del: not_None_eq\<close>)

lemma analyze_all_partial_wp:
  assumes "grid_ok (fo_region D) (fb_pages b0) (fb_sectors b0)" and "jd W M b0 b"
  shows "wp (analyze_pages_with_partial_read D) (\<lambda>_. jd W M b0) (\<lambda>e _. derr e) b"
proof -
  have "wp (for_each (analyze_page_partial D) [0..<length (fb_pages b1)]) (\<lambda>_. jd W M b0) (\<lambda>e _. derr e) b1" if "jd W M b0 b1" for b1
  proof (rule wp_for_each [where I = "\<lambda>_. jd W M b0"])
    fix ks i rest b2 assume 1: "[0..<length (fb_pages b1)] = ks @ i # rest" and 2: "jd W M b0 b2"
    have "i \<in> set [0..<length (fb_pages b1)]" unfolding 1 by simp
    then have "i < length (fb_pages b2)" using 2 that judged_length by (metis atLeastLessThan_iff set_upt)
    then show "wp (analyze_page_partial D i) (\<lambda>_. jd W M b0) (\<lambda>e _. derr e) b2" by (rule analyze_partial_wp [OF assms(1) 2])
  qed (use that in simp)
  then show ?thesis unfolding analyze_pages_with_partial_read_def wp_bind wp_get_state
    by (intro wp_mono [OF enable_read_judged [OF assms(2)]]) blast+
qed

lemma drv_device: "device b' = device b \<Longrightarrow> drv M b' = drv M b"
  by (simp add: drv_def device_def)

lemma fold_crc_judged:
  assumes "jd W M b0 b" and "\<And>i. i \<in> set xs \<Longrightarrow> i < length (fb_pages b0)"
  shows "jd W M b0 (foldl (\<lambda>b i. set_page i (\<lambda>p. p\<lparr>pg_crc := f p\<rparr>) b) b xs)"
proof (rule fold_keeps [where Q = "jd W M b0"])
  fix i b1 assume 1: "i \<in> set xs" "jd W M b0 b1"
  then have i: "i < length (fb_pages b1)" using assms(2) judged_length by fastforce
  have "judged (fo_region D) W M b0 (set_page i (\<lambda>p. p\<lparr>pg_crc := f p\<rparr>) b1)"
    by (rule judged_set_page) (use 1(2) i in \<open>auto simp: page_judged_def judged_def list_all_length\<close>)
  then show "jd W M b0 (set_page i (\<lambda>p. p\<lparr>pg_crc := f p\<rparr>) b1)" using 1(2) by simp
qed (rule assms(1))

lemma fold_note_judged:
  assumes "jd W M b0 b" and "\<And>i c. (i, c) \<in> set xs \<Longrightarrow> i < length (fb_pages b0)"
  shows "jd W M b0 (foldl (\<lambda>b q. note_crc False q b) b xs)"
proof (rule fold_keeps [where Q = "jd W M b0"])
  fix q b1 assume 1: "q \<in> set xs" "jd W M b0 b1"
  obtain i c where q: "q = (i, c)" by (cases q)
  have "judged (fo_region D) W M b0 (set_page i (\<lambda>p. p\<lparr>pg_same := Some False\<rparr>) b1)"
    by (rule judged_mark) (use 1 q assms(2) in auto)
  then show "jd W M b0 (note_crc False q b1)" using 1(2) q by (simp add: note_crc_def Let_def)
qed (rule assms(1))

lemma crc_wp:
  assumes "jd W M b0 b" and crc: "fi_crc_supported (fo_info D)"
  shows "wp (analyze_pages_with_crc32 D False) (\<lambda>_. jd W M b0) (\<lambda>e _. derr e) b"
proof -
  let ?us = "filter (\<lambda>i. pg_same (page_at b i) = None) [0..<length (fb_pages b)]"
  let ?b = "foldl (\<lambda>b i. set_page i (\<lambda>p. p\<lparr>pg_crc := fo_crc32 D (padded_data p) AND 0xFFFFFFFF\<rparr>) b) b ?us"
  have in_b0: "i < length (fb_pages b0)" if "i \<in> set ?us" for i using that assms(1) judged_length [of _ _ _ b0 b] by auto
  have b1: "jd W M b0 ?b" by (rule fold_crc_judged [OF assms(1) in_b0])
  have crcs: "wp (on_flash (fo_compute_crcs D qs)) (\<lambda>_. jd W M b0) (\<lambda>e _. derr e) b2" if "jd W M b0 b2" for b2 qs
    unfolding wp_on_flash by (rule wp_mono [OF crc_law]) (use that crc in \<open>auto simp: drv_def\<close>)
  have noted: "jd W M b0 (foldl (\<lambda>b q. note_crc False q b) b3 (zip ?us cs))" if "jd W M b0 b3" for b3 cs
    by (rule fold_note_judged [OF that]) (auto dest!: set_zip_leftD intro: in_b0)
  have "wp (on_flash (fo_compute_crcs D qs)) (\<lambda>cs b3. jd W M b0 (foldl (\<lambda>b q. note_crc False q b) b3 (zip ?us cs)))
      (\<lambda>e _. derr e) b2" if "jd W M b0 b2" for b2 qs
    by (rule wp_mono [OF crcs [OF that]]) (rule noted)
  then have "wp (enable_read_access D) (\<lambda>_. wp (on_flash (fo_compute_crcs D qs))
      (\<lambda>cs b3. jd W M b0 (foldl (\<lambda>b q. note_crc False q b) b3 (zip ?us cs))) (\<lambda>e _. derr e)) (\<lambda>e _. derr e) ?b" for qs
    by (intro wp_mono [OF enable_read_judged [OF b1]]) blast+
  then show ?thesis using assms(1) by (simp add: analyze_pages_with_crc32_def Let_def)
qed

lemma estimate_wp:
  assumes "grid_ok (fo_region D) (fb_pages b0) (fb_sectors b0)" and "sectors_in b0" and "jd W M b0 b"
    and crc: "\<not> (fast_verify \<and> fi_crc_supported (fo_info D))"
  shows "wp (compute_sector_erase_pages_and_weight D fast_verify) (\<lambda>_. jd W M b0) (\<lambda>e _. derr e) b"
proof -
  let ?rest = "\<lambda>b. jd W M b0 b"
  have c: "wp (analyze_pages_with_crc32 D fast_verify) (\<lambda>_. ?rest) (\<lambda>e _. derr e) b" if "fi_crc_supported (fo_info D)"
    using crc_wp [OF assms(3) that] crc that by simp
  have p: "wp (analyze_pages_with_partial_read D) (\<lambda>_. ?rest) (\<lambda>e _. derr e) b" by (rule analyze_all_partial_wp [OF assms(1,3)])
  have m: "wp mark_all_pages_for_programming (\<lambda>_. ?rest) (\<lambda>e _. derr e) b"
    by (rule wp_mono [OF judged_mark_all [OF assms(2) conjunct2 [OF assms(3)]]]) (use assms(3) in \<open>auto dest: drv_device\<close>)
  have upd: "jd W M b0 (b'\<lparr>fb_sector_erase_count := n, fb_sector_erase_weight := w\<rparr>) = jd W M b0 b'"
    "jd W M b0 (b'\<lparr>fb_perf := pf, fb_sector_erase_count := n, fb_sector_erase_weight := w\<rparr>) = jd W M b0 b'" for b' pf n w
    by (simp_all add: drv_def judged_def)
  show ?thesis
    unfolding compute_sector_erase_pages_and_weight_def
    using c p m assms(3) upd by (auto simp: Let_def elim!: wp_mono)
qed

lemma scan_page_wp:
  assumes "grid_ok (fo_region D) (fb_pages b0) (fb_sectors b0)" and "jd W M b0 b" and "i < length (fb_pages b)"
  shows "wp (scan_page D i) (\<lambda>_ b'. jd W M b0 b' \<and> pg_same (fb_pages b' ! i) \<noteq> None \<and> (\<forall>j. j \<noteq> i \<longrightarrow> fb_pages b' ! j = fb_pages b ! j))
    (\<lambda>e _. derr e) b"
proof -
  let ?p = "page_at b i" let ?got = "case pg_cached ?p of None \<Rightarrow> [] | Some ds \<Rightarrow> ds"
  let ?Q = "\<lambda>_ b'. jd W M b0 b' \<and> pg_same (fb_pages b' ! i) \<noteq> None \<and> (\<forall>j. j \<noteq> i \<longrightarrow> fb_pages b' ! j = fb_pages b ! j)"
  let ?set = "\<lambda>ds. set_page i (\<lambda>p. p\<lparr>pg_same := Some (same (pg_data p) (?got @ ds)), pg_cached := None\<rparr>)"
  note R = page_region [OF assms(1) conjunct2 [OF assms(2)] assms(3)]
  have pj: "page_judged (fo_region D) W M ?p" using R(3) by (simp add: page_at_def)
  have size: "pg_size ?p = P" "int (length (pg_data ?p)) = P" using pj sizes(1) by (simp_all add: page_judged_def)
  have got: "?got = mem_bytes M (pg_addr ?p) (length ?got)" "int (length ?got) \<le> P"
    using pj sizes(1) by (auto simp: page_judged_def split: option.split)
  let ?off = "int (length ?got)"
  have step: "?Q () (?set ds b1)" if b1: "jd W M b0 b1 \<and> fb_pages b1 = fb_pages b \<and> ds = mem_bytes M (pg_addr ?p + ?off) (nat (P - ?off))" for ds b1
  proof -
    have "nat P = length ?got + nat (P - ?off)" using got(2) by simp
    then have all: "?got @ ds = mem_bytes M (pg_addr ?p) (nat P)" using got(1) b1 by (metis mem_bytes_add)
    have i: "i < length (fb_pages b1)" "fb_pages b1 ! i = ?p" using b1 assms(3) by (simp_all add: page_at_def)
    have "judged (fo_region D) W M b0 (?set ds b1)"
      by (rule judged_set_page) (use b1 i pj all in \<open>auto simp: page_judged_def same_iff\<close>)
    then show ?thesis using b1 i(1) by (simp add: set_page_def)
  qed
  have "wp (on_flash (fo_read_block8 D (pg_addr ?p + ?off) (P - ?off))) (\<lambda>ds b1. ?Q () (?set ds b1)) (\<lambda>e _. derr e) b"
    by (rule wp_mono [OF read_judged [OF assms]]) (use got(2) step in auto)
  then show ?thesis by (simp add: scan_page_def Let_def size)
qed

lemma scan_wp:
  assumes "grid_ok (fo_region D) (fb_pages b0) (fb_sectors b0)" and "sectors_in b0" and "jd W M b0 b"
  shows "wp (scan_pages_for_same D) (\<lambda>_ b'. jd W M b0 b' \<and> known b') (\<lambda>e _. derr e) b"
proof -
  let ?us = "filter (\<lambda>i. pg_same (page_at b i) = None) [0..<length (fb_pages b)]"
  let ?I = "\<lambda>ks b'. jd W M b0 b' \<and> (\<forall>i < length (fb_pages b0). pg_same (fb_pages b' ! i) = None \<longrightarrow> i \<in> set ?us - set ks)"
  have len: "length (fb_pages b') = length (fb_pages b0)" if "jd W M b0 b'" for b' using that judged_length by blast
  have loop: "wp (for_each (scan_page D) ?us) (\<lambda>_. ?I ?us) (\<lambda>e _. derr e) b1" if b1: "jd W M b0 b1 \<and> fb_pages b1 = fb_pages b" for b1
  proof (rule wp_for_each [where I = ?I])
    fix ks i rest b2 assume 1: "?us = ks @ i # rest" and 2: "?I ks b2"
    have j: "jd W M b0 b2" using 2 by blast
    have "i \<in> set ?us" unfolding 1 by simp
    then have i: "i < length (fb_pages b2)" using len [OF assms(3)] len [OF j] by simp
    show "wp (scan_page D i) (\<lambda>_. ?I (ks @ [i])) (\<lambda>e _. derr e) b2"
    proof (rule wp_mono [OF scan_page_wp [OF assms(1) j i]])
      fix u b3 assume 3: "jd W M b0 b3 \<and> pg_same (fb_pages b3 ! i) \<noteq> None \<and> (\<forall>j. j \<noteq> i \<longrightarrow> fb_pages b3 ! j = fb_pages b2 ! j)"
      have "k \<in> set ?us - set (ks @ [i])" if k: "k < length (fb_pages b0)" "pg_same (fb_pages b3 ! k) = None" for k
      proof -
        have "k \<noteq> i" using 3 k(2) by auto
        then show ?thesis using 2 3 k by (auto simp del: set_filter)
      qed
      then show "?I (ks @ [i]) b3" using 3 by blast
    qed simp
  qed (use b1 len [OF assms(3)] in \<open>auto simp: page_at_def\<close>)
  have fin: "jd W M b0 (mark_erased_sectors b') \<and> known (mark_erased_sectors b')" if "?I ?us b'" for b'
  proof -
    have j: "jd W M b0 b'" using that by blast
    then have "known b'" using that len [OF j] by (auto simp: known_def list_all_length)
    then show ?thesis using judged_mark_erased [OF assms(2) conjunct2 [OF j]] j known_mark_erased by (auto dest: drv_device)
  qed
  have "wp (for_each (scan_page D) ?us) (\<lambda>_ b'. jd W M b0 (mark_erased_sectors b') \<and> known (mark_erased_sectors b')) (\<lambda>e _. derr e) b1"
    if "jd W M b0 b1 \<and> fb_pages b1 = fb_pages b" for b1
    by (rule wp_mono [OF loop [OF that]]) (rule fin)
  then have run: "wp (enable_read_access D) (\<lambda>_. wp (for_each (scan_page D) ?us)
      (\<lambda>_ b'. jd W M b0 (mark_erased_sectors b') \<and> known (mark_erased_sectors b')) (\<lambda>e _. derr e)) (\<lambda>e _. derr e) b"
    by (intro wp_mono [OF enable_read_judged [OF assms(3)]]) blast+
  have start: "?I ?us b" if "?us = []"
  proof -
    have "\<forall>i < length (fb_pages b0). pg_same (fb_pages b ! i) \<noteq> None"
    proof (intro allI impI)
      fix i assume "i < length (fb_pages b0)"
      then have "i \<in> set [0..<length (fb_pages b)]" using len [OF assms(3)] by simp
      then show "pg_same (fb_pages b ! i) \<noteq> None" using that unfolding filter_empty_conv page_at_def by blast
    qed
    then show ?thesis using assms(3) by simp
  qed
  have none: "jd W M b0 (mark_erased_sectors b) \<and> known (mark_erased_sectors b)" if "?us = []" by (rule fin [OF start [OF that]])
  show ?thesis
  proof (cases "?us = []")
    case True
    then show ?thesis using none unfolding scan_pages_for_same_def Let_def by (simp only: wp_bind wp_get_state wp_if wp_ret wp_modify True simp_thms if_False)
  next
    case False
    then show ?thesis using run unfolding scan_pages_for_same_def Let_def by (simp only: wp_bind wp_get_state wp_if wp_modify False simp_thms if_True)
  qed
qed

lemma finalize_wp:
  assumes "grid_ok (fo_region D) (fb_pages b0) (fb_sectors b0)" and "sectors_in b0" and "jd W M b0 b"
    and "\<not> (fast_verify \<and> fi_crc_supported (fo_info D))"
  shows "wp (finalize_smart_flash D fast_verify) (\<lambda>_ b'. jd W M b0 b' \<and> known b') (\<lambda>e _. derr e) b"
proof -
  have "wp (if any_unknown b1 then scan_pages_for_same D else ret ()) (\<lambda>_ b'. jd W M b0 b' \<and> known b') (\<lambda>e _. derr e) b1"
    if "jd W M b0 b1" for b1 using scan_wp [OF assms(1,2) that] that by (simp add: known_any)
  then have "wp (compute_sector_erase_pages_and_weight D fast_verify)
      (\<lambda>_ b1. wp (if any_unknown b1 then scan_pages_for_same D else ret ()) (\<lambda>_ b'. jd W M b0 b' \<and> known b') (\<lambda>e _. derr e) b1) (\<lambda>e _. derr e) b"
    by (intro wp_mono [OF estimate_wp [OF assms]]) blast+
  then show ?thesis using assms(3) by (simp add: finalize_smart_flash_def known_any)
qed

subsection \<open>Preparing\<close>

definition ready :: "memory \<Rightarrow> memory \<Rightarrow> int set \<Rightarrow> bool \<Rightarrow> 's builder \<Rightarrow> bool" where
  "ready M W A full b \<longleftrightarrow> drv M b \<and> grid_ok (fo_region D) (fb_pages b) (fb_sectors b) \<and> list_all (page_judged (fo_region D) W M) (fb_pages b)
     \<and> A \<subseteq> page_area (fb_pages b) \<and> (full \<longrightarrow> (\<forall>k < length (fb_sectors b). complete b k)) \<and> fb_prepared b \<and> fb_operations b \<noteq> []"

lemma ready_judged: "ready M W A full b \<Longrightarrow> jd W M b b"
  by (simp add: ready_def judged_def)

lemma ready_keep:
  assumes "ready M W A full b0" and "jd W M b0 b"
  shows "ready M W A full b"
proof -
  have same: "map pg_addr (fb_pages b) = map pg_addr (fb_pages b0)" "fb_sectors b = fb_sectors b0"
    "fb_operations b = fb_operations b0" "fb_prepared b = fb_prepared b0" "list_all (page_judged (fo_region D) W M) (fb_pages b)"
    using assms(2) by (simp_all add: judged_def)
  have "page_area (fb_pages b) = page_area (fb_pages b0)"
    by (rule page_judged_area [OF sizes(1)]) (use assms ready_judged in blast)+
  moreover have "addrs b k = addrs b0 k" if "k < length (fb_sectors b0)" for k
  proof -
    have "sector_ok (fo_region D) (fb_pages b0) (fb_sectors b0 ! k)"
      using assms(1) that by (simp add: ready_def grid_ok_def list_all_length)
    moreover have "length (fb_pages b) = length (fb_pages b0)" using same(1) by (metis length_map)
    ultimately show ?thesis using addrs_nth [OF same(1)] same(2) by (simp add: sector_addrs_def sector_ok_def)
  qed
  ultimately show ?thesis
    using assms(1,2) same grid_same_addrs [OF same(1)] by (auto simp: ready_def complete_def)
qed

lemma ready_sectors_in: "ready M W A full b \<Longrightarrow> sectors_in b"
  unfolding ready_def by (blast intro: grid_sectors_in)

lemma layout_ready:
  assumes "drv M b" and "layout_ok (fo_region D) W M (fb_pages b) (fb_sectors b)" and "A \<subseteq> page_area (fb_pages b)"
    and "full \<longrightarrow> (\<forall>k < length (fb_sectors b). complete b k)" and "fb_operations b \<noteq> []"
  shows "ready M W A full (b\<lparr>fb_prepared := True\<rparr>)"
proof -
  have "drv M (b\<lparr>fb_prepared := True\<rparr>)" using assms(1) by simp
  moreover have "complete (b\<lparr>fb_prepared := True\<rparr>) k = complete b k" for k by (simp add: complete_def)
  ultimately show ?thesis
    using assms by (auto simp: ready_def layout_ok_grid list_all_iff intro: page_ok_judged)
qed

lemma build_ready:
  assumes b: "drv M b" "fb_pages b = []" "fb_sectors b = []" and ops: "ops_ok (fo_region D) (fb_operations b)" "fb_operations b \<noteq> []"
    and full: "full = (keep \<and> fr_readable (fo_region D))" and W: "W = target_memory keep (fb_operations b) M" and A: "A = op_area (fb_operations b)"
  shows "wp (build_sectors_and_pages D keep) (\<lambda>_ b'. plan b' = plan b \<and> ready M W A full (b'\<lparr>fb_prepared := True\<rparr>)) (\<lambda>e _. derr e) b"
proof -
  let ?E = "\<lambda>e (_ :: 's builder). derr e"
  let ?Q = "\<lambda>_ b'. drv M b' \<and> layout_ok (fo_region D) W M (fb_pages b') (fb_sectors b') \<and> A \<subseteq> page_area (fb_pages b')
      \<and> (full \<longrightarrow> (\<forall>k < length (fb_sectors b'). complete b' k))"
  have outside: "W x = M x" if "full" "x \<notin> A" for x
    using target_outside [of x "fb_operations b" keep M] that unfolding W A full by (simp add: gap_memory_def)
  have fill: "wp (if keep \<and> fr_readable (fo_region D) then fill_unwritten_sector_pages D else ret ()) ?Q ?E b1"
    if b1: "all_placed M W (op_area (fb_operations b)) b1" for b1
  proof -
    have l: "layout_ok (fo_region D) W M (fb_pages b1) (fb_sectors b1)"
      by (rule laid_layout_ok) (use b1 in \<open>simp_all add: all_placed_def\<close>)
    then have f: "filling M W A b1" using b1 by (simp add: filling_def all_placed_def A)
    show ?thesis
    proof (cases full)
      case True
      have "wp (fill_unwritten_sector_pages D) ?Q ?E b1"
        by (rule wp_mono [OF fill_unwritten_wp [OF f outside [OF True]]]) (auto simp: filling_def)
      then show ?thesis using True by (simp add: full)
    next
      case False
      then have "(keep \<and> fr_readable (fo_region D)) = False" using full by blast
      then show ?thesis using f False unfolding filling_def by (simp only: if_False wp_ret) simp
    qed
  qed
  have 1: "wp (build_sectors_and_pages D keep) ?Q ?E b" by (rule build_wp [OF b ops W fill])
  have 2: "wp (build_sectors_and_pages D keep) (\<lambda>_ b'. plan b' = plan b) (\<lambda>_ _. True) b" by (rule wp_keeps [OF keeps_build])
  show ?thesis
    by (rule wp_mono [OF wp_conj [OF 1 2]]) (use ops(2) layout_ready in \<open>auto simp: plan_def\<close>)
qed

lemma prepare_wp:
  assumes b: "drv M b" "fb_pages b = []" "fb_sectors b = []" "\<not> fb_prepared b"
    and ops: "ops_ok (fo_region D) (fb_operations b)" "fb_operations b \<noteq> []"
    and full: "full = (keep \<and> fr_readable (fo_region D))" and W: "W = target_memory keep (fb_operations b) M" and A: "A = op_area (fb_operations b)"
  shows "wp (prepare_sectors_and_pages D keep smart) (\<lambda>_ b'. plan b' = plan b \<and> ready M W A full b') (\<lambda>e _. derr e) b"
proof -
  let ?E = "\<lambda>e (_ :: 's builder). derr e" and ?Q = "\<lambda>b'. plan b' = plan b \<and> ready M W A full b'"
  have mark: "wp (if \<not> smart then mark_all_pages_for_programming else ret ()) (\<lambda>_ b2. ?Q (b2\<lparr>fb_prepared := True\<rparr>)) ?E b1"
    if b1: "plan b1 = plan b \<and> ready M W A full (b1\<lparr>fb_prepared := True\<rparr>)" for b1
  proof (cases smart)
    case True
    then show ?thesis using b1 by (simp add: plan_def)
  next
    case False
    let ?b = "b1\<lparr>fb_prepared := True\<rparr>"
    have j: "judged (fo_region D) W M ?b ?b" "drv M b1" using b1 ready_judged [of M W A full ?b] by simp_all
    have b1b1: "judged (fo_region D) W M b1 b1" "sectors_in b1"
      using j(1) ready_sectors_in [of M W A full ?b] b1 by (simp_all add: judged_def sectors_in_def)
    have "wp mark_all_pages_for_programming (\<lambda>_ b2. ?Q (b2\<lparr>fb_prepared := True\<rparr>)) ?E b1"
    proof (rule wp_mono [OF judged_mark_all [OF b1b1(2,1)]])
      fix u b2 assume 2: "judged (fo_region D) W M b1 b2 \<and> device b2 = device b1"
      have "jd W M ?b (b2\<lparr>fb_prepared := True\<rparr>)"
        using 2 j(2) by (simp add: judged_def drv_def device_def)
      then have "ready M W A full (b2\<lparr>fb_prepared := True\<rparr>)" using ready_keep b1 by blast
      then show "?Q (b2\<lparr>fb_prepared := True\<rparr>)" using 2 b1 by (simp add: plan_def judged_def)
    qed simp
    then show ?thesis using False by simp
  qed
  have "wp (build_sectors_and_pages D keep) (\<lambda>_. wp (if \<not> smart then mark_all_pages_for_programming else ret ())
      (\<lambda>_ b2. ?Q (b2\<lparr>fb_prepared := True\<rparr>)) ?E) ?E b"
    by (rule wp_mono [OF build_ready [OF b(1-3) ops full W A]]) (use mark in simp_all)
  then show ?thesis using b(4) unfolding prepare_sectors_and_pages_def
    by (simp only: wp_bind wp_get_state wp_if wp_modify simp_thms if_True)
qed

lemma finalize_ready:
  assumes "ready M W A full b" and "\<not> (fast_verify \<and> fi_crc_supported (fo_info D))"
  shows "wp (finalize_smart_flash D fast_verify) (\<lambda>_ b'. plan b' = plan b \<and> ready M W A full b' \<and> known b') (\<lambda>e _. derr e) b"
proof (rule wp_mono [OF finalize_wp [OF _ ready_sectors_in [OF assms(1)] ready_judged [OF assms(1)] assms(2)]])
  show "grid_ok (fo_region D) (fb_pages b) (fb_sectors b)" using assms(1) by (simp add: ready_def)
  fix u b' assume "jd W M b b' \<and> known b'"
  then show "plan b' = plan b \<and> ready M W A full b' \<and> known b'"
    using ready_keep [OF assms(1)] by (auto simp: plan_def judged_def)
qed simp

subsection \<open>Erasing the sectors that differ\<close>

definition laidout :: "memory \<Rightarrow> memory \<Rightarrow> int set \<Rightarrow> bool \<Rightarrow> 's builder \<Rightarrow> bool" where
  "laidout M W A full b \<longleftrightarrow> grid_ok (fo_region D) (fb_pages b) (fb_sectors b) \<and> list_all (page_judged (fo_region D) W M) (fb_pages b)
     \<and> A \<subseteq> page_area (fb_pages b) \<and> (full \<longrightarrow> (\<forall>k < length (fb_sectors b). complete b k)) \<and> fb_prepared b \<and> fb_operations b \<noteq> []"

lemma ready_iff: "ready M W A full b \<longleftrightarrow> drv M b \<and> laidout M W A full b"
  by (simp add: ready_def laidout_def)

lemma laidout_flash [simp]: "laidout M W A full (b\<lparr>fb_flash := s\<rparr>) = laidout M W A full b"
  "laidout M W A full (b\<lparr>fb_algo_inited_for_read := r\<rparr>) = laidout M W A full b"
  "laidout M W A full (b\<lparr>fb_last_erase_was_chip := r\<rparr>) = laidout M W A full b"
  by (simp_all add: laidout_def complete_def)

definition differs :: "'s builder \<Rightarrow> int \<Rightarrow> bool" where
  "differs b x \<longleftrightarrow> (\<exists>c \<in> set (fb_sectors b). are_any_pages_not_same b c \<and> in_sector (fo_region D) c x)"

definition blanked :: "'s builder \<Rightarrow> flash_sector list \<Rightarrow> memory \<Rightarrow> memory" where
  "blanked b cs M x = (if \<exists>c \<in> set cs. are_any_pages_not_same b c \<and> in_sector (fo_region D) c x then blank else M x)"

lemma not_same_pages: "fb_pages b' = fb_pages b \<Longrightarrow> are_any_pages_not_same b' c = are_any_pages_not_same b c"
  by (simp add: are_any_pages_not_same_def sector_pages_def page_at_def [abs_def])

lemma erase_sectors_wp:
  assumes b: "laidout M W A full b" and s: "sinv (fb_flash b)" "fmem (fb_flash b) = M" and erasable: "fr_erasable (fo_region D)"
  shows "wp (erase_sectors D) (\<lambda>_ b'. \<exists>s. b' = b\<lparr>fb_flash := s\<rparr> \<and> sinv s \<and> fmem s = blanked b (fb_sectors b) M) (\<lambda>e _. derr e) b"
proof -
  let ?E = "\<lambda>e (_ :: 's builder). derr e"
  let ?I = "\<lambda>cs b'. \<exists>s. b' = b\<lparr>fb_flash := s\<rparr> \<and> sinv s \<and> fact s = Some ERASE \<and> fmem s = blanked b cs M"
  have step: "wp (erase_one_sector D c) (\<lambda>_. ?I (cs @ [c])) ?E b1" if cs: "fb_sectors b = cs @ c # rest" and I: "?I cs b1" for cs c rest b1
  proof -
    obtain s where s: "b1 = b\<lparr>fb_flash := s\<rparr>" "sinv s" "fact s = Some ERASE" "fmem s = blanked b cs M" using I by auto
    have sh: "sector_shape (fo_region D) c" using b cs by (simp add: laidout_def grid_ok_def sector_ok_def)
    have one: "sc_addrs c = [sc_addr c]" using sh by (simp add: sc_addrs_def sector_shape_def)
    have needs: "are_any_pages_not_same b1 c = are_any_pages_not_same b c" by (rule not_same_pages) (simp add: s(1))
    show ?thesis
    proof (cases "are_any_pages_not_same b c")
      case True
      have blank: "blanked b (cs @ [c]) M = (\<lambda>x. if sc_addr c \<le> x \<and> x < sc_addr c + S then blank else fmem s x)"
        using True s(4) by (auto simp: blanked_def fun_eq_iff in_sector_def)
      have "wp (on_flash (fo_erase_sector D (sc_addr c))) (\<lambda>_. ?I (cs @ [c])) ?E b1"
        unfolding wp_on_flash
      proof (rule wp_mono [OF erase_law])
        fix u s' assume 1: "sinv s' \<and> fact s' = fact (fb_flash b1) \<and> fmem s' = (\<lambda>x. if sc_addr c \<le> x \<and> x < sc_addr c + S then blank else fmem (fb_flash b1) x)"
        then show "?I (cs @ [c]) (b1\<lparr>fb_flash := s'\<rparr>)" unfolding blank s(1) by (intro exI [of _ s']) (simp add: s(3) cong: if_cong)
      qed (use s sh in \<open>simp_all add: sector_shape_def\<close>)
      then show ?thesis using True erasable needs one by (simp add: erase_one_sector_def)
    next
      case False
      then have "blanked b (cs @ [c]) M = blanked b cs M" by (auto simp: blanked_def fun_eq_iff)
      then show ?thesis using False I needs by (simp add: erase_one_sector_def)
    qed
  qed
  have loop: "wp (for_each (erase_one_sector D) (fb_sectors b)) (\<lambda>_. ?I (fb_sectors b)) ?E b1" if "?I [] b1" for b1
    by (rule wp_for_each [where I = ?I]) (erule (1) step, rule that)
  have fin: "wp (on_flash (fo_uninit D)) (\<lambda>_ b'. \<exists>s. b' = b\<lparr>fb_flash := s\<rparr> \<and> sinv s \<and> fmem s = blanked b (fb_sectors b) M) ?E b2"
    if "?I (fb_sectors b) b2" for b2
    unfolding wp_on_flash by (rule wp_mono [OF uninit_law]) (use that in auto)
  have run: "wp (for_each (erase_one_sector D) (fb_sectors b1))
      (\<lambda>_. wp (on_flash (fo_uninit D)) (\<lambda>_ b'. \<exists>s. b' = b\<lparr>fb_flash := s\<rparr> \<and> sinv s \<and> fmem s = blanked b (fb_sectors b) M) ?E) ?E b1"
    if "?I [] b1" for b1
  proof -
    have "fb_sectors b1 = fb_sectors b" using that by auto
    then show ?thesis using wp_mono [OF loop [OF that] fin] by simp
  qed
  have M: "blanked b [] M = M" by (simp add: blanked_def fun_eq_iff)
  have "wp (on_flash (fo_init D ERASE)) (\<lambda>_. ?I []) ?E b"
    unfolding wp_on_flash M by (rule wp_mono [OF init_law [OF s(1)]]) (use s in auto)
  then have "wp (on_flash (fo_init D ERASE)) (\<lambda>_ b1. wp (for_each (erase_one_sector D) (fb_sectors b1))
      (\<lambda>_. wp (on_flash (fo_uninit D)) (\<lambda>_ b'. \<exists>s. b' = b\<lparr>fb_flash := s\<rparr> \<and> sinv s \<and> fmem s = blanked b (fb_sectors b) M) ?E) ?E b1) ?E b"
    by (rule wp_mono) (rule run)
  then show ?thesis unfolding erase_sectors_def by (simp only: wp_bind wp_get_state)
qed

text \<open>What \<open>erase\<close> leaves: blank sectors where a page differs, the rest as it was.\<close>

definition erased :: "memory \<Rightarrow> memory \<Rightarrow> int set \<Rightarrow> bool \<Rightarrow> bool \<Rightarrow> 's builder \<Rightarrow> bool" where
  "erased M W A full smart b \<longleftrightarrow> laidout M W A full b \<and> sinv (fb_flash b) \<and> fmem (fb_flash b) = blanked b (fb_sectors b) M
     \<and> (smart \<longrightarrow> known b)"

lemma sector_choice_wp:
  assumes "ready M W A full b" and "choice = Some False \<or> \<not> fo_erase_all_supported D"
  shows "wp (choose_chip_erase D choice) (\<lambda>whole b'. \<not> whole \<and> plan b' = plan b \<and> ready M W A full b') E b"
proof -
  have k: "ready M W A full b'" "plan b' = plan b" if "jd W M b b'" for b'
    using ready_keep [OF assms(1) that] that by (simp_all add: judged_def plan_def)
  have "wp (compute_chip_erase_pages_and_weight D) (\<lambda>_ b'. plan b' = plan b \<and> ready M W A full b') E b"
    by (rule wp_mono [OF count_erased_wp [OF ready_judged [OF assms(1)]]]) (use k in auto)
  then show ?thesis
    unfolding choose_chip_erase_def wp_bind wp_get_state Let_def
    by (rule wp_mono) (use assms(2) in auto)
qed

lemma notify_fact_wp: "sinv (fb_flash b) \<Longrightarrow> wp (on_flash (fo_notify D ev)) (\<lambda>_ b'. \<exists>s. b' = b\<lparr>fb_flash := s\<rparr> \<and> sinv s \<and> fmem s = fmem (fb_flash b) \<and> fact s = fact (fb_flash b)) (\<lambda>e _. derr e) b"
  unfolding wp_on_flash by (rule wp_mono [OF notify_law]) auto

lemma notify_wp: "sinv (fb_flash b) \<Longrightarrow> wp (on_flash (fo_notify D ev)) (\<lambda>_ b'. \<exists>s. b' = b\<lparr>fb_flash := s\<rparr> \<and> sinv s \<and> fmem s = fmem (fb_flash b)) (\<lambda>e _. derr e) b"
  by (rule wp_mono [OF notify_fact_wp]) auto

lemma cleanup_wp: "sinv (fb_flash b) \<Longrightarrow> wp (on_flash (fo_cleanup D)) (\<lambda>_ b'. \<exists>s. b' = b\<lparr>fb_flash := s\<rparr> \<and> sinv s \<and> fmem s = fmem (fb_flash b)) (\<lambda>e _. derr e) b"
  unfolding wp_on_flash by (rule wp_mono [OF cleanup_law]) auto

end

end
