(* ===== verification/Flash_Commit.thy ===== *)
theory Flash_Commit
  imports Flash_Program
begin

text \<open>
  Erasing and programming together: the contents of the flash after the builder's data is committed.
\<close>

subsection \<open>The whole of \<open>erase\<close>\<close>

text \<open>What a commit is to achieve.\<close>

definition data_in_flash :: "(int \<times> int list) list \<Rightarrow> memory \<Rightarrow> bool" where
  "data_in_flash ops m \<longleftrightarrow> (\<forall>(a, d) \<in> set ops. mem_bytes m a (length d) = d)"

context flash_driver
begin

lemma erase_wp:
  assumes b: "drv M b" "fb_pages b = []" "fb_sectors b = []" "\<not> fb_prepared b"
    and ops: "ops_ok (fo_region D) (fb_operations b)" "fb_operations b \<noteq> []" and erasable: "fr_erasable (fo_region D)"
    and choice: "convert_chip_erase chip = Inr choice" "choice = Some False \<or> \<not> fo_erase_all_supported D"
    and crc: "\<not> (fast_verify \<and> fi_crc_supported (fo_info D))"
    and k: "k = (fr_erased_readable (fo_region D) \<and> keep)" and full: "full = (k \<and> fr_readable (fo_region D))"
    and W: "W = target_memory k (fb_operations b) M" and A: "A = op_area (fb_operations b)"
  shows "wp (erase D chip smart fast_verify keep)
    (\<lambda>_ b'. plan b' = plan b \<and> erased M W A full (fr_erased_readable (fo_region D) \<and> smart) b') (\<lambda>e _. derr e) b"
proof -
  let ?E = "\<lambda>e (_ :: 's builder). derr e"
  let ?smart = "fr_erased_readable (fo_region D) \<and> smart" and ?fast = "fr_erased_readable (fo_region D) \<and> fast_verify"
  let ?Q = "\<lambda>_ b'. plan b' = plan b \<and> erased M W A full ?smart b'"
  have fast: "\<not> (?fast \<and> fi_crc_supported (fo_info D))" using crc by blast
  have finish: "wp (on_flash (fo_cleanup D)) (\<lambda>_. wp (modify (\<lambda>b. b\<lparr>fb_last_erase_was_chip := whole\<rparr>))
      (\<lambda>_. wp (on_flash (fo_notify D POST_FLASH_ERASE)) ?Q ?E) ?E) ?E b1"
    if b1: "plan b1 = plan b" "erased M W A full ?smart b1" for b1 whole
  proof (rule wp_mono [OF cleanup_wp])
    show "sinv (fb_flash b1)" using b1 by (simp add: erased_def)
    have keep: "erased M W A full ?smart (b1\<lparr>fb_flash := s, fb_last_erase_was_chip := whole, fb_flash := s'\<rparr>)" if "sinv s'" "fmem s' = fmem (fb_flash b1)" for s s'
      using b1(2) that by (simp add: erased_def known_def blanked_def [abs_def] are_any_pages_not_same_def sector_pages_def page_at_def [abs_def])
    fix u b2 assume "\<exists>s. b2 = b1\<lparr>fb_flash := s\<rparr> \<and> sinv s \<and> fmem s = fmem (fb_flash b1)"
    then obtain s where s: "b2 = b1\<lparr>fb_flash := s\<rparr>" "sinv s" "fmem s = fmem (fb_flash b1)" by blast
    have "wp (on_flash (fo_notify D POST_FLASH_ERASE)) ?Q ?E (b2\<lparr>fb_last_erase_was_chip := whole\<rparr>)"
      by (rule wp_mono [OF notify_wp]) (use s keep b1(1) in \<open>auto simp: plan_def\<close>)
    then show "wp (modify (\<lambda>b. b\<lparr>fb_last_erase_was_chip := whole\<rparr>)) (\<lambda>_. wp (on_flash (fo_notify D POST_FLASH_ERASE)) ?Q ?E) ?E b2"
      by simp
  qed simp
  have sectors: "wp (erase_sectors D) (\<lambda>_. wp (on_flash (fo_cleanup D)) (\<lambda>_. wp (modify (\<lambda>b. b\<lparr>fb_last_erase_was_chip := whole\<rparr>))
      (\<lambda>_. wp (on_flash (fo_notify D POST_FLASH_ERASE)) ?Q ?E) ?E) ?E) ?E (b1\<lparr>fb_algo_inited_for_read := False\<rparr>)"
    if b1: "plan b1 = plan b" "ready M W A full b1" "?smart \<longrightarrow> known b1" for b1 whole
  proof (rule wp_mono [OF erase_sectors_wp [OF _ _ _ erasable]])
    let ?b1 = "b1\<lparr>fb_algo_inited_for_read := False\<rparr>"
    show r: "laidout M W A full ?b1" "sinv (fb_flash ?b1)" "fmem (fb_flash ?b1) = M" using b1(2) by (simp_all add: ready_iff drv_def)
    fix u b2 assume "\<exists>s. b2 = ?b1\<lparr>fb_flash := s\<rparr> \<and> sinv s \<and> fmem s = blanked ?b1 (fb_sectors ?b1) M"
    then obtain s where s: "b2 = ?b1\<lparr>fb_flash := s\<rparr>" "sinv s" "fmem s = blanked ?b1 (fb_sectors ?b1) M" by blast
    have "erased M W A full ?smart b2"
      using r s b1(3) by (simp add: erased_def ready_iff known_def blanked_def [abs_def] are_any_pages_not_same_def sector_pages_def page_at_def [abs_def])
    moreover have "plan b2 = plan b" using b1(1) s(1) by (simp add: plan_def)
    ultimately show "wp (on_flash (fo_cleanup D)) (\<lambda>_. wp (modify (\<lambda>b. b\<lparr>fb_last_erase_was_chip := whole\<rparr>))
      (\<lambda>_. wp (on_flash (fo_notify D POST_FLASH_ERASE)) ?Q ?E) ?E) ?E b2" by (intro finish)
  qed simp
  let ?tail = "\<lambda>whole. bind (modify (\<lambda>b. b\<lparr>fb_algo_inited_for_read := False\<rparr>)) (\<lambda>_.
      bind (if whole then chip_erase D else erase_sectors D) (\<lambda>_.
      bind (on_flash (fo_cleanup D)) (\<lambda>_.
      bind (modify (\<lambda>b. b\<lparr>fb_last_erase_was_chip := whole\<rparr>)) (\<lambda>_. on_flash (fo_notify D POST_FLASH_ERASE)))))"
  have tail: "wp (?tail False) ?Q ?E b1" if "plan b1 = plan b" "ready M W A full b1" "?smart \<longrightarrow> known b1" for b1
    using sectors [OF that, of False] unfolding wp_bind wp_modify if_False .
  have final: "wp (if ?smart \<and> \<not> whole then finalize_smart_flash D ?fast else ret ()) (\<lambda>_. wp (?tail whole) ?Q ?E) ?E b1"
    if b1: "\<not> whole" "plan b1 = plan b" "ready M W A full b1" for b1 whole
  proof -
    have w: "whole = False" using b1(1) by simp
    show ?thesis
    proof (cases ?smart)
      case True
      have "wp (finalize_smart_flash D ?fast) (\<lambda>_. wp (?tail False) ?Q ?E) ?E b1"
        by (rule wp_mono [OF finalize_ready [OF b1(3) fast]]) (intro tail, use b1(2) in simp_all)
      then show ?thesis unfolding w using True by (simp only: simp_thms if_True)
    next
      case False
      then have "wp (ret ()) (\<lambda>_. wp (?tail False) ?Q ?E) ?E b1" unfolding wp_ret by (intro tail b1(2,3)) blast
      then show ?thesis unfolding w using False by (simp only: simp_thms if_False)
    qed
  qed
  have choose: "wp (choose_chip_erase D choice) (\<lambda>whole. wp (if ?smart \<and> \<not> whole then finalize_smart_flash D ?fast else ret ())
      (\<lambda>_. wp (?tail whole) ?Q ?E) ?E) ?E b1" if "plan b1 = plan b" "ready M W A full b1" for b1
    by (rule wp_mono [OF sector_choice_wp [OF that(2) choice(2)]]) (intro final, use that(1) in simp_all)
  have prep: "wp (prepare_sectors_and_pages D k ?smart) (\<lambda>_. wp (choose_chip_erase D choice) (\<lambda>whole.
      wp (if ?smart \<and> \<not> whole then finalize_smart_flash D ?fast else ret ()) (\<lambda>_. wp (?tail whole) ?Q ?E) ?E) ?E) ?E b1"
    if "\<exists>s. b1 = b\<lparr>fb_flash := s\<rparr> \<and> sinv s \<and> fmem s = fmem (fb_flash b) \<and> fact s = fact (fb_flash b)" for b1
  proof -
    have b1: "drv M b1" "fb_pages b1 = []" "fb_sectors b1 = []" "\<not> fb_prepared b1" "fb_operations b1 = fb_operations b" "plan b1 = plan b"
      using that b by (auto simp: drv_def plan_def)
    show ?thesis
      by (rule wp_mono [OF prepare_wp [OF b1(1-4) _ _ full, of W A]], simp add: b1(5) ops, simp add: b1(5) ops,
        simp add: b1(5) W, simp add: b1(5) A, intro choose, simp_all add: b1(6))
  qed
  have "wp (on_flash (fo_notify D PRE_FLASH_ERASE)) (\<lambda>_ b1. wp (prepare_sectors_and_pages D k ?smart) (\<lambda>_. wp (choose_chip_erase D choice) (\<lambda>whole.
      wp (if ?smart \<and> \<not> whole then finalize_smart_flash D ?fast else ret ()) (\<lambda>_. wp (?tail whole) ?Q ?E) ?E) ?E) ?E b1 \<and> fb_operations b1 \<noteq> []) ?E b"
    by (rule wp_mono [OF notify_fact_wp]) (use b(1) prep ops(2) in \<open>auto simp: drv_def\<close>)
  then show ?thesis
    unfolding erase_def Let_def wp_bind wp_get_state wp_if wp_lift_res choice(1) sum.case k [symmetric]
    by (rule wp_mono) simp_all
qed

subsection \<open>Programming the sectors that differ\<close>

definition overlay :: "memory \<Rightarrow> int set \<Rightarrow> memory \<Rightarrow> memory" where
  "overlay W B m x = (if \<exists>a \<in> B. a \<le> x \<and> x < a + P then W x else m x)"

lemma overlay_insert:
  assumes "ds = mem_bytes W a (nat P)"
  shows "mem_write (overlay W B m) a ds = overlay W (insert a B) m"
proof
  fix x
  have "ds ! nat (x - a) = W x" if "a \<le> x" "x < a + P"
    using that assms by (simp add: mem_bytes_def)
  then show "mem_write (overlay W B m) a ds x = overlay W (insert a B) m x"
    using assms sizes(1) by (auto simp: mem_write_def overlay_def)
qed

definition programmed :: "'s builder \<Rightarrow> flash_sector list \<Rightarrow> int set" where
  "programmed b cs = (\<Union>c \<in> {c \<in> set cs. are_any_pages_not_same b c}. set (sector_addrs (fb_pages b) c))"

lemma program_page_wp:
  assumes s: "sinv s" "fact s = Some PROGRAM" "fmem s = overlay W B m" and dvd: "P dvd a" "\<And>a'. a' \<in> B \<Longrightarrow> P dvd a'"
    and region: "first \<le> a" "a + P \<le> past" and fresh: "a \<notin> B" and blank: "\<And>x. a \<le> x \<Longrightarrow> x < a + P \<Longrightarrow> m x = blank"
    and ds: "ds = mem_bytes W a (nat P)"
  shows "wp (fo_program_page D a ds) (\<lambda>_ s'. sinv s' \<and> fact s' = Some PROGRAM \<and> fmem s' = overlay W (insert a B) m) (\<lambda>e _. derr e) s"
proof (rule wp_mono [OF program_law [OF s(1,2) dvd(1) region]])
  show "int (length ds) = P" using ds sizes(1) by simp
  show "fmem s x = blank" if x: "a \<le> x" "x < a + P" for x
  proof -
    have "\<not> (a' \<le> x \<and> x < a' + P)" if a': "a' \<in> B" for a'
    proof
      assume 1: "a' \<le> x \<and> x < a' + P"
      have "a' = a" by (rule multiples_close [OF sizes(1)]) (use dvd a' x 1 in auto)
      then show False using a' fresh by simp
    qed
    then have "overlay W B m x = m x" by (auto simp: overlay_def)
    then show ?thesis using blank [OF x] s(3) by simp
  qed
  fix u s' assume "sinv s' \<and> fact s' = fact s \<and> fmem s' = mem_write (fmem s) a ds"
  then show "sinv s' \<and> fact s' = Some PROGRAM \<and> fmem s' = overlay W (insert a B) m"
    using s overlay_insert [OF ds] by simp
qed simp

lemma laidout_page:
  assumes "laidout M W A full b" and "c \<in> set (fb_sectors b)" and "p \<in> set (sector_pages b c)"
  shows "P dvd pg_addr p" and "pg_data p = mem_bytes W (pg_addr p) (nat P)" and "in_sector (fo_region D) c (pg_addr p)"
    and "first \<le> pg_addr p" and "pg_addr p + P \<le> past" and "pg_addr p + P \<le> sc_addr c + S" and "p \<in> set (fb_pages b)"
    and "pg_same p = Some True \<longrightarrow> pg_data p = mem_bytes M (pg_addr p) (nat P)"
proof -
  obtain i where i: "i \<in> set (sc_pages c)" "p = fb_pages b ! i" using assms(3) by (auto simp: sector_pages_def page_at_def)
  have c: "sector_ok (fo_region D) (fb_pages b) c" using assms(1,2) by (simp add: laidout_def grid_ok_def list_all_iff)
  then have len: "i < length (fb_pages b)" "in_sector (fo_region D) c (pg_addr p)" using i by (simp_all add: sector_ok_def)
  then show mem: "p \<in> set (fb_pages b)" and "in_sector (fo_region D) c (pg_addr p)" using i(2) by simp_all
  then show j: "P dvd pg_addr p" "pg_data p = mem_bytes W (pg_addr p) (nat P)" "pg_same p = Some True \<longrightarrow> pg_data p = mem_bytes M (pg_addr p) (nat P)"
  proof -
    have "page_judged (fo_region D) W M p" using assms(1) mem by (simp add: laidout_def list_all_iff)
    then show "P dvd pg_addr p" "pg_data p = mem_bytes W (pg_addr p) (nat P)" "pg_same p = Some True \<longrightarrow> pg_data p = mem_bytes M (pg_addr p) (nat P)"
      unfolding page_judged_def by blast+
  qed
  have sh: "sector_shape (fo_region D) c" using c by (simp add: sector_ok_def)
  show le: "pg_addr p + P \<le> sc_addr c + S"
  proof (rule multiple_gap [OF sizes(1)])
    have "P dvd sc_addr c" using sh sizes(3) by (auto simp: sector_shape_def intro: dvd_trans)
    then show "P dvd sc_addr c + S" using sizes(3) by simp
  qed (use j(1) len(2) in \<open>simp_all add: in_sector_def\<close>)
  show "first \<le> pg_addr p" "pg_addr p + P \<le> past" using sh len(2) le by (simp_all add: sector_shape_def in_sector_def)
qed

lemma sectors_disjoint:
  assumes "laidout M W A full b" and "c \<in> set (fb_sectors b)" "c' \<in> set (fb_sectors b)" and "in_sector (fo_region D) c x" "in_sector (fo_region D) c' x"
  shows "c' = c"
proof -
  have sh: "sector_shape (fo_region D) c" "sector_shape (fo_region D) c'"
    using assms(1-3) by (simp_all add: laidout_def grid_ok_def list_all_iff sector_ok_def)
  have "sc_addr c' = sc_addr c"
    by (rule multiples_close [OF sizes(2)]) (use sh assms(4,5) in \<open>auto simp: sector_shape_def in_sector_def\<close>)
  moreover have "distinct (map sc_addr (fb_sectors b))" using assms(1) by (simp add: laidout_def grid_ok_def strict_sorted_iff)
  ultimately show ?thesis using assms(2,3) by (simp add: distinct_map inj_on_def)
qed

lemma sector_addrs_pages: "sector_addrs (fb_pages b) c = map pg_addr (sector_pages b c)"
  by (simp add: sector_addrs_def sector_pages_def page_at_def)

lemma programmed_dvd: "laidout M W A full b \<Longrightarrow> set cs \<subseteq> set (fb_sectors b) \<Longrightarrow> a \<in> programmed b cs \<Longrightarrow>
  P dvd a \<and> (\<exists>c \<in> set cs. in_sector (fo_region D) c a)"
  by (fastforce simp: programmed_def sector_addrs_pages dest: laidout_page)

lemma program_sector_wp:
  assumes l: "laidout M W A full b" and cs: "fb_sectors b = cs @ c # rest" and differs: "are_any_pages_not_same b c"
    and s: "b1 = b\<lparr>fb_flash := s\<rparr>" "sinv s" "fact s = Some PROGRAM" "fmem s = overlay W (programmed b cs) (blanked b (fb_sectors b) M)"
  shows "wp (for_each (\<lambda>p. on_flash (fo_program_page D (pg_addr p) (pg_data p))) (sector_pages b c))
    (\<lambda>_ b'. \<exists>s. b' = b\<lparr>fb_flash := s\<rparr> \<and> sinv s \<and> fact s = Some PROGRAM
      \<and> fmem s = overlay W (programmed b (cs @ [c])) (blanked b (fb_sectors b) M)) (\<lambda>e _. derr e) b1"
proof -
  let ?m = "blanked b (fb_sectors b) M" and ?E = "\<lambda>e (_ :: 's builder). derr e"
  let ?I = "\<lambda>ps b'. \<exists>s. b' = b\<lparr>fb_flash := s\<rparr> \<and> sinv s \<and> fact s = Some PROGRAM
      \<and> fmem s = overlay W (programmed b cs \<union> pg_addr ` set ps) ?m"
  have c: "c \<in> set (fb_sectors b)" using cs by simp
  have "distinct (map sc_addr (fb_sectors b))" using l by (simp add: laidout_def grid_ok_def strict_sorted_iff)
  then have other: "c \<notin> set cs" using cs by (auto simp: distinct_map)
  have "sector_ok (fo_region D) (fb_pages b) c" using l c by (simp add: laidout_def grid_ok_def list_all_iff)
  then have sorted: "sorted_wrt (<) (map pg_addr (sector_pages b c))" by (simp add: sector_ok_def sector_addrs_pages)
  have step: "wp (on_flash (fo_program_page D (pg_addr p) (pg_data p))) (\<lambda>_. ?I (ps @ [p])) ?E b2"
    if ps: "sector_pages b c = ps @ p # qs" and I: "?I ps b2" for ps p qs b2
  proof -
    obtain s2 where s2: "b2 = b\<lparr>fb_flash := s2\<rparr>" "sinv s2" "fact s2 = Some PROGRAM"
      "fmem s2 = overlay W (programmed b cs \<union> pg_addr ` set ps) ?m" using I by blast
    have p: "p \<in> set (sector_pages b c)" using ps by simp
    note L = laidout_page [OF l c p]
    have fresh: "pg_addr p \<notin> programmed b cs \<union> pg_addr ` set ps"
    proof
      assume "pg_addr p \<in> programmed b cs \<union> pg_addr ` set ps"
      then consider "pg_addr p \<in> programmed b cs" | q where "q \<in> set ps" "pg_addr q = pg_addr p" by auto
      then show False
      proof cases
        case 1
        then obtain c' where "c' \<in> set cs" "in_sector (fo_region D) c' (pg_addr p)" using programmed_dvd [OF l, of cs] cs by auto
        then have "c' = c" using sectors_disjoint [OF l c _ L(3)] cs by simp
        then show ?thesis using other \<open>c' \<in> set cs\<close> by simp
      next
        case 2
        then show ?thesis using sorted ps by (fastforce simp: sorted_wrt_append)
      qed
    qed
    have blank: "?m x = blank" if "pg_addr p \<le> x" "x < pg_addr p + P" for x
      using that L(3,6) differs c by (auto simp: blanked_def in_sector_def)
    have dvd: "P dvd a'" if "a' \<in> programmed b cs \<union> pg_addr ` set ps" for a'
    proof -
      have "P dvd pg_addr q" if q: "q \<in> set ps" for q by (rule laidout_page(1) [OF l c]) (use q ps in simp)
      then show ?thesis using that programmed_dvd [OF l, of cs a'] cs by auto
    qed
    have page: "wp (fo_program_page D (pg_addr p) (pg_data p)) (\<lambda>_ s'. sinv s' \<and> fact s' = Some PROGRAM
        \<and> fmem s' = overlay W (insert (pg_addr p) (programmed b cs \<union> pg_addr ` set ps)) ?m) (\<lambda>e _. derr e) s2"
      by (rule program_page_wp [OF s2(2-4) L(1) dvd L(4,5) fresh blank L(2)])
    have fb: "fb_flash b2 = s2" by (simp add: s2(1))
    show ?thesis unfolding wp_on_flash fb by (rule wp_mono [OF page]) (auto simp: s2(1))
  qed
  have fin: "programmed b (cs @ [c]) = programmed b cs \<union> pg_addr ` set (sector_pages b c)"
    using differs by (auto simp: programmed_def sector_addrs_pages)
  have "wp (for_each (\<lambda>p. on_flash (fo_program_page D (pg_addr p) (pg_data p))) (sector_pages b c)) (\<lambda>_. ?I (sector_pages b c)) ?E b1"
    by (rule wp_for_each [where I = ?I]) (erule (1) step, use s in auto)
  then show ?thesis unfolding fin .
qed

definition committed :: "memory \<Rightarrow> memory \<Rightarrow> 's builder \<Rightarrow> memory" where
  "committed M W b = overlay W (programmed b (fb_sectors b)) (blanked b (fb_sectors b) M)"

lemma program_pages_wp:
  assumes l: "laidout M W A full b" and s: "sinv (fb_flash b)" "fmem (fb_flash b) = blanked b (fb_sectors b) M"
  shows "wp (program_pages D) (\<lambda>_ b'. \<exists>s. b' = b\<lparr>fb_flash := s\<rparr> \<and> sinv s \<and> fmem s = committed M W b) (\<lambda>e _. derr e) b"
proof -
  let ?E = "\<lambda>e (_ :: 's builder). derr e" and ?m = "blanked b (fb_sectors b) M"
  let ?I = "\<lambda>cs b'. \<exists>s. b' = b\<lparr>fb_flash := s\<rparr> \<and> sinv s \<and> fact s = Some PROGRAM \<and> fmem s = overlay W (programmed b cs) ?m"
  let ?Q = "\<lambda>_ b'. \<exists>s. b' = b\<lparr>fb_flash := s\<rparr> \<and> sinv s \<and> fmem s = committed M W b"
  have step: "wp (program_sector D c) (\<lambda>_. ?I (cs @ [c])) ?E b1" if cs: "fb_sectors b = cs @ c # rest" and I: "?I cs b1" for cs c rest b1
  proof -
    obtain s1 where s1: "b1 = b\<lparr>fb_flash := s1\<rparr>" "sinv s1" "fact s1 = Some PROGRAM" "fmem s1 = overlay W (programmed b cs) ?m" using I by blast
    have same: "are_any_pages_not_same b1 c = are_any_pages_not_same b c" "sector_pages b1 c = sector_pages b c"
      by (rule not_same_pages) (simp_all add: s1(1) sector_pages_def page_at_def [abs_def])
    show ?thesis
    proof (cases "are_any_pages_not_same b c")
      case True
      then show ?thesis using program_sector_wp [OF l cs True s1] same by (simp add: program_sector_def)
    next
      case False
      have "programmed b (cs @ [c]) = programmed b cs" using False by (auto simp: programmed_def)
      then show ?thesis using I False same by (simp add: program_sector_def)
    qed
  qed
  have loop: "wp (for_each (program_sector D) (fb_sectors b)) (\<lambda>_. ?I (fb_sectors b)) ?E b1" if "?I [] b1" for b1
    by (rule wp_for_each [where I = ?I]) (erule (1) step, rule that)
  have fin: "wp (on_flash (fo_uninit D)) ?Q ?E b2" if "?I (fb_sectors b) b2" for b2
    unfolding wp_on_flash by (rule wp_mono [OF uninit_law]) (use that in \<open>auto simp: committed_def\<close>)
  have run: "wp (for_each (program_sector D) (fb_sectors b1)) (\<lambda>_. wp (on_flash (fo_uninit D)) ?Q ?E) ?E b1" if "?I [] b1" for b1
  proof -
    have "fb_sectors b1 = fb_sectors b" using that by auto
    then show ?thesis using wp_mono [OF loop [OF that] fin] by simp
  qed
  have M: "overlay W (programmed b []) ?m = ?m" by (simp add: overlay_def programmed_def fun_eq_iff)
  have "wp (on_flash (fo_init D PROGRAM)) (\<lambda>_. ?I []) ?E b"
    unfolding wp_on_flash M by (rule wp_mono [OF init_law [OF s(1)]]) (use s in auto)
  then have "wp (on_flash (fo_init D PROGRAM)) (\<lambda>_ b1. wp (for_each (program_sector D) (fb_sectors b1)) (\<lambda>_. wp (on_flash (fo_uninit D)) ?Q ?E) ?E b1) ?E b"
    by (rule wp_mono) (rule run)
  then show ?thesis unfolding program_pages_def by (simp only: wp_bind wp_get_state)
qed

subsection \<open>The contents of the flash afterwards\<close>

lemma not_differing: "blanked b (fb_sectors b) M x = M x \<or> differs b x"
  by (auto simp: blanked_def differs_def)

lemma overlay_cases: "overlay W B m x = W x \<or> overlay W B m x = m x"
  by (simp add: overlay_def)

text \<open>The data of every operation is in the flash.\<close>

lemma committed_data:
  assumes l: "laidout M W A full b" and x: "x \<in> A"
  shows "committed M W b x = W x"
proof -
  obtain p where p: "p \<in> set (fb_pages b)" "pg_addr p \<le> x" "x < pg_addr p + int (length (pg_data p))"
    using l x by (auto simp: laidout_def page_area_def)
  have "page_judged (fo_region D) W M p" using l p(1) by (simp add: laidout_def list_all_iff)
  then have data: "int (length (pg_data p)) = P" using sizes(1) unfolding page_judged_def by simp
  obtain i where i: "i < length (fb_pages b)" "fb_pages b ! i = p" using p(1) by (metis in_set_conv_nth)
  then have "i \<in> (\<Union>c \<in> set (fb_sectors b). set (sc_pages c))" using l by (simp add: laidout_def grid_ok_def)
  then obtain c where c: "c \<in> set (fb_sectors b)" "i \<in> set (sc_pages c)" by blast
  have mem: "p \<in> set (sector_pages b c)" using c(2) i(2) by (auto simp: sector_pages_def page_at_def)
  note L = laidout_page [OF l c(1) mem]
  show ?thesis
  proof (cases "are_any_pages_not_same b c")
    case True
    then have "pg_addr p \<in> programmed b (fb_sectors b)" using c(1) mem by (auto simp: programmed_def sector_addrs_pages)
    then show ?thesis using p(2,3) data by (auto simp: committed_def overlay_def)
  next
    case False
    then have "pg_same p = Some True" using mem by (auto simp: are_any_pages_not_same_def list_ex_iff)
    then have eq: "mem_bytes W (pg_addr p) (nat P) = mem_bytes M (pg_addr p) (nat P)" using L(2,8) by simp
    have "mem_bytes W (pg_addr p) (nat P) ! nat (x - pg_addr p) = mem_bytes M (pg_addr p) (nat P) ! nat (x - pg_addr p)" by (simp only: eq)
    then have W: "W x = M x" using p(2,3) data by (simp add: mem_bytes_def)
    have ins: "in_sector (fo_region D) c x" using p(2,3) L(3,6) data by (simp add: in_sector_def)
    have "\<not> differs b x" using False sectors_disjoint [OF l c(1) _ ins] by (auto simp: differs_def)
    then have "blanked b (fb_sectors b) M x = M x" using not_differing by blast
    then show ?thesis using W overlay_cases unfolding committed_def by metis
  qed
qed

text \<open>When the sectors are complete, nothing else changes.\<close>

lemma committed_kept:
  assumes l: "laidout M W A True b" and W: "\<And>x. x \<notin> A \<Longrightarrow> W x = M x"
  shows "committed M W b = W"
proof
  fix x
  show "committed M W b x = W x"
  proof (cases "x \<in> A")
    case True
    then show ?thesis by (rule committed_data [OF l])
  next
    case False
    have WM: "W x = M x" using W False .
    show ?thesis
    proof (cases "differs b x")
      case False
      then show ?thesis using WM not_differing overlay_cases unfolding committed_def by metis
    next
      case True
      then obtain c where c: "c \<in> set (fb_sectors b)" "are_any_pages_not_same b c" "in_sector (fo_region D) c x" by (auto simp: differs_def)
      then obtain k where k: "k < length (fb_sectors b)" "fb_sectors b ! k = c" by (metis in_set_conv_nth)
      have sh: "P dvd sc_addr c"
        using l c(1) sizes(3) by (auto simp: laidout_def grid_ok_def list_all_iff sector_ok_def sector_shape_def intro: dvd_trans)
      let ?j = "nat ((x - sc_addr c) div P)"
      have ge: "0 \<le> (x - sc_addr c) div P" using c(3) sizes(1) by (simp add: in_sector_def pos_imp_zdiv_nonneg_iff)
      have b: "(x - sc_addr c) div P * P \<le> x - sc_addr c" "x - sc_addr c < (x - sc_addr c) div P * P + P"
        using align_bounds [OF sizes(1), of "x - sc_addr c"] by simp_all
      have "int ?j * P < S" using ge b c(3) by (simp add: in_sector_def)
      then have "slot_at b k ?j \<in> set (addrs b k)" using l k(1) by (simp add: laidout_def complete_def)
      then have "sc_addr c + (x - sc_addr c) div P * P \<in> programmed b (fb_sectors b)"
        using c(1,2) k(2) ge by (auto simp: programmed_def slot_def)
      then show ?thesis using b unfolding committed_def overlay_def by force
    qed
  qed
qed

subsection \<open>The whole of \<open>program\<close>\<close>

lemma program_wp:
  assumes e: "erased M W A full (fr_erased_readable (fo_region D) \<and> smart) b" and single: "\<not> fo_double_supported D"
  shows "wp (program D smart fast_verify keep) (\<lambda>_ b'. sinv (fb_flash b') \<and> fmem (fb_flash b') = committed M W b) (\<lambda>e _. derr e) b"
proof -
  let ?E = "\<lambda>e (_ :: 's builder). derr e"
  let ?smart = "fr_erased_readable (fo_region D) \<and> smart" and ?fast = "fr_erased_readable (fo_region D) \<and> fast_verify"
  let ?keep = "fr_erased_readable (fo_region D) \<and> keep"
  let ?Q = "\<lambda>_ b'. sinv (fb_flash b') \<and> fmem (fb_flash b') = committed M W b"
  let ?rest = "bind (on_flash (fo_cleanup D)) (\<lambda>_. bind (modify (\<lambda>b. b\<lparr>fb_perf := account b (fb_perf b)\<rparr>)) (\<lambda>_.
      bind (on_flash (fo_notify D POST_FLASH_PROGRAM)) (\<lambda>_. bind get_state (\<lambda>b. ret (Some (fb_perf b))))))"
  have finish: "wp ?rest ?Q ?E b2" if b2: "sinv (fb_flash b2)" "fmem (fb_flash b2) = committed M W b" for b2
  proof -
    have n: "wp (on_flash (fo_notify D POST_FLASH_PROGRAM)) ?Q ?E b3" if "sinv (fb_flash b3)" "fmem (fb_flash b3) = committed M W b" for b3
      by (rule wp_mono [OF notify_wp [OF that(1)]]) (use that(2) in auto)
    have "wp (on_flash (fo_cleanup D)) (\<lambda>_ b3. wp (on_flash (fo_notify D POST_FLASH_PROGRAM)) ?Q ?E (b3\<lparr>fb_perf := account b3 (fb_perf b3)\<rparr>)) ?E b2"
      by (rule wp_mono [OF cleanup_wp [OF b2(1)]]) (use b2(2) n in auto)
    then show ?thesis by simp
  qed
  have pages: "wp (program_pages D) (\<lambda>_. wp ?rest ?Q ?E) ?E (b\<lparr>fb_flash := s, fb_algo_inited_for_read := False\<rparr>)"
    if s: "sinv s" "fmem s = fmem (fb_flash b)" for s
  proof -
    let ?b = "b\<lparr>fb_flash := s, fb_algo_inited_for_read := False\<rparr>"
    have same: "are_any_pages_not_same ?b = are_any_pages_not_same b" by (intro ext not_same_pages) simp
    have l: "laidout M W A full ?b" using e by (simp add: erased_def)
    have m: "fmem (fb_flash ?b) = blanked ?b (fb_sectors ?b) M" using e s(2) by (simp add: erased_def blanked_def [abs_def] same)
    have c: "committed M W ?b = committed M W b" by (simp add: committed_def programmed_def blanked_def [abs_def] same)
    have si: "sinv (fb_flash ?b)" using s(1) by simp
    show ?thesis
    proof (rule wp_mono [OF program_pages_wp [OF l si m]])
      fix u b2 assume "\<exists>s. b2 = ?b\<lparr>fb_flash := s\<rparr> \<and> sinv s \<and> fmem s = committed M W ?b"
      then have "sinv (fb_flash b2)" "fmem (fb_flash b2) = committed M W b" using c by auto
      then show "wp ?rest ?Q ?E b2" by (rule finish)
    qed simp
  qed
  have body: "wp (bind (prepare_sectors_and_pages D ?keep ?smart) (\<lambda>_.
      bind (if ?smart then finalize_smart_flash D ?fast else ret ()) (\<lambda>_.
      bind (modify (\<lambda>b. b\<lparr>fb_algo_inited_for_read := False\<rparr>)) (\<lambda>_.
      bind (if fo_double_supported D \<and> fb_enable_double b1 then program_double_buffer D else program_pages D) (\<lambda>_. ?rest)))) ) ?Q ?E b1"
    if b1: "\<exists>s. b1 = b\<lparr>fb_flash := s\<rparr> \<and> sinv s \<and> fmem s = fmem (fb_flash b)" for b1
  proof -
    obtain s where s: "b1 = b\<lparr>fb_flash := s\<rparr>" "sinv s" "fmem s = fmem (fb_flash b)" using b1 by blast
    have pr: "fb_prepared b1" "?smart \<longrightarrow> \<not> any_unknown b1"
      using e s(1) by (auto simp: erased_def laidout_def known_any any_unknown_def)
    have fin: "wp (if ?smart then finalize_smart_flash D ?fast else ret ()) Q ?E b1 = Q () b1" for Q
      using pr(2) by (simp add: finalize_smart_flash_def)
    have p: "wp (prepare_sectors_and_pages D ?keep ?smart) Q ?E b1 = Q () b1" for Q
      using pr(1) by (simp add: prepare_sectors_and_pages_def)
    show ?thesis unfolding wp_bind p fin using pages [OF s(2,3)] single s(1) by simp
  qed
  have ops: "fb_operations b \<noteq> []" using e by (simp add: erased_def laidout_def)
  have "wp (on_flash (fo_notify D PRE_FLASH_PROGRAM)) (\<lambda>_ b1. fb_operations b1 \<noteq> [] \<and> wp (bind (prepare_sectors_and_pages D ?keep ?smart) (\<lambda>_.
      bind (if ?smart then finalize_smart_flash D ?fast else ret ()) (\<lambda>_.
      bind (modify (\<lambda>b. b\<lparr>fb_algo_inited_for_read := False\<rparr>)) (\<lambda>_.
      bind (if fo_double_supported D \<and> fb_enable_double b1 then program_double_buffer D else program_pages D) (\<lambda>_. ?rest)))) ) ?Q ?E b1) ?E b"
    by (rule wp_mono [OF notify_wp]) (use e ops body in \<open>auto simp: erased_def\<close>)
  then show ?thesis unfolding program_def Let_def wp_bind wp_get_state wp_if
    by (rule wp_mono) simp_all
qed

subsection \<open>Committing data\<close>

definition fresh_with :: "'s \<Rightarrow> (int \<times> int list) list \<Rightarrow> 's builder \<Rightarrow> bool" where
  "fresh_with s ops b \<longleftrightarrow> fb_flash b = s \<and> fb_pages b = [] \<and> fb_sectors b = [] \<and> \<not> fb_prepared b \<and> \<not> fb_algo_inited_for_read b
     \<and> ops_ok (fo_region D) (fb_operations b) \<and> set (fb_operations b) = {q \<in> set ops. snd q \<noteq> []}"

lemma add_data_fresh:
  assumes "fresh_with s ops b"
  shows "wp (add_data D a d) (\<lambda>_. fresh_with s (ops @ [(a, d)])) (\<lambda>e b'. e = ValueError \<and> fb_flash b' = s) b"
  using assms by (auto simp: add_data_def fresh_with_def ops_ok_def area_contains_def list_all_iff)

lemma add_all_fresh:
  "wp (for_each (\<lambda>(a, d). add_data D a d) ops) (\<lambda>_. fresh_with s ops) (\<lambda>e b'. e = ValueError \<and> fb_flash b' = s) (FlashBuilder s)"
proof (rule wp_for_each [where I = "fresh_with s"])
  show "fresh_with s [] (FlashBuilder s)" by (simp add: fresh_with_def FlashBuilder_def ops_ok_def)
  fix xs q ys and b :: "'s builder" assume "fresh_with s xs b"
  then show "wp (case q of (a, d) \<Rightarrow> add_data D a d) (\<lambda>_. fresh_with s (xs @ [q])) (\<lambda>e b'. e = ValueError \<and> fb_flash b' = s) b"
    by (cases q) (simp add: add_data_fresh)
qed

lemma commit_memory:
  assumes l: "laidout M W A full b" and f: "fresh_with s ops b0" and W: "W = target_memory k (fb_operations b0) M"
    and A: "A = op_area (fb_operations b0)" and full: "full = (k \<and> fr_readable (fo_region D))"
  shows "data_in_flash ops (committed M W b)" and "full \<Longrightarrow> x \<notin> op_area ops \<Longrightarrow> committed M W b x = M x"
proof -
  have ok: "ops_ok (fo_region D) (fb_operations b0)" and set: "set (fb_operations b0) = {q \<in> set ops. snd q \<noteq> []}"
    using f by (simp_all add: fresh_with_def)
  have area: "op_area ops = A" unfolding A op_area_def set by fastforce
  have "mem_bytes (committed M W b) a (length d) = d" if q: "(a, d) \<in> set ops" "d \<noteq> []" for a d
  proof -
    have mem: "(a, d) \<in> set (fb_operations b0)" using q set by simp
    have "mem_bytes (committed M W b) a (length d) = mem_bytes W a (length d)"
    proof (rule mem_bytes_cong)
      fix x assume "a \<le> x" "x < a + int (length d)"
      then have "x \<in> A" using mem unfolding A op_area_def by (intro UN_I [of "(a, d)"]) auto
      then show "committed M W b x = W x" by (rule committed_data [OF l])
    qed
    then show ?thesis unfolding W using target_inside [OF ok mem] by simp
  qed
  then show "data_in_flash ops (committed M W b)" unfolding data_in_flash_def by fastforce
  have outside: "W x = M x" if "full" "x \<notin> A" for x
    using target_outside [of x "fb_operations b0" k M] that unfolding W A full by (simp add: gap_memory_def)
  assume 1: "full" "x \<notin> op_area ops"
  then have "committed M W b = W" using committed_kept l outside by simp
  then show "committed M W b x = M x" using 1 outside area by simp
qed

lemma commit_wp:
  assumes s: "sinv s" "fact s = None" and erasable: "fr_erasable (fo_region D)" and single: "\<not> fo_double_supported D"
    and choice: "convert_chip_erase chip = Inr choice" "choice = Some False \<or> \<not> fo_erase_all_supported D"
    and crc: "\<not> (fast_verify \<and> fi_crc_supported (fo_info D))"
  shows "wp (bind (for_each (\<lambda>(a, d). add_data D a d) ops) (\<lambda>_. bind (erase D chip smart fast_verify keep) (\<lambda>_. program D smart fast_verify keep)))
    (\<lambda>_ b. data_in_flash ops (fmem (fb_flash b))
       \<and> (keep \<and> fr_erased_readable (fo_region D) \<and> fr_readable (fo_region D) \<longrightarrow> (\<forall>x. x \<notin> op_area ops \<longrightarrow> fmem (fb_flash b) x = fmem s x)))
    (\<lambda>e b. derr e \<or> e = ValueError \<and> fb_flash b = s) (FlashBuilder s)"
proof -
  let ?k = "fr_erased_readable (fo_region D) \<and> keep" and ?smart = "fr_erased_readable (fo_region D) \<and> smart"
  let ?full = "?k \<and> fr_readable (fo_region D)" and ?E = "\<lambda>e b. derr e \<or> e = ValueError \<and> fb_flash b = s"
  let ?Q = "\<lambda>_ b. data_in_flash ops (fmem (fb_flash b))
       \<and> (keep \<and> fr_erased_readable (fo_region D) \<and> fr_readable (fo_region D) \<longrightarrow> (\<forall>x. x \<notin> op_area ops \<longrightarrow> fmem (fb_flash b) x = fmem s x))"
  have run: "wp (erase D chip smart fast_verify keep) (\<lambda>_. wp (program D smart fast_verify keep) ?Q ?E) ?E b0" if f: "fresh_with s ops b0" for b0
  proof (cases "fb_operations b0 = []")
    case True
    then have none: "{q \<in> set ops. snd q \<noteq> []} = {}" and b0: "fb_flash b0 = s" using f by (simp_all add: fresh_with_def)
    have same: "data_in_flash ops m" for m unfolding data_in_flash_def using none by force
    let ?I = "\<lambda>b. fb_operations b = [] \<and> sinv (fb_flash b) \<and> fmem (fb_flash b) = fmem s"
    have "wp (program D smart fast_verify keep) ?Q ?E b1" if b1: "?I b1" for b1
    proof -
      have "wp (on_flash (fo_notify D PRE_FLASH_PROGRAM)) (\<lambda>_ b. ?I b) ?E b1"
        by (rule wp_mono [OF notify_wp]) (use b1 in auto)
      then show ?thesis unfolding program_def Let_def wp_bind wp_get_state wp_if by (rule wp_mono) (simp_all add: same)
    qed
    moreover have "wp (on_flash (fo_notify D PRE_FLASH_ERASE)) (\<lambda>_ b. ?I b) ?E b0"
      by (rule wp_mono [OF notify_wp]) (use True b0 s in auto)
    ultimately show ?thesis unfolding erase_def Let_def wp_bind wp_get_state wp_if by (elim wp_mono) simp_all
  next
    case False
    have b0: "drv (fmem s) b0" "fb_pages b0 = []" "fb_sectors b0 = []" "\<not> fb_prepared b0" "ops_ok (fo_region D) (fb_operations b0)"
      using f s by (simp_all add: fresh_with_def drv_def)
    let ?W = "target_memory ?k (fb_operations b0) (fmem s)" and ?A = "op_area (fb_operations b0)"
    have prog: "wp (program D smart fast_verify keep) ?Q ?E b1" if e: "erased (fmem s) ?W ?A ?full ?smart b1" for b1
    proof (rule wp_mono [OF program_wp [OF e single]])
      have l: "laidout (fmem s) ?W ?A ?full b1" using e by (simp only: erased_def)
      fix u b2 assume m: "sinv (fb_flash b2) \<and> fmem (fb_flash b2) = committed (fmem s) ?W b1"
      show "?Q u b2" using commit_memory [OF l f refl refl refl] m by (metis (no_types, lifting))
    qed simp
    show ?thesis
      by (rule wp_mono [OF erase_wp [OF b0(1-5) False erasable choice crc refl refl refl refl]]) (use prog in auto)
  qed
  have "wp (for_each (\<lambda>(a, d). add_data D a d) ops) (\<lambda>_. wp (erase D chip smart fast_verify keep) (\<lambda>_. wp (program D smart fast_verify keep) ?Q ?E) ?E) ?E (FlashBuilder s)"
    by (rule wp_mono [OF add_all_fresh]) (use run in auto)
  then show ?thesis by simp
qed

end

end
