(* ===== verification/Flash_Device.thy ===== *)
theory Flash_Device
  imports Flash_Commit
begin

text \<open>
  The driver with an algorithm on a target: what the target and the algorithm's functions are to do is
  a locale, and the driver's operations then meet the contract the builder relies on.
\<close>

subsection \<open>The driver's operations as the builder uses them\<close>

text \<open>
  \<open>rd\<close> reads the target's memory, \<open>notify\<close> sends the session's notifications and \<open>crc\<close>
  is the library's checksum.
\<close>

definition driver_ops :: "'t target_ops \<Rightarrow> flash_algo \<Rightarrow> flash_region \<Rightarrow> (int \<Rightarrow> int \<Rightarrow> ('t, int list) exec) \<Rightarrow>
    (flash_event \<Rightarrow> ('t, unit) exec) \<Rightarrow> (int list \<Rightarrow> int) \<Rightarrow> ('t flash) flash_ops" where
  "driver_ops T fa R rd notify crc = \<lparr>
     fo_region = R, fo_info = get_flash_info fa R, fo_erase_all_supported = is_erase_all_supported fa,
     fo_double_supported = double_buffer_supported fa,
     fo_init = (\<lambda>op. flash_init T fa R op None 0 False), fo_uninit = flash_uninit T fa, fo_cleanup = flash_cleanup T fa,
     fo_erase_all = flash_erase_all T fa, fo_erase_sector = flash_erase_sector T fa, fo_program_page = flash_program_page T fa,
     fo_load_page_buffer = load_page_buffer T fa, fo_start_program = start_program_page_with_buffer T fa R,
     fo_wait = wait_for_completion T fa, fo_compute_crcs = compute_crcs T fa,
     fo_read_block8 = (\<lambda>a n. on_tgt (rd a n)), fo_notify = (\<lambda>ev. on_tgt (notify ev)), fo_crc32 = crc\<rparr>"

lemma driver_ops_sel [simp]:
  "fo_region (driver_ops T fa R rd nf crc) = R" "fo_info (driver_ops T fa R rd nf crc) = get_flash_info fa R"
  "fo_erase_all_supported (driver_ops T fa R rd nf crc) = is_erase_all_supported fa"
  "fo_double_supported (driver_ops T fa R rd nf crc) = double_buffer_supported fa"
  "fo_init (driver_ops T fa R rd nf crc) op = flash_init T fa R op None 0 False"
  "fo_uninit (driver_ops T fa R rd nf crc) = flash_uninit T fa" "fo_cleanup (driver_ops T fa R rd nf crc) = flash_cleanup T fa"
  "fo_erase_sector (driver_ops T fa R rd nf crc) = flash_erase_sector T fa"
  "fo_program_page (driver_ops T fa R rd nf crc) = flash_program_page T fa"
  "fo_read_block8 (driver_ops T fa R rd nf crc) a n = on_tgt (rd a n)"
  "fo_notify (driver_ops T fa R rd nf crc) ev = on_tgt (nf ev)"
  by (simp_all add: driver_ops_def)

lemma wp_on_tgt: "wp (on_tgt m) Q E s = wp m (\<lambda>x t. Q x (s\<lparr>fl_target := t\<rparr>)) (\<lambda>e t. E e (s\<lparr>fl_target := t\<rparr>)) (fl_target s)"
  by (auto simp: wp_def on_tgt_def split: prod.splits sum.splits)

subsection \<open>The target and the algorithm\<close>

text \<open>
  Ghost views of a target: the flash's contents, the RAM's, whether the algorithm is loaded, the
  operation it is initialised for, and the result of the function called last.
\<close>

record 't device_view =
  dv_flash :: "'t \<Rightarrow> memory"
  dv_ram :: "'t \<Rightarrow> memory"
  dv_loaded :: "'t \<Rightarrow> bool"
  dv_inited :: "'t \<Rightarrow> operation option"
  dv_result :: "'t \<Rightarrow> int"

text \<open>A function is called by writing its registers and resuming the core.\<close>

definition run_call :: "'t target_ops \<Rightarrow> (string \<times> int) list \<Rightarrow> ('t, unit) exec" where
  "run_call T regs = bind (tg_write_registers T (map fst regs) (map snd regs)) (\<lambda>_. tg_resume T)"

definition quiet :: "('t \<Rightarrow> bool) \<Rightarrow> 't device_view \<Rightarrow> 't \<Rightarrow> 't \<Rightarrow> bool" where
  "quiet tinv V t t' \<longleftrightarrow> tinv t' \<and> dv_flash V t' = dv_flash V t \<and> dv_ram V t' = dv_ram V t \<and> dv_loaded V t' = dv_loaded V t
     \<and> dv_inited V t' = dv_inited V t \<and> dv_result V t' = dv_result V t"

text \<open>After an error the target is still usable and the flash as it was.\<close>

definition harmless :: "('t \<Rightarrow> bool) \<Rightarrow> 't device_view \<Rightarrow> 't \<Rightarrow> 't \<Rightarrow> bool" where
  "harmless tinv V t t' \<longleftrightarrow> tinv t' \<and> dv_flash V t' = dv_flash V t \<and> (dv_loaded V t \<longrightarrow> dv_loaded V t')"

lemma quiet_harmless: "quiet tinv V t t' \<Longrightarrow> harmless tinv V t t'"
  by (simp add: quiet_def harmless_def)

lemma harmless_trans: "harmless tinv V t t' \<Longrightarrow> harmless tinv V t' t'' \<Longrightarrow> harmless tinv V t t''"
  by (simp add: harmless_def)

lemma quiet_trans: "quiet tinv V t t' \<Longrightarrow> quiet tinv V t' t'' \<Longrightarrow> quiet tinv V t t''"
  by (simp add: quiet_def)

definition inited :: "flash_algo \<Rightarrow> 't device_view \<Rightarrow> operation \<Rightarrow> 't \<Rightarrow> bool" where
  "inited fa V op t \<longleftrightarrow> (is_api_valid fa (fa_pc_init fa) \<longrightarrow> dv_inited V t = Some op)"

locale flash_device =
  fixes T :: "'t target_ops" and fa :: flash_algo and R :: flash_region and rd :: "int \<Rightarrow> int \<Rightarrow> ('t, int list) exec"
    and nf :: "flash_event \<Rightarrow> ('t, unit) exec" and tinv :: "'t \<Rightarrow> bool" and V :: "'t device_view" and terr :: "exn \<Rightarrow> bool"
  assumes region: "geometry_ok R" and buffers: "fa_page_buffers fa \<noteq> []" and plain: "\<not> fa_analyzer_supported fa"
    and halt_law: "tinv t \<Longrightarrow> wp (tg_halt T) (\<lambda>_. quiet tinv V t) (\<lambda>e t'. terr e \<and> harmless tinv V t t') t"
    and state_law: "tinv t \<Longrightarrow> wp (tg_get_state T) (\<lambda>_. quiet tinv V t)
      (\<lambda>e t'. (terr e \<or> e = TransferTimeoutError \<or> is_transfer_fault e) \<and> quiet tinv V t t') t"
    and register_law: "tinv t \<Longrightarrow> wp (tg_read_register T nm) (\<lambda>v t'. quiet tinv V t t' \<and> (nm = ''r0'' \<longrightarrow> v = dv_result V t))
      (\<lambda>e t'. terr e \<and> harmless tinv V t t') t"
    and read32_law: "tinv t \<Longrightarrow> wp (tg_read32 T a) (\<lambda>_. quiet tinv V t) (\<lambda>e t'. terr e \<and> harmless tinv V t t') t"
    and load_law: "tinv t \<Longrightarrow> wp (tg_write_block32 T (fa_load_address fa) (fa_instructions fa))
      (\<lambda>_ t'. harmless tinv V t t' \<and> dv_loaded V t') (\<lambda>e t'. terr e \<and> harmless tinv V t t') t"
    and canary_law: "tinv t \<Longrightarrow> fa_end_stack fa = Some a \<Longrightarrow> wp (tg_write32 T a STACK_CANARY)
      (\<lambda>_. harmless tinv V t) (\<lambda>e t'. terr e \<and> harmless tinv V t t') t"
    and buffer_law: "tinv t \<Longrightarrow> int (length bs) = ar_page_size R \<Longrightarrow> wp (tg_write_block8 T (hd (fa_page_buffers fa)) bs)
      (\<lambda>_ t'. harmless tinv V t t' \<and> dv_inited V t' = dv_inited V t
        \<and> mem_bytes (dv_ram V t') (hd (fa_page_buffers fa)) (length bs) = bs) (\<lambda>e _. terr e) t"
    and init_call: "tinv t \<Longrightarrow> dv_loaded V t \<Longrightarrow> fa_pc_init fa = Some pc \<Longrightarrow>
      wp (run_call T (call_registers T fa pc (Some (ar_start R)) (Some 0) (Some (operation_value op)) None True))
        (\<lambda>_ t'. harmless tinv V t t' \<and> (dv_result V t' = 0 \<longrightarrow> dv_inited V t' = Some op)) (\<lambda>e t'. terr e \<and> harmless tinv V t t') t"
    and uninit_call: "tinv t \<Longrightarrow> dv_loaded V t \<Longrightarrow> fa_pc_unInit fa = Some pc \<Longrightarrow>
      wp (run_call T (call_registers T fa pc (Some (operation_value op)) None None None False))
        (\<lambda>_. harmless tinv V t) (\<lambda>e t'. terr e \<and> harmless tinv V t t') t"
    and erase_call: "tinv t \<Longrightarrow> dv_loaded V t \<Longrightarrow> inited fa V ERASE t \<Longrightarrow> ar_sector_size R dvd a \<Longrightarrow> ar_start R \<le> a \<Longrightarrow>
      a + ar_sector_size R \<le> ar_end R + 1 \<Longrightarrow>
      wp (run_call T (call_registers T fa (fa_pc_erase_sector fa) (Some a) None None None False))
        (\<lambda>_ t'. tinv t' \<and> dv_loaded V t' \<and> inited fa V ERASE t' \<and> (dv_result V t' = 0 \<longrightarrow>
          dv_flash V t' = (\<lambda>x. if a \<le> x \<and> x < a + ar_sector_size R then fr_erased_byte R else dv_flash V t x))) (\<lambda>e _. terr e) t"
    and program_call: "tinv t \<Longrightarrow> dv_loaded V t \<Longrightarrow> inited fa V PROGRAM t \<Longrightarrow> ar_page_size R dvd a \<Longrightarrow> ar_start R \<le> a \<Longrightarrow>
      a + ar_page_size R \<le> ar_end R + 1 \<Longrightarrow> (\<And>x. a \<le> x \<Longrightarrow> x < a + ar_page_size R \<Longrightarrow> dv_flash V t x = fr_erased_byte R) \<Longrightarrow>
      wp (run_call T (call_registers T fa (fa_pc_program_page fa) (Some a) (Some (ar_page_size R)) (Some (hd (fa_page_buffers fa))) None False))
        (\<lambda>_ t'. tinv t' \<and> dv_loaded V t' \<and> inited fa V PROGRAM t' \<and> (dv_result V t' = 0 \<longrightarrow>
          dv_flash V t' = mem_write (dv_flash V t) a (mem_bytes (dv_ram V t) (hd (fa_page_buffers fa)) (nat (ar_page_size R))))) (\<lambda>e _. terr e) t"
    and rd_law: "tinv t \<Longrightarrow> 0 \<le> n \<Longrightarrow> ar_start R \<le> a \<Longrightarrow> a + n \<le> ar_end R + 1 \<Longrightarrow>
      wp (rd a n) (\<lambda>ds t'. quiet tinv V t t' \<and> ds = mem_bytes (dv_flash V t) a (nat n)) (\<lambda>e _. terr e) t"
    and notify_law: "tinv t \<Longrightarrow> wp (nf ev) (\<lambda>_. quiet tinv V t) (\<lambda>e _. terr e) t"

definition device_error :: "(exn \<Rightarrow> bool) \<Rightarrow> exn \<Rightarrow> bool" where
  "device_error terr e \<longleftrightarrow> terr e \<or> is_flash_failure e"

text \<open>The driver's state: the algorithm it calls is loaded, and initialised for its operation.\<close>

definition driver_ok :: "('t \<Rightarrow> bool) \<Rightarrow> flash_algo \<Rightarrow> 't device_view \<Rightarrow> 't flash \<Rightarrow> bool" where
  "driver_ok tinv fa V s \<longleftrightarrow> tinv (fl_target s) \<and> (fl_did_prepare s \<longrightarrow> dv_loaded V (fl_target s))
     \<and> (\<forall>op. fl_active s = Some op \<longrightarrow> fl_did_prepare s \<and> inited fa V op (fl_target s))"

context flash_device
begin

abbreviation derr where "derr \<equiv> device_error terr"
abbreviation ok where "ok \<equiv> driver_ok tinv fa V"
abbreviation tq where "tq \<equiv> quiet tinv V"
abbreviation th where "th \<equiv> harmless tinv V"

lemma tqD: "tq t t' \<Longrightarrow> tinv t'" and thD: "th t t' \<Longrightarrow> tinv t'"
  by (simp_all add: quiet_def harmless_def)

lemma poll_wp: "tinv (fl_target s) \<Longrightarrow> wp (poll_state T n) (\<lambda>_ s'. \<exists>t'. s' = s\<lparr>fl_target := t'\<rparr> \<and> tq (fl_target s) t')
   (\<lambda>e s'. terr e \<and> (\<exists>t'. s' = s\<lparr>fl_target := t'\<rparr> \<and> tq (fl_target s) t')) s"
proof (induction n arbitrary: s)
  case 0
  then show ?case by (auto simp: quiet_def intro: exI [of _ "fl_target s"])
next
  case (Suc n)
  let ?P = "\<lambda>s'. \<exists>t'. s' = s\<lparr>fl_target := t'\<rparr> \<and> tq (fl_target s) t'"
  have again: "wp (poll_state T n) (\<lambda>_. ?P) (\<lambda>e s'. terr e \<and> ?P s') (s\<lparr>fl_target := t\<rparr>)" if t: "tq (fl_target s) t" for t
    by (rule wp_mono [OF Suc.IH]) (use t tqD quiet_trans [OF t] in \<open>fastforce+\<close>)
  have "wp (tg_get_state T) (\<lambda>_ t. tq (fl_target s) t)
      (\<lambda>e t'. (terr e \<or> e = TransferTimeoutError \<or> is_transfer_fault e) \<and> tq (fl_target s) t') (fl_target s)"
    by (rule state_law [OF Suc.prems])
  then show ?case
    by (simp add: wp_on_tgt) (erule wp_mono, use again in \<open>auto split: option.splits\<close>)
qed

abbreviation moved where "moved s r s' \<equiv> \<exists>t'. s' = s\<lparr>fl_target := t'\<rparr> \<and> r (fl_target s) t'"

text \<open>One step on the target, from a state that may have moved on.\<close>

lemma on_tgt_quiet:
  assumes "wp m (\<lambda>x t'. tq (fl_target s) t' \<and> Q x) (\<lambda>e t'. terr e \<and> th (fl_target s) t') (fl_target s)"
  shows "wp (on_tgt m) (\<lambda>x s'. moved s tq s' \<and> Q x) (\<lambda>e s'. terr e \<and> moved s th s') s"
  unfolding wp_on_tgt by (rule wp_mono [OF assms]) auto

lemma moved_trans: "moved s r s' \<Longrightarrow> (\<And>x y z. r x y \<Longrightarrow> r y z \<Longrightarrow> r x z) \<Longrightarrow> moved s' r s'' \<Longrightarrow> moved s r s''"
  by fastforce

lemma moved_tq: "moved s tq s' \<Longrightarrow> tinv (fl_target s')" "moved s tq s' \<Longrightarrow> moved s th s'"
  "moved s tq s' \<Longrightarrow> dv_result V (fl_target s') = dv_result V (fl_target s)"
  by (auto simp: quiet_def harmless_def)

lemma moved_seq: "moved s tq s1 \<Longrightarrow> moved s1 tq s2 \<Longrightarrow> moved s tq s2" "moved s tq s1 \<Longrightarrow> moved s1 th s2 \<Longrightarrow> moved s th s2"
  "moved s th s1 \<Longrightarrow> moved s1 th s2 \<Longrightarrow> moved s th s2"
  by (auto simp: quiet_def harmless_def)

lemma on_tgt_from:
  assumes s1: "moved s tq s1" and m: "wp m (\<lambda>x t'. tq (fl_target s1) t' \<and> Q x) (\<lambda>e t'. terr e \<and> th (fl_target s1) t') (fl_target s1)"
  shows "wp (on_tgt m) (\<lambda>x s'. moved s tq s' \<and> Q x) (\<lambda>e s'. derr e \<and> moved s th s') s1"
proof (rule wp_mono [OF on_tgt_quiet [OF m]])
  show "moved s tq s' \<and> Q x" if "moved s1 tq s' \<and> Q x" for x s' using moved_seq(1) [OF s1] that by blast
  show "derr e \<and> moved s th s'" if "terr e \<and> moved s1 th s'" for e s' using moved_seq(2) [OF s1] that by (simp add: device_error_def)
qed

lemma wait_wp:
  assumes t: "tinv (fl_target s)"
  shows "wp (wait_for_completion T fa) (\<lambda>r s'. moved s tq s' \<and> (r = 0 \<longrightarrow> dv_result V (fl_target s) = 0)) (\<lambda>e s'. derr e \<and> moved s th s') s"
proof -
  let ?E = "\<lambda>e s'. derr e \<and> moved s th s'"
  have derr: "terr e \<Longrightarrow> derr e" for e by (simp add: device_error_def)
  have halt: "wp (on_tgt (tg_halt T)) (\<lambda>_. moved s tq) ?E s1" if s1: "moved s tq s1" for s1
    using on_tgt_from [OF s1, of "tg_halt T" "\<lambda>_. True"] halt_law [OF moved_tq(1) [OF s1]] by simp
  have reg: "wp (on_tgt (tg_read_register T nm)) (\<lambda>v s'. moved s tq s' \<and> (nm = ''r0'' \<longrightarrow> v = dv_result V (fl_target s))) ?E s1"
    if s1: "moved s tq s1" for s1 nm
    using on_tgt_from [OF s1 register_law [OF moved_tq(1) [OF s1]]] moved_tq(3) [OF s1] by simp
  have canary: "wp (check_canary T fa) (\<lambda>_. moved s tq) ?E s1" if s1: "moved s tq s1" for s1
  proof (cases "fa_end_stack fa")
    case None
    then show ?thesis using s1 by (simp add: check_canary_def)
  next
    case (Some a)
    have "wp (on_tgt (tg_read32 T a)) (\<lambda>_. moved s tq) ?E s1"
      using on_tgt_from [OF s1, of "tg_read32 T a" "\<lambda>_. True"] read32_law [OF moved_tq(1) [OF s1]] by simp
    then have "wp (on_tgt (tg_read32 T a)) (\<lambda>v s'. if v \<noteq> STACK_CANARY then ?E (FlashFailure None None) s' else moved s tq s') ?E s1"
    proof (rule wp_mono)
      fix v s' assume m: "moved s tq s'"
      show "if v \<noteq> STACK_CANARY then ?E (FlashFailure None None) s' else moved s tq s'" using m moved_tq(2) [OF m] by (simp add: device_error_def)
    qed
    then show ?thesis unfolding check_canary_def Some option.case wp_bind wp_if wp_ret wp_raise if_distrib [of "\<lambda>f. f _"] .
  qed
  have timed: "wp (on_tgt (tg_halt T)) (\<lambda>_. wp (on_tgt (tg_read_register T ''ipsr'')) (\<lambda>_ s'. P s') ?E) ?E s1"
    if s1: "moved s tq s1" and P: "\<And>s'. moved s tq s' \<Longrightarrow> P s'" for s1 P
  proof (rule wp_mono [OF halt [OF s1]])
    fix u s2 assume s2: "moved s tq s2"
    show "wp (on_tgt (tg_read_register T ''ipsr'')) (\<lambda>_ s'. P s') ?E s2"
      by (rule wp_mono [OF reg [OF s2]]) (erule conjE, erule P, assumption)
  qed
  have tail: "wp (case res of None \<Rightarrow> bind (on_tgt (tg_halt T)) (\<lambda>_. bind (on_tgt (tg_read_register T ''ipsr'')) (\<lambda>_. ret TIMEOUT_ERROR))
       | Some st \<Rightarrow> if st \<noteq> HALTED then bind (on_tgt (tg_halt T)) (\<lambda>_. bind (on_tgt (tg_read_register T ''ipsr'')) (\<lambda>_. raise (FlashFailure None None)))
           else bind (check_canary T fa) (\<lambda>_. on_tgt (tg_read_register T ''r0'')))
     (\<lambda>r s'. moved s tq s' \<and> (r = 0 \<longrightarrow> dv_result V (fl_target s) = 0)) ?E s1" if s1: "moved s tq s1" for res s1
  proof (cases res)
    case None
    then show ?thesis using timed [OF s1, where P = "\<lambda>s'. moved s tq s' \<and> (TIMEOUT_ERROR = 0 \<longrightarrow> dv_result V (fl_target s) = 0)"]
      by (simp add: TIMEOUT_ERROR_def)
  next
    case (Some st)
    have bad: "wp (on_tgt (tg_halt T)) (\<lambda>_. wp (on_tgt (tg_read_register T ''ipsr'')) (\<lambda>_ s'. ?E (FlashFailure None None) s') ?E) ?E s1"
      by (rule timed [OF s1]) (use moved_tq(2) in \<open>simp add: device_error_def\<close>)
    have good: "wp (check_canary T fa) (\<lambda>_. wp (on_tgt (tg_read_register T ''r0'')) (\<lambda>r s'. moved s tq s' \<and> (r = 0 \<longrightarrow> dv_result V (fl_target s) = 0)) ?E) ?E s1"
      by (rule wp_mono [OF canary [OF s1]]) (rule wp_mono [OF reg], auto)
    show ?thesis using Some bad good by simp
  qed
  have "wp (poll_state T (tg_ticks T (fl_target s))) (\<lambda>_. moved s tq) ?E s"
    by (rule wp_mono [OF poll_wp [OF t]]) (assumption, elim conjE, rule conjI, erule derr, erule moved_tq(2))
  then show ?thesis unfolding wait_for_completion_def wp_bind wp_get_state by (rule wp_mono) (use tail in auto)
qed

text \<open>A call and the wait for its end; \<open>C\<close> is what the function does.\<close>

lemma call_wp:
  assumes run: "wp (run_call T (call_registers T fa pc r0 r1 r2 r3 ini)) (\<lambda>_. C) F (fl_target s)"
    and C: "\<And>t'. C t' \<Longrightarrow> tinv t'"
  shows "wp (call_and_wait T fa pc r0 r1 r2 r3 ini)
    (\<lambda>r s'. \<exists>t1. C t1 \<and> tq t1 (fl_target s') \<and> s' = s\<lparr>fl_target := fl_target s'\<rparr> \<and> (r = 0 \<longrightarrow> dv_result V t1 = 0))
    (\<lambda>e s'. s' = s\<lparr>fl_target := fl_target s'\<rparr> \<and> (F e (fl_target s') \<or> derr e \<and> (\<exists>t1. C t1 \<and> th t1 (fl_target s')))) s"
proof -
  let ?Q = "\<lambda>r s'. \<exists>t1. C t1 \<and> tq t1 (fl_target s') \<and> s' = s\<lparr>fl_target := fl_target s'\<rparr> \<and> (r = 0 \<longrightarrow> dv_result V t1 = 0)"
  let ?E = "\<lambda>e s'. s' = s\<lparr>fl_target := fl_target s'\<rparr> \<and> (F e (fl_target s') \<or> derr e \<and> (\<exists>t1. C t1 \<and> th t1 (fl_target s')))"
  have wait: "wp (wait_for_completion T fa) ?Q ?E (s\<lparr>fl_target := t1\<rparr>)" if c: "C t1" for t1
    by (rule wp_mono [OF wait_wp]) (use c C in auto)
  have "wp (call_function T fa pc r0 r1 r2 r3 ini) (\<lambda>_ s'. \<exists>t1. C t1 \<and> s' = s\<lparr>fl_target := t1\<rparr>) ?E s"
    using run by (simp add: call_function_def run_call_def Let_def wp_on_tgt) (erule wp_mono, auto elim!: wp_mono)
  then show ?thesis unfolding call_and_wait_def wp_bind by (rule wp_mono) (use wait in auto)
qed

lemma check_wp:
  assumes "is_flash_failure timed" and "\<And>r. is_flash_failure (failed r)"
  shows "wp (check_result timed failed r) Q E s = (if r = 0 then Q () s else if r = TIMEOUT_ERROR then E timed s else E (failed r) s)"
  by (simp add: check_result_def TIMEOUT_ERROR_def)

text \<open>Between operations: the algorithm is not initialised, the flash holds \<open>m\<close>.\<close>

definition idle :: "memory \<Rightarrow> 't flash \<Rightarrow> bool" where
  "idle m s \<longleftrightarrow> ok s \<and> fl_active s = None \<and> dv_flash V (fl_target s) = m"

lemma idle_moved: "idle m s \<Longrightarrow> th (fl_target s) t' \<Longrightarrow> idle m (s\<lparr>fl_target := t'\<rparr>)"
  by (auto simp: idle_def driver_ok_def harmless_def)

lemma on_tgt_idle:
  assumes "wp m (\<lambda>_ t'. th (fl_target s) t' \<and> Q t') (\<lambda>e t'. terr e \<and> th (fl_target s) t') (fl_target s)" and "idle mm s"
  shows "wp (on_tgt m) (\<lambda>_ s'. idle mm s' \<and> fl_did_prepare s' = fl_did_prepare s \<and> Q (fl_target s')) (\<lambda>e s'. derr e \<and> idle mm s') s"
  unfolding wp_on_tgt
  by (rule wp_mono [OF assms(1)]) (use idle_moved [OF assms(2)] in \<open>auto simp: device_error_def\<close>)

lemma load_wp:
  assumes "idle m s"
  shows "wp (load_algo T fa False) (\<lambda>_ s'. idle m s' \<and> fl_did_prepare s') (\<lambda>e s'. derr e \<and> idle m s') s"
proof -
  let ?E = "\<lambda>e s'. derr e \<and> idle m s'"
  have prepared: "idle m (s'\<lparr>fl_did_prepare := True\<rparr>)" if "idle m s'" "dv_loaded V (fl_target s')" for s'
    using that by (auto simp: idle_def driver_ok_def)
  have canary: "wp (case fa_end_stack fa of None \<Rightarrow> ret () | Some a \<Rightarrow> on_tgt (tg_write32 T a STACK_CANARY))
      (\<lambda>_ s'. idle m (s'\<lparr>fl_did_prepare := True\<rparr>)) ?E s1" if s1: "idle m s1" "dv_loaded V (fl_target s1)" for s1
  proof (cases "fa_end_stack fa")
    case None
    then show ?thesis using prepared [OF s1] by simp
  next
    case (Some a)
    have t: "tinv (fl_target s1)" using s1(1) by (simp add: idle_def driver_ok_def)
    have "wp (tg_write32 T a STACK_CANARY) (\<lambda>_ t'. th (fl_target s1) t' \<and> dv_loaded V t') (\<lambda>e t'. terr e \<and> th (fl_target s1) t') (fl_target s1)"
      by (rule wp_mono [OF canary_law [OF t Some]]) (use s1(2) in \<open>auto simp: harmless_def\<close>)
    from on_tgt_idle [OF this s1(1)] have "wp (on_tgt (tg_write32 T a STACK_CANARY)) (\<lambda>_ s'. idle m (s'\<lparr>fl_did_prepare := True\<rparr>)) ?E s1"
      by (rule wp_mono) (use prepared in auto)
    then show ?thesis using Some by simp
  qed
  have t: "tinv (fl_target s)" using assms by (simp add: idle_def driver_ok_def)
  have "wp (on_tgt (tg_write_block32 T (fa_load_address fa) (fa_instructions fa))) (\<lambda>_ s1. idle m s1 \<and> dv_loaded V (fl_target s1)) ?E s"
    by (rule wp_mono [OF on_tgt_idle [OF load_law [OF t] assms]]) auto
  then have "wp (on_tgt (tg_write_block32 T (fa_load_address fa) (fa_instructions fa)))
      (\<lambda>_. wp (case fa_end_stack fa of None \<Rightarrow> ret () | Some a \<Rightarrow> on_tgt (tg_write32 T a STACK_CANARY))
        (\<lambda>_ s'. idle m (s'\<lparr>fl_did_prepare := True\<rparr>)) ?E) ?E s"
    by (rule wp_mono) (use canary in auto)
  then show ?thesis by (simp add: load_algo_def)
qed

lemma uninit_wp:
  assumes s: "ok s" "dv_flash V (fl_target s) = m"
  shows "wp (flash_uninit T fa) (\<lambda>_. idle m) (\<lambda>e s'. derr e \<and> (fl_active s = None \<longrightarrow> idle m s')) s"
proof (cases "fl_active s")
  case None
  then show ?thesis using s by (simp add: flash_uninit_def idle_def)
next
  case (Some op)
  let ?I = "\<lambda>s'. idle m (s'\<lparr>fl_active := None\<rparr>)"
  have l: "tinv (fl_target s)" "dv_loaded V (fl_target s)" "fl_did_prepare s" using s(1) Some by (auto simp: driver_ok_def)
  have call: "wp (call_and_wait T fa pc (Some (operation_value op)) None None None False)
      (\<lambda>r s'. ?I s') (\<lambda>e s'. derr e) s" if pc: "fa_pc_unInit fa = Some pc" for pc
    by (rule wp_mono [OF call_wp [OF uninit_call [OF l(1,2) pc]]])
      (use s l thD in \<open>auto simp: idle_def driver_ok_def harmless_def quiet_def device_error_def\<close>)
  have body: "wp (case fa_pc_unInit fa of
       Some pc \<Rightarrow> if is_api_valid fa (Some pc) then
           bind (call_and_wait T fa pc (Some (operation_value op)) None None None False)
             (check_result (FlashFailure None None) (\<lambda>r. FlashFailure None (Some r)))
         else ret ()
     | None \<Rightarrow> ret ()) (\<lambda>_. ?I) (\<lambda>e s'. derr e) s"
  proof (cases "fa_pc_unInit fa")
    case None
    then show ?thesis using s l by (simp add: idle_def driver_ok_def)
  next
    case (Some pc)
    have "wp (call_and_wait T fa pc (Some (operation_value op)) None None None False)
        (\<lambda>r. wp (check_result (FlashFailure None None) (\<lambda>r. FlashFailure None (Some r)) r) (\<lambda>_. ?I) (\<lambda>e s'. derr e)) (\<lambda>e s'. derr e) s"
      by (rule wp_mono [OF call [OF Some]]) (auto simp: check_wp device_error_def)
    then show ?thesis using Some s l by (simp add: idle_def driver_ok_def)
  qed
  show ?thesis using body Some by (simp add: flash_uninit_def)
qed

lemma call_init_wp:
  assumes s: "idle m s" "fl_did_prepare s"
  shows "wp (case fa_pc_init fa of
       Some pc \<Rightarrow> if is_api_valid fa (Some pc) then
           bind (call_and_wait T fa pc (Some (ar_start R)) (Some 0) (Some (operation_value op)) None True)
             (check_result (FlashFailure None None) (\<lambda>r. FlashFailure None (Some r)))
         else ret ()
     | None \<Rightarrow> ret ()) (\<lambda>_ s'. idle m s' \<and> fl_did_prepare s' \<and> inited fa V op (fl_target s')) (\<lambda>e s'. derr e \<and> idle m s') s"
proof (cases "fa_pc_init fa")
  case None
  then show ?thesis using s by (simp add: inited_def is_api_valid_def)
next
  case (Some pc)
  let ?Q = "\<lambda>_ s'. idle m s' \<and> fl_did_prepare s' \<and> inited fa V op (fl_target s')" and ?E = "\<lambda>e s'. derr e \<and> idle m s'"
  let ?C = "\<lambda>t'. th (fl_target s) t' \<and> (dv_result V t' = 0 \<longrightarrow> dv_inited V t' = Some op)"
  have l: "tinv (fl_target s)" "dv_loaded V (fl_target s)" using s by (auto simp: idle_def driver_ok_def)
  have keep: "idle m (s\<lparr>fl_target := t'\<rparr>)" if "th (fl_target s) t'" for t' by (rule idle_moved [OF s(1) that])
  have "wp (call_and_wait T fa pc (Some (ar_start R)) (Some 0) (Some (operation_value op)) None True)
      (\<lambda>r s'. \<exists>t1. ?C t1 \<and> tq t1 (fl_target s') \<and> s' = s\<lparr>fl_target := fl_target s'\<rparr> \<and> (r = 0 \<longrightarrow> dv_result V t1 = 0))
      (\<lambda>e s'. s' = s\<lparr>fl_target := fl_target s'\<rparr> \<and> ((terr e \<and> th (fl_target s) (fl_target s')) \<or> derr e \<and> (\<exists>t1. ?C t1 \<and> th t1 (fl_target s')))) s"
    by (rule call_wp [OF init_call [OF l Some]]) (auto simp: harmless_def)
  then have call: "wp (call_and_wait T fa pc (Some (ar_start R)) (Some 0) (Some (operation_value op)) None True)
      (\<lambda>r s'. idle m s' \<and> fl_did_prepare s' \<and> (r = 0 \<longrightarrow> inited fa V op (fl_target s'))) ?E s"
  proof (rule wp_mono)
    fix r s' assume "\<exists>t1. ?C t1 \<and> tq t1 (fl_target s') \<and> s' = s\<lparr>fl_target := fl_target s'\<rparr> \<and> (r = 0 \<longrightarrow> dv_result V t1 = 0)"
    then obtain t1 where t1: "?C t1" "tq t1 (fl_target s')" "s' = s\<lparr>fl_target := fl_target s'\<rparr>" "r = 0 \<longrightarrow> dv_result V t1 = 0" by blast
    have "th (fl_target s) (fl_target s')" by (rule harmless_trans [OF conjunct1 [OF t1(1)] quiet_harmless [OF t1(2)]])
    then have "idle m (s\<lparr>fl_target := fl_target s'\<rparr>)" by (rule keep)
    moreover have "fl_did_prepare (s\<lparr>fl_target := fl_target s'\<rparr>)" using s(2) by simp
    ultimately show "idle m s' \<and> fl_did_prepare s' \<and> (r = 0 \<longrightarrow> inited fa V op (fl_target s'))"
      using t1 by (auto simp: inited_def quiet_def)
  next
    fix e s' assume 1: "s' = s\<lparr>fl_target := fl_target s'\<rparr> \<and> ((terr e \<and> th (fl_target s) (fl_target s')) \<or> derr e \<and> (\<exists>t1. ?C t1 \<and> th t1 (fl_target s')))"
    then have "th (fl_target s) (fl_target s')" by (elim conjE disjE exE) (auto intro: harmless_trans)
    then have "idle m (s\<lparr>fl_target := fl_target s'\<rparr>)" by (rule keep)
    then show "?E e s'" using 1 by (auto simp: device_error_def)
  qed
  have "wp (call_and_wait T fa pc (Some (ar_start R)) (Some 0) (Some (operation_value op)) None True)
      (\<lambda>r. wp (check_result (FlashFailure None None) (\<lambda>r. FlashFailure None (Some r)) r) ?Q ?E) ?E s"
    by (rule wp_mono [OF call]) (auto simp: check_wp device_error_def)
  moreover have "is_api_valid fa (fa_pc_init fa) \<or> inited fa V op (fl_target s)" by (simp add: inited_def)
  ultimately show ?thesis using Some s by auto
qed

text \<open>The driver is initialised for \<open>op\<close> and the flash holds \<open>m\<close>.\<close>

definition active :: "operation \<Rightarrow> memory \<Rightarrow> 't flash \<Rightarrow> bool" where
  "active op m s \<longleftrightarrow> ok s \<and> fl_active s = Some op \<and> dv_flash V (fl_target s) = m"

lemma begin_wp:
  assumes "idle m s"
  shows "wp (bind (if \<not> fl_did_prepare s then load_algo T fa False else ret ()) (\<lambda>_.
      bind (case fa_pc_init fa of
         Some pc \<Rightarrow> if is_api_valid fa (Some pc) then
             bind (call_and_wait T fa pc (Some (ar_start R)) (Some 0) (Some (operation_value op)) None True)
               (check_result (FlashFailure None None) (\<lambda>r. FlashFailure None (Some r)))
           else ret ()
       | None \<Rightarrow> ret ()) (\<lambda>_. modify (\<lambda>s. s\<lparr>fl_active := Some op\<rparr>)))) (\<lambda>_. active op m) (\<lambda>e s'. derr e \<and> idle m s') s"
    (is "wp (bind ?L (\<lambda>_. bind ?I (\<lambda>_. ?M))) ?Q ?E s")
proof -
  have init: "wp ?I (\<lambda>_. wp ?M ?Q ?E) ?E s1" if "idle m s1" "fl_did_prepare s1" for s1
    by (rule wp_mono [OF call_init_wp [OF that]]) (auto simp: idle_def active_def driver_ok_def)
  have "wp ?L (\<lambda>_ s'. idle m s' \<and> fl_did_prepare s') ?E s"
    using load_wp [OF assms] assms by simp
  then show ?thesis unfolding wp_bind by (rule wp_mono) (use init in auto)
qed

lemma init_wp:
  assumes s: "ok s" "dv_flash V (fl_target s) = m"
  shows "wp (flash_init T fa R op None 0 False) (\<lambda>_. active op m) (\<lambda>e s'. derr e \<and> (fl_active s = None \<longrightarrow> idle m s')) s"
    (is "wp _ ?Q ?E s")
proof -
  have t: "tinv (fl_target s)" using s by (simp add: driver_ok_def)
  have asserted: "fl_did_prepare s \<or> fl_active s = None" using s(1) by (cases "fl_active s") (auto simp: driver_ok_def)
  let ?U = "if fl_active s \<noteq> None then flash_uninit T fa else ret ()"
  let ?B = "\<lambda>s. bind (if \<not> fl_did_prepare s then load_algo T fa False else ret ()) (\<lambda>_.
      bind (case fa_pc_init fa of
         Some pc \<Rightarrow> if is_api_valid fa (Some pc) then
             bind (call_and_wait T fa pc (Some (ar_start R)) (Some 0) (Some (operation_value op)) None True)
               (check_result (FlashFailure None None) (\<lambda>r. FlashFailure None (Some r)))
           else ret ()
       | None \<Rightarrow> ret ()) (\<lambda>_. modify (\<lambda>s. s\<lparr>fl_active := Some op\<rparr>)))"
  have start: "wp (?B s1) ?Q ?E s1" if "idle m s1" for s1
    by (rule wp_mono [OF begin_wp [OF that]]) auto
  have rest: "wp (if fl_active s = Some op then ret () else bind ?U (\<lambda>_. bind get_state ?B)) ?Q ?E s1"
    if q: "ok s1" "dv_flash V (fl_target s1) = m" "fl_active s1 = fl_active s" "fl_did_prepare s1 = fl_did_prepare s" for s1
  proof (cases "fl_active s = Some op")
    case True
    then show ?thesis using q by (simp add: active_def)
  next
    case False
    have "wp ?U (\<lambda>_. idle m) ?E s1"
      using uninit_wp [OF q(1,2)] q by (auto simp: idle_def elim!: wp_mono)
    then have "wp ?U (\<lambda>_ s'. wp (?B s') ?Q ?E s') ?E s1" by (rule wp_mono) (use start in auto)
    then show ?thesis using False by (simp only: wp_if wp_bind wp_get_state if_False)
  qed
  have "wp (on_tgt (tg_halt T)) (\<lambda>_ s1. ok s1 \<and> dv_flash V (fl_target s1) = m \<and> fl_active s1 = fl_active s \<and> fl_did_prepare s1 = fl_did_prepare s) ?E s"
    unfolding wp_on_tgt
    by (rule wp_mono [OF halt_law [OF t]])
      (use s in \<open>auto simp: driver_ok_def quiet_def harmless_def idle_def inited_def device_error_def\<close>)
  then have "wp (on_tgt (tg_halt T)) (\<lambda>_. wp (if fl_active s = Some op then ret () else bind ?U (\<lambda>_. bind get_state ?B)) ?Q ?E) ?E s"
    by (rule wp_mono) (use rest in auto)
  then show ?thesis using asserted
    by (simp only: flash_init_def Let_def option.case get_flash_info_def flash_info.simps wp_bind wp_get_state wp_assert if_True)
qed

lemma cleanup_wp:
  assumes "ok s"
  shows "wp (flash_cleanup T fa) (\<lambda>_ s'. idle (dv_flash V (fl_target s)) s') (\<lambda>e _. derr e) s"
  unfolding flash_cleanup_def wp_bind
  by (rule wp_mono [OF uninit_wp [OF assms refl]]) (auto simp: idle_def driver_ok_def)

lemma checked_wp:
  assumes "wp m (\<lambda>r s'. r = 0 \<longrightarrow> Q s') (\<lambda>e _. derr e) s" and "is_flash_failure timed" and "\<And>r. is_flash_failure (failed r)"
  shows "wp (bind m (check_result timed failed)) (\<lambda>_. Q) (\<lambda>e _. derr e) s"
  unfolding wp_bind by (rule wp_mono [OF assms(1)]) (simp_all add: check_wp [OF assms(2,3)] device_error_def assms(2,3))

text \<open>A call of the algorithm's erase or program function.\<close>

lemma active_call_wp:
  assumes a: "active op m s"
    and run: "wp (run_call T (call_registers T fa pc r0 r1 r2 r3 False))
        (\<lambda>_ t'. tinv t' \<and> dv_loaded V t' \<and> inited fa V op t' \<and> (dv_result V t' = 0 \<longrightarrow> dv_flash V t' = m')) (\<lambda>e _. terr e) (fl_target s)"
    and "is_flash_failure timed" and "\<And>r. is_flash_failure (failed r)"
  shows "wp (bind (call_and_wait T fa pc r0 r1 r2 r3 False) (check_result timed failed)) (\<lambda>_. active op m') (\<lambda>e _. derr e) s"
proof (rule checked_wp [OF _ assms(3,4)], rule wp_mono [OF call_wp [OF run]])
  let ?C = "\<lambda>t'. tinv t' \<and> dv_loaded V t' \<and> inited fa V op t' \<and> (dv_result V t' = 0 \<longrightarrow> dv_flash V t' = m')"
  fix r s' assume "\<exists>t1. ?C t1 \<and> tq t1 (fl_target s') \<and> s' = s\<lparr>fl_target := fl_target s'\<rparr> \<and> (r = 0 \<longrightarrow> dv_result V t1 = 0)"
  then obtain t1 t' where t1: "?C t1" "tq t1 t'" "r = 0 \<longrightarrow> dv_result V t1 = 0" and s': "s' = s\<lparr>fl_target := t'\<rparr>" by metis
  show "r = 0 \<longrightarrow> active op m' s'" unfolding s'
    using t1 a by (auto simp: active_def driver_ok_def quiet_def inited_def)
qed (auto simp: device_error_def)

lemma erase_sector_wp:
  assumes a: "active ERASE m s" and "ar_sector_size R dvd x" "ar_start R \<le> x" "x + ar_sector_size R \<le> ar_end R + 1"
  shows "wp (flash_erase_sector T fa x)
    (\<lambda>_. active ERASE (\<lambda>y. if x \<le> y \<and> y < x + ar_sector_size R then fr_erased_byte R else m y)) (\<lambda>e _. derr e) s"
proof -
  have t: "tinv (fl_target s)" "dv_loaded V (fl_target s)" "inited fa V ERASE (fl_target s)" "dv_flash V (fl_target s) = m"
    using a by (auto simp: active_def driver_ok_def)
  have "wp (bind (call_and_wait T fa (fa_pc_erase_sector fa) (Some x) None None None False)
       (check_result (FlashEraseFailure None None) (\<lambda>r. FlashEraseFailure (Some x) (Some r))))
     (\<lambda>_. active ERASE (\<lambda>y. if x \<le> y \<and> y < x + ar_sector_size R then fr_erased_byte R else m y)) (\<lambda>e _. derr e) s"
    by (rule active_call_wp [OF a erase_call [OF t(1-3) assms(2-4), unfolded t(4)]]) simp_all
  moreover have "fl_active s = Some ERASE" using a by (simp add: active_def)
  ultimately show ?thesis by (simp add: flash_erase_sector_def need_operation_def)
qed

lemma program_page_wp:
  assumes a: "active PROGRAM m s" and x: "ar_page_size R dvd x" "ar_start R \<le> x" "x + ar_page_size R \<le> ar_end R + 1"
    and bs: "int (length bs) = ar_page_size R" and blank: "\<And>y. x \<le> y \<Longrightarrow> y < x + ar_page_size R \<Longrightarrow> m y = fr_erased_byte R"
  shows "wp (flash_program_page T fa x bs) (\<lambda>_. active PROGRAM (mem_write m x bs)) (\<lambda>e _. derr e) s"
proof -
  obtain buf bufs where b: "fa_page_buffers fa = buf # bufs" using buffers by (cases "fa_page_buffers fa") auto
  have t: "tinv (fl_target s)" "fl_active s = Some PROGRAM" using a by (auto simp: active_def driver_ok_def)
  let ?run = "bind (call_and_wait T fa (fa_pc_program_page fa) (Some x) (Some (int (length bs))) (Some buf) None False)
       (check_result (FlashProgramFailure None None) (\<lambda>r. FlashProgramFailure (Some x) (Some r)))"
  have call: "wp ?run (\<lambda>_. active PROGRAM (mem_write m x bs)) (\<lambda>e _. derr e) s1"
    if s1: "active PROGRAM m s1" "mem_bytes (dv_ram V (fl_target s1)) buf (length bs) = bs" for s1
  proof -
    have t1: "tinv (fl_target s1)" "dv_loaded V (fl_target s1)" "inited fa V PROGRAM (fl_target s1)" "dv_flash V (fl_target s1) = m"
      using s1(1) by (auto simp: active_def driver_ok_def)
    have len: "nat (ar_page_size R) = length bs" using bs by simp
    have data: "mem_bytes (dv_ram V (fl_target s1)) (hd (fa_page_buffers fa)) (nat (ar_page_size R)) = bs"
      unfolding b list.sel len by (rule s1(2))
    have buf: "hd (fa_page_buffers fa) = buf" using b by simp
    note run = program_call [OF t1(1-3) x, unfolded t1(4) data, OF blank, unfolded buf, folded bs]
    show ?thesis by (rule active_call_wp [OF s1(1) run]) simp_all
  qed
  have "wp (on_tgt (tg_write_block8 T buf bs)) (\<lambda>_ s1. active PROGRAM m s1 \<and> mem_bytes (dv_ram V (fl_target s1)) buf (length bs) = bs) (\<lambda>e _. derr e) s"
    unfolding wp_on_tgt
    by (rule wp_mono [OF buffer_law [OF t(1) bs, unfolded b list.sel]])
      (use a in \<open>auto simp: active_def driver_ok_def harmless_def inited_def device_error_def\<close>)
  then have "wp (on_tgt (tg_write_block8 T buf bs)) (\<lambda>_. wp ?run (\<lambda>_. active PROGRAM (mem_write m x bs)) (\<lambda>e _. derr e)) (\<lambda>e _. derr e) s"
    by (rule wp_mono) (use call in auto)
  then show ?thesis using t b by (simp add: flash_program_page_def program_from_buffer_def need_operation_def)
qed

end

text \<open>The driver on such a target keeps the builder's contract.\<close>

sublocale flash_device \<subseteq> device: flash_driver "driver_ops T fa R rd nf crc" "driver_ok tinv fa V" "\<lambda>s. dv_flash V (fl_target s)" fl_active "device_error terr"
proof (unfold_locales, goal_cases)
  case 1
  show ?case using region by simp
next
  case (2 s op)
  show ?case by (simp, rule wp_mono [OF init_wp [OF 2 refl]]) (auto simp: active_def idle_def)
next
  case (3 s)
  show ?case by (simp, rule wp_mono [OF uninit_wp [OF 3 refl]]) (auto simp: idle_def)
next
  case (4 s)
  show ?case by (simp, rule wp_mono [OF cleanup_wp [OF 4]]) (auto simp: idle_def)
next
  case (5 s ev)
  then have "tinv (fl_target s)" by (simp add: driver_ok_def)
  then show ?case
    by (simp add: wp_on_tgt, elim wp_mono [OF notify_law]) (use 5 in \<open>auto simp: quiet_def driver_ok_def inited_def device_error_def\<close>)
next
  case (6 s n a)
  then have "tinv (fl_target s)" by (simp add: driver_ok_def)
  from rd_law [OF this, of n a] 6 show ?case
    by (simp add: wp_on_tgt, elim wp_mono) (auto simp: quiet_def driver_ok_def inited_def device_error_def)
next
  case (7 s qs)
  then show ?case using plain by (simp add: get_flash_info_def)
next
  case (8 s a)
  then have "active ERASE (dv_flash V (fl_target s)) s" by (simp add: active_def)
  from erase_sector_wp [OF this, of a] 8 show ?case by simp (elim wp_mono, auto simp: active_def)
next
  case (9 s a ds)
  then have "active PROGRAM (dv_flash V (fl_target s)) s" by (simp add: active_def)
  from program_page_wp [OF this, of a ds] 9 show ?case by simp (elim wp_mono, auto simp: active_def)
qed

subsection \<open>A simulated target\<close>

text \<open>
  A target that behaves as the locale asks: it runs the algorithm's functions when the core is resumed
  at their entry points, if the algorithm's code is in its RAM, and refuses to program what is not erased.
\<close>

record sim_target =
  sm_flash :: memory
  sm_ram :: memory
  sm_word :: "int \<Rightarrow> int"
  sm_reg :: "string \<Rightarrow> int"
  sm_code :: "int list"
  sm_inited :: "operation option"

definition sim_ready :: "flash_algo \<Rightarrow> operation \<Rightarrow> sim_target \<Rightarrow> bool" where
  "sim_ready fa op t \<longleftrightarrow> (is_api_valid fa (fa_pc_init fa) \<longrightarrow> sm_inited t = Some op)"

definition sim_finish :: "int \<Rightarrow> sim_target \<Rightarrow> sim_target" where
  "sim_finish r t = t\<lparr>sm_reg := (sm_reg t)(''r0'' := r)\<rparr>"

definition sim_run :: "flash_algo \<Rightarrow> flash_region \<Rightarrow> sim_target \<Rightarrow> sim_target" where
  "sim_run fa R t =
     (let pc = sm_reg t ''pc''; r0 = sm_reg t ''r0''; r1 = sm_reg t ''r1''; r2 = sm_reg t ''r2'' in
      if sm_code t \<noteq> fa_instructions fa then sim_finish 1 t
      else if fa_pc_init fa = Some pc then
        sim_finish 0 (t\<lparr>sm_inited := find (\<lambda>op. operation_value op = r2) [ERASE, PROGRAM, VERIFY]\<rparr>)
      else if fa_pc_unInit fa = Some pc then sim_finish 0 (t\<lparr>sm_inited := None\<rparr>)
      else if pc = fa_pc_erase_sector fa \<and> sim_ready fa ERASE t then
        sim_finish 0 (t\<lparr>sm_flash := (\<lambda>x. if r0 \<le> x \<and> x < r0 + ar_sector_size R then fr_erased_byte R else sm_flash t x)\<rparr>)
      else if pc = fa_pc_program_page fa \<and> sim_ready fa PROGRAM t
          \<and> mem_bytes (sm_flash t) r0 (nat r1) = replicate (nat r1) (fr_erased_byte R) then
        sim_finish 0 (t\<lparr>sm_flash := mem_write (sm_flash t) r0 (mem_bytes (sm_ram t) r2 (nat r1))\<rparr>)
      else sim_finish 1 t)"

definition sim_ops :: "flash_algo \<Rightarrow> flash_region \<Rightarrow> sim_target target_ops" where
  "sim_ops fa R = \<lparr>
     tg_halt = ret (),
     tg_write_block32 = (\<lambda>a ws. modify (\<lambda>t. if a = fa_load_address fa then t\<lparr>sm_code := ws\<rparr> else t)),
     tg_read_block32 = (\<lambda>a n. bind get_state (\<lambda>t. ret (map (\<lambda>i. sm_word t (a + 4 * int i)) [0..<nat n]))),
     tg_write_block8 = (\<lambda>a bs. modify (\<lambda>t. t\<lparr>sm_ram := mem_write (sm_ram t) a bs\<rparr>)),
     tg_write32 = (\<lambda>a v. modify (\<lambda>t. t\<lparr>sm_word := (sm_word t)(a := v)\<rparr>)),
     tg_read32 = (\<lambda>a. bind get_state (\<lambda>t. ret (sm_word t a))),
     tg_write_registers = (\<lambda>ns vs. modify (\<lambda>t. t\<lparr>sm_reg := fold (\<lambda>(n, v) f. f(n := v)) (zip ns vs) (sm_reg t)\<rparr>)),
     tg_read_register = (\<lambda>nm. bind get_state (\<lambda>t. ret (sm_reg t nm))),
     tg_resume = modify (sim_run fa R),
     tg_reset_and_halt = ret (),
     tg_get_state = ret HALTED,
     tg_ticks = (\<lambda>_. 1),
     tg_cortex_m = True\<rparr>"

definition sim_read :: "int \<Rightarrow> int \<Rightarrow> (sim_target, int list) exec" where
  "sim_read a n = bind get_state (\<lambda>t. ret (mem_bytes (sm_flash t) a (nat n)))"

definition sim_view :: "flash_algo \<Rightarrow> sim_target device_view" where
  "sim_view fa = \<lparr>dv_flash = sm_flash, dv_ram = sm_ram, dv_loaded = (\<lambda>t. sm_code t = fa_instructions fa),
     dv_inited = sm_inited, dv_result = (\<lambda>t. sm_reg t ''r0'')\<rparr>"

lemma sim_device:
  assumes "geometry_ok R" "fa_page_buffers fa \<noteq> []" "\<not> fa_analyzer_supported fa"
    and pcs: "fa_pc_init fa = Some i" "fa_pc_unInit fa = Some u" "distinct [i, u, fa_pc_erase_sector fa, fa_pc_program_page fa]"
  shows "flash_device (sim_ops fa R) fa R sim_read (\<lambda>_. ret ()) (\<lambda>_. True) (sim_view fa) (\<lambda>_. False)"
proof (unfold_locales, goal_cases)
  case (11 t pc op)
  then show ?case using pcs
    by (cases op) (simp_all add: sim_ops_def sim_view_def run_call_def call_registers_def opt_arg_def harmless_def sim_run_def sim_finish_def Let_def)
next
  case (12 t pc op)
  then show ?case using pcs
    by (simp add: sim_ops_def sim_view_def run_call_def call_registers_def opt_arg_def harmless_def sim_run_def sim_finish_def Let_def)
next
  case (13 t a)
  then show ?case using pcs
    by (simp add: sim_ops_def sim_view_def run_call_def call_registers_def opt_arg_def sim_run_def sim_finish_def Let_def inited_def sim_ready_def fun_eq_iff)
next
  case (14 t a)
  have "mem_bytes (sm_flash t) a (nat (ar_page_size R)) = replicate (nat (ar_page_size R)) (fr_erased_byte R)"
    using 14(7) by (auto simp: sim_view_def mem_bytes_def list_eq_iff_nth_eq)
  then show ?case using pcs 14
    by (simp add: sim_ops_def sim_view_def run_call_def call_registers_def opt_arg_def sim_run_def sim_finish_def Let_def inited_def sim_ready_def)
qed (use assms in \<open>simp_all add: sim_ops_def sim_view_def sim_read_def quiet_def harmless_def\<close>)

text \<open>An algorithm for a flash of four sectors of two pages each.\<close>

definition demo_region :: flash_region where
  "demo_region = \<lparr>ar_start = 0x40, ar_end = 0x7F, ar_sector_size = 16, ar_page_size = 8, ar_phrase_size = 4,
     ar_erase_sector_weight = 1, ar_program_page_weight = 1, fr_erase_all_weight = 8, fr_readable = True, fr_erasable = True,
     fr_erased_readable = True, fr_erased_byte = 0xFF, fr_subregions = []\<rparr>"

definition demo_algo :: flash_algo where
  "demo_algo = \<lparr>fa_load_address = 0x20000000, fa_instructions = replicate 8 0xE00ABE00, fa_pc_init = Some 0x20000005,
     fa_pc_unInit = Some 0x20000009, fa_pc_eraseAll = None, fa_pc_erase_sector = 0x2000000D, fa_pc_program_page = 0x20000011,
     fa_page_buffers = [0x20001000], fa_begin_stack = 0x20000800, fa_end_stack = Some 0x20000400, fa_static_base = 0x20000020,
     fa_min_program_length = 0, fa_analyzer_supported = False, fa_analyzer_address = 0\<rparr>"

interpretation sim: flash_device "sim_ops demo_algo demo_region" demo_algo demo_region sim_read "\<lambda>_. ret ()" "\<lambda>_. True" "sim_view demo_algo" "\<lambda>_. False"
  by (rule sim_device [where i = "0x20000005" and u = "0x20000009"]) (simp_all add: demo_algo_def demo_region_def geometry_ok_def)

subsection \<open>Committing data to a region\<close>

definition commit_region :: "'s flash_ops \<Rightarrow> (int \<times> int list) list \<Rightarrow> string option \<Rightarrow> bool \<Rightarrow> bool \<Rightarrow> bool \<Rightarrow> ('s builder, programming_info option) exec" where
  "commit_region D ops chip smart fast_verify keep =
     bind (for_each (\<lambda>(a, d). add_data D a d) ops) (\<lambda>_.
     bind (erase D chip smart fast_verify keep) (\<lambda>_. program D smart fast_verify keep))"

context flash_device
begin

lemma commit_device:
  assumes "ok s" "fl_active s = None" "fr_erasable R" "\<not> double_buffer_supported fa"
    and "convert_chip_erase chip = Inr choice" "choice = Some False \<or> \<not> is_erase_all_supported fa"
  shows "wp (commit_region (driver_ops T fa R rd nf crc) ops chip smart fast_verify keep)
    (\<lambda>_ b. data_in_flash ops (dv_flash V (fl_target (fb_flash b)))
        \<and> (keep \<and> fr_erased_readable R \<and> fr_readable R \<longrightarrow>
             (\<forall>x. x \<notin> op_area ops \<longrightarrow> dv_flash V (fl_target (fb_flash b)) x = dv_flash V (fl_target s) x)))
    (\<lambda>e b. derr e \<or> e = ValueError \<and> fb_flash b = s) (FlashBuilder s)"
  using device.commit_wp [where ops = ops and smart = smart and keep = keep and fast_verify = fast_verify and s = s and crc = crc] assms plain
  by (simp add: commit_region_def get_flash_info_def)

end


definition demo_target :: sim_target where
  "demo_target = \<lparr>sm_flash = (\<lambda>x. x mod 256), sm_ram = (\<lambda>_. 0), sm_word = (\<lambda>_. 0), sm_reg = (\<lambda>_. 0), sm_code = [], sm_inited = None\<rparr>"


lemma sim_flash_demo: "sm_flash (fl_target (Flash demo_target)) = (\<lambda>x. x mod 256)"
  by (simp add: Flash_def demo_target_def)


end
