(* ===== verification/Rtt.thy ===== *)
theory Rtt
  imports Memory_Map Memory_Interface
begin

text \<open>
  \<open>pyocd/debug/rtt.py\<close>: the SEGGER RTT control block, and the up and down channels, ring buffers
  in the target's memory that the target empties or fills while the host works on the other side.
\<close>

subsection \<open>Channels\<close>

text \<open>The operations of the target that the channels use.\<close>

record 't rtt_ops =
  ro_read_block32 :: "int \<Rightarrow> int \<Rightarrow> ('t, int list) exec"
  ro_read_block8 :: "int \<Rightarrow> int \<Rightarrow> ('t, int list) exec"
  ro_read32 :: "int \<Rightarrow> ('t, int) exec"
  ro_write_block8 :: "int \<Rightarrow> int list \<Rightarrow> ('t, unit) exec"
  ro_write32 :: "int \<Rightarrow> int \<Rightarrow> ('t, unit) exec"

text \<open>A name is kept as the bytes that are decoded.\<close>

record rtt_channel =
  rc_desc_addr :: int
  rc_offsets_addr :: int
  rc_name :: "int list option"
  rc_buffer_address :: int
  rc_size :: int

record 't rtt =
  rt_channel :: rtt_channel
  rt_target :: 't

datatype direction = Up | Down

definition on_rtt_target :: "('t, 'a) exec \<Rightarrow> ('t rtt, 'a) exec" where
  "on_rtt_target m s = (case m (rt_target s) of (r, t) \<Rightarrow> (r, s\<lparr>rt_target := t\<rparr>))"

text \<open>The descriptor is six words: name, buffer, size, write offset, read offset, flags.\<close>

definition DESC_SIZE :: int where "DESC_SIZE = 24"
definition WR_OFF :: int where "WR_OFF = 12"

definition desc_word :: "int list \<Rightarrow> nat \<Rightarrow> int" where
  "desc_word ws i = (if i < length ws then ws ! i mod 2 ^ 32 else 0)"

text \<open>
  The bytes of the name: each round reads the same address again.  The fuel bounds the rounds; a
  target that returns what is asked for needs at most 16.
\<close>

definition name_chunk :: "direction \<Rightarrow> int" where
  "name_chunk d = (case d of Up \<Rightarrow> 32 | Down \<Rightarrow> 64)"

definition give_up :: "direction \<Rightarrow> int \<Rightarrow> bool" where
  "give_up d n = (case d of Up \<Rightarrow> n \<ge> 512 | Down \<Rightarrow> n > 512)"

fun read_name :: "'t rtt_ops \<Rightarrow> direction \<Rightarrow> nat \<Rightarrow> int \<Rightarrow> int list \<Rightarrow> ('t, int list) exec" where
  "read_name T d 0 addr data = raise Diverges"
| "read_name T d (Suc fuel) addr data =
     bind (ro_read_block8 T addr (name_chunk d)) (\<lambda>bs.
       let data = data @ bs in
       if 0 \<in> set data then ret (takeWhile (\<lambda>b. b \<noteq> 0) data)
       else if give_up d (int (length data)) then ret data
       else read_name T d fuel addr data)"

definition NAME_FUEL :: nat where "NAME_FUEL = 16"

definition read_descriptor :: "'t rtt_ops \<Rightarrow> direction \<Rightarrow> ('t rtt, unit) exec" where
  "read_descriptor T d =
     bind get_state (\<lambda>s.
     bind (on_rtt_target (ro_read_block32 T (rc_desc_addr (rt_channel s)) (DESC_SIZE div 4))) (\<lambda>ws.
       if length ws > 6 then raise TypeError
       else
         bind (if desc_word ws 0 \<noteq> 0
               then bind (on_rtt_target (read_name T d NAME_FUEL (desc_word ws 0) [])) (\<lambda>nm. ret (Some nm))
               else ret None) (\<lambda>nm.
           modify (\<lambda>s. s\<lparr>rt_channel := (rt_channel s)\<lparr>rc_name := nm, rc_buffer_address := desc_word ws 1, rc_size := desc_word ws 2\<rparr>\<rparr>))))"

definition open_channel :: "'t rtt_ops \<Rightarrow> direction \<Rightarrow> int \<Rightarrow> ('t, rtt_channel) exec" where
  "open_channel T d desc_addr t =
     (case read_descriptor T d \<lparr>rt_channel = \<lparr>rc_desc_addr = desc_addr, rc_offsets_addr = desc_addr + WR_OFF,
          rc_name = None, rc_buffer_address = 0, rc_size = 0\<rparr>, rt_target = t\<rparr> of
        (Inl e, s) \<Rightarrow> (Inl e, rt_target s) | (Inr _, s) \<Rightarrow> (Inr (rt_channel s), rt_target s))"

definition unpopulated :: "rtt_channel \<Rightarrow> bool" where
  "unpopulated ch \<longleftrightarrow> rc_size ch = 0 \<or> rc_buffer_address ch = 0"

text \<open>Whether the channel is there, after another look at a descriptor that was empty.\<close>

definition populate :: "'t rtt_ops \<Rightarrow> direction \<Rightarrow> ('t rtt, bool) exec" where
  "populate T d =
     bind get_state (\<lambda>s.
       if unpopulated (rt_channel s)
       then bind (read_descriptor T d) (\<lambda>_. bind get_state (\<lambda>s. ret (\<not> unpopulated (rt_channel s))))
       else ret True)"

definition get_offsets :: "'t rtt_ops \<Rightarrow> ('t rtt, int \<times> int) exec" where
  "get_offsets T =
     bind get_state (\<lambda>s.
     bind (on_rtt_target (ro_read_block32 T (rc_offsets_addr (rt_channel s)) 2)) (\<lambda>ws.
       case ws of [w, r] \<Rightarrow>
         if w \<ge> rc_size (rt_channel s) \<or> r \<ge> rc_size (rt_channel s) then raise RTTError else ret (w, r)
       | _ \<Rightarrow> raise ValueError))"

text \<open>\<open>bytes_available\<close> reads \<open>self.target\<close>, an attribute the class does not have.\<close>

definition bytes_available :: "'t rtt_ops \<Rightarrow> ('t rtt, int) exec" where
  "bytes_available T =
     bind (populate T Up) (\<lambda>there. if \<not> there then ret 0 else raise AttributeError)"

definition up_read :: "'t rtt_ops \<Rightarrow> ('t rtt, int list) exec" where
  "up_read T =
     bind (populate T Up) (\<lambda>there.
       if \<not> there then ret []
       else
         bind (get_offsets T) (\<lambda>(write_off, read_off).
         bind get_state (\<lambda>s. let ch = rt_channel s in
           if write_off = read_off then ret []
           else
             bind (if write_off > read_off
                   then on_rtt_target (ro_read_block8 T (rc_buffer_address ch + read_off) (write_off - read_off))
                   else
                     bind (on_rtt_target (ro_read_block8 T (rc_buffer_address ch + read_off) (rc_size ch - read_off))) (\<lambda>d1.
                     bind (on_rtt_target (ro_read_block8 T (rc_buffer_address ch) write_off)) (\<lambda>d2. ret (d1 @ d2)))) (\<lambda>data.
             bind (on_rtt_target (ro_write32 T (rc_offsets_addr ch + 4) write_off)) (\<lambda>_. ret data)))))"

definition free_between :: "int \<Rightarrow> int \<Rightarrow> int \<Rightarrow> int" where
  "free_between sz write_off read_off =
     (if write_off = read_off then sz
      else if write_off > read_off then (sz - write_off) + (read_off - 1)
      else read_off - write_off - 1)"

definition bytes_free :: "'t rtt_ops \<Rightarrow> ('t rtt, int) exec" where
  "bytes_free T =
     bind (populate T Down) (\<lambda>there.
       if \<not> there then ret 0
       else bind (get_offsets T) (\<lambda>(write_off, read_off).
            bind get_state (\<lambda>s. ret (free_between (rc_size (rt_channel s)) write_off read_off))))"

text \<open>The part at the top of the buffer, and the part from its start.\<close>

definition write_top :: "'t rtt_ops \<Rightarrow> int \<Rightarrow> int \<Rightarrow> int list \<Rightarrow> ('t rtt, int list \<times> int \<times> int) exec" where
  "write_top T write_off read_off data =
     bind get_state (\<lambda>s. let ch = rt_channel s in
       if write_off \<ge> read_off then
         let free_space = rc_size ch - write_off;
             free_space = (if read_off = 0 then free_space - 1 else free_space);
             now = py_upto data free_space
         in bind (on_rtt_target (ro_write_block8 T (rc_buffer_address ch + write_off) now)) (\<lambda>_.
              ret (py_from data (int (length now)), (write_off + int (length now)) mod rc_size ch, int (length now)))
       else ret (data, write_off, 0))"

definition write_once :: "'t rtt_ops \<Rightarrow> int list \<Rightarrow> ('t rtt, int) exec" where
  "write_once T data =
     bind (get_offsets T) (\<lambda>(write_off, read_off).
     bind (write_top T write_off read_off data) (\<lambda>(data, write_off, bytes_written).
     bind get_state (\<lambda>s. let ch = rt_channel s;
         free_space = (if read_off - write_off - 1 < 0 then 0 else read_off - write_off - 1);
         bytes_to_write = min free_space (int (length data)) in
       bind (on_rtt_target (ro_write_block8 T (rc_buffer_address ch + write_off) (py_upto data bytes_to_write))) (\<lambda>_.
       bind (on_rtt_target (ro_write32 T (rc_offsets_addr ch) (write_off + bytes_to_write))) (\<lambda>_.
         ret (bytes_written + bytes_to_write))))))"

definition down_write :: "'t rtt_ops \<Rightarrow> int list \<Rightarrow> ('t rtt, int) exec" where
  "down_write T data = bind (populate T Down) (\<lambda>there. if \<not> there then ret 0 else write_once T data)"

text \<open>
  A blocking write returns None.  It runs as long as the target needs to make room: the fuel bounds
  the rounds, and \<open>Diverges\<close> stands for a write that is still waiting.
\<close>

fun write_all :: "'t rtt_ops \<Rightarrow> nat \<Rightarrow> int list \<Rightarrow> ('t rtt, unit) exec" where
  "write_all T fuel [] = ret ()"
| "write_all T 0 (b # data) = raise Diverges"
| "write_all T (Suc fuel) (b # data) =
     bind (down_write T (b # data)) (\<lambda>sent. write_all T fuel (py_from (b # data) sent))"

definition down_write_blocking :: "'t rtt_ops \<Rightarrow> nat \<Rightarrow> int list \<Rightarrow> ('t rtt, int option) exec" where
  "down_write_blocking T fuel data =
     bind (populate T Down) (\<lambda>there. if \<not> there then ret (Some 0) else bind (write_all T fuel data) (\<lambda>_. ret None))"

subsection \<open>The control block\<close>

text \<open>\<open>data.find(id)\<close>: the lowest position at which \<open>pat\<close> is.\<close>

fun find_bytes :: "int list \<Rightarrow> int list \<Rightarrow> nat option" where
  "find_bytes [] pat = (if pat = [] then Some 0 else None)"
| "find_bytes (b # bs) pat =
     (if take (length pat) (b # bs) = pat then Some 0 else map_option Suc (find_bytes bs pat))"

record control_block =
  cb_address :: int
  cb_size :: int
  cb_id :: "int list"

definition ControlBlock :: "mmap \<Rightarrow> int option \<Rightarrow> int option \<Rightarrow> int list \<Rightarrow> exn + control_block" where
  "ControlBlock m address sz ident =
     (case address of
        Some a \<Rightarrow> Inr \<lparr>cb_address = a, cb_size = (case sz of None \<Rightarrow> 0 | Some n \<Rightarrow> n), cb_id = ident\<rparr>
      | None \<Rightarrow>
          (case get_default_region_of_type m RAM of
             Inl e \<Rightarrow> Inl e
           | Inr None \<Rightarrow> Inl AttributeError
           | Inr (Some r) \<Rightarrow> Inr \<lparr>cb_address = r_start r,
               cb_size = (case sz of None \<Rightarrow> r_end r - r_start r + 1 | Some n \<Rightarrow> n), cb_id = ident\<rparr>))"

text \<open>
  The search reads 1024 bytes at a time and carries the last bytes of one block over to the next.  A
  negative search size is not tried: the loop would read blocks of a negative size.
\<close>

function find_loop :: "'t rtt_ops \<Rightarrow> int list \<Rightarrow> int \<Rightarrow> int \<Rightarrow> int list \<Rightarrow> ('t, int option) exec" where
  "find_loop T ident addr search_size data =
     (if search_size = 0 then ret None
      else if search_size < 0 then raise Diverges
      else
        let read_size = min search_size 1024;
            prev = py_from data ((1 - int (length ident)) div 4 * 4) in
        bind (ro_read_block8 T addr read_size) (\<lambda>data.
          case find_bytes (prev @ data) ident of
            Some idx \<Rightarrow> ret (Some (addr - int (length prev) + int idx))
          | None \<Rightarrow> find_loop T ident (addr + read_size) (search_size - read_size) data))"
  by pat_completeness auto
termination by (relation "measure (\<lambda>(_, _, _, n, _). nat n)") auto

declare find_loop.simps [simp del]

definition find_control_block :: "'t rtt_ops \<Rightarrow> control_block \<Rightarrow> ('t, int option) exec" where
  "find_control_block T cb =
     find_loop T (cb_id cb) (cb_address cb) (max (cb_size cb) (int (length (cb_id cb)))) []"

definition CB_SIZE :: int where "CB_SIZE = 24"
definition MAX_UP :: int where "MAX_UP = 16"
definition MAX_DOWN :: int where "MAX_DOWN = 20"

definition start :: "'t rtt_ops \<Rightarrow> control_block \<Rightarrow> ('t, rtt_channel list \<times> rtt_channel list) exec" where
  "start T cb =
     bind (find_control_block T cb) (\<lambda>found.
       case found of
         None \<Rightarrow> raise RTTError
       | Some cb_addr \<Rightarrow>
           bind (ro_read32 T (cb_addr + MAX_UP)) (\<lambda>num_up.
           bind (ro_read32 T (cb_addr + MAX_DOWN)) (\<lambda>num_down.
           let up_base = cb_addr + CB_SIZE; down_base = up_base + num_up * DESC_SIZE in
           bind (exec_map (\<lambda>i. open_channel T Up (up_base + int i * DESC_SIZE)) [0..<nat num_up]) (\<lambda>ups.
           bind (exec_map (\<lambda>i. open_channel T Down (down_base + int i * DESC_SIZE)) [0..<nat num_down]) (\<lambda>downs.
             ret (ups, downs))))))"

subsection \<open>The ring\<close>

text \<open>
  The part of the target's memory that the two sides share, and what the target has taken out or put in
  so far.  One byte of the \<open>N\<close> stays free.
\<close>

record ring =
  rg_wr :: int
  rg_rd :: int
  rg_buf :: "int \<Rightarrow> int"
  rg_log :: "int list"

definition ring_ok :: "int \<Rightarrow> ring \<Rightarrow> bool" where
  "ring_ok N r \<longleftrightarrow> 0 \<le> rg_wr r \<and> rg_wr r < N \<and> 0 \<le> rg_rd r \<and> rg_rd r < N"

definition used :: "int \<Rightarrow> ring \<Rightarrow> int" where
  "used N r = (rg_wr r - rg_rd r) mod N"

definition queue :: "int \<Rightarrow> ring \<Rightarrow> int list" where
  "queue N r = map (\<lambda>i. rg_buf r ((rg_rd r + int i) mod N)) [0..<nat (used N r)]"

text \<open>One step of the target: on a down channel it takes a byte, on an up channel it puts one in.\<close>

inductive takes :: "int \<Rightarrow> ring \<Rightarrow> ring \<Rightarrow> bool" for N where
  takes: "rg_rd r \<noteq> rg_wr r \<Longrightarrow> takes N r (r\<lparr>rg_rd := (rg_rd r + 1) mod N, rg_log := rg_log r @ [rg_buf r (rg_rd r)]\<rparr>)"

inductive puts :: "int \<Rightarrow> ring \<Rightarrow> ring \<Rightarrow> bool" for N where
  puts: "(rg_wr r + 1) mod N \<noteq> rg_rd r \<Longrightarrow>
    puts N r (r\<lparr>rg_buf := (rg_buf r)(rg_wr r := b), rg_wr := (rg_wr r + 1) mod N, rg_log := rg_log r @ [b]\<rparr>)"

text \<open>The host's block accesses, byte by byte, with steps of the target in between.\<close>

fun writes :: "(ring \<Rightarrow> ring \<Rightarrow> bool) \<Rightarrow> ring \<Rightarrow> int \<Rightarrow> int list \<Rightarrow> ring \<Rightarrow> bool" where
  "writes env r i [] r' = env\<^sup>*\<^sup>* r r'"
| "writes env r i (b # bs) r' = (\<exists>r1. env\<^sup>*\<^sup>* r r1 \<and> writes env (r1\<lparr>rg_buf := (rg_buf r1)(i := b)\<rparr>) (i + 1) bs r')"

fun reads :: "(ring \<Rightarrow> ring \<Rightarrow> bool) \<Rightarrow> ring \<Rightarrow> int \<Rightarrow> int list \<Rightarrow> ring \<Rightarrow> bool" where
  "reads env r i [] r' = env\<^sup>*\<^sup>* r r'"
| "reads env r i (b # bs) r' = (\<exists>r1. env\<^sup>*\<^sup>* r r1 \<and> b = rg_buf r1 i \<and> reads env r1 (i + 1) bs r')"

lemma used_bounds: "ring_ok N r \<Longrightarrow> 0 \<le> used N r \<and> used N r < N"
  by (simp add: used_def ring_ok_def)

lemma used_cases: "ring_ok N r \<Longrightarrow> used N r = (if rg_rd r \<le> rg_wr r then rg_wr r - rg_rd r else rg_wr r - rg_rd r + N)"
proof (cases "rg_rd r \<le> rg_wr r")
  case False
  assume "ring_ok N r"
  then have "(rg_wr r - rg_rd r + N) mod N = rg_wr r - rg_rd r + N" using False by (intro mod_pos_pos_trivial) (auto simp: ring_ok_def)
  then show ?thesis using False by (simp add: used_def)
qed (simp add: used_def ring_ok_def)

lemma queue_take:
  assumes "ring_ok N r" and "rg_rd r \<noteq> rg_wr r"
  shows "queue N r = rg_buf r (rg_rd r) # queue N (r\<lparr>rg_rd := (rg_rd r + 1) mod N, rg_log := l\<rparr>)"
    and "used N (r\<lparr>rg_rd := (rg_rd r + 1) mod N, rg_log := l\<rparr>) = used N r - 1"
proof -
  have N: "0 < N" "rg_rd r mod N = rg_rd r" using assms(1) by (auto simp: ring_ok_def)
  have pos: "0 < used N r" using used_cases [OF assms(1)] assms by (auto simp: ring_ok_def split: if_splits)
  have "(rg_wr r - (rg_rd r + 1) mod N) mod N = (used N r - 1) mod N"
    by (simp add: used_def mod_simps algebra_simps)
  also have "\<dots> = used N r - 1" using pos used_bounds [OF assms(1)] by simp
  finally show u: "used N (r\<lparr>rg_rd := (rg_rd r + 1) mod N, rg_log := l\<rparr>) = used N r - 1" by (simp add: used_def)
  have "nat (used N r) = Suc (nat (used N r - 1))" using pos by simp
  then show "queue N r = rg_buf r (rg_rd r) # queue N (r\<lparr>rg_rd := (rg_rd r + 1) mod N, rg_log := l\<rparr>)"
    unfolding queue_def u by (simp add: upt_conv_Cons map_Suc_upt [symmetric] N mod_simps ac_simps del: upt_Suc)
qed

text \<open>What the target does on a down channel keeps the stream of bytes.\<close>

definition stream :: "int \<Rightarrow> ring \<Rightarrow> int list" where
  "stream N r = rg_log r @ queue N r"

lemma takes_star:
  assumes "(takes N)\<^sup>*\<^sup>* r r'" and "ring_ok N r"
  shows "ring_ok N r' \<and> rg_wr r' = rg_wr r \<and> rg_buf r' = rg_buf r \<and> stream N r' = stream N r \<and> used N r' \<le> used N r"
  using assms
proof induction
  case (step r1 r2)
  from step.hyps(2) step.IH [OF step.prems] show ?case
    by (cases, use queue_take [of N r1] in \<open>auto simp: stream_def ring_ok_def\<close>)
qed simp

lemma nth_queue: "i < nat (used N r) \<Longrightarrow> queue N r ! i = rg_buf r ((rg_rd r + int i) mod N)"
  by (simp add: queue_def)

lemma length_queue [simp]: "length (queue N r) = nat (used N r)"
  by (simp add: queue_def)

lemma cell_free:
  assumes "ring_ok N r" and "0 \<le> k" and "used N r + k < N" and "0 \<le> i" and "i < used N r"
  shows "(rg_rd r + i) mod N \<noteq> (rg_wr r + k) mod N"
proof
  assume "(rg_rd r + i) mod N = (rg_wr r + k) mod N"
  then have "N dvd (rg_wr r + k) - (rg_rd r + i)" by (metis mod_eq_dvd_iff)
  moreover have "N dvd (rg_wr r - rg_rd r) - used N r" unfolding used_def by (rule dvd_minus_mod)
  ultimately have "N dvd ((rg_wr r + k) - (rg_rd r + i)) - ((rg_wr r - rg_rd r) - used N r)" by (rule dvd_diff)
  then have "N dvd used N r + k - i" by (simp add: algebra_simps)
  then show False using zdvd_not_zless [of "used N r + k - i" N] assms by simp
qed

lemma cell_wr: "ring_ok N r \<Longrightarrow> (rg_rd r + used N r) mod N = rg_wr r"
  by (simp add: used_def mod_simps ring_ok_def)

lemma queue_write_free:
  assumes "ring_ok N r" and "0 \<le> k" and "used N r + k < N"
  shows "queue N (r\<lparr>rg_buf := (rg_buf r)((rg_wr r + k) mod N := b)\<rparr>) = queue N r"
  using cell_free [OF assms] by (auto simp: queue_def used_def)

text \<open>Data in the cells behind the write offset, then the offset moved past it.\<close>

lemma queue_extend:
  assumes r: "ring_ok N r" and fit: "used N r + int (length bs) < N"
    and cells: "\<And>i. i < length bs \<Longrightarrow> rg_buf r ((rg_wr r + int i) mod N) = bs ! i"
  defines "r' \<equiv> r\<lparr>rg_wr := (rg_wr r + int (length bs)) mod N\<rparr>"
  shows "queue N r' = queue N r @ bs" and "used N r' = used N r + int (length bs)" and "ring_ok N r'"
proof -
  have N: "0 < N" using r by (auto simp: ring_ok_def)
  have "used N r' = (used N r + int (length bs)) mod N" by (simp add: r'_def used_def mod_simps algebra_simps)
  then show u: "used N r' = used N r + int (length bs)" using fit used_bounds [OF r] by simp
  show "ring_ok N r'" using r N by (simp add: r'_def ring_ok_def)
  have nat: "nat (used N r + int (length bs)) = nat (used N r) + length bs" using used_bounds [OF r] by (simp add: nat_add_distrib)
  show "queue N r' = queue N r @ bs"
  proof (rule nth_equalityI)
    fix i assume "i < length (queue N r')"
    then have i: "i < nat (used N r) + length bs" using u nat by simp
    then have "i < nat (used N r')" using u nat by simp
    then have q': "queue N r' ! i = rg_buf r ((rg_rd r + int i) mod N)" by (simp add: nth_queue) (simp add: r'_def)
    show "queue N r' ! i = (queue N r @ bs) ! i"
    proof (cases "i < nat (used N r)")
      case True
      then show ?thesis using q' by (simp add: nth_append nth_queue)
    next
      case False
      then have d: "int i = used N r + int (i - nat (used N r))" using used_bounds [OF r] by simp
      have "(rg_rd r + int i) mod N = (rg_wr r + int (i - nat (used N r))) mod N"
        unfolding d cell_wr [OF r, symmetric] by (simp add: mod_simps ac_simps)
      then show ?thesis using q' cells [of "i - nat (used N r)"] False i by (simp add: nth_append)
    qed
  qed (simp add: u nat)
qed

lemma queue_put:
  assumes r: "ring_ok N r" and room: "(rg_wr r + 1) mod N \<noteq> rg_rd r"
    and r': "r' = r\<lparr>rg_buf := (rg_buf r)(rg_wr r := b), rg_wr := (rg_wr r + 1) mod N, rg_log := l\<rparr>"
  shows "queue N r' = queue N r @ [b]" and "used N r' = used N r + 1" and "ring_ok N r'"
proof -
  let ?r = "r\<lparr>rg_buf := (rg_buf r)(rg_wr r := b), rg_log := l\<rparr>"
  have wr: "rg_wr r mod N = rg_wr r" and rd: "rg_rd r mod N = rg_rd r" using r by (simp_all add: ring_ok_def)
  have "(rg_rd r + used N r + 1) mod N = (rg_wr r + 1) mod N" using cell_wr [OF r] by (metis mod_add_left_eq)
  moreover have "(rg_rd r + used N r + 1) mod N = rg_rd r" if "used N r + 1 = N"
    using that rd by (metis add.assoc mod_add_self2)
  ultimately have "used N r + 1 \<noteq> N" using room by auto
  then have fit: "used N r + 1 < N" using used_bounds [OF r] by simp
  have q: "queue N ?r = queue N r" using queue_write_free [OF r, of 0 b] fit wr by (simp add: queue_def used_def)
  have u: "used N ?r = used N r" and ok: "ring_ok N ?r" using r by (simp_all add: used_def ring_ok_def)
  have r'_eq: "r' = ?r\<lparr>rg_wr := (rg_wr r + 1) mod N\<rparr>" unfolding r' by (cases r) simp
  note ext = queue_extend [OF ok, of "[b]", unfolded u]
  show "queue N r' = queue N r @ [b]" "used N r' = used N r + 1" "ring_ok N r'"
    using ext fit wr q unfolding r'_eq by simp_all
qed

lemma puts_star:
  assumes "(puts N)\<^sup>*\<^sup>* r r'" and "ring_ok N r"
  shows "ring_ok N r' \<and> rg_rd r' = rg_rd r \<and> (\<exists>new. queue N r' = queue N r @ new \<and> rg_log r' = rg_log r @ new)"
  using assms
proof induction
  case (step r1 r2)
  from step.hyps(2) step.IH [OF step.prems] show ?case
    by (cases, use queue_put [of N r1, OF _ _ refl] in auto)
qed simp

lemma reads_nth: "reads env r j bs r' \<Longrightarrow> env\<^sup>*\<^sup>* r r' \<and> (\<forall>i < length bs. \<exists>r1. env\<^sup>*\<^sup>* r r1 \<and> bs ! i = rg_buf r1 (j + int i))"
proof (induction bs arbitrary: r j)
  case (Cons b bs)
  then obtain r1 where r1: "env\<^sup>*\<^sup>* r r1" "b = rg_buf r1 j" "reads env r1 (j + 1) bs r'" by auto
  have IH: "env\<^sup>*\<^sup>* r1 r'" "\<And>i. i < length bs \<Longrightarrow> \<exists>r2. env\<^sup>*\<^sup>* r1 r2 \<and> bs ! i = rg_buf r2 (j + 1 + int i)"
    using Cons.IH [OF r1(3)] by auto
  show ?case
  proof (intro conjI allI impI)
    show "env\<^sup>*\<^sup>* r r'" using r1(1) IH(1) by (rule rtranclp_trans)
    fix i assume i: "i < length (b # bs)"
    show "\<exists>r1. env\<^sup>*\<^sup>* r r1 \<and> (b # bs) ! i = rg_buf r1 (j + int i)"
    proof (cases i)
      case 0
      then show ?thesis using r1 by auto
    next
      case (Suc k)
      then obtain r2 where "env\<^sup>*\<^sup>* r1 r2" "bs ! k = rg_buf r2 (j + 1 + int k)" using IH(2) i by auto
      then show ?thesis using r1(1) Suc by (intro exI [of _ r2]) (auto simp: ac_simps)
    qed
  qed
qed simp

text \<open>On an up channel the host reads what is in the queue, although the target goes on.\<close>

lemma reads_up:
  assumes reads: "reads (puts N) r j bs r'" and r: "ring_ok N r"
    and j: "0 \<le> k" "j = (rg_rd r + k) mod N" "j + int (length bs) \<le> N" "k + int (length bs) \<le> used N r"
  shows "(puts N)\<^sup>*\<^sup>* r r'" and "bs = take (length bs) (drop (nat k) (queue N r))"
proof -
  show "(puts N)\<^sup>*\<^sup>* r r'" using reads_nth [OF reads] by simp
  show "bs = take (length bs) (drop (nat k) (queue N r))"
  proof (rule nth_equalityI)
    show "length bs = length (take (length bs) (drop (nat k) (queue N r)))" using j by simp
    fix i assume i: "i < length bs"
    then obtain r1 where r1: "(puts N)\<^sup>*\<^sup>* r r1" "bs ! i = rg_buf r1 (j + int i)" using reads_nth [OF reads] by auto
    then have q: "rg_rd r1 = rg_rd r" "ring_ok N r1" "\<exists>new. queue N r1 = queue N r @ new" using puts_star [OF r1(1) r] by auto
    then obtain new where new: "queue N r1 = queue N r @ new" by blast
    have len: "nat k + i < length (queue N r)" using i j by simp
    then have len1: "nat k + i < nat (used N r1)" using new by (metis length_queue length_append trans_less_add1)
    have "j + int i = (rg_rd r + k + int i) mod N"
    proof -
      have "0 \<le> j + int i" "j + int i < N" using i j(3) r unfolding j(2) by (auto simp: ring_ok_def)
      then have "j + int i = (j + int i) mod N" by simp
      then show ?thesis unfolding j(2) by (metis mod_add_left_eq)
    qed
    then have "bs ! i = queue N r1 ! (nat k + i)" using r1(2) nth_queue [OF len1] q(1) j(1) by (simp add: ac_simps)
    then show "bs ! i = take (length bs) (drop (nat k) (queue N r)) ! i" using len i new by (simp add: nth_append)
  qed
qed

text \<open>On a down channel the host writes cells that the target does not look at.\<close>

lemma writes_down:
  assumes "writes (takes N) r j bs r'" and "ring_ok N r"
    and "0 \<le> k" "j = (rg_wr r + k) mod N" "j + int (length bs) \<le> N" "used N r + k + int (length bs) < N"
  shows "ring_ok N r' \<and> rg_wr r' = rg_wr r \<and> stream N r' = stream N r \<and> used N r' \<le> used N r
    \<and> rg_buf r' = (\<lambda>x. if j \<le> x \<and> x < j + int (length bs) then bs ! nat (x - j) else rg_buf r x)"
  using assms
proof (induction bs arbitrary: r j k)
  case Nil
  then show ?case using takes_star [of N r r'] by auto
next
  case (Cons b bs)
  then obtain r1 where r1: "(takes N)\<^sup>*\<^sup>* r r1" "writes (takes N) (r1\<lparr>rg_buf := (rg_buf r1)(j := b)\<rparr>) (j + 1) bs r'" by auto
  let ?r1 = "r1\<lparr>rg_buf := (rg_buf r1)(j := b)\<rparr>"
  have k: "ring_ok N r1" "rg_wr r1 = rg_wr r" "rg_buf r1 = rg_buf r" "stream N r1 = stream N r" "used N r1 \<le> used N r"
    using takes_star [OF r1(1) Cons.prems(2)] by auto
  have q: "queue N ?r1 = queue N r1" using queue_write_free [OF k(1) Cons.prems(3), of b] Cons.prems(4,6) k(2,5) by simp
  have ok: "ring_ok N ?r1" "used N ?r1 = used N r1" "stream N ?r1 = stream N r1" using k(1) q by (auto simp: ring_ok_def used_def stream_def)
  have bounds: "0 < N" "0 \<le> j" using Cons.prems(2,4) by (auto simp: ring_ok_def)
  show ?case
  proof (cases bs)
    case Nil
    then have "(takes N)\<^sup>*\<^sup>* ?r1 r'" using r1(2) by simp
    then have *: "ring_ok N r'" "rg_wr r' = rg_wr ?r1" "rg_buf r' = rg_buf ?r1" "stream N r' = stream N ?r1" "used N r' \<le> used N ?r1"
      using takes_star [OF _ ok(1), of r'] by simp_all
    have "rg_buf r' = (\<lambda>x. if j \<le> x \<and> x < j + int (length (b # bs)) then (b # bs) ! nat (x - j) else rg_buf r x)"
      unfolding *(3) Nil by (rule ext) (simp add: k(3))
    then show ?thesis using *(1,2,4,5) k ok by (intro conjI) simp_all
  next
    case (Cons c cs)
    have j: "j + 1 = (rg_wr r + (k + 1)) mod N"
    proof -
      have "(j + 1) mod N = j + 1" using Cons Cons.prems(5) bounds by simp
      then show ?thesis unfolding Cons.prems(4) by (metis add.assoc mod_add_left_eq)
    qed
    have *: "ring_ok N r' \<and> rg_wr r' = rg_wr ?r1 \<and> stream N r' = stream N ?r1 \<and> used N r' \<le> used N ?r1
      \<and> rg_buf r' = (\<lambda>x. if j + 1 \<le> x \<and> x < j + 1 + int (length bs) then bs ! nat (x - (j + 1)) else rg_buf ?r1 x)"
      by (rule Cons.IH [OF r1(2) ok(1), of "k + 1"]) (use Cons.prems(3,5,6) j k ok in auto)
    have nth: "(b # bs) ! nat (x - j) = (if x = j then b else bs ! nat (x - (j + 1)))" if "j \<le> x" for x
    proof (cases "x = j")
      case False
      then have "nat (x - j) = Suc (nat (x - (j + 1)))" using that by simp
      then show ?thesis using False by simp
    qed simp
    have "rg_buf r' x = (if j \<le> x \<and> x < j + int (length (b # bs)) then (b # bs) ! nat (x - j) else rg_buf r x)" for x
    proof (cases "x = j")
      case True
      then show ?thesis using * nth [of x] by simp
    next
      case False
      then show ?thesis using * nth [of x] k(3) by (simp split: if_split)
    qed
    then have "rg_buf r' = (\<lambda>x. if j \<le> x \<and> x < j + int (length (b # bs)) then (b # bs) ! nat (x - j) else rg_buf r x)" by blast
    moreover have "ring_ok N r'" "rg_wr r' = rg_wr r1" "stream N r' = stream N r1" "used N r' \<le> used N r1" using * ok by simp_all
    ultimately show ?thesis using k by (intro conjI) simp_all
  qed
qed

subsection \<open>Channels on a target that works at the same time\<close>

text \<open>
  What the channels rely on: each access of the host sees the ring between steps of the target, and no
  one else changes it.
\<close>

locale rtt_ring =
  fixes T :: "'t rtt_ops" and offs start_addr N :: int and view :: "'t \<Rightarrow> ring" and tinv :: "'t \<Rightarrow> bool"
    and env :: "ring \<Rightarrow> ring \<Rightarrow> bool" and terr :: "exn \<Rightarrow> bool"
  assumes offsets_law: "tinv t \<Longrightarrow> wp (ro_read_block32 T offs 2)
      (\<lambda>ws t'. tinv t' \<and> (\<exists>r. env\<^sup>*\<^sup>* (view t) r \<and> env\<^sup>*\<^sup>* r (view t') \<and> ws = [rg_wr r, rg_rd r])) (\<lambda>e _. terr e) t"
    and read_law: "tinv t \<Longrightarrow> 0 \<le> i \<Longrightarrow> 0 \<le> n \<Longrightarrow> i + n \<le> N \<Longrightarrow> wp (ro_read_block8 T (start_addr + i) n)
      (\<lambda>bs t'. tinv t' \<and> int (length bs) = n \<and> reads env (view t) i bs (view t')) (\<lambda>e _. terr e) t"
    and write_law: "tinv t \<Longrightarrow> 0 \<le> i \<Longrightarrow> i + int (length bs) \<le> N \<Longrightarrow> wp (ro_write_block8 T (start_addr + i) bs)
      (\<lambda>_ t'. tinv t' \<and> writes env (view t) i bs (view t')) (\<lambda>e _. terr e) t"
    and store_wr_law: "tinv t \<Longrightarrow> 0 \<le> v \<Longrightarrow> v < N \<Longrightarrow> wp (ro_write32 T offs v)
      (\<lambda>_ t'. tinv t' \<and> (\<exists>r. env\<^sup>*\<^sup>* (view t) r \<and> env\<^sup>*\<^sup>* (r\<lparr>rg_wr := v\<rparr>) (view t'))) (\<lambda>e _. terr e) t"
    and store_rd_law: "tinv t \<Longrightarrow> 0 \<le> v \<Longrightarrow> v < N \<Longrightarrow> wp (ro_write32 T (offs + 4) v)
      (\<lambda>_ t'. tinv t' \<and> (\<exists>r. env\<^sup>*\<^sup>* (view t) r \<and> env\<^sup>*\<^sup>* (r\<lparr>rg_rd := v\<rparr>) (view t'))) (\<lambda>e _. terr e) t"

text \<open>The channel is the one whose ring the locale describes.\<close>

definition channel_on :: "int \<Rightarrow> int \<Rightarrow> int \<Rightarrow> rtt_channel \<Rightarrow> bool" where
  "channel_on offs start_addr N ch \<longleftrightarrow> rc_offsets_addr ch = offs \<and> rc_buffer_address ch = start_addr \<and> rc_size ch = N
     \<and> start_addr \<noteq> 0 \<and> N \<noteq> 0"

lemma wp_True: "wp m (\<lambda>_ _. True) (\<lambda>_ _. True) s"
  by (simp add: wp_def split: prod.splits sum.splits)

lemma wp_on_rtt_target:
  "wp (on_rtt_target m) Q E s = wp m (\<lambda>x t. Q x (s\<lparr>rt_target := t\<rparr>)) (\<lambda>e t. E e (s\<lparr>rt_target := t\<rparr>)) (rt_target s)"
  by (auto simp: wp_def on_rtt_target_def split: prod.splits sum.splits)

lemma wp_populate: "channel_on offs start_addr N (rt_channel s) \<Longrightarrow> wp (populate T d) Q E s = Q True s"
  by (simp add: populate_def unpopulated_def channel_on_def)

context rtt_ring
begin

abbreviation ready :: "'t rtt \<Rightarrow> bool" where
  "ready s \<equiv> channel_on offs start_addr N (rt_channel s) \<and> tinv (rt_target s)"

lemma get_offsets_wp:
  assumes s: "ready s" and ok: "\<And>r. env\<^sup>*\<^sup>* (view (rt_target s)) r \<Longrightarrow> ring_ok N r"
    and P: "wp (ro_read_block32 T offs 2) (\<lambda>ws _. P ws) (\<lambda>_ _. True) (rt_target s)"
  shows "wp (get_offsets T) (\<lambda>x s'. \<exists>r. env\<^sup>*\<^sup>* (view (rt_target s)) r \<and> env\<^sup>*\<^sup>* r (view (rt_target s')) \<and> x = (rg_wr r, rg_rd r)
      \<and> P [rg_wr r, rg_rd r] \<and> ready s' \<and> rt_channel s' = rt_channel s) (\<lambda>e _. terr e) s"
proof -
  have offs: "rc_offsets_addr (rt_channel s) = offs" "rc_size (rt_channel s) = N" using s by (simp_all add: channel_on_def)
  have t: "tinv (rt_target s)" using s by simp
  show ?thesis unfolding get_offsets_def wp_bind wp_get_state wp_on_rtt_target offs
  proof (rule wp_mono [OF wp_conj [OF offsets_law [OF t] P]])
    fix ws t' assume "(tinv t' \<and> (\<exists>r. env\<^sup>*\<^sup>* (view (rt_target s)) r \<and> env\<^sup>*\<^sup>* r (view t') \<and> ws = [rg_wr r, rg_rd r])) \<and> P ws"
    then obtain r where r: "P [rg_wr r, rg_rd r]" "tinv t'" "env\<^sup>*\<^sup>* (view (rt_target s)) r" "env\<^sup>*\<^sup>* r (view t')" "ws = [rg_wr r, rg_rd r]" by blast
    have "rg_wr r < N" "rg_rd r < N" using ok [OF r(3)] by (simp_all add: ring_ok_def)
    then show "wp (case ws of [] \<Rightarrow> raise ValueError | [w] \<Rightarrow> raise ValueError
        | [w, rd] \<Rightarrow> if N \<le> w \<or> N \<le> rd then raise RTTError else ret (w, rd) | w # rd # x # xs \<Rightarrow> raise ValueError)
      (\<lambda>x s'. \<exists>r. env\<^sup>*\<^sup>* (view (rt_target s)) r \<and> env\<^sup>*\<^sup>* r (view (rt_target s')) \<and> x = (rg_wr r, rg_rd r)
        \<and> P [rg_wr r, rg_rd r] \<and> ready s' \<and> rt_channel s' = rt_channel s) (\<lambda>e _. terr e) (s\<lparr>rt_target := t'\<rparr>)"
      using r s by (auto simp del: ring.simps)
  qed simp
qed

end

subsubsection \<open>Reading an up channel\<close>

lemma queue_split:
  assumes "ring_ok N r"
  shows "rg_rd r \<le> rg_wr r \<Longrightarrow> used N r = rg_wr r - rg_rd r"
    and "rg_wr r < rg_rd r \<Longrightarrow> used N r = (N - rg_rd r) + rg_wr r"
  using used_cases [OF assms] by auto

lemma puts_queue: "(puts N)\<^sup>*\<^sup>* r r' \<Longrightarrow> ring_ok N r \<Longrightarrow> \<exists>new. queue N r' = queue N r @ new"
  using puts_star by blast

text \<open>The read offset moved to where the host read: exactly that much leaves the queue.\<close>

lemma queue_drop:
  assumes r: "ring_ok N r" and n: "n \<le> nat (used N r)"
  shows "queue N (r\<lparr>rg_rd := (rg_rd r + int n) mod N\<rparr>) = drop n (queue N r)" and "ring_ok N (r\<lparr>rg_rd := (rg_rd r + int n) mod N\<rparr>)"
proof -
  let ?r = "r\<lparr>rg_rd := (rg_rd r + int n) mod N\<rparr>"
  have N: "0 < N" using r by (auto simp: ring_ok_def)
  show "ring_ok N ?r" using r N by (simp add: ring_ok_def)
  have "used N ?r = (used N r - int n) mod N" by (simp add: used_def mod_simps algebra_simps)
  moreover have "0 \<le> used N r - int n" "used N r - int n < N" using used_bounds [OF r] n by linarith+
  ultimately have u: "used N ?r = used N r - int n" by simp
  show "queue N ?r = drop n (queue N r)"
  proof (rule nth_equalityI)
    show "length (queue N ?r) = length (drop n (queue N r))" using u n by (simp add: nat_diff_distrib)
    fix i assume "i < length (queue N ?r)"
    then have "i < nat (used N ?r)" "n + i < nat (used N r)" using u n by auto
    then show "queue N ?r ! i = drop n (queue N r) ! i" by (simp add: nth_queue mod_simps ac_simps)
  qed
qed

locale rtt_up = rtt_ring T offs start_addr N view tinv "puts N" terr
  for T :: "'t rtt_ops" and offs start_addr N view tinv terr
begin

lemma fetch_wp:
  assumes s: "ready s" and r: "ring_ok N r" "(puts N)\<^sup>*\<^sup>* r (view (rt_target s))"
    and i: "0 \<le> k" "0 \<le> n" "i = (rg_rd r + k) mod N" "i + n \<le> N" "k + n \<le> used N r"
  shows "wp (on_rtt_target (ro_read_block8 T (start_addr + i) n))
    (\<lambda>d s'. d = take (nat n) (drop (nat k) (queue N r)) \<and> (puts N)\<^sup>*\<^sup>* r (view (rt_target s')) \<and> ready s' \<and> rt_channel s' = rt_channel s)
    (\<lambda>e _. terr e) s"
proof -
  let ?v = "view (rt_target s)"
  obtain new where v: "ring_ok N ?v" "rg_rd ?v = rg_rd r" "queue N ?v = queue N r @ new" using puts_star [OF r(2,1)] by blast
  have "length (queue N r) \<le> length (queue N ?v)" using v(3) by simp
  then have u: "used N r \<le> used N ?v" using used_bounds [OF v(1)] used_bounds [OF r(1)] by (simp add: nat_le_eq_zle)
  have t: "tinv (rt_target s)" and i0: "0 \<le> i" using s r i by (auto simp: ring_ok_def)
  show ?thesis unfolding wp_on_rtt_target
  proof (rule wp_mono [OF read_law [OF t i0 i(2,4)]])
    fix bs t' assume a: "tinv t' \<and> int (length bs) = n \<and> reads (puts N) ?v i bs (view t')"
    have up: "(puts N)\<^sup>*\<^sup>* ?v (view t')" "bs = take (length bs) (drop (nat k) (queue N ?v))"
      using reads_up [of N ?v i bs "view t'" k] a v i u by auto
    have "nat k + nat n \<le> length (queue N r)" using i by simp
    then have "bs = take (nat n) (drop (nat k) (queue N r))" using up(2) a v(3) by (metis nat_int take_append drop_append append_take_drop_id add_leD1 diff_is_0_eq length_drop le_diff_conv2 add.commute drop_0 take_0 append_Nil2)
    then show "bs = take (nat n) (drop (nat k) (queue N r)) \<and> (puts N)\<^sup>*\<^sup>* r (view (rt_target (s\<lparr>rt_target := t'\<rparr>)))
       \<and> ready (s\<lparr>rt_target := t'\<rparr>) \<and> rt_channel (s\<lparr>rt_target := t'\<rparr>) = rt_channel s"
      using a s rtranclp_trans [OF r(2) up(1)] by simp
  qed
qed

text \<open>The bytes of the queue as it was when the offsets were read.\<close>

lemma drain_wp:
  assumes s: "ready s" and r: "ring_ok N r" "(puts N)\<^sup>*\<^sup>* r (view (rt_target s))" and ne: "rg_wr r \<noteq> rg_rd r"
  shows "wp (if rg_wr r > rg_rd r
       then on_rtt_target (ro_read_block8 T (start_addr + rg_rd r) (rg_wr r - rg_rd r))
       else bind (on_rtt_target (ro_read_block8 T (start_addr + rg_rd r) (N - rg_rd r))) (\<lambda>d1.
            bind (on_rtt_target (ro_read_block8 T start_addr (rg_wr r))) (\<lambda>d2. ret (d1 @ d2))))
    (\<lambda>d s'. d = queue N r \<and> (puts N)\<^sup>*\<^sup>* r (view (rt_target s')) \<and> ready s' \<and> rt_channel s' = rt_channel s) (\<lambda>e _. terr e) s"
proof (cases "rg_wr r > rg_rd r")
  case True
  then have u: "used N r = rg_wr r - rg_rd r" using queue_split(1) [OF r(1)] by simp
  have "wp (on_rtt_target (ro_read_block8 T (start_addr + rg_rd r) (rg_wr r - rg_rd r)))
    (\<lambda>d s'. d = take (nat (rg_wr r - rg_rd r)) (drop (nat 0) (queue N r)) \<and> (puts N)\<^sup>*\<^sup>* r (view (rt_target s')) \<and> ready s' \<and> rt_channel s' = rt_channel s)
    (\<lambda>e _. terr e) s"
    by (rule fetch_wp [OF s r]) (use True u r(1) in \<open>auto simp: ring_ok_def\<close>)
  then show ?thesis unfolding if_P [OF True] by (rule wp_mono) (use u in auto)
next
  case False
  then have lt: "rg_wr r < rg_rd r" using ne by simp
  have u: "used N r = (N - rg_rd r) + rg_wr r" using queue_split(2) [OF r(1) lt] .
  have N: "0 \<le> rg_wr r" "rg_rd r < N" "0 \<le> rg_rd r" using r(1) by (auto simp: ring_ok_def)
  have second: "wp (on_rtt_target (ro_read_block8 T (start_addr + 0) (rg_wr r)))
    (\<lambda>d s'. d = take (nat (rg_wr r)) (drop (nat (N - rg_rd r)) (queue N r)) \<and> (puts N)\<^sup>*\<^sup>* r (view (rt_target s')) \<and> ready s' \<and> rt_channel s' = rt_channel s1)
    (\<lambda>e _. terr e) s1" if "ready s1" "(puts N)\<^sup>*\<^sup>* r (view (rt_target s1))" for s1
    by (rule fetch_wp [OF that(1) r(1) that(2)]) (use N lt u in auto)
  have first: "wp (on_rtt_target (ro_read_block8 T (start_addr + rg_rd r) (N - rg_rd r)))
    (\<lambda>d s'. d = take (nat (N - rg_rd r)) (drop (nat 0) (queue N r)) \<and> (puts N)\<^sup>*\<^sup>* r (view (rt_target s')) \<and> ready s' \<and> rt_channel s' = rt_channel s)
    (\<lambda>e _. terr e) s"
    by (rule fetch_wp [OF s r]) (use N lt u in auto)
  have whole: "take (nat (N - rg_rd r)) (queue N r) @ take (nat (rg_wr r)) (drop (nat (N - rg_rd r)) (queue N r)) = queue N r"
    using u N by (simp add: nat_add_distrib)
  have "wp (on_rtt_target (ro_read_block8 T (start_addr + rg_rd r) (N - rg_rd r)))
    (\<lambda>d1. wp (on_rtt_target (ro_read_block8 T start_addr (rg_wr r)))
      (\<lambda>d2 s'. d1 @ d2 = queue N r \<and> (puts N)\<^sup>*\<^sup>* r (view (rt_target s')) \<and> ready s' \<and> rt_channel s' = rt_channel s) (\<lambda>e _. terr e)) (\<lambda>e _. terr e) s"
  proof (rule wp_mono [OF first])
    fix d1 s1 assume a: "d1 = take (nat (N - rg_rd r)) (drop (nat 0) (queue N r)) \<and> (puts N)\<^sup>*\<^sup>* r (view (rt_target s1)) \<and> ready s1 \<and> rt_channel s1 = rt_channel s"
    show "wp (on_rtt_target (ro_read_block8 T start_addr (rg_wr r)))
      (\<lambda>d2 s'. d1 @ d2 = queue N r \<and> (puts N)\<^sup>*\<^sup>* r (view (rt_target s')) \<and> ready s' \<and> rt_channel s' = rt_channel s) (\<lambda>e _. terr e) s1"
      by (rule wp_mono [OF second [of s1, unfolded add_0_right]]) (use a whole in auto)
  qed
  then show ?thesis using False by simp
qed

lemma up_read_wp:
  assumes s: "ready s" "ring_ok N (view (rt_target s))"
    and log: "rg_log (view (rt_target s)) = before @ queue N (view (rt_target s))"
  shows "wp (up_read T) (\<lambda>data s'. rt_channel s' = rt_channel s \<and> tinv (rt_target s') \<and> ring_ok N (view (rt_target s'))
      \<and> rg_log (view (rt_target s')) = before @ data @ queue N (view (rt_target s'))
      \<and> (\<exists>new. data = queue N (view (rt_target s)) @ new)) (\<lambda>e _. terr e) s" (is "wp _ ?Q ?E s")
proof -
  let ?v = "view (rt_target s)"
  have later: "ring_ok N r \<and> rg_rd r = rg_rd ?v \<and> rg_log r = before @ queue N r \<and> (\<exists>new. queue N r = queue N ?v @ new)"
    if "(puts N)\<^sup>*\<^sup>* ?v r" for r
    using puts_star [OF that s(2)] log by auto
  have store: "wp (on_rtt_target (ro_write32 T (offs + 4) (rg_wr r))) (\<lambda>_ s'. ?Q (queue N r) s') ?E s1"
    if r: "(puts N)\<^sup>*\<^sup>* ?v r" and s1: "ready s1" "(puts N)\<^sup>*\<^sup>* r (view (rt_target s1))" "rt_channel s1 = rt_channel s" for r s1
  proof -
    have ok: "ring_ok N r" using later [OF r] by simp
    then have w: "0 \<le> rg_wr r" "rg_wr r < N" by (simp_all add: ring_ok_def)
    have t: "tinv (rt_target s1)" using s1(1) by simp
    show ?thesis unfolding wp_on_rtt_target
    proof (rule wp_mono [OF store_rd_law [OF t w]])
      fix u t' assume "tinv t' \<and> (\<exists>r2. (puts N)\<^sup>*\<^sup>* (view (rt_target s1)) r2 \<and> (puts N)\<^sup>*\<^sup>* (r2\<lparr>rg_rd := rg_wr r\<rparr>) (view t'))"
      then obtain r2 where t': "tinv t'" and r2: "(puts N)\<^sup>*\<^sup>* (view (rt_target s1)) r2" "(puts N)\<^sup>*\<^sup>* (r2\<lparr>rg_rd := rg_wr r\<rparr>) (view t')" by blast
      have to2: "(puts N)\<^sup>*\<^sup>* r r2" by (rule rtranclp_trans [OF s1(2) r2(1)])
      have l2: "ring_ok N r2" "rg_log r2 = before @ queue N r2" using later [OF rtranclp_trans [OF r to2]] by auto
      obtain new where q2: "rg_rd r2 = rg_rd r" "queue N r2 = queue N r @ new" using puts_star [OF to2 ok] by auto
      have "length (queue N r) \<le> length (queue N r2)" using q2(2) by simp
      then have n: "nat (used N r) \<le> nat (used N r2)" by simp
      have "(rg_rd r2 + int (nat (used N r))) mod N = rg_wr r" using cell_wr [OF ok] q2(1) used_bounds [OF ok] by simp
      then have d: "queue N (r2\<lparr>rg_rd := rg_wr r\<rparr>) = new" "ring_ok N (r2\<lparr>rg_rd := rg_wr r\<rparr>)"
        using queue_drop [OF l2(1) n] q2(2) by simp_all
      obtain more where m: "ring_ok N (view t')" "queue N (view t') = new @ more" "rg_log (view t') = rg_log r2 @ more"
        using puts_star [OF r2(2) d(2)] d(1) by auto
      show "?Q (queue N r) (s1\<lparr>rt_target := t'\<rparr>)" using m t' s1(3) l2(2) q2(2) later [OF r] by simp
    qed
  qed
  have rest: "wp (bind get_state (\<lambda>s. let ch = rt_channel s in
           if rg_wr r = rg_rd r then ret []
           else
             bind (if rg_wr r > rg_rd r
                   then on_rtt_target (ro_read_block8 T (rc_buffer_address ch + rg_rd r) (rg_wr r - rg_rd r))
                   else
                     bind (on_rtt_target (ro_read_block8 T (rc_buffer_address ch + rg_rd r) (rc_size ch - rg_rd r))) (\<lambda>d1.
                     bind (on_rtt_target (ro_read_block8 T (rc_buffer_address ch) (rg_wr r))) (\<lambda>d2. ret (d1 @ d2)))) (\<lambda>data.
             bind (on_rtt_target (ro_write32 T (rc_offsets_addr ch + 4) (rg_wr r))) (\<lambda>_. ret data)))) ?Q ?E s1"
    if r: "(puts N)\<^sup>*\<^sup>* ?v r" and s1: "ready s1" "(puts N)\<^sup>*\<^sup>* r (view (rt_target s1))" "rt_channel s1 = rt_channel s" for r s1
  proof (cases "rg_wr r = rg_rd r")
    case True
    then have "queue N r = []" by (simp add: queue_def used_def)
    then have "queue N ?v = []" using later [OF r] by auto
    then show ?thesis using True s1 later [OF rtranclp_trans [OF r s1(2)]] by simp
  next
    case False
    have ch: "rc_buffer_address (rt_channel s1) = start_addr" "rc_size (rt_channel s1) = N" "rc_offsets_addr (rt_channel s1) = offs"
      using s1(1) by (simp_all add: channel_on_def)
    have ok: "ring_ok N r" using later [OF r] by simp
    note w = wp_mono [OF drain_wp [OF s1(1) ok s1(2) False]]
    show ?thesis unfolding wp_bind wp_get_state Let_def ch if_not_P [OF False] wp_ret
    proof (rule w [unfolded wp_bind], goal_cases)
      case (1 d s2)
      then have d: "d = queue N r" "(puts N)\<^sup>*\<^sup>* r (view (rt_target s2))" "ready s2" "rt_channel s2 = rt_channel s" using False s1(3) by auto
      show ?case unfolding d(1) by (rule store [OF r d(3,2,4)])
    qed simp
  qed
  have "wp (get_offsets T) (\<lambda>x s1. \<exists>r. (puts N)\<^sup>*\<^sup>* ?v r \<and> (puts N)\<^sup>*\<^sup>* r (view (rt_target s1)) \<and> x = (rg_wr r, rg_rd r)
      \<and> ready s1 \<and> rt_channel s1 = rt_channel s) ?E s"
    using get_offsets_wp [OF s(1), where P = "\<lambda>_. True"] later by (simp add: wp_True)
  then show ?thesis
    unfolding up_read_def wp_bind wp_populate [OF conjunct1 [OF s(1)]] if_not_P [OF not_not [THEN iffD2, OF TrueI]] if_False not_True_eq_False
    by (rule wp_mono) (use rest in fastforce)+
qed

end

subsubsection \<open>Writing a down channel\<close>

lemma cells_distinct:
  assumes "0 \<le> i" "i < N" "0 \<le> k" "k < (N::int)" "(w + i) mod N = (w + k) mod N"
  shows "i = k"
proof -
  have "N dvd i - k" using assms(5) by (simp add: mod_eq_dvd_iff)
  then show ?thesis using assms(1-4) zdvd_not_zless [of "i - k" N] zdvd_not_zless [of "k - i" N]
    by (cases i k rule: linorder_cases) (auto simp: dvd_diff_commute)
qed

locale rtt_down = rtt_ring T offs start_addr N view tinv "takes N" terr
  for T :: "'t rtt_ops" and offs start_addr N view tinv terr
begin

text \<open>The bytes \<open>ds\<close> are behind the write offset that was read with the ring at \<open>r\<close>.\<close>

definition staged :: "int list \<Rightarrow> ring \<Rightarrow> rtt_channel \<Rightarrow> int list \<Rightarrow> 't rtt \<Rightarrow> bool" where
  "staged S r ch ds s \<longleftrightarrow> ready s \<and> rt_channel s = ch \<and> ring_ok N (view (rt_target s)) \<and> rg_wr (view (rt_target s)) = rg_wr r
     \<and> stream N (view (rt_target s)) = S \<and> used N (view (rt_target s)) \<le> used N r
     \<and> (\<forall>i < length ds. rg_buf (view (rt_target s)) ((rg_wr r + int i) mod N) = ds ! i)"

lemma stage_wp:
  assumes s: "staged S r ch ds s" and i: "i = (rg_wr r + int (length ds)) mod N" "i + int (length bs) \<le> N"
    and fit: "used N r + int (length ds) + int (length bs) < N \<or> bs = []"
  shows "wp (on_rtt_target (ro_write_block8 T (start_addr + i) bs)) (\<lambda>_. staged S r ch (ds @ bs)) (\<lambda>e _. terr e) s"
proof -
  let ?v = "view (rt_target s)"
  have v: "tinv (rt_target s)" "ring_ok N ?v" "rg_wr ?v = rg_wr r" "used N ?v \<le> used N r" "stream N ?v = S"
    using s by (simp_all add: staged_def)
  have N: "0 < N" "0 \<le> i" using v(2) i(1) by (auto simp: ring_ok_def)
  show ?thesis unfolding wp_on_rtt_target
  proof (rule wp_mono [OF write_law [OF v(1) N(2) i(2)]])
    fix u t' assume a: "tinv t' \<and> writes (takes N) ?v i bs (view t')"
    show "staged S r ch (ds @ bs) (s\<lparr>rt_target := t'\<rparr>)"
    proof (cases "bs = []")
      case True
      then show ?thesis using a s takes_star [of N ?v "view t'"] by (auto simp: staged_def)
    next
      case False
      then have fit: "used N r + int (length ds) + int (length bs) < N" using fit by simp
      have w: "ring_ok N (view t')" "rg_wr (view t') = rg_wr ?v" "stream N (view t') = stream N ?v" "used N (view t') \<le> used N ?v"
        "rg_buf (view t') = (\<lambda>x. if i \<le> x \<and> x < i + int (length bs) then bs ! nat (x - i) else rg_buf ?v x)"
        using writes_down [of N ?v i bs "view t'" "int (length ds)"] a v fit i by auto
      have "rg_buf (view t') ((rg_wr r + int m) mod N) = (ds @ bs) ! m" if m: "m < length (ds @ bs)" for m
      proof (cases "m < length ds")
        case True
        have "\<not> (i \<le> (rg_wr r + int m) mod N \<and> (rg_wr r + int m) mod N < i + int (length bs))"
        proof
          assume x: "i \<le> (rg_wr r + int m) mod N \<and> (rg_wr r + int m) mod N < i + int (length bs)"
          define k where "k = (rg_wr r + int m) mod N - i"
          have k: "0 \<le> k" "k < int (length bs)" "i + k < N" "i + k = (rg_wr r + int m) mod N" using x i(2) by (simp_all add: k_def)
          have "(rg_wr r + int m) mod N = (rg_wr r + (int (length ds) + k)) mod N"
            using k(3,4) k(1) N i(1) by (metis add.assoc mod_add_left_eq mod_mod_trivial)
          then have "int m = int (length ds) + k" by (rule cells_distinct [rotated 4]) (use k True fit used_bounds [OF v(2)] v(4) in auto)
          then show False using True k by simp
        qed
        then show ?thesis using True s w(5) by (auto simp: staged_def nth_append)
      next
        case False
        then have k: "int m = int (length ds) + int (m - length ds)" by simp
        have less: "m - length ds < length bs" using m False by simp
        then have lt: "i + int (m - length ds) < N" using i(2) by simp
        have "(rg_wr r + int m) mod N = (i + int (m - length ds)) mod N" unfolding k i(1) by (simp add: mod_simps ac_simps)
        then have "(rg_wr r + int m) mod N = i + int (m - length ds)" using lt N by simp
        then have "rg_buf (view t') ((rg_wr r + int m) mod N) = bs ! nat (int (m - length ds))"
          using less m w(5) by (simp del: nat_int of_nat_diff)
        then show ?thesis using False by (simp only: nth_append nat_int if_False)
      qed
      then show ?thesis using w v a s by (auto simp: staged_def)
    qed
  qed simp
qed

lemma publish_wp:
  assumes s: "staged S r ch ds s" and v: "v = (rg_wr r + int (length ds)) mod N" and fit: "used N r + int (length ds) < N"
  shows "wp (on_rtt_target (ro_write32 T offs v)) (\<lambda>_. staged (S @ ds) (r\<lparr>rg_wr := v\<rparr>) ch []) (\<lambda>e _. terr e) s"
proof -
  let ?v = "view (rt_target s)"
  have w: "tinv (rt_target s)" "ring_ok N ?v" using s by (simp_all add: staged_def)
  have v0: "0 \<le> v" "v < N" using w(2) v by (auto simp: ring_ok_def)
  show ?thesis unfolding wp_on_rtt_target
  proof (rule wp_mono [OF store_wr_law [OF w(1) v0]])
    fix u t' assume "tinv t' \<and> (\<exists>r. (takes N)\<^sup>*\<^sup>* ?v r \<and> (takes N)\<^sup>*\<^sup>* (r\<lparr>rg_wr := v\<rparr>) (view t'))"
    then obtain r1 where t': "tinv t'" and r1: "(takes N)\<^sup>*\<^sup>* ?v r1" "(takes N)\<^sup>*\<^sup>* (r1\<lparr>rg_wr := v\<rparr>) (view t')" by blast
    have k: "ring_ok N r1" "rg_wr r1 = rg_wr ?v" "rg_buf r1 = rg_buf ?v" "stream N r1 = stream N ?v" "used N r1 \<le> used N ?v"
      using takes_star [OF r1(1) w(2)] by auto
    have wr: "rg_wr r1 = rg_wr r" "used N r1 \<le> used N r" "stream N r1 = S" using k s by (auto simp: staged_def)
    have cells: "rg_buf r1 ((rg_wr r1 + int i) mod N) = ds ! i" if "i < length ds" for i
      using s that k(3) wr(1) by (simp add: staged_def)
    have q: "queue N (r1\<lparr>rg_wr := v\<rparr>) = queue N r1 @ ds" "used N (r1\<lparr>rg_wr := v\<rparr>) = used N r1 + int (length ds)" "ring_ok N (r1\<lparr>rg_wr := v\<rparr>)"
      using queue_extend [OF k(1) _ cells] fit wr v by auto
    have r': "used N (r\<lparr>rg_wr := v\<rparr>) = used N r + int (length ds)"
    proof -
      have "used N (r\<lparr>rg_wr := v\<rparr>) = (used N r + int (length ds)) mod N" by (simp add: v used_def mod_simps algebra_simps)
      moreover have "0 \<le> used N r" using used_bounds [OF k(1)] wr(2) by simp
      ultimately show ?thesis using fit by simp
    qed
    have f: "ring_ok N (view t')" "rg_wr (view t') = v" "stream N (view t') = S @ ds" "used N (view t') \<le> used N r1 + int (length ds)"
      using takes_star [OF r1(2) q(3)] q wr(3) by (auto simp: stream_def)
    show "staged (S @ ds) (r\<lparr>rg_wr := v\<rparr>) ch [] (s\<lparr>rt_target := t'\<rparr>)"
      using f t' s r' wr(2) by (auto simp: staged_def)
  qed simp
qed

lemma write_top_wp:
  assumes s: "staged S r ch [] s" and r: "ring_ok N r"
  shows "wp (write_top T (rg_wr r) (rg_rd r) data)
    (\<lambda>(rest, w, m) s'. \<exists>n \<le> length data. m = int n \<and> rest = drop n data \<and> w = (rg_wr r + int n) mod N \<and> staged S r ch (take n data) s'
       \<and> (let free = max 0 (rg_rd r - w - 1) in
            int n + min free (int (length data) - int n) = min (int (length data)) (N - 1 - used N r) \<and> w + free \<le> N)) (\<lambda>e _. terr e) s"
proof -
  let ?Q = "\<lambda>(rest, w, m) s'. \<exists>n \<le> length data. m = int n \<and> rest = drop n data \<and> w = (rg_wr r + int n) mod N \<and> staged S r ch (take n data) s'
       \<and> (let free = max 0 (rg_rd r - w - 1) in
            int n + min free (int (length data) - int n) = min (int (length data)) (N - 1 - used N r) \<and> w + free \<le> N)"
  have w: "0 \<le> rg_wr r" "rg_wr r < N" "0 \<le> rg_rd r" "rg_rd r < N" using r by (simp_all add: ring_ok_def)
  have ch: "rc_buffer_address (rt_channel s) = start_addr" "rc_size (rt_channel s) = N" using s by (auto simp: staged_def channel_on_def)
  show ?thesis
  proof (cases "rg_wr r \<ge> rg_rd r")
    case False
    then have "used N r = rg_wr r - rg_rd r + N" using queue_split(2) [OF r] by simp
    then have "?Q (data, rg_wr r, 0) s" using s w False by (auto simp: Let_def intro!: exI [of _ "0::nat"])
    then show ?thesis using False by (simp add: write_top_def Let_def)
  next
    case True
    have u: "used N r = rg_wr r - rg_rd r" using queue_split(1) [OF r True] .
    define room where "room = (if rg_rd r = 0 then N - rg_wr r - 1 else N - rg_wr r)"
    define n where "n = min (length data) (nat room)"
    have room: "0 \<le> room" "room \<le> N - rg_wr r" using w by (auto simp: room_def)
    have now: "py_upto data room = take n data" "length (take n data) = n" using room by (auto simp: n_def min_def)
    have n: "int n \<le> N - rg_wr r" "n \<le> length data" using room by (auto simp: n_def)
    have fit: "used N r + int (length []) + int (length (take n data)) < N \<or> take n data = []"
      using n now(2) u w True by (auto simp: n_def room_def)
    have sum: "int n + min (max 0 (rg_rd r - (rg_wr r + int n) mod N - 1)) (int (length data) - int n) = min (int (length data)) (N - 1 - used N r)
       \<and> (rg_wr r + int n) mod N + max 0 (rg_rd r - (rg_wr r + int n) mod N - 1) \<le> N"
    proof (cases "rg_wr r + int n = N")
      case True
      then have "int n = N - rg_wr r" "int n \<le> int (length data)" "rg_rd r \<noteq> 0" using n(2) w by (auto simp: n_def room_def split: if_splits)
      then show ?thesis using True u w \<open>rg_wr r \<ge> rg_rd r\<close> by (auto simp: min_def max_def)
    next
      case False
      then have lt: "rg_wr r + int n < N" using n by simp
      then have m: "(rg_wr r + int n) mod N = rg_wr r + int n" using w by simp
      have "max 0 (rg_rd r - (rg_wr r + int n) - 1) = 0" using True by simp
      moreover have "int n = min (int (length data)) (N - 1 - used N r)"
        using lt u w True by (auto simp: n_def room_def min_def split: if_splits)
      ultimately show ?thesis using m lt by simp
    qed
    have "wp (on_rtt_target (ro_write_block8 T (start_addr + rg_wr r) (take n data))) (\<lambda>_. staged S r ch ([] @ take n data)) (\<lambda>e _. terr e) s"
      by (rule stage_wp [OF s _ _ fit]) (use w n now in auto)
    then have "wp (on_rtt_target (ro_write_block8 T (start_addr + rg_wr r) (take n data)))
      (\<lambda>_. ?Q (drop n data, (rg_wr r + int n) mod N, int n)) (\<lambda>e _. terr e) s"
      by (rule wp_mono) (use sum n in \<open>auto simp: Let_def\<close>)
    then show ?thesis using True now room n
      unfolding write_top_def Let_def wp_bind wp_get_state ch if_P [OF True] by (simp add: room_def [symmetric])
  qed
qed

lemma write_once_wp:
  assumes s: "ready s" "ring_ok N (view (rt_target s))"
    and P: "wp (ro_read_block32 T offs 2) (\<lambda>ws _. P ws) (\<lambda>_ _. True) (rt_target s)"
  shows "wp (write_once T data) (\<lambda>k s'. \<exists>r n. (takes N)\<^sup>*\<^sup>* (view (rt_target s)) r \<and> P [rg_wr r, rg_rd r] \<and> k = int n
      \<and> k = min (int (length data)) (N - 1 - used N r) \<and> ready s' \<and> rt_channel s' = rt_channel s \<and> ring_ok N (view (rt_target s'))
      \<and> stream N (view (rt_target s')) = stream N (view (rt_target s)) @ take n data) (\<lambda>e _. terr e) s"
    (is "wp _ ?Q ?E s")
proof -
  let ?v = "view (rt_target s)" and ?ch = "rt_channel s"
  have later: "ring_ok N r \<and> stream N r = stream N ?v" if "(takes N)\<^sup>*\<^sup>* ?v r" for r
    using takes_star [OF that s(2)] by simp
  have ch: "rc_buffer_address ?ch = start_addr" "rc_offsets_addr ?ch = offs" using s by (simp_all add: channel_on_def)
  have tail: "wp (bind (on_rtt_target (ro_write_block8 T (start_addr + w) (py_upto (drop n data) k))) (\<lambda>_.
       bind (on_rtt_target (ro_write32 T offs (w + k))) (\<lambda>_. ret (int n + k)))) ?Q ?E s2"
    if r: "(takes N)\<^sup>*\<^sup>* ?v r" "P [rg_wr r, rg_rd r]" and n: "n \<le> length data" and w: "w = (rg_wr r + int n) mod N"
      and st: "staged (stream N ?v) r ?ch (take n data) s2" and k: "k = min (max 0 (rg_rd r - w - 1)) (int (length data) - int n)"
      and total: "int n + k = min (int (length data)) (N - 1 - used N r)" and top: "w + max 0 (rg_rd r - w - 1) \<le> N" for r n w k s2
  proof -
    have ok: "ring_ok N r" using later [OF r(1)] by simp
    then have N: "0 < N" "rg_rd r < N" by (auto simp: ring_ok_def)
    have k0: "0 \<le> k" "nat k \<le> length data - n" "w + k \<le> N" using k n top by auto
    let ?bs = "take (nat k) (drop n data)"
    have len: "int (length (take n data)) = int n" "int (length ?bs) = k" using n k0 by auto
    have all: "take n data @ ?bs = take (n + nat k) data" by (simp add: take_add)
    have fit: "used N r + int n + k < N" using total used_bounds [OF ok] by simp
    have wk: "w + k = (rg_wr r + int (length (take (n + nat k) data))) mod N"
    proof -
      have l: "int (length (take (n + nat k) data)) = int n + k" using n k0 by auto
      have w0: "0 \<le> w" "w < N" using w N by auto
      have "w + k < N"
      proof (cases "k = 0")
        case False
        moreover have "k \<le> max 0 (rg_rd r - w - 1)" unfolding k by simp
        ultimately have "w + k \<le> rg_rd r - 1" using k0(1) by (simp add: max_def split: if_splits)
        then show ?thesis using N by simp
      qed (use w0 in simp)
      then have "w + k = (w + k) mod N" using w0 k0 by simp
      then show ?thesis unfolding l w by (metis add.assoc mod_add_left_eq)
    qed
    have "wp (on_rtt_target (ro_write_block8 T (start_addr + w) ?bs)) (\<lambda>_. staged (stream N ?v) r ?ch (take n data @ ?bs)) ?E s2"
      by (rule stage_wp [OF st]) (use w len k0 fit in auto)
    then have one: "wp (on_rtt_target (ro_write_block8 T (start_addr + w) ?bs)) (\<lambda>_. staged (stream N ?v) r ?ch (take (n + nat k) data)) ?E s2"
      unfolding all .
    have two: "wp (on_rtt_target (ro_write32 T offs (w + k))) (\<lambda>_. ?Q (int n + k)) ?E s3"
      if "staged (stream N ?v) r ?ch (take (n + nat k) data) s3" for s3
    proof (rule wp_mono [OF publish_wp [OF that wk]])
      show "used N r + int (length (take (n + nat k) data)) < N" using fit n k0 by simp
      fix u s4 assume "staged (stream N ?v @ take (n + nat k) data) (r\<lparr>rg_wr := w + k\<rparr>) ?ch [] s4"
      then show "?Q (int n + k) s4" using r total k0 by (intro exI [of _ r] exI [of _ "n + nat k"]) (auto simp: staged_def)
    qed
    have up: "py_upto (drop n data) k = ?bs" using k0 by simp
    show ?thesis unfolding up wp_bind by (rule wp_mono [OF one]) (use two in simp_all)
  qed
  have body: "wp (bind (write_top T (rg_wr r) (rg_rd r) data) (\<lambda>(data, write_off, bytes_written).
     bind get_state (\<lambda>s. let ch = rt_channel s;
         free_space = (if rg_rd r - write_off - 1 < 0 then 0 else rg_rd r - write_off - 1);
         bytes_to_write = min free_space (int (length data)) in
       bind (on_rtt_target (ro_write_block8 T (rc_buffer_address ch + write_off) (py_upto data bytes_to_write))) (\<lambda>_.
       bind (on_rtt_target (ro_write32 T (rc_offsets_addr ch) (write_off + bytes_to_write))) (\<lambda>_.
         ret (bytes_written + bytes_to_write)))))) ?Q ?E s1"
    if r: "(takes N)\<^sup>*\<^sup>* ?v r" "P [rg_wr r, rg_rd r]" and s1: "(takes N)\<^sup>*\<^sup>* r (view (rt_target s1))" "ready s1" "rt_channel s1 = ?ch" for r s1
  proof -
    have ok: "ring_ok N r" using later [OF r(1)] by simp
    have "ring_ok N (view (rt_target s1)) \<and> rg_wr (view (rt_target s1)) = rg_wr r \<and> stream N (view (rt_target s1)) = stream N ?v
        \<and> used N (view (rt_target s1)) \<le> used N r"
      using takes_star [OF s1(1) ok] later [OF r(1)] by simp
    then have st: "staged (stream N ?v) r ?ch [] s1" using s1 by (simp add: staged_def)
    show ?thesis unfolding wp_bind
    proof (rule wp_mono [OF write_top_wp [OF st ok]], goal_cases)
      case (1 x s2)
      obtain rest w m where x: "x = (rest, w, m)" by (cases x) auto
      from 1 obtain n where n: "n \<le> length data" "m = int n" "rest = drop n data" "w = (rg_wr r + int n) mod N" "staged (stream N ?v) r ?ch (take n data) s2"
        "int n + min (max 0 (rg_rd r - w - 1)) (int (length data) - int n) = min (int (length data)) (N - 1 - used N r)"
        "w + max 0 (rg_rd r - w - 1) \<le> N" unfolding x by (auto simp: Let_def)
      have free: "(if rg_rd r - w - 1 < 0 then 0 else rg_rd r - w - 1) = max 0 (rg_rd r - w - 1)" by simp
      have len: "int (length (drop n data)) = int (length data) - int n" using n(1) by simp
      have c: "rt_channel s2 = ?ch" using n(5) by (simp add: staged_def)
      show ?case using tail [OF r n(1,4,5) refl n(6,7)] unfolding x prod.case wp_bind wp_get_state Let_def free c ch n(2,3) len .
    qed simp
  qed
  have "wp (get_offsets T) (\<lambda>x s1. \<exists>r. (takes N)\<^sup>*\<^sup>* ?v r \<and> (takes N)\<^sup>*\<^sup>* r (view (rt_target s1)) \<and> x = (rg_wr r, rg_rd r)
      \<and> P [rg_wr r, rg_rd r] \<and> ready s1 \<and> rt_channel s1 = ?ch) ?E s"
    by (rule get_offsets_wp [OF s(1) _ P]) (use later in blast)
  then show ?thesis unfolding write_once_def wp_bind
    by (rule wp_mono) (use body in fastforce)+
qed

lemma write_all_wp:
  assumes drains: "\<And>t. tinv t \<Longrightarrow> wp (ro_read_block32 T offs 2) (\<lambda>ws _. case ws of [w, r] \<Rightarrow> (w - r) mod N < N - 1 | _ \<Rightarrow> False) (\<lambda>_ _. True) t"
  shows "length data \<le> fuel \<Longrightarrow> ready s \<Longrightarrow> ring_ok N (view (rt_target s)) \<Longrightarrow>
    wp (write_all T fuel data) (\<lambda>_ s'. ready s' \<and> rt_channel s' = rt_channel s \<and> ring_ok N (view (rt_target s'))
      \<and> stream N (view (rt_target s')) = stream N (view (rt_target s)) @ data) (\<lambda>e _. terr e) s"
proof (induction fuel arbitrary: data s)
  case (Suc fuel)
  let ?v = "view (rt_target s)" and ?E = "\<lambda>e _. terr e"
  let ?Q = "\<lambda>_ s'. ready s' \<and> rt_channel s' = rt_channel s \<and> ring_ok N (view (rt_target s')) \<and> stream N (view (rt_target s')) = stream N ?v @ data"
  show ?case
  proof (cases data)
    case (Cons b bs)
    have t: "tinv (rt_target s)" using Suc.prems(2) by simp
    have rest: "wp (write_all T fuel (py_from data k)) ?Q ?E s1"
      if a: "\<exists>r n. (takes N)\<^sup>*\<^sup>* ?v r \<and> (rg_wr r - rg_rd r) mod N < N - 1 \<and> k = int n \<and> k = min (int (length data)) (N - 1 - used N r)
        \<and> ready s1 \<and> rt_channel s1 = rt_channel s \<and> ring_ok N (view (rt_target s1)) \<and> stream N (view (rt_target s1)) = stream N ?v @ take n data" for k s1
    proof -
      from a obtain r n where n: "(rg_wr r - rg_rd r) mod N < N - 1" "k = int n" "k = min (int (length data)) (N - 1 - used N r)" "ready s1"
        "rt_channel s1 = rt_channel s" "ring_ok N (view (rt_target s1))" "stream N (view (rt_target s1)) = stream N ?v @ take n data" by blast
      have pos: "0 < n" using n(1-3) Cons by (simp add: used_def)
      have "wp (write_all T fuel (drop n data)) (\<lambda>_ s'. ready s' \<and> rt_channel s' = rt_channel s1 \<and> ring_ok N (view (rt_target s'))
          \<and> stream N (view (rt_target s')) = stream N (view (rt_target s1)) @ drop n data) ?E s1"
        by (rule Suc.IH) (use pos Suc.prems(1) n in auto)
      then show ?thesis unfolding n(2) by simp (erule wp_mono, use n in auto)
    qed
    have "wp (write_once T data) (\<lambda>k s1. wp (write_all T fuel (py_from data k)) ?Q ?E s1) ?E s"
      by (rule wp_mono [OF write_once_wp [OF Suc.prems(2,3) drains [OF t]]]) (use rest in auto)
    then show ?thesis unfolding Cons
      by (simp add: down_write_def wp_populate [OF conjunct1 [OF Suc.prems(2)]] del: py_from_nonneg)
  qed (use Suc.prems in simp)
qed simp

lemma down_write_wp:
  assumes s: "ready s" "ring_ok N (view (rt_target s))"
  shows "wp (down_write T data) (\<lambda>k s'. 0 \<le> k \<and> k \<le> int (length data) \<and> k \<ge> min (int (length data)) (N - 1 - used N (view (rt_target s)))
      \<and> ready s' \<and> rt_channel s' = rt_channel s \<and> ring_ok N (view (rt_target s'))
      \<and> stream N (view (rt_target s')) = stream N (view (rt_target s)) @ take (nat k) data) (\<lambda>e _. terr e) s"
proof -
  have "wp (write_once T data) (\<lambda>k s'. 0 \<le> k \<and> k \<le> int (length data) \<and> k \<ge> min (int (length data)) (N - 1 - used N (view (rt_target s)))
      \<and> ready s' \<and> rt_channel s' = rt_channel s \<and> ring_ok N (view (rt_target s'))
      \<and> stream N (view (rt_target s')) = stream N (view (rt_target s)) @ take (nat k) data) (\<lambda>e _. terr e) s"
  proof (rule wp_mono [OF write_once_wp [OF s wp_True]], goal_cases)
    case (1 k s')
    then obtain r n where n: "(takes N)\<^sup>*\<^sup>* (view (rt_target s)) r" "k = int n" "k = min (int (length data)) (N - 1 - used N r)"
      "ready s'" "rt_channel s' = rt_channel s" "ring_ok N (view (rt_target s'))"
      "stream N (view (rt_target s')) = stream N (view (rt_target s)) @ take n data" by blast
    have "used N r \<le> used N (view (rt_target s))" using takes_star [OF n(1) s(2)] by simp
    then have "min (int (length data)) (N - 1 - used N (view (rt_target s))) \<le> k" unfolding n(3) by (auto simp: min_def)
    moreover have "k \<le> int (length data)" unfolding n(3) by simp
    ultimately show ?case using n(2,4-7) by simp
  qed
  then show ?thesis by (simp add: down_write_def wp_populate [OF conjunct1 [OF s(1)]])
qed

end

subsection \<open>A simulated target\<close>

text \<open>The target makes the move \<open>mv\<close> before each access.\<close>

definition sim_rtt :: "(ring \<Rightarrow> ring) \<Rightarrow> ring rtt_ops" where
  "sim_rtt mv = \<lparr>
     ro_read_block32 = (\<lambda>a n. bind (modify mv) (\<lambda>_. bind get_state (\<lambda>r. ret [rg_wr r, rg_rd r]))),
     ro_read_block8 = (\<lambda>a n. bind (modify mv) (\<lambda>_. bind get_state (\<lambda>r. ret (map (\<lambda>i. rg_buf r (a - 0x200 + int i)) [0..<nat n])))),
     ro_read32 = (\<lambda>a. ret 0),
     ro_write_block8 = (\<lambda>a bs. bind (modify mv) (\<lambda>_. modify (\<lambda>r. r\<lparr>rg_buf := mem_write (rg_buf r) (a - 0x200) bs\<rparr>))),
     ro_write32 = (\<lambda>a v. bind (modify mv) (\<lambda>_. modify (\<lambda>r. if a = 0x100 then r\<lparr>rg_wr := v\<rparr> else r\<lparr>rg_rd := v\<rparr>)))\<rparr>"

lemma reads_at_once: "reads env r i (map (\<lambda>k. rg_buf r (i + int k)) [0..<n]) r"
proof (induction n arbitrary: i)
  case (Suc n)
  have "map (\<lambda>k. rg_buf r (i + int k)) [0..<Suc n] = rg_buf r i # map (\<lambda>k. rg_buf r (i + 1 + int k)) [0..<n]"
    by (rule nth_equalityI) (auto simp: nth_append less_Suc_eq_0_disj ac_simps simp del: upt_Suc)
  then show ?case using Suc [of "i + 1"] by (auto simp del: upt_Suc)
qed simp

lemma mem_write_Cons: "mem_write m i (b # bs) = mem_write (m(i := b)) (i + 1) bs"
proof (rule ext)
  fix x
  show "mem_write m i (b # bs) x = mem_write (m(i := b)) (i + 1) bs x"
  proof (cases "i < x")
    case True
    then have "nat (x - i) = Suc (nat (x - (i + 1)))" by simp
    then show ?thesis using True by (simp add: mem_write_def)
  qed (auto simp: mem_write_def)
qed

lemma writes_at_once: "writes env r i bs (r\<lparr>rg_buf := mem_write (rg_buf r) i bs\<rparr>)"
proof (induction bs arbitrary: r i)
  case (Cons b bs)
  have "writes env (r\<lparr>rg_buf := (rg_buf r)(i := b)\<rparr>) (i + 1) bs (r\<lparr>rg_buf := mem_write (rg_buf r) i (b # bs)\<rparr>)"
    using Cons.IH [of "r\<lparr>rg_buf := (rg_buf r)(i := b)\<rparr>" "i + 1"] by (simp add: mem_write_Cons fun_upd_def)
  then show ?case unfolding writes.simps by (intro exI [of _ r] conjI rtranclp.rtrancl_refl)
qed (simp add: mem_write_Nil)

lemma env_first:
  assumes "env\<^sup>*\<^sup>* r r1"
  shows "reads env r1 i bs r' \<Longrightarrow> reads env r i bs r'" and "writes env r1 i bs r' \<Longrightarrow> writes env r i bs r'"
proof -
  have trans: "env\<^sup>*\<^sup>* r r2" if "env\<^sup>*\<^sup>* r1 r2" for r2 by (rule rtranclp_trans [OF assms that])
  show "reads env r i bs r'" if "reads env r1 i bs r'" using that trans by (cases bs) (simp_all, blast)
  show "writes env r i bs r'" if "writes env r1 i bs r'" using that trans by (cases bs) (simp_all, blast)
qed

lemma sim_rtt_ring:
  assumes mv: "\<And>r. env\<^sup>*\<^sup>* r (mv r)" "\<And>r. ring_ok N r \<Longrightarrow> ring_ok N (mv r)"
  shows "rtt_ring (sim_rtt mv) 0x100 0x200 N (\<lambda>r. r) (ring_ok N) env (\<lambda>_. False)"
proof (unfold_locales, goal_cases)
  case (1 t)
  then show ?case using mv by (auto simp: sim_rtt_def)
next
  case (2 t i n)
  then show ?case using env_first(1) [OF mv(1) [of t] reads_at_once] mv(2) by (auto simp: sim_rtt_def)
next
  case (3 t i bs)
  then show ?case using env_first(2) [OF mv(1) [of t] writes_at_once] mv(2) by (auto simp: sim_rtt_def ring_ok_def)
next
  case (4 t v)
  then show ?case using mv [of t] by (auto simp: sim_rtt_def ring_ok_def)
next
  case (5 t v)
  then show ?case using mv [of t] by (auto simp: sim_rtt_def ring_ok_def)
qed

definition take_one :: "int \<Rightarrow> ring \<Rightarrow> ring" where
  "take_one N r = (if rg_rd r = rg_wr r then r
     else r\<lparr>rg_rd := (rg_rd r + 1) mod N, rg_log := rg_log r @ [rg_buf r (rg_rd r)]\<rparr>)"

definition put_one :: "int \<Rightarrow> ring \<Rightarrow> ring" where
  "put_one N r = (if (rg_wr r + 1) mod N = rg_rd r then r
     else r\<lparr>rg_buf := (rg_buf r)(rg_wr r := int (length (rg_log r))), rg_wr := (rg_wr r + 1) mod N,
       rg_log := rg_log r @ [int (length (rg_log r))]\<rparr>)"

lemma take_one: "(takes N)\<^sup>*\<^sup>* r (take_one N r)" "ring_ok N r \<Longrightarrow> ring_ok N (take_one N r)"
  by (auto simp: take_one_def ring_ok_def intro: takes.intros)

lemma put_one: "(puts N)\<^sup>*\<^sup>* r (put_one N r)" "ring_ok N r \<Longrightarrow> ring_ok N (put_one N r)"
  by (auto simp: put_one_def ring_ok_def intro: puts.intros)

interpretation sim_down: rtt_down "sim_rtt (take_one 8)" "0x100" "0x200" 8 "\<lambda>r. r" "ring_ok 8" "\<lambda>_. False"
  by (rule rtt_down.intro) (rule sim_rtt_ring [OF take_one])

interpretation sim_up: rtt_up "sim_rtt (put_one 8)" "0x100" "0x200" 8 "\<lambda>r. r" "ring_ok 8" "\<lambda>_. False"
  by (rule rtt_up.intro) (rule sim_rtt_ring [OF put_one])

subsection \<open>Finding the control block\<close>

lemma find_bytes_Some:
  assumes "pat \<noteq> []"
  shows "find_bytes xs pat = Some i \<longleftrightarrow> take (length pat) (drop i xs) = pat \<and> (\<forall>j < i. take (length pat) (drop j xs) \<noteq> pat)"
proof (induction xs arbitrary: i)
  case (Cons x xs)
  show ?case
  proof (cases i)
    case (Suc k)
    have "(\<forall>j < Suc k. take (length pat) (drop j (x # xs)) \<noteq> pat)
        \<longleftrightarrow> take (length pat) (x # xs) \<noteq> pat \<and> (\<forall>j < k. take (length pat) (drop j xs) \<noteq> pat)"
      by (auto simp: less_Suc_eq_0_disj)
    then show ?thesis using Suc Cons.IH [of k] by auto
  qed simp
qed (use assms in auto)

lemma find_bytes_None: "pat \<noteq> [] \<Longrightarrow> find_bytes xs pat = None \<longleftrightarrow> (\<forall>j. take (length pat) (drop j xs) \<noteq> pat)"
proof (induction xs)
  case (Cons x xs)
  have "(\<forall>j. take (length pat) (drop j (x # xs)) \<noteq> pat) \<longleftrightarrow> take (length pat) (x # xs) \<noteq> pat \<and> (\<forall>j. take (length pat) (drop j xs) \<noteq> pat)"
    by (metis drop0 drop_Suc_Cons not0_implies_Suc)
  then show ?case using Cons by auto
qed auto

lemma match_room:
  assumes "pat \<noteq> []" and "take (length pat) (drop j xs) = pat"
  shows "j + length pat \<le> length xs"
proof -
  have "length (take (length pat) (drop j xs)) = length pat" using assms(2) by simp
  then have "length pat \<le> length xs - j" by simp
  moreover have "length pat \<noteq> 0" using assms(1) by simp
  ultimately show ?thesis by linarith
qed

text \<open>A position in a window of the list is a position in the list.\<close>

lemma match_window:
  assumes "j + n \<le> k" and "k \<le> length xs" and "a \<le> j"
  shows "take n (drop (j - a) (drop a (take k xs))) = take n (drop j xs)"
  using assms by (simp add: drop_take min_absorb1)

text \<open>
  The bytes carried over are enough for an identifier that spans two blocks, if it is not longer than
  a block.
\<close>

lemma carry_bound:
  assumes "pat \<noteq> []"
  shows "(1 - int (length pat)) div 4 * 4 \<le> 1 - int (length pat)"
  using div_mult_mod_eq [of "1 - int (length pat)" 4] pos_mod_sign [of 4 "1 - int (length pat)"] by linarith

lemma carried:
  assumes "pat \<noteq> []"
  obtains k where "py_from xs ((1 - int (length pat)) div 4 * 4) = drop k xs" and "k \<le> length xs" and "length xs - k \<ge> min (length xs) (length pat - 1)"
proof
  let ?c = "(1 - int (length pat)) div 4 * 4"
  have "1 \<le> int (length pat)" using assms by (cases pat) auto
  then have "int (length pat - 1) = int (length pat) - 1" by simp
  then show "length xs - py_bound (length xs) ?c \<ge> min (length xs) (length pat - 1)"
    using carry_bound [OF assms] by (auto simp: py_bound_def min_def max_def)
qed (simp_all add: py_from_def py_bound_le)

text \<open>One block: the lowest match of the whole window, or none up to the block's end.\<close>

lemma search_block:
  assumes pat: "pat \<noteq> []" and W: "pos + n \<le> length W" and k: "k \<le> pos" "pos - k \<ge> min pos (length pat - 1)"
    and none: "\<And>j. j + length pat \<le> pos \<Longrightarrow> take (length pat) (drop j W) \<noteq> pat"
  shows "find_bytes (drop k (take (pos + n) W)) pat = Some i \<Longrightarrow> find_bytes W pat = Some (k + i)"
    and "find_bytes (drop k (take (pos + n) W)) pat = None \<Longrightarrow> j + length pat \<le> pos + n \<Longrightarrow> take (length pat) (drop j W) \<noteq> pat"
proof -
  let ?w = "drop k (take (pos + n) W)" and ?l = "length pat"
  have l: "0 < ?l" using pat by simp
  have early: "j + ?l \<le> pos" if "j < k" for j using that k l by (auto simp: min_def split: if_splits)
  have win: "take ?l (drop (j - k) ?w) = take ?l (drop j W)" if "k \<le> j" "j + ?l \<le> pos + n" for j
    by (rule match_window [OF that(2) W that(1)])
  show "find_bytes W pat = Some (k + i)" if "find_bytes ?w pat = Some i"
  proof -
    have i: "take ?l (drop i ?w) = pat" "\<And>j. j < i \<Longrightarrow> take ?l (drop j ?w) \<noteq> pat" using that find_bytes_Some [OF pat, of ?w i] by auto
    have room: "k + i + ?l \<le> pos + n" using match_room [OF pat i(1)] W k(1) by simp
    have "take ?l (drop (k + i) W) = pat" using win [of "k + i"] i(1) room by simp
    moreover have "take ?l (drop j W) \<noteq> pat" if j: "j < k + i" for j
    proof (cases "j < k")
      case False
      then show ?thesis using win [of j] i(2) [of "j - k"] j room by simp
    qed (use none early in simp)
    ultimately show ?thesis using find_bytes_Some [OF pat, of W "k + i"] by simp
  qed
  show "take ?l (drop j W) \<noteq> pat" if "find_bytes ?w pat = None" "j + ?l \<le> pos + n"
  proof (cases "j < k")
    case False
    have "take ?l (drop (j - k) ?w) \<noteq> pat" using that(1) find_bytes_None [OF pat, of ?w] by blast
    then show ?thesis using win [of j] that(2) False by simp
  qed (use none early in simp)
qed

lemma find_loop_wp:
  assumes rd: "\<And>a n t. tinv t \<Longrightarrow> 0 \<le> n \<Longrightarrow> wp (ro_read_block8 T a n) (\<lambda>bs t'. tinv t' \<and> bs = mem_bytes m a (nat n)) (\<lambda>e _. terr e) t"
    and pat: "pat \<noteq> []" "length pat \<le> 1024"
    and W_def: "W = mem_bytes m base tot"
  shows "pos \<le> tot \<Longrightarrow> tinv t \<Longrightarrow> (\<And>j. j + length pat \<le> pos \<Longrightarrow> take (length pat) (drop j W) \<noteq> pat) \<Longrightarrow>
    pos < tot \<Longrightarrow> data = drop q (take pos W) \<Longrightarrow> q \<le> pos \<Longrightarrow> pos - q \<ge> min pos 1024 \<Longrightarrow>
    wp (find_loop T pat (base + int pos) (int tot - int pos) data)
      (\<lambda>r t'. tinv t' \<and> r = map_option (\<lambda>i. base + int i) (find_bytes W pat)) (\<lambda>e _. terr e) t"
proof (induction "tot - pos" arbitrary: pos q data t rule: less_induct)
  case less
  note prems = less.prems
  let ?Q = "\<lambda>r t'. tinv t' \<and> r = map_option (\<lambda>i. base + int i) (find_bytes W pat)" and ?E = "\<lambda>e _. terr e"
  define n where "n = min (tot - pos) 1024"
  have len: "length W = tot" by (simp add: W_def)
  have n: "pos + n \<le> tot" "0 < n" "min (int tot - int pos) 1024 = int n" using prems(1,4) by (auto simp: n_def min_def of_nat_diff)
  have ldata: "length data = pos - q" using prems(1,5,6) len by simp
  obtain k0 where k0: "py_from data ((1 - int (length pat)) div 4 * 4) = drop k0 data" "k0 \<le> length data"
      "length data - k0 \<ge> min (length data) (length pat - 1)" by (rule carried [OF pat(1)])
  define k where "k = q + k0"
  have k: "k \<le> pos" "pos - k \<ge> min pos (length pat - 1)" using k0(2,3) ldata prems(6,7) pat(2) by (auto simp: k_def min_def split: if_splits)
  have prev: "drop k0 data = drop k (take pos W)" unfolding prems(5) k_def by (simp add: ac_simps)
  have lprev: "length (drop k0 data) = pos - k" using ldata by (simp add: k_def)
  have block: "mem_bytes m (base + int pos) n = drop pos (take (pos + n) W)"
  proof -
    have "W = mem_bytes m base (pos + n + (tot - pos - n))" using n by (simp add: W_def)
    then have "take (pos + n) W = mem_bytes m base (pos + n)" unfolding mem_bytes_add by simp
    then show ?thesis by (simp add: mem_bytes_add)
  qed
  have joined: "drop k0 data @ mem_bytes m (base + int pos) n = drop k (take (pos + n) W)"
    unfolding prev block using k(1) n(1) len by (simp add: drop_take take_add)
  note search = search_block [OF pat(1) n(1) [folded len] k prems(3)]
  have step: "wp (case find_bytes (drop k0 data @ bs) pat of
            Some idx \<Rightarrow> ret (Some (base + int pos - int (length (drop k0 data)) + int idx))
          | None \<Rightarrow> find_loop T pat (base + int pos + int n) (int tot - int pos - int n) bs) ?Q ?E t'"
    if "tinv t'" "bs = mem_bytes m (base + int pos) n" for bs t'
  proof (cases "find_bytes (drop k0 data @ bs) pat")
    case (Some i)
    then have "find_bytes W pat = Some (k + i)" using search(1) joined that(2) by simp
    moreover have "base + int pos - int (length (drop k0 data)) + int i = base + int (k + i)" using lprev k(1) by (simp add: of_nat_diff)
    ultimately show ?thesis using Some that(1) by simp
  next
    case None
    then have no: "take (length pat) (drop j W) \<noteq> pat" if "j + length pat \<le> pos + n" for j using search(2) joined that \<open>bs = _\<close> by simp
    have next_args: "base + int pos + int n = base + int (pos + n)" "int tot - int pos - int n = int tot - int (pos + n)" by simp_all
    show ?thesis
    proof (cases "pos + n = tot")
      case True
      then have "find_bytes W pat = None" using no match_room [OF pat(1)] len find_bytes_None [OF pat(1), of W] by metis
      then show ?thesis using None True that(1) unfolding next_args by (simp add: find_loop.simps)
    next
      case False
      then have "n = 1024" using n by (auto simp: n_def min_def split: if_splits)
      have "wp (find_loop T pat (base + int (pos + n)) (int tot - int (pos + n)) bs) ?Q ?E t'"
        by (rule less.hyps [where q = pos]) (use False n no that block \<open>n = 1024\<close> in auto)
      then show ?thesis using None unfolding next_args by simp
    qed
  qed
  have loop: "find_loop T pat (base + int pos) (int tot - int pos) data =
      bind (ro_read_block8 T (base + int pos) (int n)) (\<lambda>bs.
        case find_bytes (drop k0 data @ bs) pat of
            Some idx \<Rightarrow> ret (Some (base + int pos - int (length (drop k0 data)) + int idx))
          | None \<Rightarrow> find_loop T pat (base + int pos + int n) (int tot - int pos - int n) bs)"
    by (subst find_loop.simps) (use prems(4) n(3) k0(1) in \<open>simp add: Let_def cong: option.case_cong\<close>)
  show ?case unfolding loop wp_bind
    by (rule wp_mono [OF rd [OF prems(2)]]) (use step in auto)
qed

subsection \<open>Properties\<close>

text \<open>
  C20. A read of an up channel returns, in order, what the target has put in and the host has not read
  before: everything that was in the ring, and perhaps bytes added meanwhile, with the target adding
  bytes between any two accesses of the host.  No byte is lost and none is read twice.
\<close>
theorem up_read_fifo:
  assumes "rtt_up T offs start_addr N view tinv terr" and "channel_on offs start_addr N (rt_channel s)" and "tinv (rt_target s)"
    and "ring_ok N (view (rt_target s))" and "rg_log (view (rt_target s)) = before @ queue N (view (rt_target s))"
  shows "case up_read T s of
      (Inr data, s') \<Rightarrow> rg_log (view (rt_target s')) = before @ data @ queue N (view (rt_target s'))
        \<and> (\<exists>new. data = queue N (view (rt_target s)) @ new) \<and> ring_ok N (view (rt_target s')) \<and> rt_channel s' = rt_channel s
    | (Inl e, _) \<Rightarrow> terr e"
  using rtt_up.up_read_wp [OF assms(1) conjI [OF assms(2,3)] assms(4,5)] by (auto simp: wp_case split: prod.splits sum.splits)

definition demo_channel :: rtt_channel where
  "demo_channel = \<lparr>rc_desc_addr = 0xF4, rc_offsets_addr = 0x100, rc_name = None, rc_buffer_address = 0x200, rc_size = 8\<rparr>"

definition demo_ring :: ring where
  "demo_ring = \<lparr>rg_wr = 2, rg_rd = 6, rg_buf = (\<lambda>i. i + 10), rg_log = [7, 16, 17, 10, 11]\<rparr>"

theorem up_read_fifo_witness:
  "case up_read (sim_rtt (put_one 8)) \<lparr>rt_channel = demo_channel, rt_target = demo_ring\<rparr> of
     (Inr data, s') \<Rightarrow> rg_log (rt_target s') = [7] @ data @ queue 8 (rt_target s') \<and> (\<exists>new. data = [16, 17, 10, 11] @ new)
   | (Inl e, _) \<Rightarrow> False"
proof -
  have q: "queue 8 demo_ring = [16, 17, 10, 11]" by code_simp
  have pre: "channel_on 0x100 0x200 8 demo_channel" "ring_ok 8 demo_ring" "rg_log demo_ring = [7] @ queue 8 demo_ring"
    unfolding q by (simp_all add: channel_on_def demo_channel_def ring_ok_def demo_ring_def)
  show ?thesis
    using up_read_fifo [OF sim_up.rtt_up_axioms, where s = "\<lparr>rt_channel = demo_channel, rt_target = demo_ring\<rparr>" and before = "[7]"] pre q
    by (auto split: prod.splits sum.splits)
qed

text \<open>
  C21. A write to a down channel takes a prefix of the data, at least as much as there was room for when
  it began, and that prefix follows what was in the stream before: the target reads the bytes in order
  whatever it takes out between the accesses of the host.
\<close>
theorem down_write_fifo:
  assumes "rtt_down T offs start_addr N view tinv terr" and "channel_on offs start_addr N (rt_channel s)" and "tinv (rt_target s)"
    and "ring_ok N (view (rt_target s))"
  shows "case down_write T data s of
      (Inr k, s') \<Rightarrow> 0 \<le> k \<and> k \<le> int (length data) \<and> min (int (length data)) (N - 1 - used N (view (rt_target s))) \<le> k
        \<and> stream N (view (rt_target s')) = stream N (view (rt_target s)) @ take (nat k) data
        \<and> ring_ok N (view (rt_target s')) \<and> rt_channel s' = rt_channel s
    | (Inl e, _) \<Rightarrow> terr e"
  using rtt_down.down_write_wp [OF assms(1) conjI [OF assms(2,3)] assms(4), of data] by (auto simp: wp_case split: prod.splits sum.splits)

theorem down_write_fifo_witness:
  "case down_write (sim_rtt (take_one 8)) [1, 2, 3, 4, 5, 6] \<lparr>rt_channel = demo_channel, rt_target = demo_ring\<rparr> of
     (Inr k, s') \<Rightarrow> 3 \<le> k \<and> k \<le> 6 \<and> stream 8 (rt_target s') = [7, 16, 17, 10, 11, 16, 17, 10, 11] @ take (nat k) [1, 2, 3, 4, 5, 6]
   | (Inl e, _) \<Rightarrow> False"
proof -
  have q: "stream 8 demo_ring = [7, 16, 17, 10, 11, 16, 17, 10, 11]" "used 8 demo_ring = 4" by code_simp+
  have pre: "channel_on 0x100 0x200 8 demo_channel" "ring_ok 8 demo_ring"
    by (simp_all add: channel_on_def demo_channel_def ring_ok_def demo_ring_def)
  show ?thesis
    using down_write_fifo [OF sim_down.rtt_down_axioms, where s = "\<lparr>rt_channel = demo_channel, rt_target = demo_ring\<rparr>" and data = "[1, 2, 3, 4, 5, 6]"] pre q
    by (auto split: prod.splits sum.splits)
qed



text \<open>
  C23. The search for the control block reads the memory in blocks, and finds what a search of the whole
  range at once would find: the lowest address at which the identifier is, also across blocks, and
  nothing when it is nowhere in the range.
\<close>
theorem control_block_found:
  assumes "\<And>a n t. tinv t \<Longrightarrow> 0 \<le> n \<Longrightarrow> wp (ro_read_block8 T a n) (\<lambda>bs t'. tinv t' \<and> bs = mem_bytes m a (nat n)) (\<lambda>e _. terr e) t"
    and "tinv t" and "cb_id cb \<noteq> []" and "length (cb_id cb) \<le> 1024"
  shows "case find_control_block T cb t of
      (Inr r, t') \<Rightarrow> tinv t' \<and> (\<forall>a. r = Some a \<longleftrightarrow>
        cb_address cb \<le> a \<and> a + int (length (cb_id cb)) \<le> cb_address cb + max (cb_size cb) (int (length (cb_id cb)))
        \<and> mem_bytes m a (length (cb_id cb)) = cb_id cb
        \<and> (\<forall>b. cb_address cb \<le> b \<and> b < a \<longrightarrow> mem_bytes m b (length (cb_id cb)) \<noteq> cb_id cb))
    | (Inl e, _) \<Rightarrow> terr e"
proof -
  let ?p = "cb_id cb" and ?A = "cb_address cb"
  define n where "n = nat (max (cb_size cb) (int (length ?p)))"
  have "0 < int (length ?p)" using assms(3) by simp
  then have "0 < max (cb_size cb) (int (length ?p))" by linarith
  then have n: "int n = max (cb_size cb) (int (length ?p))" "0 < n" by (simp_all add: n_def)
  let ?W = "mem_bytes m ?A n"
  have loop: "wp (find_loop T ?p ?A (int n) []) (\<lambda>r t'. tinv t' \<and> r = map_option (\<lambda>i. ?A + int i) (find_bytes ?W ?p)) (\<lambda>e _. terr e) t"
    using find_loop_wp [OF assms(1) assms(3,4) refl, where pos = 0 and t = t and data = "[]" and q = 0 and base = ?A and tot = n] assms(2,3) n(2)
    by simp
  have at: "take (length ?p) (drop i ?W) = mem_bytes m (?A + int i) (length ?p)" if "i + length ?p \<le> n" for i
  proof -
    have "?W = mem_bytes m ?A (i + (length ?p + (n - i - length ?p)))" using that by simp
    then show ?thesis by (simp add: mem_bytes_add)
  qed
  have fit: "i + length ?p \<le> n" if "take (length ?p) (drop i ?W) = ?p" for i using match_room [OF assms(3) that] by simp
  have found: "map_option (\<lambda>i. ?A + int i) (find_bytes ?W ?p) = Some a \<longleftrightarrow>
      ?A \<le> a \<and> a + int (length ?p) \<le> ?A + int n \<and> mem_bytes m a (length ?p) = ?p \<and> (\<forall>b. ?A \<le> b \<and> b < a \<longrightarrow> mem_bytes m b (length ?p) \<noteq> ?p)" for a
  proof
    assume "map_option (\<lambda>i. ?A + int i) (find_bytes ?W ?p) = Some a"
    then obtain i where i: "find_bytes ?W ?p = Some i" "a = ?A + int i" by auto
    then have m: "take (length ?p) (drop i ?W) = ?p" "\<And>j. j < i \<Longrightarrow> take (length ?p) (drop j ?W) \<noteq> ?p" using find_bytes_Some [OF assms(3)] by auto
    have "mem_bytes m b (length ?p) \<noteq> ?p" if "?A \<le> b" "b < a" for b
      using m(2) [of "nat (b - ?A)"] at [of "nat (b - ?A)"] fit [OF m(1)] that i(2) by auto
    then show "?A \<le> a \<and> a + int (length ?p) \<le> ?A + int n \<and> mem_bytes m a (length ?p) = ?p \<and> (\<forall>b. ?A \<le> b \<and> b < a \<longrightarrow> mem_bytes m b (length ?p) \<noteq> ?p)"
      using at [OF fit [OF m(1)]] m(1) i(2) fit [OF m(1)] by auto
  next
    assume a: "?A \<le> a \<and> a + int (length ?p) \<le> ?A + int n \<and> mem_bytes m a (length ?p) = ?p \<and> (\<forall>b. ?A \<le> b \<and> b < a \<longrightarrow> mem_bytes m b (length ?p) \<noteq> ?p)"
    define i where "i = nat (a - ?A)"
    have i: "a = ?A + int i" "i + length ?p \<le> n" using a by (auto simp: i_def)
    have "take (length ?p) (drop j ?W) \<noteq> ?p" if j: "j < i" for j
    proof -
      have "j + length ?p \<le> n" using j i(2) by simp
      from at [OF this] show ?thesis using a j i(1) by auto
    qed
    then have "find_bytes ?W ?p = Some i" using find_bytes_Some [OF assms(3), of ?W i] at [OF i(2)] a i(1) by simp
    then show "map_option (\<lambda>i. ?A + int i) (find_bytes ?W ?p) = Some a" using i(1) by simp
  qed
  have "wp (find_loop T ?p ?A (int n) []) (\<lambda>r t'. tinv t' \<and> (\<forall>a. r = Some a \<longleftrightarrow>
      ?A \<le> a \<and> a + int (length ?p) \<le> ?A + int n \<and> mem_bytes m a (length ?p) = ?p \<and> (\<forall>b. ?A \<le> b \<and> b < a \<longrightarrow> mem_bytes m b (length ?p) \<noteq> ?p)))
      (\<lambda>e _. terr e) t"
  proof (rule wp_mono [OF loop])
    fix r t' assume r: "tinv t' \<and> r = map_option (\<lambda>i. ?A + int i) (find_bytes ?W ?p)"
    show "tinv t' \<and> (\<forall>a. r = Some a \<longleftrightarrow>
      ?A \<le> a \<and> a + int (length ?p) \<le> ?A + int n \<and> mem_bytes m a (length ?p) = ?p \<and> (\<forall>b. ?A \<le> b \<and> b < a \<longrightarrow> mem_bytes m b (length ?p) \<noteq> ?p))"
      unfolding conjunct2 [OF r] found using r by simp
  qed
  then show ?thesis unfolding find_control_block_def n(1) [symmetric] wp_case .
qed

definition memory_ops :: "memory \<Rightarrow> unit rtt_ops" where
  "memory_ops m = \<lparr>ro_read_block32 = (\<lambda>a n. ret []), ro_read_block8 = (\<lambda>a n. ret (mem_bytes m a (nat n))), ro_read32 = (\<lambda>a. ret 0),
     ro_write_block8 = (\<lambda>a bs. ret ()), ro_write32 = (\<lambda>a v. ret ())\<rparr>"

definition demo_block :: control_block where
  "demo_block = \<lparr>cb_address = 0x20000000, cb_size = 2048, cb_id = [83, 69, 71, 71, 69, 82]\<rparr>"

definition demo_memory :: memory where
  "demo_memory = mem_write (\<lambda>_. 0) 0x200003FD [83, 69, 71, 71, 69, 82]"

theorem control_block_found_witness:
  "fst (find_control_block (memory_ops demo_memory) demo_block ()) = Inr (Some 0x200003FD)"
proof -
  have rd: "wp (ro_read_block8 (memory_ops demo_memory) a n) (\<lambda>bs t'. True \<and> bs = mem_bytes demo_memory a (nat n)) (\<lambda>e _. False) t" for a n t
    by (simp add: memory_ops_def)
  have "mem_bytes demo_memory b (length (cb_id demo_block)) \<noteq> cb_id demo_block" if "b < 0x200003FD" for b
  proof -
    have "demo_memory b = 0" using that by (simp add: demo_memory_def mem_write_def)
    then show ?thesis by (simp add: demo_block_def mem_bytes_Suc numeral_eq_Suc)
  qed
  moreover have "mem_bytes demo_memory 0x200003FD (length (cb_id demo_block)) = cb_id demo_block" by code_simp
  moreover have "cb_address demo_block \<le> 0x200003FD
     \<and> 0x200003FD + int (length (cb_id demo_block)) \<le> cb_address demo_block + max (cb_size demo_block) (int (length (cb_id demo_block)))"
     "cb_id demo_block \<noteq> []" "length (cb_id demo_block) \<le> 1024"
    by (simp_all add: demo_block_def)
  ultimately show ?thesis
    using control_block_found [where tinv = "\<lambda>_. True" and terr = "\<lambda>_. False" and T = "memory_ops demo_memory" and m = demo_memory and cb = demo_block, OF rd]
    by (fastforce split: prod.splits sum.splits)
qed

text \<open>
  A name of 32 bytes and more is never found whole: each round reads its first bytes again.
\<close>

lemma long_name_repeats:
  assumes "0 \<notin> set (mem_bytes m a 32)"
  shows "read_name (memory_ops m) Up NAME_FUEL a [] () = (Inr (concat (replicate 16 (mem_bytes m a 32))), ())"
proof -
  let ?c = "mem_bytes m a 32"
  have snoc: "concat (replicate (Suc n) ?c) = concat (replicate n ?c) @ ?c" for n by (induction n) simp_all
  have step: "read_name (memory_ops m) Up (Suc f) a d () =
      (if 512 \<le> length d + 32 then (Inr (d @ ?c), ()) else read_name (memory_ops m) Up f a (d @ ?c) ())" if "0 \<notin> set d" for f d
    using assms that by (auto simp: memory_ops_def name_chunk_def give_up_def Let_def bind_def)
  have loop: "read_name (memory_ops m) Up (Suc k) a (concat (replicate (15 - k) ?c)) () = (Inr (concat (replicate 16 ?c)), ())" if "k \<le> 15" for k
    using that
  proof (induction k)
    case 0
    have "0 \<notin> set (concat (replicate 15 ?c))" using assms by auto
    moreover have "concat (replicate 15 ?c) @ ?c = concat (replicate 16 ?c)" by (simp add: numeral_eq_Suc)
    ultimately show ?case using step [of "concat (replicate 15 ?c)" 0] by (simp add: length_concat sum_list_replicate)
  next
    case (Suc k)
    then have k: "15 - k = Suc (15 - Suc k)" by simp
    have "concat (replicate (15 - Suc k) ?c) @ ?c = concat (replicate (15 - k) ?c)"
      unfolding k snoc ..
    moreover have "0 \<notin> set (concat (replicate (15 - Suc k) ?c))" using assms by auto
    moreover have "\<not> 512 \<le> length (concat (replicate (15 - Suc k) ?c)) + 32" using Suc.prems by (simp add: length_concat sum_list_replicate)
    ultimately show ?case using step [of "concat (replicate (15 - Suc k) ?c)" "Suc k"] Suc by simp
  qed
  show ?thesis using loop [of 15] by (simp add: NAME_FUEL_def)
qed

end
