(* ===== verification/Swo.thy ===== *)
theory Swo
  imports Conversion Memory_Interface
begin

text \<open>
  \<open>pyocd/trace/swo.py\<close>: the parser of the SWO stream, a generator that is sent one byte at a
  time, and the events it hands to its sink (\<open>pyocd/trace/events.py\<close>).
\<close>

subsection \<open>Events\<close>

record data_trace =
  dt_comparator :: int
  dt_pc :: "int option"
  dt_address :: "int option"
  dt_value :: "int option"
  dt_is_read :: "bool option"
  dt_size :: "int option"
  dt_timestamp :: int

datatype trace_event =
    TraceOverflow int
  | TraceTimestamp int int
  | TraceITMEvent int int int int
  | TraceEventCounter int int
  | TraceExceptionEvent int string int int
  | TracePeriodicPC int int
  | TraceDataTraceEvent data_trace

text \<open>The setter of the time stamp, the last field of an event.\<close>

fun set_timestamp :: "int \<Rightarrow> trace_event \<Rightarrow> trace_event" where
  "set_timestamp ts (TraceOverflow _) = TraceOverflow ts"
| "set_timestamp ts (TraceTimestamp tc _) = TraceTimestamp tc ts"
| "set_timestamp ts (TraceITMEvent port data width _) = TraceITMEvent port data width ts"
| "set_timestamp ts (TraceEventCounter m _) = TraceEventCounter m ts"
| "set_timestamp ts (TraceExceptionEvent n nm act _) = TraceExceptionEvent n nm act ts"
| "set_timestamp ts (TracePeriodicPC pc _) = TracePeriodicPC pc ts"
| "set_timestamp ts (TraceDataTraceEvent d) = TraceDataTraceEvent (d\<lparr>dt_timestamp := ts\<rparr>)"

text \<open>The constructor of a data trace event asserts that a value comes with its direction and size.\<close>

definition make_data_trace :: "data_trace \<Rightarrow> exn + data_trace" where
  "make_data_trace d =
     (if dt_value d = None \<or> dt_is_read d \<noteq> None \<and> dt_size d \<noteq> None then Inr d else Inl AssertionError)"

subsection \<open>The parser's state\<close>

text \<open>
  Where the generator waits for its next byte, with the local variables it needs there: for a header,
  within a sync packet, a time stamp, an extension or a payload.  After an exception it is finished.
\<close>

datatype wait =
    Header
  | Sync int
  | LocalTime int int
  | Extension int int
  | Payload int "int list"
  | Finished

record swo =
  sw_bytes_parsed :: int
  sw_itm_page :: int
  sw_timestamp :: int
  sw_pending_events :: "trace_event list"
  sw_pending_data_trace :: "data_trace option"
  sw_wait :: wait
  sw_sink :: "trace_event list option"

definition swo_reset :: "swo \<Rightarrow> swo" where
  "swo_reset s = s\<lparr>sw_bytes_parsed := 0, sw_itm_page := 0, sw_timestamp := 0, sw_pending_events := [],
     sw_pending_data_trace := None, sw_wait := Header\<rparr>"

text \<open>The sink is what it has received, or none.\<close>

definition SWOParser :: "trace_event list option \<Rightarrow> swo" where
  "SWOParser sink = \<lparr>sw_bytes_parsed = 0, sw_itm_page = 0, sw_timestamp = 0, sw_pending_events = [],
     sw_pending_data_trace = None, sw_wait = Header, sw_sink = sink\<rparr>"

definition swo_connect :: "trace_event list option \<Rightarrow> swo \<Rightarrow> swo" where
  "swo_connect sink s = s\<lparr>sw_sink := sink\<rparr>"

subsection \<open>Sending events\<close>

definition flush_events :: "swo \<Rightarrow> swo" where
  "flush_events s =
     (let s = (case sw_sink s of None \<Rightarrow> s | Some evs \<Rightarrow> s\<lparr>sw_sink := Some (evs @ sw_pending_events s)\<rparr>)
      in s\<lparr>sw_pending_events := []\<rparr>)"

text \<open>\<open>a or b\<close>: 0, False and None are false.\<close>

definition py_or :: "int option \<Rightarrow> int option \<Rightarrow> int option" where
  "py_or a b = (case a of None \<Rightarrow> b | Some x \<Rightarrow> if x = 0 then b else a)"

definition py_or_bool :: "bool option \<Rightarrow> bool option \<Rightarrow> bool option" where
  "py_or_bool a b = (if a = Some True then a else b)"

definition merged_data_trace :: "data_trace \<Rightarrow> data_trace \<Rightarrow> exn + data_trace" where
  "merged_data_trace ev pending =
     make_data_trace \<lparr>dt_comparator = dt_comparator ev, dt_pc = py_or (dt_pc ev) (dt_pc pending),
       dt_address = py_or (dt_address ev) (dt_address pending), dt_value = py_or (dt_value ev) (dt_value pending),
       dt_is_read = py_or_bool (dt_is_read ev) (dt_is_read pending), dt_size = py_or (dt_size ev) (dt_size pending),
       dt_timestamp = dt_timestamp pending\<rparr>"

definition merge_data_trace_events :: "trace_event \<Rightarrow> (swo, bool) exec" where
  "merge_data_trace_events event =
     bind get_state (\<lambda>s.
       case event of
         TraceDataTraceEvent d \<Rightarrow>
           (case sw_pending_data_trace s of
              None \<Rightarrow> bind (modify (\<lambda>s. s\<lparr>sw_pending_data_trace := Some d\<rparr>)) (\<lambda>_. ret True)
            | Some p \<Rightarrow>
                bind (if dt_comparator d = dt_comparator p then lift_res (merged_data_trace d p) else ret p) (\<lambda>ev.
                bind (modify (\<lambda>s. s\<lparr>sw_pending_events := sw_pending_events s @ [TraceDataTraceEvent ev], sw_pending_data_trace := None\<rparr>)) (\<lambda>_.
                  ret True)))
       | _ \<Rightarrow>
           (case sw_pending_data_trace s of
              None \<Rightarrow> ret False
            | Some p \<Rightarrow>
                bind (modify (\<lambda>s. s\<lparr>sw_pending_events := sw_pending_events s @ [TraceDataTraceEvent p], sw_pending_data_trace := None\<rparr>)) (\<lambda>_.
                  ret False)))"

definition send_event :: "trace_event \<Rightarrow> (swo, unit) exec" where
  "send_event event =
     bind (merge_data_trace_events event) (\<lambda>merged.
       if merged then ret ()
       else
         (case event of
            TraceTimestamp tc ts \<Rightarrow>
              bind (modify (\<lambda>s. s\<lparr>sw_pending_events := map (set_timestamp ts) (sw_pending_events s)\<rparr>)) (\<lambda>_. modify flush_events)
          | TraceOverflow ts \<Rightarrow>
              bind (modify (\<lambda>s. s\<lparr>sw_pending_events := sw_pending_events s @ [event]\<rparr>)) (\<lambda>_. modify flush_events)
          | _ \<Rightarrow> modify (\<lambda>s. s\<lparr>sw_pending_events := sw_pending_events s @ [event]\<rparr>)))"

subsection \<open>Packets\<close>

definition wait_for :: "wait \<Rightarrow> (swo, unit) exec" where
  "wait_for w = modify (\<lambda>s. s\<lparr>sw_wait := w\<rparr>)"

definition local_time :: "int \<Rightarrow> int \<Rightarrow> (swo, unit) exec" where
  "local_time tc ts =
     bind (modify (\<lambda>s. s\<lparr>sw_timestamp := sw_timestamp s + ts\<rparr>)) (\<lambda>_.
     bind get_state (\<lambda>s. bind (send_event (TraceTimestamp tc (sw_timestamp s))) (\<lambda>_. wait_for Header)))"

definition set_page :: "int \<Rightarrow> int \<Rightarrow> (swo, unit) exec" where
  "set_page sh ex =
     bind (if sh = 0 then modify (\<lambda>s. s\<lparr>sw_itm_page := ex\<rparr>) else ret ()) (\<lambda>_. wait_for Header)"

text \<open>The length of a source packet's payload, and the payload.\<close>

definition payload_length :: "int \<Rightarrow> int" where
  "payload_length hdr = push_bit (nat ((hdr AND 3) - 1)) 1"

fun payload_of :: "int list \<Rightarrow> int" where
  "payload_of [b1] = b1"
| "payload_of [b1, b2] = b1 OR push_bit 8 b2"
| "payload_of bs = u32_of_bytes bs"

definition NO_DATA_TRACE :: data_trace where
  "NO_DATA_TRACE = \<lparr>dt_comparator = 0, dt_pc = None, dt_address = None, dt_value = None, dt_is_read = None, dt_size = None, dt_timestamp = 0\<rparr>"

definition data_trace_of :: "int \<Rightarrow> int \<Rightarrow> int \<Rightarrow> data_trace option" where
  "data_trace_of hdr payload ts =
     (let typ = drop_bit 6 hdr AND 3; bit3 = drop_bit 3 hdr AND 1;
          d = NO_DATA_TRACE\<lparr>dt_comparator := drop_bit 4 hdr AND 3, dt_timestamp := ts\<rparr> in
      if typ = 1 \<and> bit3 = 0 then Some (d\<lparr>dt_pc := Some payload\<rparr>)
      else if typ = 1 \<and> bit3 = 1 then Some (d\<lparr>dt_address := Some payload\<rparr>)
      else if typ = 2 then Some (d\<lparr>dt_value := Some payload, dt_is_read := Some (bit3 = 0), dt_size := Some (payload_length hdr)\<rparr>)
      else None)"

text \<open>The events of a source packet; \<open>names\<close> is the core's \<open>exception_number_to_name\<close>.\<close>

definition source_packet :: "(int \<Rightarrow> string option) \<Rightarrow> int \<Rightarrow> int \<Rightarrow> (swo, unit) exec" where
  "source_packet names hdr payload =
     bind get_state (\<lambda>s. let a = drop_bit 3 hdr AND 0x1f; ts = sw_timestamp s in
       if hdr AND 4 = 0 then send_event (TraceITMEvent (sw_itm_page s * 32 + a) payload (payload_length hdr) ts)
       else if a = 0 then send_event (TraceEventCounter payload ts)
       else if a = 1 then
         (let n = payload AND 0x1ff; fn = drop_bit 12 payload AND 3 in
          if 1 \<le> fn \<and> fn \<le> 3
          then send_event (TraceExceptionEvent n (case names n of None \<Rightarrow> [] | Some nm \<Rightarrow> nm) fn ts) else ret ())
       else if a = 2 then send_event (TracePeriodicPC payload ts)
       else if 8 \<le> a \<and> a \<le> 23 then
         (case data_trace_of hdr payload ts of Some d \<Rightarrow> send_event (TraceDataTraceEvent d) | None \<Rightarrow> ret ())
       else ret ())"

definition on_header :: "int \<Rightarrow> (swo, unit) exec" where
  "on_header hdr =
     bind get_state (\<lambda>s.
       if hdr = 0 then wait_for (Sync 1)
       else if hdr = 0x70 then bind (send_event (TraceOverflow (sw_timestamp s))) (\<lambda>_. wait_for Header)
       else if hdr AND 3 = 0 then
         (let c = drop_bit 7 hdr AND 1; d = drop_bit 4 hdr AND 7 in
          if hdr AND 0xf = 0 \<and> d \<noteq> 0 \<and> d \<noteq> 3 then
            (if c = 1 then wait_for (LocalTime (drop_bit 4 hdr AND 3) 0) else local_time 0 (drop_bit 4 hdr AND 7))
          else if hdr = 0x94 \<or> hdr = 0xB4 then wait_for Header
          else if hdr AND 8 = 8 then
            (let sh = drop_bit 2 hdr AND 1 in
             if c = 0 then set_page sh (drop_bit 4 hdr AND 7) else wait_for (Extension sh 0))
          else wait_for Header)
       else wait_for (Payload hdr []))"

text \<open>The generator resumed with a byte.\<close>

definition resume :: "(int \<Rightarrow> string option) \<Rightarrow> int \<Rightarrow> (swo, unit) exec" where
  "resume names byte =
     bind get_state (\<lambda>s.
       case sw_wait s of
         Header \<Rightarrow> on_header byte
       | Sync packets \<Rightarrow>
           if packets \<ge> 5 \<and> byte = 0x80 then bind (modify (\<lambda>s. s\<lparr>sw_itm_page := 0\<rparr>)) (\<lambda>_. wait_for Header)
           else if byte = 0 then wait_for (Sync (packets + 1))
           else bind (modify (\<lambda>s. s\<lparr>sw_itm_page := 0\<rparr>)) (\<lambda>_. wait_for Header)
       | LocalTime tc ts \<Rightarrow>
           (let ts = push_bit 7 ts OR (byte AND 0x7f) in
            if drop_bit 7 byte AND 1 = 1 then wait_for (LocalTime tc ts) else local_time tc ts)
       | Extension sh ex \<Rightarrow>
           (let ex = push_bit 7 ex OR (byte AND 0x7f) in
            if drop_bit 7 byte AND 1 = 1 then wait_for (Extension sh ex) else set_page sh ex)
       | Payload hdr bs \<Rightarrow>
           (let bs = bs @ [byte] in
            if int (length bs) < payload_length hdr then wait_for (Payload hdr bs)
            else bind (source_packet names hdr (payload_of bs)) (\<lambda>_. wait_for Header))
       | Finished \<Rightarrow> raise StopIteration)"

text \<open>\<open>send\<close>: a generator that raises is finished.\<close>

definition parser_send :: "(int \<Rightarrow> string option) \<Rightarrow> int \<Rightarrow> (swo, unit) exec" where
  "parser_send names byte s =
     (case resume names byte s of (Inl e, s') \<Rightarrow> (Inl e, s'\<lparr>sw_wait := Finished\<rparr>) | (Inr _, s') \<Rightarrow> (Inr (), s'))"

definition swo_parse :: "(int \<Rightarrow> string option) \<Rightarrow> int list \<Rightarrow> (swo, unit) exec" where
  "swo_parse names data =
     for_each (\<lambda>b. bind (parser_send names b) (\<lambda>_. modify (\<lambda>s. s\<lparr>sw_bytes_parsed := sw_bytes_parsed s + 1\<rparr>))) data"

subsection \<open>Flaws of the merging of data traces\<close>

text \<open>A PC or address followed by a written value of the same comparator fails an assertion.\<close>

lemma merge_write_asserts:
  assumes "dt_comparator p = dt_comparator d" and "dt_is_read p = None" and "dt_is_read d = Some False" and "dt_value d = Some v" and "v \<noteq> 0"
  shows "merged_data_trace d p = Inl AssertionError"
  using assms by (simp add: merged_data_trace_def make_data_trace_def py_or_def py_or_bool_def)

text \<open>A value of 0 is lost.\<close>

lemma merge_loses_zero:
  assumes "dt_value p = None" and "dt_value d = Some 0"
  shows "\<exists>m. merged_data_trace d p = Inr m \<and> dt_value m = None"
  using assms by (simp add: merged_data_trace_def make_data_trace_def py_or_def)

text \<open>Of two data traces of different comparators the second is lost.\<close>

lemma merge_drops_second:
  assumes "sw_pending_data_trace s = Some p" and "dt_comparator d \<noteq> dt_comparator p"
  shows "send_event (TraceDataTraceEvent d) s = (Inr (),
    s\<lparr>sw_pending_events := sw_pending_events s @ [TraceDataTraceEvent p], sw_pending_data_trace := None\<rparr>)"
  using assms by (simp add: send_event_def merge_data_trace_events_def bind_def)

subsection \<open>Streams of packets\<close>

text \<open>
  The packets of the protocol as a source sends them.  A local time stamp with more than seven bits and
  data traces are left out: the parser does not read them as the protocol has them.
\<close>

datatype packet =
    PSync nat
  | POverflow
  | PStamp1 int int
  | PStamp2 int
  | PPage int
  | PItm int nat int
  | PHardware int nat int

definition width_code :: "nat \<Rightarrow> int" where
  "width_code w = (if w = 1 then 1 else if w = 2 then 2 else 3)"

fun packet_ok :: "packet \<Rightarrow> bool" where
  "packet_ok (PSync n) \<longleftrightarrow> 5 \<le> n"
| "packet_ok POverflow \<longleftrightarrow> True"
| "packet_ok (PStamp1 tc ts) \<longleftrightarrow> 0 \<le> tc \<and> tc < 4 \<and> 0 \<le> ts \<and> ts < 128"
| "packet_ok (PStamp2 ts) \<longleftrightarrow> ts \<in> {1, 2, 4, 5, 6}"
| "packet_ok (PPage n) \<longleftrightarrow> 0 \<le> n \<and> n < 8"
| "packet_ok (PItm a w d) \<longleftrightarrow> 0 \<le> a \<and> a < 32 \<and> w \<in> {1, 2, 4} \<and> is_uint (8 * w) d"
| "packet_ok (PHardware a w d) \<longleftrightarrow> a \<in> {0, 1, 2} \<and> w \<in> {1, 2, 4} \<and> is_uint (8 * w) d"

fun encode_packet :: "packet \<Rightarrow> int list" where
  "encode_packet (PSync n) = replicate n 0 @ [0x80]"
| "encode_packet POverflow = [0x70]"
| "encode_packet (PStamp1 tc ts) = [0xC0 + 16 * tc, ts]"
| "encode_packet (PStamp2 ts) = [16 * ts]"
| "encode_packet (PPage n) = [16 * n + 8]"
| "encode_packet (PItm a w d) = (8 * a + width_code w) # word_bytes w d"
| "encode_packet (PHardware a w d) = (8 * a + 4 + width_code w) # word_bytes w d"

text \<open>What a packet says, on the stimulus page and at the time it comes.\<close>

fun event_of :: "(int \<Rightarrow> string option) \<Rightarrow> int \<Rightarrow> int \<Rightarrow> packet \<Rightarrow> trace_event option" where
  "event_of names page time (PItm a w d) = Some (TraceITMEvent (page * 32 + a) d (int w) time)"
| "event_of names page time (PHardware a w d) =
     (if a = 0 then Some (TraceEventCounter d time)
      else if a = 1 then
        (if d div 4096 mod 4 = 0 then None
         else Some (TraceExceptionEvent (d mod 512) (case names (d mod 512) of None \<Rightarrow> [] | Some nm \<Rightarrow> nm) (d div 4096 mod 4) time))
      else Some (TracePeriodicPC d time))"
| "event_of names page time _ = None"

text \<open>
  The events the sink is to receive: those between two time stamps carry the later one, an overflow
  passes on what there is, and what no time stamp follows is kept back.
\<close>

fun deliver :: "(int \<Rightarrow> string option) \<Rightarrow> int \<Rightarrow> int \<Rightarrow> trace_event list \<Rightarrow> packet list \<Rightarrow> trace_event list" where
  "deliver names page time pend [] = []"
| "deliver names page time pend (PSync _ # ps) = deliver names 0 time pend ps"
| "deliver names page time pend (POverflow # ps) = pend @ [TraceOverflow time] @ deliver names page time [] ps"
| "deliver names page time pend (PStamp1 _ ts # ps) = map (set_timestamp (time + ts)) pend @ deliver names page (time + ts) [] ps"
| "deliver names page time pend (PStamp2 ts # ps) = map (set_timestamp (time + ts)) pend @ deliver names page (time + ts) [] ps"
| "deliver names page time pend (PPage n # ps) = deliver names n time pend ps"
| "deliver names page time pend (p # ps) =
     deliver names page time (pend @ (case event_of names page time p of None \<Rightarrow> [] | Some e \<Rightarrow> [e])) ps"

text \<open>Between packets, with the given page, time, events kept back and received.\<close>

definition between :: "int \<Rightarrow> int \<Rightarrow> trace_event list \<Rightarrow> trace_event list \<Rightarrow> swo \<Rightarrow> bool" where
  "between page time pend out s \<longleftrightarrow> sw_wait s = Header \<and> sw_pending_data_trace s = None \<and> sw_itm_page s = page \<and> sw_timestamp s = time
     \<and> sw_pending_events s = pend \<and> sw_sink s = Some out"

lemma send_event_plain:
  assumes "between page time pend out s"
    and "case event of TraceOverflow t \<Rightarrow> False | TraceTimestamp tc t \<Rightarrow> False | TraceDataTraceEvent d \<Rightarrow> False | _ \<Rightarrow> True"
  shows "send_event event s = (Inr (), s\<lparr>sw_pending_events := pend @ [event]\<rparr>)"
  using assms by (cases event) (simp_all add: between_def send_event_def merge_data_trace_events_def bind_def)

lemma send_event_overflow:
  "between page time pend out s \<Longrightarrow>
   send_event (TraceOverflow t) s = (Inr (), s\<lparr>sw_pending_events := [], sw_sink := Some (out @ pend @ [TraceOverflow t])\<rparr>)"
  by (simp add: between_def send_event_def merge_data_trace_events_def bind_def flush_events_def)

lemma send_event_timestamp:
  "between page time pend out s \<Longrightarrow>
   send_event (TraceTimestamp tc t) s = (Inr (), s\<lparr>sw_pending_events := [], sw_sink := Some (out @ map (set_timestamp t) pend)\<rparr>)"
  by (simp add: between_def send_event_def merge_data_trace_events_def bind_def flush_events_def)

lemma swo_parse_Nil [simp]: "swo_parse names [] s = (Inr (), s)"
  by (simp add: swo_parse_def)

lemma swo_parse_Cons: "swo_parse names (b # bs) s = (case parser_send names b s of
    (Inl e, s') \<Rightarrow> (Inl e, s') | (Inr _, s') \<Rightarrow> swo_parse names bs (s'\<lparr>sw_bytes_parsed := sw_bytes_parsed s' + 1\<rparr>))"
  by (simp add: swo_parse_def bind_def split: prod.splits sum.splits)

lemma swo_parse_append: "swo_parse names (xs @ ys) s = (case swo_parse names xs s of
    (Inl e, s') \<Rightarrow> (Inl e, s') | (Inr _, s') \<Rightarrow> swo_parse names ys s')"
  by (induction xs arbitrary: s) (auto simp: swo_parse_Cons split: prod.splits sum.splits)

text \<open>The bytes of a payload, then what the packet does.\<close>

lemma payload_word_bytes:
  assumes "w \<in> {1, 2, 4}" and "is_uint (8 * w) d"
  shows "payload_of (word_bytes w d) = d"
proof -
  have byte: "is_byte (x AND 255)" for x by (simp add: and_255_mod is_byte_def)
  from assms(1) consider "w = 1" | "w = 2" | "w = 4" by auto
  then show ?thesis
  proof cases
    case 1
    then show ?thesis using assms(2) by (simp add: word_bytes_def is_uint_def and_255_mod)
  next
    case 2
    have b: "word_bytes 2 d = [d AND 255, drop_bit 8 d AND 255]" by (simp add: word_bytes_def upt_rec numeral_eq_Suc)
    have "payload_of (word_bytes 2 d) = le_word (word_bytes 2 d)" unfolding b payload_of.simps by (rule or_bytes2 [OF byte])
    also have "\<dots> = d" using assms(2) 2 by (simp add: le_word_word_bytes is_uint_def take_bit_int_eq_self)
    finally show ?thesis using 2 by simp
  next
    case 3
    have b: "word_bytes 4 d = [d AND 255, drop_bit 8 d AND 255, drop_bit 16 d AND 255, drop_bit 24 d AND 255]"
      by (simp add: word_bytes_def upt_rec numeral_eq_Suc)
    show ?thesis using assms(2) unfolding 3 b payload_of.simps by (intro u32_of_split) simp
  qed
qed

lemma source_header:
  fixes a k c :: int
  assumes "c \<in> {1, 2, 3}" and "0 \<le> a" and "a < 32" and "k \<in> {0, 1}"
  defines "h \<equiv> 8 * a + 4 * k + c"
  shows "h \<noteq> 0" "h \<noteq> 0x70" "h AND 3 = c" "drop_bit 3 h AND 31 = a" "h AND 4 = 0 \<longleftrightarrow> k = 0"
proof -
  have m: "h mod 4 = c" using assms(1,4) unfolding h_def by (elim insertE emptyE; presburger)
  then show "h AND 3 = c" by (simp add: and_3_mod)
  show "h \<noteq> 0" "h \<noteq> 0x70" using m assms(1) by auto
  have "h div 8 = a" using assms(1,4) unfolding h_def by (elim insertE emptyE; presburger)
  then show "drop_bit 3 h AND 31 = a" using assms(2,3) and_low_mask [of a 5] by (simp add: drop_bit_eq_div)
  have "odd (h div 4) \<longleftrightarrow> k = 1" using assms(1,4) unfolding h_def by (elim insertE emptyE; presburger)
  then have "bit h 2 \<longleftrightarrow> k = 1" by (simp add: bit_iff_odd)
  then show "h AND 4 = 0 \<longleftrightarrow> k = 0" using and_exp_eq_0_iff_not_bit [of h 2] assms(4) by auto
qed

lemma width: "w \<in> {1, 2, 4} \<Longrightarrow> width_code w \<in> {1, 2, 3} \<and> push_bit (nat (width_code w - 1)) (1::int) = int w"
  by (auto simp: width_code_def)

lemma swo_swap: "s\<lparr>sw_bytes_parsed := n, sw_wait := x\<rparr> = s\<lparr>sw_wait := x, sw_bytes_parsed := n\<rparr>"
  by (cases s) simp

text \<open>A source packet is read up to its payload, and then acted on.\<close>

lemma parse_source:
  assumes s: "sw_wait s = Header" and h: "h \<noteq> 0" "h \<noteq> 0x70" "h AND 3 = width_code w" and w: "w \<in> {1, 2, 4}" and d: "is_uint (8 * w) d"
  shows "swo_parse names (h # word_bytes w d) s =
    (case bind (source_packet names h d) (\<lambda>_. wait_for Header) (s\<lparr>sw_wait := Payload h (butlast (word_bytes w d)), sw_bytes_parsed := sw_bytes_parsed s + int w\<rparr>) of
       (Inl e, s') \<Rightarrow> (Inl e, s'\<lparr>sw_wait := Finished\<rparr>) | (Inr _, s') \<Rightarrow> (Inr (), s'\<lparr>sw_bytes_parsed := sw_bytes_parsed s' + 1\<rparr>))"
proof -
  have len: "payload_length h = int w" using width [OF w] h(3) by (simp add: payload_length_def)
  have ne: "h AND 3 \<noteq> 0" using h(3) width [OF w] by auto
  have first: "parser_send names h s = (Inr (), s\<lparr>sw_wait := Payload h []\<rparr>)"
    using s h(1,2) ne by (simp add: parser_send_def resume_def on_header_def wait_for_def bind_def)
  have more: "parser_send names b (s'\<lparr>sw_wait := Payload h bs\<rparr>) = (Inr (), s'\<lparr>sw_wait := Payload h (bs @ [b])\<rparr>)"
    if "int (length bs) + 1 < int w" for b bs s'
    using that by (simp add: parser_send_def resume_def wait_for_def bind_def Let_def len)
  have last: "parser_send names b (s'\<lparr>sw_wait := Payload h bs\<rparr>) =
      (case bind (source_packet names h (payload_of (bs @ [b]))) (\<lambda>_. wait_for Header) (s'\<lparr>sw_wait := Payload h bs\<rparr>) of
       (Inl e, s') \<Rightarrow> (Inl e, s'\<lparr>sw_wait := Finished\<rparr>) | (Inr _, s') \<Rightarrow> (Inr (), s'))"
    if "int (length bs) + 1 = int w" for b bs s'
    using that by (simp add: parser_send_def resume_def bind_def Let_def len cong: if_cong)
  have pay: "payload_of (word_bytes w d) = d" by (rule payload_word_bytes [OF w d])
  have run: "swo_parse names cs (s'\<lparr>sw_wait := Payload h bs\<rparr>) =
     (case bind (source_packet names h d) (\<lambda>_. wait_for Header)
        (s'\<lparr>sw_wait := Payload h (butlast (word_bytes w d)), sw_bytes_parsed := sw_bytes_parsed s' + int (length cs) - 1\<rparr>) of
       (Inl e, s') \<Rightarrow> (Inl e, s'\<lparr>sw_wait := Finished\<rparr>) | (Inr _, s') \<Rightarrow> (Inr (), s'\<lparr>sw_bytes_parsed := sw_bytes_parsed s' + 1\<rparr>))"
    if "bs @ cs = word_bytes w d" "cs \<noteq> []" for cs bs s'
    using that
  proof (induction cs arbitrary: bs s')
    case (Cons c cs)
    have l: "length bs + Suc (length cs) = w" using Cons.prems(1) by (metis length_append length_Cons length_word_bytes)
    show ?case
    proof (cases "cs = []")
      case True
      then have bs: "bs = butlast (word_bytes w d)" "bs @ [c] = word_bytes w d" using Cons.prems(1) by (metis butlast_snoc) (use Cons.prems(1) True in simp)
      have one: "int (length bs) + 1 = int w" using l True by simp
      have same: "s'\<lparr>sw_wait := Payload h bs, sw_bytes_parsed := sw_bytes_parsed s'\<rparr> = s'\<lparr>sw_wait := Payload h bs\<rparr>" by simp
      show ?thesis using True unfolding swo_parse_Cons last [OF one] bs(2) pay bs(1) [symmetric]
        by (simp add: same split: prod.splits sum.splits)
    next
      case False
      have lt: "int (length bs) + 1 < int w" using l False by (cases cs) auto
      have IH: "swo_parse names cs (s''\<lparr>sw_wait := Payload h (bs @ [c])\<rparr>) =
         (case bind (source_packet names h d) (\<lambda>_. wait_for Header)
        (s''\<lparr>sw_wait := Payload h (butlast (word_bytes w d)), sw_bytes_parsed := sw_bytes_parsed s'' + int (length cs) - 1\<rparr>) of
       (Inl e, s') \<Rightarrow> (Inl e, s'\<lparr>sw_wait := Finished\<rparr>) | (Inr _, s') \<Rightarrow> (Inr (), s'\<lparr>sw_bytes_parsed := sw_bytes_parsed s' + 1\<rparr>))" for s''
        by (rule Cons.IH) (use Cons.prems False in auto)
      show ?thesis using IH [of "s'\<lparr>sw_bytes_parsed := sw_bytes_parsed s' + 1\<rparr>"]
        by (simp add: swo_parse_Cons more [OF lt] algebra_simps swo_swap)
    qed
  qed simp
  have "word_bytes w d \<noteq> []" using w by (auto simp: word_bytes_def)
  then show ?thesis using run [of "[]" "word_bytes w d" "s\<lparr>sw_bytes_parsed := sw_bytes_parsed s + 1\<rparr>"]
    by (simp add: swo_parse_Cons first algebra_simps swo_swap)
qed

text \<open>One packet: the parser and the specification go on together.\<close>

definition follows :: "(int \<Rightarrow> string option) \<Rightarrow> packet \<Rightarrow> int \<Rightarrow> int \<Rightarrow> trace_event list \<Rightarrow> trace_event list \<Rightarrow> swo \<Rightarrow> swo \<Rightarrow> bool" where
  "follows names p page time pend out s s' \<longleftrightarrow> (\<exists>page' time' pend' out'. between page' time' pend' out' s'
     \<and> sw_bytes_parsed s' = sw_bytes_parsed s + int (length (encode_packet p))
     \<and> (\<forall>ps. out @ deliver names page time pend (p # ps) = out' @ deliver names page' time' pend' ps))"

lemma followsI:
  "between page' time' pend' out' s' \<Longrightarrow> sw_bytes_parsed s' = sw_bytes_parsed s + int (length (encode_packet p)) \<Longrightarrow>
   (\<And>ps. out @ deliver names page time pend (p # ps) = out' @ deliver names page' time' pend' ps) \<Longrightarrow> follows names p page time pend out s s'"
  unfolding follows_def by blast

lemma parse_sync:
  assumes s: "between page time pend out s" and n: "5 \<le> n"
  shows "\<exists>s'. swo_parse names (encode_packet (PSync n)) s = (Inr (), s') \<and> follows names (PSync n) page time pend out s s'"
proof -
  have zeros: "swo_parse names (replicate k 0) (t\<lparr>sw_wait := Sync i\<rparr>) = (Inr (), t\<lparr>sw_wait := Sync (i + int k), sw_bytes_parsed := sw_bytes_parsed t + int k\<rparr>)" for k i t
  proof (induction k arbitrary: i t)
    case (Suc k)
    show ?case using Suc [where t = "t\<lparr>sw_bytes_parsed := sw_bytes_parsed t + 1\<rparr>" and i = "i + 1"]
      by (simp add: swo_parse_Cons parser_send_def resume_def wait_for_def bind_def swo_swap algebra_simps)
  qed simp
  obtain k where k: "n = Suc k" using n by (cases n) auto
  let ?s = "s\<lparr>sw_wait := Header, sw_bytes_parsed := sw_bytes_parsed s + int n + 1, sw_itm_page := 0\<rparr>"
  have "swo_parse names (encode_packet (PSync n)) s = (Inr (), ?s)"
    using s n zeros [where k = k and t = "s\<lparr>sw_bytes_parsed := sw_bytes_parsed s + 1\<rparr>" and i = 1]
    by (simp add: k swo_parse_append swo_parse_Cons parser_send_def resume_def on_header_def wait_for_def bind_def between_def swo_swap algebra_simps)
  moreover have "follows names (PSync n) page time pend out s ?s"
    by (rule followsI [where page' = 0 and time' = time and pend' = pend and out' = out]) (use s in \<open>auto simp: between_def\<close>)
  ultimately show ?thesis by blast
qed

text \<open>The header of a packet that fits the sixteen values of a nibble.\<close>

lemma parse_stamp:
  assumes s: "between page time pend out s" and ok: "packet_ok (PStamp1 tc ts)"
  shows "\<exists>s'. swo_parse names (encode_packet (PStamp1 tc ts)) s = (Inr (), s') \<and> follows names (PStamp1 tc ts) page time pend out s s'"
proof -
  from ok have "tc \<in> {0, 1, 2, 3}" "0 \<le> ts" "ts < 128" by auto
  then have hdr: "parser_send names (0xC0 + 16 * tc) s = (Inr (), s\<lparr>sw_wait := LocalTime tc 0\<rparr>)"
    using s by (auto simp: parser_send_def resume_def on_header_def wait_for_def bind_def between_def drop_bit_eq_div)
  have low: "ts AND 127 = ts" "drop_bit 7 ts AND 1 = 0" using \<open>0 \<le> ts\<close> \<open>ts < 128\<close> and_low_mask [of ts 7] by (simp_all add: drop_bit_eq_div)
  let ?t = "s\<lparr>sw_wait := LocalTime tc 0, sw_bytes_parsed := sw_bytes_parsed s + 1, sw_timestamp := time + ts\<rparr>"
  have "between page (time + ts) pend out (?t\<lparr>sw_wait := Header\<rparr>)" using s by (simp add: between_def)
  have send: "send_event (TraceTimestamp tc (time + ts)) ?t = (Inr (), ?t\<lparr>sw_pending_events := [], sw_sink := Some (out @ map (set_timestamp (time + ts)) pend)\<rparr>)"
    using s by (simp add: between_def send_event_def merge_data_trace_events_def bind_def flush_events_def)
  have "parser_send names ts (s\<lparr>sw_wait := LocalTime tc 0, sw_bytes_parsed := sw_bytes_parsed s + 1\<rparr>) =
     (Inr (), ?t\<lparr>sw_pending_events := [], sw_sink := Some (out @ map (set_timestamp (time + ts)) pend), sw_wait := Header\<rparr>)"
    using s send by (simp add: parser_send_def resume_def local_time_def wait_for_def bind_def low between_def Let_def)
  then have "swo_parse names (encode_packet (PStamp1 tc ts)) s = (Inr (),
     ?t\<lparr>sw_pending_events := [], sw_sink := Some (out @ map (set_timestamp (time + ts)) pend), sw_wait := Header, sw_bytes_parsed := sw_bytes_parsed s + 2\<rparr>)"
    by (simp add: swo_parse_Cons hdr)
  then show ?thesis
    by (intro exI conjI, assumption,
        intro followsI [where page' = page and time' = "time + ts" and pend' = "[]" and out' = "out @ map (set_timestamp (time + ts)) pend"])
      (use s in \<open>simp_all add: between_def\<close>)
qed

lemma parse_short:
  assumes s: "between page time pend out s" and p: "p = POverflow \<or> p = PStamp2 ts \<or> p = PPage n" and ok: "packet_ok p"
  shows "\<exists>s'. swo_parse names (encode_packet p) s = (Inr (), s') \<and> follows names p page time pend out s s'"
  using p
proof (elim disjE)
  assume p: "p = POverflow"
  have "swo_parse names (encode_packet p) s = (Inr (), s\<lparr>sw_pending_events := [], sw_sink := Some (out @ pend @ [TraceOverflow time]), sw_wait := Header,
      sw_bytes_parsed := sw_bytes_parsed s + 1\<rparr>)"
    using s send_event_overflow [OF s, of time]
    by (simp add: p swo_parse_Cons parser_send_def resume_def on_header_def wait_for_def bind_def between_def)
  then show ?thesis
    by (intro exI conjI, assumption,
        intro followsI [where page' = page and time' = time and pend' = "[]" and out' = "out @ pend @ [TraceOverflow time]"])
      (use s in \<open>simp_all add: between_def p\<close>)
next
  assume p: "p = PStamp2 ts"
  let ?t = "s\<lparr>sw_timestamp := time + ts\<rparr>"
  have send: "send_event (TraceTimestamp 0 (time + ts)) ?t = (Inr (), ?t\<lparr>sw_pending_events := [], sw_sink := Some (out @ map (set_timestamp (time + ts)) pend)\<rparr>)"
    using s by (simp add: between_def send_event_def merge_data_trace_events_def bind_def flush_events_def)
  have hdr: "on_header (16 * ts) s = local_time 0 ts s"
    using ok by (auto simp: p on_header_def bind_def drop_bit_eq_div)
  have "swo_parse names (encode_packet p) s = (Inr (), ?t\<lparr>sw_pending_events := [], sw_sink := Some (out @ map (set_timestamp (time + ts)) pend), sw_wait := Header,
      sw_bytes_parsed := sw_bytes_parsed s + 1\<rparr>)"
    using s send by (simp add: p swo_parse_Cons parser_send_def resume_def hdr local_time_def wait_for_def bind_def between_def)
  then show ?thesis
    by (intro exI conjI, assumption,
        intro followsI [where page' = page and time' = "time + ts" and pend' = "[]" and out' = "out @ map (set_timestamp (time + ts)) pend"])
      (use s in \<open>simp_all add: between_def p\<close>)
next
  assume p: "p = PPage n"
  then have "n \<in> {0, 1, 2, 3, 4, 5, 6, 7}" using ok by auto
  then have hdr: "on_header (16 * n + 8) s = set_page 0 n s"
    by (auto simp: on_header_def bind_def drop_bit_eq_div)
  have "swo_parse names (encode_packet p) s = (Inr (), s\<lparr>sw_itm_page := n, sw_wait := Header, sw_bytes_parsed := sw_bytes_parsed s + 1\<rparr>)"
    using s by (simp add: p swo_parse_Cons parser_send_def resume_def hdr set_page_def wait_for_def bind_def between_def)
  then show ?thesis
    by (intro exI conjI, assumption, intro followsI [where page' = n and time' = time and pend' = pend and out' = out])
      (use s in \<open>simp_all add: between_def p\<close>)
qed

text \<open>A source packet whose event is \<open>ev\<close>.\<close>

lemma parse_event:
  assumes s: "between page time pend out s" and h: "h \<noteq> 0" "h \<noteq> 0x70" "h AND 3 = width_code w" and w: "w \<in> {1, 2, 4}" "is_uint (8 * w) d"
    and p: "encode_packet p = h # word_bytes w d" "\<And>ps. deliver names page time pend (p # ps) =
       deliver names page time (pend @ (case ev of None \<Rightarrow> [] | Some e \<Rightarrow> [e])) ps"
    and run: "\<And>t. between page time pend out (t\<lparr>sw_wait := Header\<rparr>) \<Longrightarrow>
       source_packet names h d t = (Inr (), t\<lparr>sw_pending_events := pend @ (case ev of None \<Rightarrow> [] | Some e \<Rightarrow> [e])\<rparr>)"
  shows "\<exists>s'. swo_parse names (encode_packet p) s = (Inr (), s') \<and> follows names p page time pend out s s'"
proof -
  let ?new = "pend @ (case ev of None \<Rightarrow> [] | Some e \<Rightarrow> [e])"
  let ?t = "s\<lparr>sw_wait := Payload h (butlast (word_bytes w d)), sw_bytes_parsed := sw_bytes_parsed s + int w\<rparr>"
  have "between page time pend out (?t\<lparr>sw_wait := Header\<rparr>)" using s by (simp add: between_def)
  then have "source_packet names h d ?t = (Inr (), ?t\<lparr>sw_pending_events := ?new\<rparr>)" by (rule run)
  then have "swo_parse names (encode_packet p) s = (Inr (), ?t\<lparr>sw_pending_events := ?new, sw_wait := Header, sw_bytes_parsed := sw_bytes_parsed s + int w + 1\<rparr>)"
    using parse_source [OF _ h w, of s names] s by (simp add: p(1) wait_for_def bind_def between_def)
  then show ?thesis
    by (intro exI conjI, assumption, intro followsI [where page' = page and time' = time and pend' = ?new and out' = out])
      (use s p in \<open>simp_all add: between_def\<close>)
qed

lemma send_event_waiting:
  assumes "between page time pend out (t\<lparr>sw_wait := Header\<rparr>)"
    and "case event of TraceOverflow t \<Rightarrow> False | TraceTimestamp tc t \<Rightarrow> False | TraceDataTraceEvent d \<Rightarrow> False | _ \<Rightarrow> True"
  shows "send_event event t = (Inr (), t\<lparr>sw_pending_events := pend @ [event]\<rparr>)"
  using assms by (cases event) (simp_all add: between_def send_event_def merge_data_trace_events_def bind_def)

lemma and_511_mod: "(x::int) AND 511 = x mod 512"
  using and_low_mask [of x 9] by simp

lemma parse_itm:
  assumes s: "between page time pend out s" and ok: "packet_ok (PItm a w d)"
  shows "\<exists>s'. swo_parse names (encode_packet (PItm a w d)) s = (Inr (), s') \<and> follows names (PItm a w d) page time pend out s s'"
proof -
  let ?h = "8 * a + width_code w"
  from ok have w: "w \<in> {1, 2, 4}" "is_uint (8 * w) d" "0 \<le> a" "a < 32" by auto
  note h = source_header [OF conjunct1 [OF width [OF w(1)]] w(3,4), of 0, simplified]
  have len: "payload_length ?h = int w" using width [OF w(1)] h(3) by (simp add: payload_length_def)
  show ?thesis
  proof (rule parse_event [OF s h(1-3) w(1,2), where ev = "Some (TraceITMEvent (page * 32 + a) d (int w) time)"])
    fix t assume t: "between page time pend out (t\<lparr>sw_wait := Header\<rparr>)"
    then have "sw_itm_page t = page" "sw_timestamp t = time" by (simp_all add: between_def)
    then show "source_packet names ?h d t = (Inr (), t\<lparr>sw_pending_events := pend @ (case Some (TraceITMEvent (page * 32 + a) d (int w) time) of None \<Rightarrow> [] | Some e \<Rightarrow> [e])\<rparr>)"
      using send_event_waiting [OF t, of "TraceITMEvent (page * 32 + a) d (int w) time"] h(4,5) len by (simp add: source_packet_def bind_def Let_def)
  qed simp_all
qed

lemma parse_hardware:
  assumes s: "between page time pend out s" and ok: "packet_ok (PHardware a w d)"
  shows "\<exists>s'. swo_parse names (encode_packet (PHardware a w d)) s = (Inr (), s') \<and> follows names (PHardware a w d) page time pend out s s'"
proof -
  let ?h = "8 * a + 4 + width_code w" and ?ev = "event_of names page time (PHardware a w d)"
  from ok have w: "w \<in> {1, 2, 4}" "is_uint (8 * w) d" "a = 0 \<or> a = 1 \<or> a = 2" by auto
  then have a: "0 \<le> a" "a < 32" by auto
  have h: "?h \<noteq> 0" "?h \<noteq> 0x70" "?h AND 3 = width_code w" "drop_bit 3 ?h AND 31 = a" "?h AND 4 \<noteq> 0"
    using source_header [OF conjunct1 [OF width [OF w(1)]] a, of 1] by simp_all
  show ?thesis
  proof (rule parse_event [OF s h(1-3) w(1,2), where ev = ?ev])
    fix t assume t: "between page time pend out (t\<lparr>sw_wait := Header\<rparr>)"
    then have ts: "sw_timestamp t = time" "sw_pending_events t = pend" by (simp_all add: between_def)
    have fn: "drop_bit 12 d AND 3 = d div 4096 mod 4" by (simp add: and_3_mod drop_bit_eq_div)
    have "0 \<le> d div 4096 mod 4" "d div 4096 mod 4 < 4" by simp_all
    then have range: "(1 \<le> d div 4096 mod 4 \<and> d div 4096 mod 4 \<le> 3) \<longleftrightarrow> d div 4096 mod 4 \<noteq> 0" by linarith
    show "source_packet names ?h d t = (Inr (), t\<lparr>sw_pending_events := pend @ (case ?ev of None \<Rightarrow> [] | Some e \<Rightarrow> [e])\<rparr>)"
      using send_event_waiting [OF t] h(4,5) w(3) ts
      by (auto simp: source_packet_def bind_def Let_def fn range and_511_mod)
  qed simp_all
qed

lemma parse_packet:
  assumes "between page time pend out s" and "packet_ok p"
  shows "\<exists>s'. swo_parse names (encode_packet p) s = (Inr (), s') \<and> follows names p page time pend out s s'"
  using assms parse_sync parse_stamp parse_short parse_itm parse_hardware by (cases p) (auto simp del: encode_packet.simps packet_ok.simps, simp)

lemma parse_packets:
  assumes "between page time pend out s" and "list_all packet_ok ps"
  shows "\<exists>s'. swo_parse names (concat (map encode_packet ps)) s = (Inr (), s') \<and> sw_sink s' = Some (out @ deliver names page time pend ps)
    \<and> sw_wait s' = Header \<and> sw_bytes_parsed s' = sw_bytes_parsed s + int (length (concat (map encode_packet ps)))"
  using assms
proof (induction ps arbitrary: page time pend out s)
  case Nil
  then show ?case by (simp add: between_def)
next
  case (Cons p ps)
  then obtain s1 where s1: "swo_parse names (encode_packet p) s = (Inr (), s1)" "follows names p page time pend out s s1"
    using parse_packet [OF Cons.prems(1), of p names] by auto
  then obtain page' time' pend' out' where f: "between page' time' pend' out' s1"
      "sw_bytes_parsed s1 = sw_bytes_parsed s + int (length (encode_packet p))"
      "\<And>ps. out @ deliver names page time pend (p # ps) = out' @ deliver names page' time' pend' ps"
    unfolding follows_def by blast
  obtain s2 where "swo_parse names (concat (map encode_packet ps)) s1 = (Inr (), s2)" "sw_sink s2 = Some (out' @ deliver names page' time' pend' ps)"
      "sw_wait s2 = Header" "sw_bytes_parsed s2 = sw_bytes_parsed s1 + int (length (concat (map encode_packet ps)))"
    using Cons.IH [OF f(1)] Cons.prems(2) by auto
  then show ?case using s1(1) f(2,3) by (simp add: swo_parse_append)
qed

lemma parse_chunks: "for_each (swo_parse names) chunks s = swo_parse names (concat chunks) s"
proof (induction chunks arbitrary: s)
  case (Cons c chunks)
  then show ?case by (simp add: swo_parse_append bind_def split: prod.splits sum.splits)
qed simp



text \<open>
  Two continuation bytes of a local time stamp are read with the first as the high bits; the packet has
  the low bits first.  A time stamp of 3 in the short form is not read as one.
\<close>

lemma long_timestamp_swapped:
  "sw_timestamp (snd (swo_parse names [0xC0, 0x81, 0x02] (SWOParser (Some [])))) = 0x82"
  by (simp add: swo_parse_Cons parser_send_def resume_def on_header_def local_time_def wait_for_def bind_def SWOParser_def
      drop_bit_eq_div push_bit_eq_mult send_event_def merge_data_trace_events_def flush_events_def)

lemma short_timestamp_3_ignored: "snd (swo_parse names [0x30] (SWOParser (Some []))) = (SWOParser (Some []))\<lparr>sw_bytes_parsed := 1\<rparr>"
  by (simp add: swo_parse_Cons parser_send_def resume_def on_header_def wait_for_def bind_def SWOParser_def drop_bit_eq_div)

end
