(* ===== verification/Memory_Stack.thy ===== *)
theory Memory_Stack
  imports Mem_Ap Memory_Cache
begin

text \<open>
  The stack a debugger reads memory through: the memory cache (\<open>cache/memory.py\<close>) above the
  byte-block operations of \<open>core/memory_interface.py\<close> above the transfers of a MEM-AP
  (\<open>coresight/ap.py\<close>).  The interfaces of the three theories are put on top of each other here:
  a MEM-AP is a \<open>memory_provider\<close>, its block operations are a \<open>block_memory\<close>, and so the cache
  over them is one, too.
\<close>

subsection \<open>A MEM-AP provides memory\<close>

sublocale mem_ap_hw \<subseteq> provider: memory_provider "\<lambda>ap. hmem (ma_dp ap)" "ap_ok hcsw hinv base hpage space" space
    "\<lambda>e _. is_pyocd_error e" "read_memory D" "read_memory_block32 D" "write_memory D" "write_memory_block32 D"
  by unfold_locales

interpretation sim_provider: memory_provider "\<lambda>ap. s_mem (ma_dp ap)" "ap_ok s_csw sim_inv 0 1024 (2 ^ 32)" "2 ^ 32"
    "\<lambda>e _. is_pyocd_error e" "read_memory sim_ops" "read_memory_block32 sim_ops" "write_memory sim_ops"
    "write_memory_block32 sim_ops"
  by (rule sim.provider.memory_provider_axioms)

subsection \<open>The cache above it\<close>

text \<open>
  The context of the cache: the accesses of the debug context, which the core hands on to its
  MEM-AP.  While no software breakpoint is set the breakpoint manager's filters change nothing
  (\<open>Breakpoint_Manager\<close>), and the blocks are those of the AP.  Whether the core runs, and its run
  token, are functions of the state behind.
\<close>

definition ap_env ::
  "'t itree_ops \<Rightarrow> mmap \<Rightarrow> ('p mem_ap \<Rightarrow> bool) \<Rightarrow> ('p mem_ap \<Rightarrow> int) \<Rightarrow> 'p dp_ops \<Rightarrow> ('t, 'p mem_ap) cache_env" where
  "ap_env T m running token D = \<lparr>ce_tree = T, ce_running = running, ce_token = token, ce_map = m,
     ce_read = read_memory_block8 (read_memory D) (read_memory_block32 D),
     ce_write = write_memory_block8 (write_memory D) (write_memory_block32 D)\<rparr>"

lemma ap_env_simps [simp]: "ce_tree (ap_env T m running token D) = T" "ce_running (ap_env T m running token D) = running"
  "ce_token (ap_env T m running token D) = token" "ce_map (ap_env T m running token D) = m"
  "ce_read (ap_env T m running token D) = read_memory_block8 (read_memory D) (read_memory_block32 D)"
  "ce_write (ap_env T m running token D) = write_memory_block8 (write_memory D) (write_memory_block32 D)"
  by (simp_all add: ap_env_def)

locale cached_ap = mem_ap_hw D base hcsw htar hmem hinv hpage space + interval_tree T items
  for D :: "'p dp_ops" and base :: int and hcsw htar :: "'p \<Rightarrow> int" and hmem :: "'p \<Rightarrow> memory"
    and hinv :: "'p \<Rightarrow> bool" and hpage space :: int and T :: "'t itree_ops" and items :: "'t \<Rightarrow> interval set" +
  fixes m :: mmap and running :: "'p mem_ap \<Rightarrow> bool" and token :: "'p mem_ap \<Rightarrow> int"

sublocale cached_ap \<subseteq> stack: cached_context "ap_env T m running token D" items "\<lambda>ap. hmem (ma_dp ap)"
    "ap_ok hcsw hinv base hpage space" space "\<lambda>e _. is_pyocd_error e"
  unfolding cached_context_def ap_env_simps
  by (intro conjI interval_tree_axioms provider.blk.block_memory_axioms)

interpretation sim_stack: cached_ap sim_ops 0 s_csw s_tar s_mem sim_inv 1024 "2 ^ 32" list_tree set demo_map
    "\<lambda>_. False" "\<lambda>_. 7"
  by (intro cached_ap.intro sim.mem_ap_hw_axioms flat.interval_tree_axioms [unfolded flat_env_def, simplified])

subsection \<open>End to end\<close>

text \<open>The exceptions an access through the stack may raise.\<close>

definition stack_error :: "mmap \<Rightarrow> exn \<Rightarrow> bool" where
  "stack_error m e \<longleftrightarrow> is_pyocd_error e \<or> (\<exists>r \<in> set (mm_regions m). getattr r ''is_cacheable'' = Inl e)"

context cached_ap
begin

abbreviation stack_ok :: "('t, 'p mem_ap) mem_cache \<Rightarrow> bool" where
  "stack_ok \<equiv> cache_ok (\<lambda>ap. hmem (ma_dp ap)) items (ap_ok hcsw hinv base hpage space) (ap_env T m running token D)"

lemma stack_fail: "cache_fail (\<lambda>e _. is_pyocd_error e) (ap_env T m running token D) e s \<Longrightarrow> stack_error m e"
  by (auto simp: cache_fail_def stack_error_def is_pyocd_error_def)

lemma write_then_read:
  assumes "stack_ok s" and "all_bytes bs" and "0 \<le> a" "a + int (length bs) \<le> space"
    and "0 \<le> b" "0 \<le> n" "b + n \<le> space"
  shows "wp (bind (cached_write_block8 (ap_env T m running token D) a bs)
      (\<lambda>_. cached_read_block8 (ap_env T m running token D) b n))
    (\<lambda>rs s'. stack_ok s' \<and> hmem (ma_dp (mc_context s')) = mem_write (hmem (ma_dp (mc_context s))) a bs
       \<and> rs = mem_bytes (mem_write (hmem (ma_dp (mc_context s))) a bs) b (nat n))
    (\<lambda>e _. stack_error m e) s"
  unfolding wp_bind
proof (rule wp_mono [OF stack.transparent_write [OF assms(1-4)]])
  fix x s1 assume 1: "stack_ok s1 \<and> hmem (ma_dp (mc_context s1)) = mem_write (hmem (ma_dp (mc_context s))) a bs"
  show "wp (cached_read_block8 (ap_env T m running token D) b n)
    (\<lambda>rs s'. stack_ok s' \<and> hmem (ma_dp (mc_context s')) = mem_write (hmem (ma_dp (mc_context s))) a bs
       \<and> rs = mem_bytes (mem_write (hmem (ma_dp (mc_context s))) a bs) b (nat n)) (\<lambda>e _. stack_error m e) s1"
    by (rule wp_mono [OF stack.transparent_read [OF conjunct1 [OF 1] assms(5-7)]]) (use 1 in \<open>auto dest: stack_fail\<close>)
qed (rule stack_fail)

end

text \<open>A cache without intervals over the simulated AP.\<close>

definition demo_stack :: "(interval list, sim_ap mem_ap) mem_cache" where
  "demo_stack = MemoryCache (ap_env list_tree demo_map (\<lambda>_. False) (\<lambda>_. 7) sim_ops) demo_ap"

lemma demo_stack_ok: "cache_ok (\<lambda>ap. s_mem (ma_dp ap)) set (ap_ok s_csw sim_inv 0 1024 (2 ^ 32))
    (ap_env list_tree demo_map (\<lambda>_. False) (\<lambda>_. 7) sim_ops) demo_stack"
  using demo_ap_ok by (simp add: cache_ok_def demo_stack_def MemoryCache_def list_tree_def)

text \<open>
  C5. The whole stack, from the cache to the transfers of the access port: after a write of bytes
  through the cache, a read of any range through it - the written bytes, a part of them, bytes
  beside them - returns what a flat memory with that write would hold, and the memory behind the
  access port is that flat memory; whatever goes wrong on the way is one of pyOCD's own errors, or
  an exception of a region's attribute.
\<close>

theorem stack_write_read:
  assumes "cached_ap D base hcsw htar hmem hinv hpage space T items"
    and "cache_ok (\<lambda>ap. hmem (ma_dp ap)) items (ap_ok hcsw hinv base hpage space) (ap_env T m running token D) s"
    and "all_bytes bs" and "0 \<le> a" "a + int (length bs) \<le> space" and "0 \<le> b" "0 \<le> n" "b + n \<le> space"
  shows "case cached_write_block8 (ap_env T m running token D) a bs s of
      (Inr _, s1) \<Rightarrow>
        (case cached_read_block8 (ap_env T m running token D) b n s1 of
           (Inr rs, s2) \<Rightarrow> rs = mem_bytes (mem_write (hmem (ma_dp (mc_context s))) a bs) b (nat n)
             \<and> hmem (ma_dp (mc_context s2)) = mem_write (hmem (ma_dp (mc_context s))) a bs
         | (Inl e, _) \<Rightarrow> stack_error m e)
    | (Inl e, _) \<Rightarrow> stack_error m e"
  using cached_ap.write_then_read [OF assms]
  by (auto simp: wp_case bind_def split: prod.splits sum.splits)

theorem stack_write_read_witness:
  "case cached_write_block8 (ap_env list_tree demo_map (\<lambda>_. False) (\<lambda>_. 7) sim_ops) 0x200003fd [1, 2, 3, 4, 5, 6, 7, 8] demo_stack of
      (Inr _, s1) \<Rightarrow>
        (case cached_read_block8 (ap_env list_tree demo_map (\<lambda>_. False) (\<lambda>_. 7) sim_ops) 0x200003fe 4 s1 of
           (Inr rs, s2) \<Rightarrow> rs = mem_bytes (mem_write (s_mem (ma_dp (mc_context demo_stack))) 0x200003fd [1, 2, 3, 4, 5, 6, 7, 8]) 0x200003fe (nat 4)
             \<and> s_mem (ma_dp (mc_context s2)) = mem_write (s_mem (ma_dp (mc_context demo_stack))) 0x200003fd [1, 2, 3, 4, 5, 6, 7, 8]
         | (Inl e, _) \<Rightarrow> stack_error demo_map e)
    | (Inl e, _) \<Rightarrow> stack_error demo_map e"
  by (rule stack_write_read [OF sim_stack.cached_ap_axioms demo_stack_ok]) (simp_all add: is_byte_def)

end
