(* ===== verification/Run_Control.thy ===== *)
theory Run_Control
  imports Register_Access
begin

text \<open>
  Identification, run control, reset and vector catch of a Cortex-M core
  (\<open>coresight/cortex_m.py\<close>, \<open>coresight/cortex_m_v8m.py\<close>), with the enumerations of
  \<open>core/target.py\<close> they use and the reset type option of \<open>utility/cmdline.py\<close>.
\<close>

subsection \<open>Enumerations\<close>

datatype target_state = RUNNING | HALTED | RESET | SLEEPING | LOCKUP

datatype security_state = NONSECURE | SECURE

datatype reset_type = DEFAULT | HARDWARE | SYSTEM | CORE | NSRST | SYSRESETREQ | VECTRESET | EMULATED

datatype run_type = RESUME | STEP

datatype halt_reason = USER | DEBUG | BREAKPOINT | WATCHPOINT | VECTOR_CATCH | EXTERNAL | PMU_EVENT

text \<open>The notifications a core sends, with their data.\<close>

datatype core_event = PRE_HALT halt_reason | POST_HALT halt_reason | PRE_RUN run_type | POST_RUN run_type
  | PRE_RESET | POST_RESET

datatype core_arch = ARMv6M | ARMv7M | ARMv8M_BASE | ARMv8M_MAIN

datatype extension = FPU | DSP | FPU_DP | FPU_HP | FPU_V4 | FPU_V5 | SEC | SEC_V81 | MVE | MVE_FP
  | UDE | RAS | PMU | MPU | PACBTI

subsection \<open>Registers of the core\<close>

definition DFSR :: int where "DFSR = 0xE000ED30"
definition DFSR_EXTERNAL :: int where "DFSR_EXTERNAL = 16"
definition DFSR_VCATCH :: int where "DFSR_VCATCH = 8"
definition DFSR_DWTTRAP :: int where "DFSR_DWTTRAP = 4"
definition DFSR_BKPT :: int where "DFSR_BKPT = 2"
definition DFSR_HALTED :: int where "DFSR_HALTED = 1"
definition DFSR_PMU :: int where "DFSR_PMU = 32"
definition DEMCR :: int where "DEMCR = 0xE000EDFC"
definition DEMCR_VC_SFERR :: int where "DEMCR_VC_SFERR = 2048"
definition DEMCR_VC_HARDERR :: int where "DEMCR_VC_HARDERR = 1024"
definition DEMCR_VC_INTERR :: int where "DEMCR_VC_INTERR = 512"
definition DEMCR_VC_BUSERR :: int where "DEMCR_VC_BUSERR = 256"
definition DEMCR_VC_STATERR :: int where "DEMCR_VC_STATERR = 128"
definition DEMCR_VC_CHKERR :: int where "DEMCR_VC_CHKERR = 64"
definition DEMCR_VC_NOCPERR :: int where "DEMCR_VC_NOCPERR = 32"
definition DEMCR_VC_MMERR :: int where "DEMCR_VC_MMERR = 16"
definition DEMCR_VC_CORERESET :: int where "DEMCR_VC_CORERESET = 1"
definition CPUID :: int where "CPUID = 0xE000ED00"
definition C_DEBUGEN :: int where "C_DEBUGEN = 1"
definition C_HALT :: int where "C_HALT = 2"
definition C_STEP :: int where "C_STEP = 4"
definition C_MASKINTS :: int where "C_MASKINTS = 8"
definition C_PMOV :: int where "C_PMOV = 64"
definition S_HALT :: int where "S_HALT = 0x20000"
definition S_SLEEP :: int where "S_SLEEP = 0x40000"
definition S_LOCKUP :: int where "S_LOCKUP = 0x80000"
definition S_RETIRE_ST :: int where "S_RETIRE_ST = 0x1000000"
definition S_RESET_ST :: int where "S_RESET_ST = 0x2000000"
definition DBGKEY :: int where "DBGKEY = 0xA05F0000"
definition CPACR :: int where "CPACR = 0xE000ED88"
definition ICSR :: int where "ICSR = 0xE000ED04"
definition ICSR_PENDSVCLR :: int where "ICSR_PENDSVCLR = 0x8000000"
definition ICSR_PENDSTCLR :: int where "ICSR_PENDSTCLR = 0x2000000"
definition VTOR :: int where "VTOR = 0xE000ED08"
definition FPCCR :: int where "FPCCR = 0xE000EF34"
definition ICTR :: int where "ICTR = 0xE000E004"
definition NVIC_AIRCR :: int where "NVIC_AIRCR = 0xE000ED0C"
definition NVIC_AIRCR_VECTKEY :: int where "NVIC_AIRCR_VECTKEY = 0x05FA0000"
definition NVIC_AIRCR_VECTRESET :: int where "NVIC_AIRCR_VECTRESET = 1"
definition NVIC_AIRCR_VECTCLRACTIVE :: int where "NVIC_AIRCR_VECTCLRACTIVE = 2"
definition NVIC_AIRCR_SYSRESETREQ :: int where "NVIC_AIRCR_SYSRESETREQ = 4"
definition NVIC_ICER0 :: int where "NVIC_ICER0 = 0xE000E180"
definition NVIC_ICPR0 :: int where "NVIC_ICPR0 = 0xE000E280"
definition NVIC_IPR0 :: int where "NVIC_IPR0 = 0xE000E400"
definition SYSTICK_CSR :: int where "SYSTICK_CSR = 0xE000E010"
definition ICIALLU :: int where "ICIALLU = 0xE000EF50"
definition ICIMVAU :: int where "ICIMVAU = 0xE000EF58"
definition MVFR0 :: int where "MVFR0 = 0xE000EF40"
definition MVFR1 :: int where "MVFR1 = 0xE000EF44"
definition MVFR2 :: int where "MVFR2 = 0xE000EF48"
definition ISAR0 :: int where "ISAR0 = 0xE000ED60"
definition ISAR3 :: int where "ISAR3 = 0xE000ED6C"
definition ISAR5 :: int where "ISAR5 = 0xE000ED74"
definition CLIDR :: int where "CLIDR = 0xE000ED78"
definition MPU_TYPE :: int where "MPU_TYPE = 0xE000ED90"
definition PFR0 :: int where "PFR0 = 0xE000ED40"
definition PFR1 :: int where "PFR1 = 0xE000ED44"
definition DFR0 :: int where "DFR0 = 0xE000ED48"
definition PMU_TYPE :: int where "PMU_TYPE = 0xE0003E00"
definition DSCSR :: int where "DSCSR = 0xE000EE08"
definition DSCSR_CDS :: int where "DSCSR_CDS = 0x10000"
definition XPSR_THUMB :: int where "XPSR_THUMB = 0x01000000"

text \<open>\<open>(value & MASK) >> SHIFT\<close>.\<close>

definition reg_field :: "int \<Rightarrow> nat \<Rightarrow> int \<Rightarrow> int" where
  "reg_field m sh v = drop_bit sh (v AND m)"

subsection \<open>The core and what it uses\<close>

text \<open>A debug sequence delegate, for this core's node.\<close>

record 's sequences =
  sq_has :: "string \<Rightarrow> bool"
  sq_run :: "string \<Rightarrow> ('s, unit) exec"
  sq_default_reset :: string

text \<open>
  The memory and register accesses of the core (\<open>Mem_Ap\<close>, \<open>Register_Access\<close>), the session's
  notifications, the delegate, the DebugPort's reset, and the session's options.  A timeout is the
  number of its successful checks; a step without timeout is None.  The recovery timeout may be 0.
\<close>

record 's run_ops =
  rn_read32 :: "int \<Rightarrow> ('s, int) exec"
  rn_write32 :: "int \<Rightarrow> int \<Rightarrow> ('s, unit) exec"
  rn_write_block32 :: "int \<Rightarrow> int list \<Rightarrow> ('s, unit) exec"
  rn_flush :: "('s, unit) exec"
  rn_set_cacheable :: "('s, unit) exec"
  rn_read_reg :: "string \<Rightarrow> ('s, int) exec"
  rn_write_regs :: "string list \<Rightarrow> int list \<Rightarrow> ('s, unit) exec"
  rn_notify :: "core_event \<Rightarrow> ('s, unit) exec"
  rn_delegate :: "string \<Rightarrow> reset_type option \<Rightarrow> ('s, bool) exec"
  rn_sequences :: "'s sequences option"
  rn_dp_reset :: "('s, unit) exec"
  rn_post_reset_recovery :: "('s, unit) exec"
  rn_remove_breakpoints :: "('s, unit) exec"
  rn_remove_watchpoints :: "('s, unit) exec"
  rn_boot :: "int option"
  rn_reset_option :: string
  rn_step_ticks :: "'s \<Rightarrow> nat option"
  rn_halt_ticks :: "'s \<Rightarrow> nat"
  rn_recover_ticks :: "'s \<Rightarrow> nat"
  rn_recover_enabled :: bool
  rn_irq_table :: "int \<Rightarrow> string option"

record 's cortex_m =
  cm_v8m :: bool
  cm_architecture :: core_arch
  cm_arch_version :: "int \<times> int"
  cm_extensions :: "extension list"
  cm_core_type :: int
  cm_cpu_revision :: int
  cm_cpu_patch :: int
  cm_implementer :: int
  cm_has_fpu :: bool
  cm_has_cache :: bool
  cm_has_security_extension :: bool
  cm_run_token :: int
  cm_registers :: core_index
  cm_supported_reset_types :: "reset_type list"
  cm_default_reset_type :: reset_type
  cm_last_vector_catch :: int
  cm_target :: 's

definition tgt :: "('s, 'a) exec \<Rightarrow> ('s cortex_m, 'a) exec" where
  "tgt m s = (case m (cm_target s) of (r, t) \<Rightarrow> (r, s\<lparr>cm_target := t\<rparr>))"

abbreviation read32 :: "'s run_ops \<Rightarrow> int \<Rightarrow> ('s cortex_m, int) exec" where
  "read32 R a \<equiv> tgt (rn_read32 R a)"

abbreviation write32 :: "'s run_ops \<Rightarrow> int \<Rightarrow> int \<Rightarrow> ('s cortex_m, unit) exec" where
  "write32 R a v \<equiv> tgt (rn_write32 R a v)"

abbreviation notify :: "'s run_ops \<Rightarrow> core_event \<Rightarrow> ('s cortex_m, unit) exec" where
  "notify R e \<equiv> tgt (rn_notify R e)"

abbreviation flush :: "'s run_ops \<Rightarrow> ('s cortex_m, unit) exec" where
  "flush R \<equiv> tgt (rn_flush R)"

abbreviation call_delegate :: "'s run_ops \<Rightarrow> string \<Rightarrow> reset_type option \<Rightarrow> ('s cortex_m, bool) exec" where
  "call_delegate R name rt \<equiv> tgt (rn_delegate R name rt)"

definition has_debug_sequence :: "'s run_ops \<Rightarrow> string \<Rightarrow> bool" where
  "has_debug_sequence R name = (case rn_sequences R of None \<Rightarrow> False | Some q \<Rightarrow> sq_has q name)"

text \<open>\<open>run_sequence\<close> of the delegate, behind the check that there is one.\<close>

definition run_sequence :: "'s run_ops \<Rightarrow> string \<Rightarrow> ('s cortex_m, unit) exec" where
  "run_sequence R name = (case rn_sequences R of None \<Rightarrow> raise AssertionError | Some q \<Rightarrow> tgt (sq_run q name))"

text \<open>A delegate method, or else the debug sequence that stands for it: whether one of them acted.\<close>

definition hook_or_sequence :: "'s run_ops \<Rightarrow> string \<Rightarrow> reset_type option \<Rightarrow> string \<Rightarrow> ('s cortex_m, bool) exec" where
  "hook_or_sequence R method rt name =
     bind (call_delegate R method rt) (\<lambda>result.
       if \<not> result \<and> has_debug_sequence R name then bind (run_sequence R name) (\<lambda>_. ret True) else ret result)"

definition start_debug_core_hook :: "'s run_ops \<Rightarrow> ('s cortex_m, bool) exec" where
  "start_debug_core_hook R = hook_or_sequence R ''start_debug_core'' None ''DebugCoreStart''"

definition stop_debug_core_hook :: "'s run_ops \<Rightarrow> ('s cortex_m, bool) exec" where
  "stop_debug_core_hook R = hook_or_sequence R ''stop_debug_core'' None ''DebugCoreStop''"

definition set_default_reset_type :: "reset_type \<Rightarrow> ('s cortex_m, unit) exec" where
  "set_default_reset_type rt =
     bind get_state (\<lambda>s.
       if rt \<notin> set (cm_supported_reset_types s) then raise ValueError
       else modify (\<lambda>s. s\<lparr>cm_default_reset_type := rt\<rparr>))"

text \<open>
  The constructor: \<open>secondary\<close> says that multicore debug is enabled and this is not the primary
  core.
\<close>

definition CortexM :: "bool \<Rightarrow> bool \<Rightarrow> 's \<Rightarrow> 's cortex_m" where
  "CortexM v8m secondary t = \<lparr>cm_v8m = v8m, cm_architecture = ARMv6M, cm_arch_version = (0, 0), cm_extensions = [],
     cm_core_type = 0, cm_cpu_revision = 0, cm_cpu_patch = 0, cm_implementer = 0, cm_has_fpu = False,
     cm_has_cache = False, cm_has_security_extension = False, cm_run_token = 0, cm_registers = CoreRegistersIndex,
     cm_supported_reset_types = [DEFAULT, HARDWARE, SYSTEM, CORE, NSRST, SYSRESETREQ, VECTRESET, EMULATED],
     cm_default_reset_type = (if secondary then CORE else DEFAULT), cm_last_vector_catch = 0, cm_target = t\<rparr>"

subsection \<open>Identification\<close>

definition add_extension :: "extension \<Rightarrow> ('s cortex_m, unit) exec" where
  "add_extension e = modify (\<lambda>s. s\<lparr>cm_extensions := cm_extensions s @ [e]\<rparr>)"

definition extend_if :: "bool \<Rightarrow> extension \<Rightarrow> ('s cortex_m, unit) exec" where
  "extend_if b e = (if b then add_extension e else ret ())"

text \<open>The part of the two \<open>_read_core_type\<close> methods that decodes CPUID and CLIDR.\<close>

definition decode_cpuid :: "'s run_ops \<Rightarrow> int \<Rightarrow> int \<Rightarrow> ('s cortex_m, unit) exec" where
  "decode_cpuid R cpuid clidr =
     bind (modify (\<lambda>s. s\<lparr>cm_implementer := reg_field 0xff000000 24 cpuid, cm_core_type := reg_field 0xfff0 4 cpuid,
        cm_cpu_revision := reg_field 0x00f00000 20 cpuid, cm_cpu_patch := reg_field 0xf 0 cpuid\<rparr>)) (\<lambda>_.
     if clidr AND 7 \<noteq> 0
     then bind (modify (\<lambda>s. s\<lparr>cm_has_cache := True\<rparr>)) (\<lambda>_. tgt (rn_set_cacheable R))
     else ret ())"

definition read_core_type_v7 :: "'s run_ops \<Rightarrow> ('s cortex_m, unit) exec" where
  "read_core_type_v7 R =
     bind (read32 R CPUID) (\<lambda>cpuid. bind (read32 R CLIDR) (\<lambda>clidr.
     bind (read32 R ISAR3) (\<lambda>isar3. bind (read32 R MPU_TYPE) (\<lambda>mpu_type.
     bind (decode_cpuid R cpuid clidr) (\<lambda>_.
     bind (extend_if (reg_field 0xf0 4 isar3 = 3) DSP) (\<lambda>_.
     bind (extend_if (reg_field 0xff00 8 mpu_type > 0) MPU) (\<lambda>_.
       modify (\<lambda>s. if reg_field 0x000f0000 16 cpuid = 0xf
         then s\<lparr>cm_architecture := ARMv7M, cm_arch_version := (7, 0)\<rparr>
         else s\<lparr>cm_architecture := ARMv6M, cm_arch_version := (6, 0)\<rparr>))))))))"

definition read_core_type_v8 :: "'s run_ops \<Rightarrow> ('s cortex_m, unit) exec" where
  "read_core_type_v8 R =
     bind (read32 R CPUID) (\<lambda>cpuid. bind (read32 R CLIDR) (\<lambda>clidr. bind (read32 R PFR0) (\<lambda>pfr0.
     bind (read32 R PFR1) (\<lambda>pfr1. bind (read32 R DFR0) (\<lambda>dfr0. bind (read32 R ISAR0) (\<lambda>isar0.
     bind (read32 R ISAR3) (\<lambda>isar3. bind (read32 R MPU_TYPE) (\<lambda>mpu_type.
     bind (decode_cpuid R cpuid clidr) (\<lambda>_.
     bind (extend_if (reg_field 0xf0 4 isar3 = 3) DSP) (\<lambda>_.
     bind (extend_if (reg_field 0xf0000000 28 pfr0 = 2) RAS) (\<lambda>_.
     let pfr1_sec = reg_field 0xf0 4 pfr1; security = pfr1_sec = 1 \<or> pfr1_sec = 3 in
     bind (modify (\<lambda>s. s\<lparr>cm_has_security_extension := security\<rparr>)) (\<lambda>_.
     bind (extend_if security SEC) (\<lambda>_.
     bind (extend_if (pfr1_sec = 3) SEC_V81) (\<lambda>_.
     bind (extend_if (reg_field 0xf0000000 28 dfr0 = 1) UDE) (\<lambda>_.
     bind (extend_if (reg_field 0xff00 8 mpu_type > 0) MPU) (\<lambda>_.
     let v81 = reg_field 0xf000 12 isar0 = 3 in
     bind (modify (\<lambda>s. s\<lparr>cm_architecture := (if reg_field 0x000f0000 16 cpuid = 0xc then ARMv8M_BASE else ARMv8M_MAIN),
        cm_arch_version := (if v81 then (8, 1) else (8, 0))\<rparr>)) (\<lambda>_.
     if v81
     then bind (read32 R ISAR5) (\<lambda>isar5. bind (read32 R PMU_TYPE) (\<lambda>pmu_type.
          bind (extend_if (reg_field 0x00f00000 20 isar5 \<noteq> 0) PACBTI) (\<lambda>_.
            extend_if (pmu_type AND 0xf > 0) PMU)))
     else ret ())))))))))))))))))"

definition read_core_type :: "'s run_ops \<Rightarrow> ('s cortex_m, unit) exec" where
  "read_core_type R = bind get_state (\<lambda>s. if cm_v8m s then read_core_type_v8 R else read_core_type_v7 R)"

definition check_for_fpu_base :: "'s run_ops \<Rightarrow> ('s cortex_m, unit) exec" where
  "check_for_fpu_base R =
     bind get_state (\<lambda>s.
       if cm_architecture s \<in> {ARMv6M, ARMv8M_BASE} then modify (\<lambda>s. s\<lparr>cm_has_fpu := False\<rparr>)
       else
         bind (read32 R MVFR0) (\<lambda>mvfr0. bind (read32 R MVFR2) (\<lambda>mvfr2.
         let sp_val = reg_field 0xf0 4 mvfr0; dp_val = reg_field 0xf00 8 mvfr0; fpu = sp_val = 2 \<or> dp_val = 2 in
         bind (modify (\<lambda>s. s\<lparr>cm_has_fpu := fpu\<rparr>)) (\<lambda>_.
           if \<not> fpu then ret ()
           else bind (add_extension FPU) (\<lambda>_.
             if dp_val = 2 then bind (add_extension FPU_DP) (\<lambda>_. add_extension FPU_V5)
             else if reg_field 0xf0 4 mvfr2 = 4 then add_extension FPU_V5
             else add_extension FPU_V4)))))"

definition check_for_fpu :: "'s run_ops \<Rightarrow> ('s cortex_m, unit) exec" where
  "check_for_fpu R =
     bind get_state (\<lambda>s.
       if \<not> cm_v8m s then check_for_fpu_base R
       else
         bind (read32 R MVFR1) (\<lambda>mvfr1.
         bind (check_for_fpu_base R) (\<lambda>_.
         let mve = reg_field 0xf00 8 mvfr1 in
         bind (if mve = 1 then add_extension MVE
               else if mve = 2 then bind (add_extension MVE) (\<lambda>_. add_extension MVE_FP) else ret ()) (\<lambda>_.
           extend_if (reg_field 0x00f00000 20 mvfr1 = 1) FPU_HP))))"

definition init_reset_types :: "('s cortex_m, unit) exec" where
  "init_reset_types =
     modify (\<lambda>s.
       if cm_architecture s = ARMv7M then s
       else s\<lparr>cm_supported_reset_types := removeAll VECTRESET (cm_supported_reset_types s),
              cm_default_reset_type := (if cm_default_reset_type s = VECTRESET then EMULATED else cm_default_reset_type s)\<rparr>)"

definition build_registers :: "'s cortex_m \<Rightarrow> core_index" where
  "build_registers s =
     (let ci = add_group M_PROFILE_COMMON (cm_registers s);
          ci = (if cm_architecture s = ARMv7M then add_group V7M_v8M_ML_ONLY ci else ci);
          ci = (if cm_has_fpu s then add_group VFP_V5 ci else ci)
      in if \<not> cm_v8m s then ci
         else
           let sec = cm_has_security_extension s;
               ci = (if sec then add_group V8M_SEC_ONLY ci else ci);
               ci = (if cm_architecture s = ARMv8M_MAIN
                     then let ci = add_group V7M_v8M_ML_ONLY ci in if sec then add_group V8M_ML_SEC_ONLY ci else ci
                     else ci)
           in if MVE \<in> set (cm_extensions s) then add_group V81M_MVE_ONLY ci else ci)"

subsection \<open>Vector catch\<close>

text \<open>
  The bits of \<open>Target.VectorCatch\<close> with those of DEMCR, in the order of the methods.
\<close>

definition vector_catches :: "(int \<times> int) list" where
  "vector_catches = [(1, DEMCR_VC_HARDERR), (2, DEMCR_VC_BUSERR), (4, DEMCR_VC_MMERR), (8, DEMCR_VC_INTERR),
     (16, DEMCR_VC_STATERR), (32, DEMCR_VC_CHKERR), (64, DEMCR_VC_NOCPERR), (128, DEMCR_VC_CORERESET),
     (256, DEMCR_VC_SFERR)]"

definition VectorCatch_CORE_RESET :: int where "VectorCatch_CORE_RESET = 128"

definition VectorCatch_ALL :: int where "VectorCatch_ALL = 0x1ff"

definition map_mask :: "(int \<times> int) list \<Rightarrow> int \<Rightarrow> int" where
  "map_mask t m = foldl (\<lambda>result (from, to). if m AND from \<noteq> 0 then result OR to else result) 0 t"

definition map_to_vector_catch_mask :: "int \<Rightarrow> int" where
  "map_to_vector_catch_mask m = map_mask vector_catches m"

definition map_from_vector_catch_mask :: "int \<Rightarrow> int" where
  "map_from_vector_catch_mask m = map_mask (map (\<lambda>(a, b). (b, a)) vector_catches) m"

definition set_vector_catch :: "'s run_ops \<Rightarrow> int \<Rightarrow> ('s cortex_m, unit) exec" where
  "set_vector_catch R enable_mask =
     bind (modify (\<lambda>s. s\<lparr>cm_last_vector_catch := enable_mask\<rparr>)) (\<lambda>_.
     bind (read32 R DEMCR) (\<lambda>demcr.
       write32 R DEMCR ((demcr OR map_to_vector_catch_mask enable_mask)
         AND NOT (map_to_vector_catch_mask (NOT enable_mask)))))"

definition get_vector_catch :: "'s run_ops \<Rightarrow> ('s cortex_m, int) exec" where
  "get_vector_catch R =
     bind (read32 R DEMCR) (\<lambda>demcr.
     let m = map_from_vector_catch_mask demcr in
     bind (modify (\<lambda>s. s\<lparr>cm_last_vector_catch := m\<rparr>)) (\<lambda>_. ret m))"

subsection \<open>State of the core\<close>

definition get_core_state :: "'s run_ops \<Rightarrow> ('s cortex_m, target_state) exec" where
  "get_core_state R =
     bind (read32 R DHCSR) (\<lambda>dhcsr.
     bind (if dhcsr AND S_RESET_ST \<noteq> 0
           then bind (read32 R DHCSR) (\<lambda>new_dhcsr.
             ret (new_dhcsr AND S_RESET_ST \<noteq> 0 \<and> new_dhcsr AND S_RETIRE_ST = 0))
           else ret False) (\<lambda>in_reset.
       ret (if in_reset then RESET
            else if dhcsr AND S_LOCKUP \<noteq> 0 then LOCKUP
            else if dhcsr AND S_SLEEP \<noteq> 0 then SLEEPING
            else if dhcsr AND S_HALT \<noteq> 0 then HALTED
            else RUNNING)))"

definition is_running :: "'s run_ops \<Rightarrow> ('s cortex_m, bool) exec" where
  "is_running R = bind (get_core_state R) (\<lambda>st. ret (st = RUNNING))"

definition is_halted :: "'s run_ops \<Rightarrow> ('s cortex_m, bool) exec" where
  "is_halted R = bind (get_core_state R) (\<lambda>st. ret (st = HALTED))"

definition get_security_state :: "'s run_ops \<Rightarrow> ('s cortex_m, security_state) exec" where
  "get_security_state R =
     bind get_state (\<lambda>s.
       if \<not> cm_v8m s then ret NONSECURE
       else bind (read32 R DSCSR) (\<lambda>dscsr. ret (if dscsr AND DSCSR_CDS \<noteq> 0 then SECURE else NONSECURE)))"

definition supported_security_states :: "'s cortex_m \<Rightarrow> security_state list" where
  "supported_security_states s =
     (if cm_v8m s \<and> cm_has_security_extension s then [NONSECURE, SECURE] else [NONSECURE])"

definition get_halt_reason :: "'s run_ops \<Rightarrow> ('s cortex_m, halt_reason option) exec" where
  "get_halt_reason R =
     bind get_state (\<lambda>s.
     bind (read32 R DFSR) (\<lambda>dfsr.
       ret (if dfsr AND DFSR_HALTED \<noteq> 0 then Some DEBUG
            else if dfsr AND DFSR_BKPT \<noteq> 0 then Some BREAKPOINT
            else if dfsr AND DFSR_DWTTRAP \<noteq> 0 then Some WATCHPOINT
            else if dfsr AND DFSR_VCATCH \<noteq> 0 then Some VECTOR_CATCH
            else if dfsr AND DFSR_EXTERNAL \<noteq> 0 then Some EXTERNAL
            else if cm_v8m s \<and> dfsr AND DFSR_PMU \<noteq> 0 then Some PMU_EVENT
            else None)))"

definition is_debug_trap :: "'s run_ops \<Rightarrow> ('s cortex_m, bool) exec" where
  "is_debug_trap R =
     bind (read32 R DFSR) (\<lambda>v. ret (v AND (DFSR_DWTTRAP OR DFSR_BKPT OR DFSR_HALTED) \<noteq> 0))"

definition is_vector_catch :: "'s run_ops \<Rightarrow> ('s cortex_m, bool) exec" where
  "is_vector_catch R = bind (get_halt_reason R) (\<lambda>r. ret (r = Some VECTOR_CATCH))"

definition CORE_EXCEPTION :: "string list" where
  "CORE_EXCEPTION = [''Thread'', ''Reset'', ''NMI'', ''HardFault'', ''MemManage'', ''BusFault'', ''UsageFault'',
     ''SecureFault'', ''Exception 8'', ''Exception 9'', ''Exception 10'', ''SVCall'', ''DebugMonitor'',
     ''Exception 13'', ''PendSV'', ''SysTick'']"

text \<open>A name, or the number of an interrupt without one; a negative number indexes from the end.\<close>

datatype exception_name = CoreException string | NamedInterrupt string | Interrupt int

definition exception_number_to_name :: "'s run_ops \<Rightarrow> int \<Rightarrow> exn + exception_name" where
  "exception_number_to_name R exc_num =
     (if exc_num < int (length CORE_EXCEPTION) then res_bind (py_index CORE_EXCEPTION exc_num) (\<lambda>nm. Inr (CoreException nm))
      else let irq_num = exc_num - int (length CORE_EXCEPTION)
           in case rn_irq_table R irq_num of
                Some nm \<Rightarrow> Inr (NamedInterrupt nm) | None \<Rightarrow> Inr (Interrupt irq_num))"

subsection \<open>Halting, stepping, resuming\<close>

definition bump_run_token :: "('s cortex_m, unit) exec" where
  "bump_run_token = modify (\<lambda>s. s\<lparr>cm_run_token := cm_run_token s + 1\<rparr>)"

definition halt :: "'s run_ops \<Rightarrow> ('s cortex_m, unit) exec" where
  "halt R =
     bind (notify R (PRE_HALT USER)) (\<lambda>_.
     bind (write32 R DHCSR (DBGKEY OR C_DEBUGEN OR C_HALT)) (\<lambda>_.
     bind (flush R) (\<lambda>_.
       notify R (POST_HALT USER))))"

definition clear_debug_cause_bits :: "'s run_ops \<Rightarrow> ('s cortex_m, unit) exec" where
  "clear_debug_cause_bits R =
     bind get_state (\<lambda>s.
       let causes = DFSR_EXTERNAL OR DFSR_VCATCH OR DFSR_DWTTRAP OR DFSR_BKPT OR DFSR_HALTED
       in write32 R DFSR (if cm_v8m s then DFSR_PMU OR causes else causes))"

definition resume :: "'s run_ops \<Rightarrow> ('s cortex_m, unit) exec" where
  "resume R =
     bind (get_core_state R) (\<lambda>state.
       if state \<noteq> HALTED then ret ()
       else
         bind (notify R (PRE_RUN RESUME)) (\<lambda>_.
         bind bump_run_token (\<lambda>_.
         bind (clear_debug_cause_bits R) (\<lambda>_.
         bind (write32 R DHCSR (DBGKEY OR C_DEBUGEN)) (\<lambda>_.
         bind (flush R) (\<lambda>_.
           notify R (POST_RUN RESUME)))))))"

text \<open>
  The wait for a step to complete: whether the callback asked to stop.  With a timeout, \<open>n\<close> checks
  succeed; without one \<open>n\<close> only bounds the evaluation, and \<open>Diverges\<close> stands for a wait that is
  still going on.
\<close>

fun wait_for_halt :: "'s run_ops \<Rightarrow> ('s, bool) exec option \<Rightarrow> bool \<Rightarrow> nat \<Rightarrow> ('s cortex_m, bool) exec" where
  "wait_for_halt R hook_cb limited 0 = (if limited then ret False else raise Diverges)"
| "wait_for_halt R hook_cb limited (Suc n) =
     bind (case hook_cb of None \<Rightarrow> ret False | Some h \<Rightarrow> tgt h) (\<lambda>stop.
       if stop then ret True
       else bind (read32 R DHCSR) (\<lambda>v.
         if v AND C_HALT \<noteq> 0 then ret False else wait_for_halt R hook_cb limited n))"

definition wait_step :: "'s run_ops \<Rightarrow> nat \<Rightarrow> ('s, bool) exec option \<Rightarrow> ('s cortex_m, bool) exec" where
  "wait_step R fuel hook_cb =
     bind get_state (\<lambda>s.
       case rn_step_ticks R (cm_target s) of
         None \<Rightarrow> wait_for_halt R hook_cb False fuel
       | Some n \<Rightarrow> wait_for_halt R hook_cb True n)"

text \<open>
  The stepping loop of the range \<open>[start, end)\<close>; \<open>rounds\<close> bounds its evaluation.  \<open>halted_only\<close>:
  DFSR shows no other cause than the step itself.
\<close>

fun step_loop :: "'s run_ops \<Rightarrow> nat \<Rightarrow> ('s, bool) exec option \<Rightarrow> int \<Rightarrow> int \<Rightarrow> int \<Rightarrow> nat \<Rightarrow> ('s cortex_m, unit) exec" where
  "step_loop R fuel hook_cb start stop_at dhcsr_step 0 = raise Diverges"
| "step_loop R fuel hook_cb start stop_at dhcsr_step (Suc rounds) =
     bind (write32 R DHCSR dhcsr_step) (\<lambda>_.
     bind (wait_step R fuel hook_cb) (\<lambda>exit_step_loop.
       if start = stop_at \<or> exit_step_loop then ret ()
       else
         bind (tgt (rn_read_reg R ''pc'')) (\<lambda>program_counter.
           if program_counter < start \<or> stop_at \<le> program_counter then ret ()
           else
             bind (read32 R DFSR) (\<lambda>v.
               if v AND NOT DFSR_HALTED \<noteq> 0 then ret ()
               else step_loop R fuel hook_cb start stop_at dhcsr_step rounds))))"

definition step_value :: "bool \<Rightarrow> int \<Rightarrow> int" where
  "step_value disable_interrupts saved_pmov =
     (let v = DBGKEY OR C_DEBUGEN OR C_STEP OR saved_pmov in if disable_interrupts then v OR C_MASKINTS else v)"

definition step :: "'s run_ops \<Rightarrow> nat \<Rightarrow> bool \<Rightarrow> int \<Rightarrow> int \<Rightarrow> ('s, bool) exec option \<Rightarrow> ('s cortex_m, unit) exec" where
  "step R fuel disable_interrupts start stop_at hook_cb =
     bind (read32 R DHCSR) (\<lambda>dhcsr.
       if dhcsr AND C_DEBUGEN = 0 then raise DebugError
       else if dhcsr AND C_HALT = 0 then ret ()
       else
         bind (notify R (PRE_RUN STEP)) (\<lambda>_.
         bind bump_run_token (\<lambda>_.
         bind (clear_debug_cause_bits R) (\<lambda>_.
         let saved_maskints = dhcsr AND C_MASKINTS; saved_pmov = dhcsr AND C_PMOV;
             maskints_differs = (saved_maskints \<noteq> 0) \<noteq> disable_interrupts;
             dhcsr_step = step_value disable_interrupts saved_pmov in
         bind (if maskints_differs then write32 R DHCSR (dhcsr_step OR C_HALT) else ret ()) (\<lambda>_.
         bind (step_loop R fuel hook_cb start stop_at dhcsr_step fuel) (\<lambda>_.
         bind (if maskints_differs
               then write32 R DHCSR (DBGKEY OR C_DEBUGEN OR C_HALT OR saved_maskints OR saved_pmov)
               else ret ()) (\<lambda>_.
         bind (flush R) (\<lambda>_.
           notify R (POST_RUN STEP)))))))))"

definition invalidate_instruction_cache :: "'s run_ops \<Rightarrow> int option \<Rightarrow> ('s cortex_m, unit) exec" where
  "invalidate_instruction_cache R address =
     bind get_state (\<lambda>s.
       if \<not> cm_has_cache s then ret ()
       else case address of None \<Rightarrow> write32 R ICIALLU 0 | Some a \<Rightarrow> write32 R ICIMVAU a)"

subsection \<open>Reset\<close>

definition emulated_registers :: "bool \<Rightarrow> int \<Rightarrow> int \<Rightarrow> (string \<times> int) list" where
  "emulated_registers has_fpu sp pc =
     map (\<lambda>r. (r, 0)) [''r0'', ''r1'', ''r2'', ''r3'', ''r4'', ''r5'', ''r6'', ''r7'', ''r8'', ''r9'', ''r10'', ''r11'', ''r12'']
     @ [(''psp'', 0), (''msp'', sp), (''lr'', 0xffffffff), (''pc'', pc), (''xpsr'', 0x01000000), (''cfbp'', 0)]
     @ (if has_fpu then map (\<lambda>r. (r, 0))
         [''s0'', ''s1'', ''s2'', ''s3'', ''s4'', ''s5'', ''s6'', ''s7'', ''s8'', ''s9'', ''s10'', ''s11'', ''s12'', ''s13'', ''s14'', ''s15'',
          ''s16'', ''s17'', ''s18'', ''s19'', ''s20'', ''s21'', ''s22'', ''s23'', ''s24'', ''s25'', ''s26'', ''s27'', ''s28'', ''s29'', ''s30'', ''s31'',
          ''fpscr'']
        else [])"

definition perform_emulated_reset :: "'s run_ops \<Rightarrow> ('s cortex_m, unit) exec" where
  "perform_emulated_reset R =
     bind (halt R) (\<lambda>_.
     bind (case rn_boot R of None \<Rightarrow> read32 R VTOR | Some start \<Rightarrow> ret start) (\<lambda>vector_base.
     bind (read32 R vector_base) (\<lambda>initial_sp.
     bind (read32 R (vector_base + 4)) (\<lambda>initial_pc.
     bind get_state (\<lambda>s.
     let regs = emulated_registers (cm_has_fpu s) initial_sp initial_pc in
     bind (tgt (rn_write_regs R (map fst regs) (map snd regs))) (\<lambda>_.
     bind (tgt (rn_write_block32 R ICSR
        [ICSR_PENDSVCLR OR ICSR_PENDSTCLR, vector_base, NVIC_AIRCR_VECTKEY OR NVIC_AIRCR_VECTCLRACTIVE,
         0, 0, 0, 0, 0, 0, 0])) (\<lambda>_.
     bind (write32 R CPACR 0) (\<lambda>_.
     bind (if cm_has_fpu s then tgt (rn_write_block32 R FPCCR [0, 0, 0]) else ret ()) (\<lambda>_.
     bind (tgt (rn_write_block32 R SYSTICK_CSR [0, 0, 0])) (\<lambda>_.
     bind (read32 R ICTR) (\<lambda>ictr.
     let numregs = nat ((ictr AND 0xf) + 1) in
     bind (tgt (rn_write_block32 R NVIC_ICER0 (replicate numregs 0xffffffff))) (\<lambda>_.
     bind (tgt (rn_write_block32 R NVIC_ICPR0 (replicate numregs 0xffffffff))) (\<lambda>_.
     bind (tgt (rn_write_block32 R NVIC_IPR0 (replicate (numregs * 8) 0xffffffff))) (\<lambda>_.
     bind (read32 R DEMCR) (\<lambda>demcr.
       if demcr AND DEMCR_VC_CORERESET = 0 then resume R else ret ())))))))))))))))"

text \<open>
  The names of the reset type option.  The key \<open>('n_srst')\<close> is no tuple but a string, so the
  \<open>in\<close> of the search accepts every part of it.
\<close>

datatype name_key = NameTuple "string list" | NameStr string

fun in_key :: "string \<Rightarrow> name_key \<Rightarrow> bool" where
  "in_key v (NameTuple ks) = (v \<in> set ks)"
| "in_key v (NameStr k) = (\<exists>i \<in> set [0..<Suc (length k)]. take (length v) (drop i k) = v)"

definition RESET_TYPE_MAP :: "(name_key \<times> reset_type) list" where
  "RESET_TYPE_MAP =
     [(NameTuple [''default'', ''sw'', ''software''], DEFAULT),
      (NameTuple [''system'', ''sw_system''], SYSTEM),
      (NameTuple [''core'', ''sw_core''], CORE),
      (NameTuple [''hardware'', ''hw''], HARDWARE),
      (NameTuple [''sysresetreq'', ''sw_sysresetreq''], SYSRESETREQ),
      (NameTuple [''vectreset'', ''sw_vectreset''], VECTRESET),
      (NameStr ''n_srst'', NSRST),
      (NameTuple [''emulated'', ''sw_emulated''], EMULATED)]"

definition convert_reset_type :: "string \<Rightarrow> exn + reset_type" where
  "convert_reset_type v =
     (case find (\<lambda>(k, rt). in_key (lower v) k) RESET_TYPE_MAP of
        None \<Rightarrow> Inl ValueError | Some (k, rt) \<Rightarrow> Inr rt)"

definition get_actual_reset_type :: "'s run_ops \<Rightarrow> 's cortex_m \<Rightarrow> reset_type option \<Rightarrow> reset_type" where
  "get_actual_reset_type R s reset_type =
     (let rt = (case reset_type of
                  Some rt \<Rightarrow> rt
                | None \<Rightarrow>
                    if rn_reset_option R = ''default'' then cm_default_reset_type s
                    else case convert_reset_type (rn_reset_option R) of
                           Inl _ \<Rightarrow> cm_default_reset_type s | Inr rt \<Rightarrow> rt)
      in if rt \<notin> set (cm_supported_reset_types s) \<and> rt = VECTRESET then EMULATED else rt)"

text \<open>The bit of AIRCR for the software reset types.\<close>

definition reset_mask :: "reset_type \<Rightarrow> reset_type \<times> int" where
  "reset_mask rt =
     (if rt \<in> {DEFAULT, SYSTEM, SYSRESETREQ} then (SYSRESETREQ, NVIC_AIRCR_SYSRESETREQ)
      else (VECTRESET, NVIC_AIRCR_VECTRESET))"

text \<open>The recovery test: reads DHCSR until it is answered with S_RESET_ST clear or the time is over.\<close>

fun accessibility_loop :: "'s run_ops \<Rightarrow> nat \<Rightarrow> ('s cortex_m, unit) exec" where
  "accessibility_loop R 0 = ret ()"
| "accessibility_loop R (Suc n) =
     bind (catch (bind (read32 R DHCSR) (\<lambda>v. ret (v AND S_RESET_ST = 0)))
             is_transfer_error
             (\<lambda>_. bind (catch (flush R) is_transfer_error (\<lambda>_. ret ())) (\<lambda>_. ret False))) (\<lambda>out.
       if out then ret () else accessibility_loop R n)"

definition post_reset_core_accessibility_test :: "'s run_ops \<Rightarrow> ('s cortex_m, unit) exec" where
  "post_reset_core_accessibility_test R =
     (if \<not> rn_recover_enabled R then ret ()
      else bind get_state (\<lambda>s. accessibility_loop R (rn_recover_ticks R (cm_target s))))"

definition perform_reset :: "'s run_ops \<Rightarrow> reset_type \<Rightarrow> ('s cortex_m, unit) exec" where
  "perform_reset R rt =
     bind (if rt \<in> {HARDWARE, NSRST} then bind (tgt (rn_dp_reset R)) (\<lambda>_. ret NSRST)
           else if rt = EMULATED then bind (perform_emulated_reset R) (\<lambda>_. ret rt)
           else case reset_mask rt of (rt', m) \<Rightarrow>
             bind (catch (bind (write32 R NVIC_AIRCR (NVIC_AIRCR_VECTKEY OR m)) (\<lambda>_. flush R))
                     is_transfer_error (\<lambda>_. flush R)) (\<lambda>_. ret rt')) (\<lambda>rt.
     bind (if rt = SYSRESETREQ then tgt (rn_post_reset_recovery R) else ret ()) (\<lambda>_.
       if rt \<in> {NSRST, SYSRESETREQ} then post_reset_core_accessibility_test R else ret ()))"

definition STANDARD_RESET_SEQUENCES :: "(string \<times> reset_type) list" where
  "STANDARD_RESET_SEQUENCES = [(''ResetHardware'', HARDWARE), (''ResetSystem'', SYSTEM), (''ResetProcessor'', CORE)]"

text \<open>The debug sequence for a reset: whether one handled it, and the type to use if not.\<close>

definition reset_sequence :: "'s run_ops \<Rightarrow> 's sequences \<Rightarrow> reset_type \<Rightarrow> ('s cortex_m, bool \<times> reset_type) exec" where
  "reset_sequence R q rt =
     (if rt \<notin> {DEFAULT, HARDWARE, SYSTEM, CORE} then ret (False, rt)
      else
        let name = (if rt = DEFAULT then sq_default_reset q
                    else if rt = HARDWARE then ''ResetHardware''
                    else if rt = SYSTEM then ''ResetSystem'' else ''ResetProcessor'');
            rt' = (if rt = DEFAULT
                   then case map_of STANDARD_RESET_SEQUENCES name of None \<Rightarrow> rt | Some t \<Rightarrow> t
                   else rt)
        in if has_debug_sequence R name then bind (run_sequence R name) (\<lambda>_. ret (True, rt'))
           else if name \<notin> fst ` set STANDARD_RESET_SEQUENCES then ret (True, rt')
           else ret (False, rt'))"

definition reset_hook :: "'s run_ops \<Rightarrow> reset_type \<Rightarrow> ('s cortex_m, unit) exec" where
  "reset_hook R rt =
     bind (call_delegate R ''will_reset'' (Some rt)) (\<lambda>result.
     bind (case rn_sequences R of
             Some q \<Rightarrow> if \<not> result then reset_sequence R q rt else ret (result, rt)
           | None \<Rightarrow> ret (result, rt)) (\<lambda>(result, rt).
       if \<not> result then perform_reset R rt else ret ()))"

definition reset :: "'s run_ops \<Rightarrow> reset_type option \<Rightarrow> ('s cortex_m, unit) exec" where
  "reset R reset_type =
     bind get_state (\<lambda>s.
     let rt = get_actual_reset_type R s reset_type in
     bind (notify R PRE_RESET) (\<lambda>_.
     bind bump_run_token (\<lambda>_.
     bind (reset_hook R rt) (\<lambda>_.
     bind (call_delegate R ''did_reset'' (Some rt)) (\<lambda>_.
       notify R POST_RESET)))))"

definition set_reset_catch :: "'s run_ops \<Rightarrow> reset_type option \<Rightarrow> ('s cortex_m, unit) exec" where
  "set_reset_catch R reset_type =
     bind (notify R (PRE_HALT VECTOR_CATCH)) (\<lambda>_.
     bind (hook_or_sequence R ''set_reset_catch'' reset_type ''ResetCatchSet'') (\<lambda>delegate_result.
       if delegate_result then ret ()
       else
         bind (halt R) (\<lambda>_.
         bind (read32 R DEMCR) (\<lambda>demcr.
           if demcr AND DEMCR_VC_CORERESET = 0 then write32 R DEMCR (demcr OR DEMCR_VC_CORERESET) else ret ()))))"

definition clear_reset_catch :: "'s run_ops \<Rightarrow> reset_type option \<Rightarrow> ('s cortex_m, unit) exec" where
  "clear_reset_catch R reset_type =
     bind (hook_or_sequence R ''clear_reset_catch'' reset_type ''ResetCatchClear'') (\<lambda>delegate_result.
     bind get_state (\<lambda>s.
     bind (if \<not> delegate_result \<and> cm_last_vector_catch s AND VectorCatch_CORE_RESET = 0
           then bind (read32 R DEMCR) (\<lambda>demcr.
             if demcr AND DEMCR_VC_CORERESET \<noteq> 0 then write32 R DEMCR (demcr AND NOT DEMCR_VC_CORERESET) else ret ())
           else ret ()) (\<lambda>_.
       notify R (POST_HALT VECTOR_CATCH))))"

text \<open>The wait for the core to halt; when the time is over the state is read once more, for the log.\<close>

fun wait_stopped :: "'s run_ops \<Rightarrow> nat \<Rightarrow> ('s cortex_m, unit) exec" where
  "wait_stopped R 0 = bind (get_core_state R) (\<lambda>_. ret ())"
| "wait_stopped R (Suc n) =
     bind (get_core_state R) (\<lambda>st. if st \<notin> {RESET, RUNNING} then ret () else wait_stopped R n)"

definition check_t_bit :: "'s run_ops \<Rightarrow> ('s cortex_m, unit) exec" where
  "check_t_bit R =
     bind (get_core_state R) (\<lambda>st.
       if st = HALTED then bind (tgt (rn_read_reg R ''xpsr'')) (\<lambda>_. ret ()) else ret ())"

definition reset_and_halt :: "'s run_ops \<Rightarrow> reset_type option \<Rightarrow> ('s cortex_m, unit) exec" where
  "reset_and_halt R reset_type =
     bind get_state (\<lambda>s.
     let rt = get_actual_reset_type R s reset_type in
     bind (set_reset_catch R (Some rt)) (\<lambda>_.
     bind (reset R (Some rt)) (\<lambda>_.
     bind (if rt \<noteq> EMULATED then bind get_state (\<lambda>s. wait_stopped R (rn_halt_ticks R (cm_target s))) else ret ()) (\<lambda>_.
     bind (clear_reset_catch R (Some rt)) (\<lambda>_.
       check_t_bit R)))))"

subsection \<open>Connecting and disconnecting\<close>

definition init_core :: "'s run_ops \<Rightarrow> ('s cortex_m, unit) exec" where
  "init_core R =
     bind (call_delegate R ''will_start_debug_core'' None) (\<lambda>_.
     bind (start_debug_core_hook R) (\<lambda>started.
     bind (if started then ret ()
           else bind (read32 R DHCSR) (\<lambda>v. write32 R DHCSR ((v AND 0xffff) OR DBGKEY OR C_DEBUGEN))) (\<lambda>_.
     bind (read_core_type R) (\<lambda>_.
     bind (check_for_fpu R) (\<lambda>_.
     bind init_reset_types (\<lambda>_.
     bind (modify (\<lambda>s. s\<lparr>cm_registers := build_registers s\<rparr>)) (\<lambda>_.
     bind (get_vector_catch R) (\<lambda>_.
     bind (call_delegate R ''did_start_debug_core'' None) (\<lambda>_. ret ())))))))))"

definition disconnect :: "'s run_ops \<Rightarrow> bool \<Rightarrow> ('s cortex_m, unit) exec" where
  "disconnect R do_resume =
     bind (call_delegate R ''will_stop_debug_core'' None) (\<lambda>_.
     bind (tgt (rn_remove_breakpoints R)) (\<lambda>_.
     bind (tgt (rn_remove_watchpoints R)) (\<lambda>_.
     bind (if do_resume
           then bind (stop_debug_core_hook R) (\<lambda>stopped.
             if stopped then ret ()
             else bind (resume R) (\<lambda>_. bind (write32 R DHCSR DBGKEY) (\<lambda>_. write32 R DEMCR 0)))
           else ret ()) (\<lambda>_.
     bind (call_delegate R ''did_stop_debug_core'' None) (\<lambda>_. ret ())))))"

end
