(* ===== verification/Core_Debug.thy ===== *)
theory Core_Debug
  imports Run_Control
begin

text \<open>
  The run control of \<open>Run_Control\<close> proved right against what the Arm architecture documents of the
  debug registers: DEMCR is a register (\<open>demcr_register\<close>), a reset with the vector catch set leaves
  the core halted (\<open>reset_debug\<close>), and DHCSR halts, steps and masks interrupts under its rules
  (\<open>halting_debug\<close>).  A simulated core keeps all three.
\<close>

lemma wp_tgt [simp]:
  "wp (tgt m) Q E = (\<lambda>s. wp m (\<lambda>x t. Q x (s\<lparr>cm_target := t\<rparr>)) (\<lambda>e t. E e (s\<lparr>cm_target := t\<rparr>)) (cm_target s))"
  by (auto simp: wp_def tgt_def fun_eq_iff split: prod.splits sum.splits)

lemma wp_seq: "wp m (\<lambda>_. P) E s \<Longrightarrow> (\<And>s'. P s' \<Longrightarrow> wp m' Q E s') \<Longrightarrow> wp (bind m (\<lambda>_. m')) Q E s"
  unfolding wp_bind by (rule wp_mono)

subsection \<open>Vector catch masks\<close>

text \<open>The numbers of the bits, \<open>Target.VectorCatch\<close> and DEMCR.\<close>

definition catch_bits :: "(nat \<times> nat) list" where
  "catch_bits = [(0, 10), (1, 8), (2, 4), (3, 9), (4, 7), (5, 6), (6, 5), (7, 0), (8, 11)]"

lemma vector_catches_bits: "vector_catches = map (\<lambda>(i, j). (2 ^ i, 2 ^ j)) catch_bits"
  by (simp add: vector_catches_def catch_bits_def DEMCR_VC_HARDERR_def DEMCR_VC_BUSERR_def DEMCR_VC_MMERR_def
      DEMCR_VC_INTERR_def DEMCR_VC_STATERR_def DEMCR_VC_CHKERR_def DEMCR_VC_NOCPERR_def DEMCR_VC_CORERESET_def
      DEMCR_VC_SFERR_def)

lemma foldl_or_bit:
  "bit (foldl (\<lambda>r (a, b). if m AND a \<noteq> 0 then r OR b else r) r t) n
    \<longleftrightarrow> bit r n \<or> (\<exists>a b. (a, b) \<in> set t \<and> m AND a \<noteq> (0::int) \<and> bit (b::int) n)"
proof (induction t arbitrary: r)
  case (Cons p t)
  show ?case unfolding foldl.simps Cons.IH by (cases p) (auto simp: bit_or_iff)
qed simp

lemma map_mask_bit: "bit (map_mask t m) n \<longleftrightarrow> (\<exists>a b. (a, b) \<in> set t \<and> m AND a \<noteq> 0 \<and> bit b n)"
  by (simp add: map_mask_def foldl_or_bit)

lemma map_to_bit: "bit (map_to_vector_catch_mask m) n \<longleftrightarrow> (\<exists>i. (i, n) \<in> set catch_bits \<and> bit m i)"
  unfolding map_to_vector_catch_mask_def map_mask_bit vector_catches_bits
  by (force simp: and_exp_eq_0_iff_not_bit bit_exp_iff)

lemma map_from_bit: "bit (map_from_vector_catch_mask m) n \<longleftrightarrow> (\<exists>j. (n, j) \<in> set catch_bits \<and> bit m j)"
  unfolding map_from_vector_catch_mask_def map_mask_bit vector_catches_bits
  by (force simp: and_exp_eq_0_iff_not_bit bit_exp_iff)

lemma catch_one: "(i, j) \<in> set catch_bits \<Longrightarrow> (i', j) \<in> set catch_bits \<Longrightarrow> i = i'"
  "(i, j) \<in> set catch_bits \<Longrightarrow> (i, j') \<in> set catch_bits \<Longrightarrow> j = j'"
  by (auto simp: catch_bits_def)

definition caught :: "int \<Rightarrow> int \<Rightarrow> int" where
  "caught m demcr = (demcr OR map_to_vector_catch_mask m) AND NOT (map_to_vector_catch_mask (NOT m))"

lemma caught_bit:
  "bit (caught m demcr) n \<longleftrightarrow> (if n \<in> snd ` set catch_bits then \<exists>i. (i, n) \<in> set catch_bits \<and> bit m i else bit demcr n)"
proof (cases "n \<in> snd ` set catch_bits")
  case True
  then obtain i where i: "(i, n) \<in> set catch_bits" by auto
  have "(\<exists>i. (i, n) \<in> set catch_bits \<and> P i) \<longleftrightarrow> P i" for P using i catch_one(1) by blast
  then show ?thesis using True by (simp add: caught_def bit_and_iff bit_or_iff bit_not_iff map_to_bit) blast
next
  case False
  then have "(i, n) \<notin> set catch_bits" for i by force
  then show ?thesis using False by (simp add: caught_def bit_and_iff bit_or_iff bit_not_iff map_to_bit)
qed

lemma all_catches: "bit VectorCatch_ALL n \<longleftrightarrow> n \<in> fst ` set catch_bits"
proof -
  have m: "VectorCatch_ALL = mask 9" by (simp add: VectorCatch_ALL_def mask_eq_exp_minus_1)
  have "bit VectorCatch_ALL n \<longleftrightarrow> n < 9" unfolding m bit_mask_iff by simp
  then show ?thesis by (auto simp: catch_bits_def)
qed

lemma map_from_caught: "map_from_vector_catch_mask (caught m demcr) = m AND VectorCatch_ALL"
proof (rule bit_eqI)
  fix n
  show "bit (map_from_vector_catch_mask (caught m demcr)) n = bit (m AND VectorCatch_ALL) n"
  proof (cases "n \<in> fst ` set catch_bits")
    case True
    then obtain j where j: "(n, j) \<in> set catch_bits" by auto
    have "(\<exists>j. (n, j) \<in> set catch_bits \<and> P j) \<longleftrightarrow> P j" for P using j catch_one(2) by blast
    moreover have "(\<exists>i. (i, j) \<in> set catch_bits \<and> P i) \<longleftrightarrow> P n" for P using j catch_one(1) by blast
    moreover have "j \<in> snd ` set catch_bits" using j by force
    ultimately show ?thesis using True by (simp add: map_from_bit caught_bit bit_and_iff all_catches)
  next
    case False
    then have "(n, j) \<notin> set catch_bits" for j by force
    then show ?thesis using False by (simp add: map_from_bit bit_and_iff all_catches)
  qed
qed

lemma catch_mask: "bit (0xff1 :: int) n \<longleftrightarrow> n \<in> snd ` set catch_bits"
proof -
  have "(0xff1 :: int) = map_to_vector_catch_mask 0x1ff" by code_simp
  moreover have "(\<exists>i. (i, n) \<in> set catch_bits \<and> bit (0x1ff :: int) i) \<longleftrightarrow> n \<in> snd ` set catch_bits"
    using all_catches by (force simp: VectorCatch_ALL_def)
  ultimately show ?thesis by (simp only: map_to_bit)
qed

lemma caught_others: "caught m demcr AND NOT 0xff1 = demcr AND NOT 0xff1"
  by (rule bit_eqI) (simp only: bit_and_iff bit_not_iff catch_mask caught_bit, simp)

subsection \<open>The debug registers behind DEMCR\<close>

text \<open>DEMCR is a register: a write is read back, until the next write.\<close>

locale demcr_register =
  fixes R :: "'s run_ops" and inv :: "'s \<Rightarrow> bool" and demcr :: "'s \<Rightarrow> int" and halted :: "'s \<Rightarrow> bool"
    and fail :: "exn \<Rightarrow> bool"
  assumes demcr_read: "inv t \<Longrightarrow> wp (rn_read32 R DEMCR)
      (\<lambda>v t'. v = demcr t \<and> inv t' \<and> demcr t' = demcr t \<and> (halted t \<longrightarrow> halted t')) (\<lambda>e _. fail e) t"
    and demcr_write: "inv t \<Longrightarrow> wp (rn_write32 R DEMCR v)
      (\<lambda>_ t'. inv t' \<and> demcr t' = v \<and> (halted t \<longrightarrow> halted t')) (\<lambda>e _. fail e) t"
begin

lemma set_then_get:
  assumes "inv (cm_target s)"
  shows "wp (bind (set_vector_catch R m) (\<lambda>_. get_vector_catch R))
    (\<lambda>x s'. x = m AND VectorCatch_ALL \<and> cm_last_vector_catch s' = x
       \<and> demcr (cm_target s') AND NOT 0xff1 = demcr (cm_target s) AND NOT 0xff1) (\<lambda>e _. fail e) s"
  unfolding wp_bind set_vector_catch_def get_vector_catch_def Let_def wp_modify wp_tgt wp_ret
  using assms by (auto intro!: wp_mono [OF demcr_read] wp_mono [OF demcr_write]
    simp: map_from_caught caught_others [simplified] simp flip: caught_def)

end

subsection \<open>Stepping\<close>

text \<open>
  DHCSR of a halted core, as the architecture has it.  \<open>ctl\<close> are its bits C_MASKINTS and C_PMOV,
  \<open>halted\<close> says that the core is halted.  The law of a write to DHCSR holds only for writes that
  keep the architecture's rule: C_MASKINTS may change only while the core is halted and by a write
  that leaves it halted, and the core is started only from the halted state.  A core that was
  started for a step halts again; \<open>pend\<close> counts the reads until it is seen, at most \<open>limit\<close>.
  Whatever else happens during a step - the notifications, DFSR, the program counter - leaves a
  halted core halted and its bits alone.
\<close>

locale halting_debug =
  fixes R :: "'s run_ops" and inv :: "'s \<Rightarrow> bool" and ctl :: "'s \<Rightarrow> int" and halted :: "'s \<Rightarrow> bool"
    and pend :: "'s \<Rightarrow> nat" and limit :: nat and fail :: "exn \<Rightarrow> bool"
  assumes ctl_bits: "inv t \<Longrightarrow> ctl t AND (C_MASKINTS OR C_PMOV) = ctl t"
    and dhcsr_read: "inv t \<Longrightarrow> wp (rn_read32 R DHCSR)
      (\<lambda>v t'. inv t' \<and> ctl t' = ctl t \<and> v AND C_MASKINTS = ctl t AND C_MASKINTS \<and> v AND C_PMOV = ctl t AND C_PMOV
         \<and> v AND C_DEBUGEN \<noteq> 0 \<and> (v AND C_HALT \<noteq> 0 \<longleftrightarrow> halted t') \<and> (halted t \<longrightarrow> halted t')
         \<and> (\<not> halted t' \<longrightarrow> pend t' < pend t)) (\<lambda>e _. fail e) t"
    and dhcsr_write: "inv t \<Longrightarrow> halted t \<Longrightarrow> v AND 0xffff0000 = DBGKEY \<Longrightarrow> v AND C_DEBUGEN \<noteq> 0 \<Longrightarrow>
      v AND C_HALT \<noteq> 0 \<or> v AND C_STEP \<noteq> 0 \<and> v AND C_MASKINTS = ctl t AND C_MASKINTS \<Longrightarrow>
      wp (rn_write32 R DHCSR v)
        (\<lambda>_ t'. inv t' \<and> ctl t' = v AND (C_MASKINTS OR C_PMOV) \<and> (v AND C_HALT \<noteq> 0 \<longrightarrow> halted t')
          \<and> (\<not> halted t' \<longrightarrow> pend t' \<le> limit)) (\<lambda>e _. fail e) t"
    and dfsr_read: "inv t \<Longrightarrow> halted t \<Longrightarrow> wp (rn_read32 R DFSR)
      (\<lambda>_ t'. inv t' \<and> ctl t' = ctl t \<and> halted t') (\<lambda>e _. fail e) t"
    and dfsr_write: "inv t \<Longrightarrow> halted t \<Longrightarrow> wp (rn_write32 R DFSR v)
      (\<lambda>_ t'. inv t' \<and> ctl t' = ctl t \<and> halted t') (\<lambda>e _. fail e) t"
    and pc_read: "inv t \<Longrightarrow> halted t \<Longrightarrow> wp (rn_read_reg R ''pc'')
      (\<lambda>_ t'. inv t' \<and> ctl t' = ctl t \<and> halted t') (\<lambda>e _. fail e) t"
    and flushed: "inv t \<Longrightarrow> halted t \<Longrightarrow> wp (rn_flush R)
      (\<lambda>_ t'. inv t' \<and> ctl t' = ctl t \<and> halted t') (\<lambda>e _. fail e) t"
    and notified: "inv t \<Longrightarrow> halted t \<Longrightarrow> ev \<in> {PRE_RUN STEP, POST_RUN STEP} \<Longrightarrow> wp (rn_notify R ev)
      (\<lambda>_ t'. inv t' \<and> ctl t' = ctl t \<and> halted t') (\<lambda>e _. fail e) t"
    and patient: "rn_step_ticks R t = None"

text \<open>The word written to step: the key, C_STEP, and the interrupt mask asked for.\<close>

lemma step_value_bits:
  assumes "p = 0 \<or> p = C_PMOV"
  shows "step_value d p AND 0xffff0000 = DBGKEY" "step_value d p AND C_DEBUGEN \<noteq> 0" "step_value d p AND C_STEP \<noteq> 0"
    "step_value d p AND C_HALT = 0" "step_value d p AND C_MASKINTS = (if d then C_MASKINTS else 0)"
    "step_value d p AND (C_MASKINTS OR C_PMOV) = (if d then C_MASKINTS else 0) OR p"
    "step_value d p OR C_HALT = step_value d p + 2"
    "(step_value d p + 2) AND 0xffff0000 = DBGKEY" "(step_value d p + 2) AND C_DEBUGEN \<noteq> 0" "(step_value d p + 2) AND C_HALT \<noteq> 0"
    "(step_value d p + 2) AND (C_MASKINTS OR C_PMOV) = (if d then C_MASKINTS else 0) OR p"
  using assms by (cases d; auto simp: step_value_def Let_def DBGKEY_def C_DEBUGEN_def C_STEP_def C_MASKINTS_def C_PMOV_def C_HALT_def)+

lemma restore_value_bits:
  assumes "p = 0 \<or> p = C_PMOV" "m = 0 \<or> m = C_MASKINTS"
  shows "(DBGKEY OR C_DEBUGEN OR C_HALT OR m OR p) AND 0xffff0000 = DBGKEY"
    "(DBGKEY OR C_DEBUGEN OR C_HALT OR m OR p) AND C_DEBUGEN \<noteq> 0"
    "(DBGKEY OR C_DEBUGEN OR C_HALT OR m OR p) AND C_HALT \<noteq> 0"
    "(DBGKEY OR C_DEBUGEN OR C_HALT OR m OR p) AND (C_MASKINTS OR C_PMOV) = m OR p"
  using assms by (auto simp: DBGKEY_def C_DEBUGEN_def C_STEP_def C_MASKINTS_def C_PMOV_def C_HALT_def)

lemma one_bit: "(x::int) AND C_MASKINTS = 0 \<or> x AND C_MASKINTS = C_MASKINTS" "x AND C_PMOV = 0 \<or> x AND C_PMOV = C_PMOV"
proof -
  have "(x::int) AND 2 ^ n = 0 \<or> x AND 2 ^ n = 2 ^ n" for n
    using and_exp_eq_0_iff_not_bit [of x n] bit_eq_iff [of "x AND 2 ^ n" "2 ^ n"] by (auto simp: bit_and_iff bit_exp_iff)
  from this [of 3] this [of 6]
  show "(x::int) AND C_MASKINTS = 0 \<or> x AND C_MASKINTS = C_MASKINTS" "x AND C_PMOV = 0 \<or> x AND C_PMOV = C_PMOV"
    by (simp_all add: C_MASKINTS_def C_PMOV_def)
qed

lemma two_bits: "ctl = ctl AND (C_MASKINTS OR C_PMOV) \<Longrightarrow> ctl = (ctl AND C_MASKINTS) OR (ctl AND C_PMOV)"
  by (metis bit.conj_disj_distrib)

context halting_debug
begin

definition at :: "int \<Rightarrow> int \<Rightarrow> 's cortex_m \<Rightarrow> bool" where
  "at c r s \<longleftrightarrow> inv (cm_target s) \<and> ctl (cm_target s) = c \<and> cm_run_token s = r"

definition stopped :: "int \<Rightarrow> int \<Rightarrow> 's cortex_m \<Rightarrow> bool" where
  "stopped c r s \<longleftrightarrow> at c r s \<and> halted (cm_target s)"

lemma wait_for_halt_wp:
  assumes "at c r s" and "halted (cm_target s) \<longrightarrow> 0 < n" and "\<not> halted (cm_target s) \<longrightarrow> pend (cm_target s) < n"
  shows "wp (wait_for_halt R None False n) (\<lambda>x s'. \<not> x \<and> stopped c r s') (\<lambda>e _. fail e) s"
  using assms
proof (induction n arbitrary: s)
  case (Suc n)
  have i: "inv (cm_target s)" using Suc.prems(1) by (simp add: at_def)
  show ?case
    unfolding wait_for_halt.simps option.case wp_bind wp_ret if_False wp_tgt wp_if
  proof (rule wp_mono [OF dhcsr_read [OF i]])
    fix v t assume 1: "inv t \<and> ctl t = ctl (cm_target s) \<and> v AND C_MASKINTS = ctl (cm_target s) AND C_MASKINTS
      \<and> v AND C_PMOV = ctl (cm_target s) AND C_PMOV \<and> v AND C_DEBUGEN \<noteq> 0 \<and> (v AND C_HALT \<noteq> 0 \<longleftrightarrow> halted t)
      \<and> (halted (cm_target s) \<longrightarrow> halted t) \<and> (\<not> halted t \<longrightarrow> pend t < pend (cm_target s))"
    let ?s = "s\<lparr>cm_target := t\<rparr>"
    have a: "at c r ?s" using 1 Suc.prems(1) by (simp add: at_def)
    have "wp (wait_for_halt R None False n) (\<lambda>x s'. \<not> x \<and> stopped c r s') (\<lambda>e _. fail e) ?s" if "\<not> halted t"
      by (rule Suc.IH [OF a]) (use 1 that Suc.prems in auto)
    then show "(if v AND C_HALT \<noteq> 0 then \<lambda>s'. \<not> False \<and> stopped c r s'
        else wp (wait_for_halt R None False n) (\<lambda>x s'. \<not> x \<and> stopped c r s') (\<lambda>e _. fail e)) ?s"
      using 1 a by (auto simp: stopped_def)
  qed
qed auto

lemma quiet_wp:
  assumes "stopped c r s" and "inv (cm_target s) \<Longrightarrow> halted (cm_target s) \<Longrightarrow>
      wp m (\<lambda>_ t'. inv t' \<and> ctl t' = ctl (cm_target s) \<and> halted t') (\<lambda>e _. fail e) (cm_target s)"
  shows "wp (tgt m) (\<lambda>_. stopped c r) (\<lambda>e _. fail e) s"
  unfolding wp_tgt using assms by (auto simp: stopped_def at_def intro: wp_mono)

lemma dhcsr_write_wp:
  assumes "stopped c r s" and "v AND 0xffff0000 = DBGKEY" and "v AND C_DEBUGEN \<noteq> 0"
    and "v AND C_HALT \<noteq> 0 \<or> v AND C_STEP \<noteq> 0 \<and> v AND C_MASKINTS = c AND C_MASKINTS"
    and "v AND (C_MASKINTS OR C_PMOV) = c'"
  shows "wp (tgt (rn_write32 R DHCSR v))
    (\<lambda>_ s'. at c' r s' \<and> (v AND C_HALT \<noteq> 0 \<longrightarrow> stopped c' r s') \<and> (\<not> halted (cm_target s') \<longrightarrow> pend (cm_target s') \<le> limit))
    (\<lambda>e _. fail e) s"
  unfolding wp_tgt
  by (rule wp_mono [OF dhcsr_write]) (use assms in \<open>auto simp: stopped_def at_def\<close>)

lemma step_loop_wp:
  assumes "stopped c r s" and "p = 0 \<or> p = C_PMOV" and "c = (if d then C_MASKINTS else 0) OR p" and "limit < fuel"
  shows "wp (step_loop R fuel None start stop_at (step_value d p) rounds) (\<lambda>_. stopped c r)
    (\<lambda>e _. fail e \<or> e = Diverges \<and> (start \<noteq> stop_at \<or> rounds = 0)) s"
  using assms(1)
proof (induction rounds arbitrary: s)
  case (Suc rounds)
  let ?F = "\<lambda>e _. fail e \<or> e = Diverges \<and> (start \<noteq> stop_at \<or> Suc rounds = 0)"
  note v = step_value_bits [OF assms(2), of d]
  have same: "step_value d p AND C_MASKINTS = c AND C_MASKINTS"
    using assms(2) unfolding v(5) assms(3) by (auto simp: C_MASKINTS_def C_PMOV_def)
  have loop: "wp (step_loop R fuel None start stop_at (step_value d p) rounds) (\<lambda>_. stopped c r) ?F s'"
    if "stopped c r s'" "start \<noteq> stop_at" for s'
    by (rule wp_mono [OF Suc.IH [OF that(1)]]) (use that(2) in auto)
  show ?case
    unfolding step_loop.simps wp_bind wait_step_def patient option.case wp_get_state
  proof (rule wp_mono [OF dhcsr_write_wp [OF Suc.prems v(1,2) _ v(6)]])
    fix u s1 assume 1: "at ((if d then C_MASKINTS else 0) OR p) r s1 \<and> (step_value d p AND C_HALT \<noteq> 0 \<longrightarrow>
        stopped ((if d then C_MASKINTS else 0) OR p) r s1) \<and> (\<not> halted (cm_target s1) \<longrightarrow> pend (cm_target s1) \<le> limit)"
    show "wp (wait_for_halt R None False fuel) (\<lambda>x. wp (if start = stop_at \<or> x then ret ()
        else bind (tgt (rn_read_reg R ''pc'')) (\<lambda>program_counter.
          if program_counter < start \<or> stop_at \<le> program_counter then ret ()
          else bind (tgt (rn_read32 R DFSR)) (\<lambda>v.
            if v AND NOT DFSR_HALTED \<noteq> 0 then ret () else step_loop R fuel None start stop_at (step_value d p) rounds)))
        (\<lambda>_. stopped c r) ?F) ?F s1"
    proof (rule wp_mono [OF wait_for_halt_wp [of c r]])
      show "at c r s1" "halted (cm_target s1) \<longrightarrow> 0 < fuel" "\<not> halted (cm_target s1) \<longrightarrow> pend (cm_target s1) < fuel"
        using 1 assms(3,4) by auto
      fix x s2 assume 2: "\<not> x \<and> stopped c r s2"
      have more: "wp (bind (tgt (rn_read_reg R ''pc'')) (\<lambda>program_counter.
          if program_counter < start \<or> stop_at \<le> program_counter then ret ()
          else bind (tgt (rn_read32 R DFSR)) (\<lambda>v.
            if v AND NOT DFSR_HALTED \<noteq> 0 then ret () else step_loop R fuel None start stop_at (step_value d p) rounds)))
        (\<lambda>_. stopped c r) ?F s2" if "start \<noteq> stop_at"
        unfolding wp_bind
      proof (rule wp_mono [OF quiet_wp [OF conjunct2 [OF 2] pc_read]])
        fix pc s3 assume 3: "stopped c r s3"
        show "wp (if pc < start \<or> stop_at \<le> pc then ret ()
          else bind (tgt (rn_read32 R DFSR)) (\<lambda>v.
            if v AND NOT DFSR_HALTED \<noteq> 0 then ret () else step_loop R fuel None start stop_at (step_value d p) rounds))
          (\<lambda>_. stopped c r) ?F s3"
          using 3 loop that by (auto simp del: wp_tgt intro!: wp_mono [OF quiet_wp [OF 3 dfsr_read]])
      qed auto
      then show "wp (if start = stop_at \<or> x then ret ()
        else bind (tgt (rn_read_reg R ''pc'')) (\<lambda>program_counter.
          if program_counter < start \<or> stop_at \<le> program_counter then ret ()
          else bind (tgt (rn_read32 R DFSR)) (\<lambda>v.
            if v AND NOT DFSR_HALTED \<noteq> 0 then ret () else step_loop R fuel None start stop_at (step_value d p) rounds)))
        (\<lambda>_. stopped c r) ?F s2"
        using 2 by (simp del: wp_bind)
    qed auto
  qed (use same v in auto)
qed auto

lemma clear_debug_cause_bits_wp:
  "stopped c r s \<Longrightarrow> wp (clear_debug_cause_bits R) (\<lambda>_. stopped c r) (\<lambda>e _. fail e) s"
  unfolding clear_debug_cause_bits_def wp_bind wp_get_state Let_def by (rule quiet_wp) (auto intro: dfsr_write)

lemma step_wp:
  assumes "stopped c r s" and "limit < fuel"
  shows "wp (step R fuel disable start stop_at None) (\<lambda>_. stopped c (r + 1))
    (\<lambda>e _. fail e \<or> e = Diverges \<and> start \<noteq> stop_at) s"
proof -
  let ?F = "\<lambda>e _. fail e \<or> e = Diverges \<and> start \<noteq> stop_at"
  define p where "p = c AND C_PMOV"
  define m where "m = c AND C_MASKINTS"
  define c' where "c' = (if disable then C_MASKINTS else 0) OR p"
  define v where "v = step_value disable p"
  define vr where "vr = DBGKEY OR C_DEBUGEN OR C_HALT OR m OR p"
  have p: "p = 0 \<or> p = C_PMOV" and m: "m = 0 \<or> m = C_MASKINTS" using one_bit unfolding p_def m_def by blast+
  have c: "c = m OR p" using assms(1) ctl_bits two_bits unfolding m_def p_def stopped_def at_def by metis
  note w = step_value_bits [OF p, of disable, folded v_def c'_def] restore_value_bits [OF p m, folded vr_def, folded c]
  have i: "inv (cm_target s)" "ctl (cm_target s) = c" using assms(1) by (simp_all add: stopped_def at_def)
  have differ: "c' = c" if "\<not> (m \<noteq> 0) \<noteq> disable" using that m unfolding c c'_def by (auto simp: C_MASKINTS_def)
  have restore: "wp (if (m \<noteq> 0) \<noteq> disable then tgt (rn_write32 R DHCSR vr) else ret ()) (\<lambda>_. stopped c (r + 1)) ?F s'"
    if "stopped c' (r + 1) s'" for s'
    unfolding wp_if using that differ
    by (auto simp del: wp_tgt intro!: wp_mono [OF dhcsr_write_wp [OF that w(12,13) disjI1 [OF w(14)] w(15)]] simp: w)
  have "fuel > 0" using assms(2) by simp
  have loop: "wp (step_loop R fuel None start stop_at v fuel) (\<lambda>_. stopped c' (r + 1)) ?F s'"
    if "stopped c' (r + 1) s'" for s'
    unfolding v_def
    by (rule wp_mono [OF step_loop_wp [OF that p c'_def assms(2)]]) (use \<open>fuel > 0\<close> in auto)
  have mask: "wp (if (m \<noteq> 0) \<noteq> disable then tgt (rn_write32 R DHCSR (v OR C_HALT)) else ret ()) (\<lambda>_. stopped c' (r + 1)) ?F s'"
    if "stopped c (r + 1) s'" for s'
    unfolding wp_if w(7) using that differ
    by (auto simp del: wp_tgt intro!: wp_mono [OF dhcsr_write_wp [OF that w(8,9) disjI1 [OF w(10)] w(11)]] simp: w)
  have bump: "wp bump_run_token (\<lambda>_. stopped c (r + 1)) ?F s'" if "stopped c r s'" for s'
    using that by (simp add: bump_run_token_def stopped_def at_def)
  have clear: "wp (clear_debug_cause_bits R) (\<lambda>_. stopped c (r + 1)) ?F s'" if "stopped c (r + 1) s'" for s'
    by (rule wp_mono [OF clear_debug_cause_bits_wp [OF that]]) auto
  have flushing: "wp (flush R) (\<lambda>_. stopped c (r + 1)) ?F s'" if "stopped c (r + 1) s'" for s'
    by (rule wp_mono [OF quiet_wp [OF that flushed]]) auto
  have told: "wp (notify R (POST_RUN STEP)) (\<lambda>_. stopped c (r + 1)) ?F s'" if "stopped c (r + 1) s'" for s'
    by (rule wp_mono [OF quiet_wp [OF that notified]]) auto
  show ?thesis
    unfolding step_def wp_bind Let_def
  proof (subst wp_tgt, rule wp_mono [OF dhcsr_read [OF i(1)]])
    fix x t assume 1: "inv t \<and> ctl t = ctl (cm_target s) \<and> x AND C_MASKINTS = ctl (cm_target s) AND C_MASKINTS
      \<and> x AND C_PMOV = ctl (cm_target s) AND C_PMOV \<and> x AND C_DEBUGEN \<noteq> 0 \<and> (x AND C_HALT \<noteq> 0 \<longleftrightarrow> halted t)
      \<and> (halted (cm_target s) \<longrightarrow> halted t) \<and> (\<not> halted t \<longrightarrow> pend t < pend (cm_target s))"
    let ?s = "s\<lparr>cm_target := t\<rparr>"
    have x: "x AND C_MASKINTS = m" "x AND C_PMOV = p" "x AND C_DEBUGEN \<noteq> 0" "x AND C_HALT \<noteq> 0"
      using 1 i(2) assms(1) by (auto simp: m_def p_def stopped_def)
    have s: "stopped c r ?s" using 1 assms(1) by (simp add: stopped_def at_def)
    have go: "wp (bind (notify R (PRE_RUN STEP)) (\<lambda>_. bind bump_run_token (\<lambda>_. bind (clear_debug_cause_bits R) (\<lambda>_.
         bind (if (m \<noteq> 0) \<noteq> disable then tgt (rn_write32 R DHCSR (v OR C_HALT)) else ret ()) (\<lambda>_.
         bind (step_loop R fuel None start stop_at v fuel) (\<lambda>_.
         bind (if (m \<noteq> 0) \<noteq> disable then tgt (rn_write32 R DHCSR vr) else ret ()) (\<lambda>_.
         bind (flush R) (\<lambda>_. notify R (POST_RUN STEP))))))))) (\<lambda>_. stopped c (r + 1)) ?F ?s"
    proof (rule wp_seq)
      show "wp (notify R (PRE_RUN STEP)) (\<lambda>_. stopped c r) ?F ?s"
        by (rule wp_mono [OF quiet_wp [OF s notified]]) auto
    next
      fix s1 assume "stopped c r s1"
      then show "wp (bind bump_run_token (\<lambda>_. bind (clear_debug_cause_bits R) (\<lambda>_.
         bind (if (m \<noteq> 0) \<noteq> disable then tgt (rn_write32 R DHCSR (v OR C_HALT)) else ret ()) (\<lambda>_.
         bind (step_loop R fuel None start stop_at v fuel) (\<lambda>_.
         bind (if (m \<noteq> 0) \<noteq> disable then tgt (rn_write32 R DHCSR vr) else ret ()) (\<lambda>_.
         bind (flush R) (\<lambda>_. notify R (POST_RUN STEP)))))))) (\<lambda>_. stopped c (r + 1)) ?F s1"
        by (intro wp_seq [OF bump] wp_seq [OF clear] wp_seq [OF mask] wp_seq [OF loop] wp_seq [OF restore]
            wp_seq [OF flushing] told) 
    qed
    show "wp (if x AND C_DEBUGEN = 0 then raise DebugError
        else if x AND C_HALT = 0 then ret ()
        else bind (notify R (PRE_RUN STEP)) (\<lambda>_. bind bump_run_token (\<lambda>_. bind (clear_debug_cause_bits R) (\<lambda>_.
         bind (if (x AND C_MASKINTS \<noteq> 0) \<noteq> disable then tgt (rn_write32 R DHCSR (step_value disable (x AND C_PMOV) OR C_HALT)) else ret ()) (\<lambda>_.
         bind (step_loop R fuel None start stop_at (step_value disable (x AND C_PMOV)) fuel) (\<lambda>_.
         bind (if (x AND C_MASKINTS \<noteq> 0) \<noteq> disable
               then tgt (rn_write32 R DHCSR (DBGKEY OR C_DEBUGEN OR C_HALT OR x AND C_MASKINTS OR x AND C_PMOV)) else ret ()) (\<lambda>_.
         bind (flush R) (\<lambda>_. notify R (POST_RUN STEP)))))))))
        (\<lambda>_. stopped c (r + 1)) ?F ?s"
      unfolding x(1,2) if_not_P [OF x(3)] if_not_P [OF x(4)] by (rule go [unfolded v_def vr_def])
  qed simp
qed

end

subsection \<open>Reset\<close>

text \<open>
  What the core and its surroundings do in a reset, with the vector catch of DEMCR set: a reset -
  by AIRCR, whose write may be answered with a transfer error although it happened, or by the
  DebugPort - leaves the core halted; DEMCR keeps its value, for only a power-on reset changes it.
  Accesses to other registers, the writes of core registers, the notifications and the DebugPort's
  recovery leave a halted core halted and DEMCR as it is; no delegate or debug sequence acts.
\<close>

definition debug_registers :: "int set" where
  "debug_registers = {0xE000EDF0 ..< 0xE000EE00}"

locale reset_debug = demcr_register R inv demcr halted fail
  for R :: "'s run_ops" and inv :: "'s \<Rightarrow> bool" and demcr :: "'s \<Rightarrow> int" and halted :: "'s \<Rightarrow> bool"
    and fail :: "exn \<Rightarrow> bool" +
  assumes halting: "inv t \<Longrightarrow> wp (rn_write32 R DHCSR (DBGKEY OR C_DEBUGEN OR C_HALT))
      (\<lambda>_ t'. inv t' \<and> demcr t' = demcr t \<and> halted t') (\<lambda>e _. fail e) t"
    and quiet_read: "inv t \<Longrightarrow> wp (rn_read32 R a)
      (\<lambda>_ t'. inv t' \<and> demcr t' = demcr t \<and> (halted t \<longrightarrow> halted t'))
      (\<lambda>e t'. fail e \<and> (is_transfer_error e \<longrightarrow> inv t' \<and> demcr t' = demcr t \<and> (halted t \<longrightarrow> halted t'))) t"
    and quiet_write: "inv t \<Longrightarrow> a \<notin> debug_registers \<Longrightarrow> a \<noteq> NVIC_AIRCR \<Longrightarrow> wp (rn_write32 R a v)
      (\<lambda>_ t'. inv t' \<and> demcr t' = demcr t \<and> (halted t \<longrightarrow> halted t')) (\<lambda>e _. fail e) t"
    and quiet_block: "inv t \<Longrightarrow> {a ..< a + 4 * int (length ws)} \<inter> debug_registers = {} \<Longrightarrow>
      (\<forall>i < length ws. a + 4 * int i = NVIC_AIRCR \<longrightarrow> ws ! i AND (NVIC_AIRCR_SYSRESETREQ OR NVIC_AIRCR_VECTRESET) = 0) \<Longrightarrow>
      wp (rn_write_block32 R a ws)
        (\<lambda>_ t'. inv t' \<and> demcr t' = demcr t \<and> (halted t \<longrightarrow> halted t')) (\<lambda>e _. fail e) t"
    and reset_write: "inv t \<Longrightarrow> demcr t AND DEMCR_VC_CORERESET \<noteq> 0 \<Longrightarrow> m \<in> {NVIC_AIRCR_SYSRESETREQ, NVIC_AIRCR_VECTRESET} \<Longrightarrow>
      wp (rn_write32 R NVIC_AIRCR (NVIC_AIRCR_VECTKEY OR m))
        (\<lambda>_ t'. inv t' \<and> demcr t' = demcr t \<and> halted t')
        (\<lambda>e t'. fail e \<and> (is_transfer_error e \<longrightarrow> inv t' \<and> demcr t' = demcr t \<and> halted t')) t"
    and dp_reset: "inv t \<Longrightarrow> demcr t AND DEMCR_VC_CORERESET \<noteq> 0 \<Longrightarrow>
      wp (rn_dp_reset R) (\<lambda>_ t'. inv t' \<and> demcr t' = demcr t \<and> halted t') (\<lambda>e _. fail e) t"
    and flushed: "inv t \<Longrightarrow> wp (rn_flush R)
      (\<lambda>_ t'. inv t' \<and> demcr t' = demcr t \<and> (halted t \<longrightarrow> halted t'))
      (\<lambda>e t'. fail e \<and> (is_transfer_error e \<longrightarrow> inv t' \<and> demcr t' = demcr t \<and> (halted t \<longrightarrow> halted t'))) t"
    and quiet: "inv t \<Longrightarrow> q \<in> {rn_post_reset_recovery R, rn_write_regs R names vals} \<union> range (rn_notify R) \<Longrightarrow>
      wp q (\<lambda>_ t'. inv t' \<and> demcr t' = demcr t \<and> (halted t \<longrightarrow> halted t')) (\<lambda>e _. fail e) t"
    and quiet_reg: "inv t \<Longrightarrow> wp (rn_read_reg R nm)
      (\<lambda>_ t'. inv t' \<and> demcr t' = demcr t \<and> (halted t \<longrightarrow> halted t')) (\<lambda>e _. fail e) t"
    and no_delegate: "inv t \<Longrightarrow> wp (rn_delegate R name rt)
      (\<lambda>b t'. \<not> b \<and> inv t' \<and> demcr t' = demcr t \<and> (halted t \<longrightarrow> halted t')) (\<lambda>e _. fail e) t"
    and no_sequences: "rn_sequences R = None"
begin

text \<open>A state with the given DEMCR, run token and requested vector catch, halted or not.\<close>

definition core_at :: "int \<Rightarrow> bool \<Rightarrow> int \<Rightarrow> int \<Rightarrow> 's cortex_m \<Rightarrow> bool" where
  "core_at d h r l s \<longleftrightarrow> inv (cm_target s) \<and> demcr (cm_target s) = d \<and> (h \<longrightarrow> halted (cm_target s))
     \<and> cm_run_token s = r \<and> cm_last_vector_catch s = l"

definition hoare :: "('s cortex_m \<Rightarrow> bool) \<Rightarrow> ('s cortex_m, 'a) exec \<Rightarrow> ('a \<Rightarrow> 's cortex_m \<Rightarrow> bool) \<Rightarrow> bool" where
  "hoare P m Q \<longleftrightarrow> (\<forall>s. P s \<longrightarrow> wp m Q (\<lambda>e _. fail e) s)"

lemma hoare_seq: "hoare P m Q' \<Longrightarrow> (\<And>x. hoare (Q' x) (f x) Q) \<Longrightarrow> hoare P (bind m f) Q"
  unfolding hoare_def wp_bind by (blast intro: wp_mono)

lemma hoare_if: "(b \<Longrightarrow> hoare P m Q) \<Longrightarrow> (\<not> b \<Longrightarrow> hoare P m' Q) \<Longrightarrow> hoare P (if b then m else m') Q"
  by simp

lemma hoare_ret: "(\<And>s. P s \<Longrightarrow> Q x s) \<Longrightarrow> hoare P (ret x) Q"
  by (simp add: hoare_def)

lemma hoare_state: "(\<And>s. P s \<Longrightarrow> wp (f s) Q (\<lambda>e _. fail e) s) \<Longrightarrow> hoare P (bind get_state f) Q"
  by (simp add: hoare_def)

lemma hoare_D: "hoare P m Q \<Longrightarrow> P s \<Longrightarrow> wp m Q (\<lambda>e _. fail e) s"
  by (simp add: hoare_def)

lemma hoare_tgt:
  assumes "\<And>t. inv t \<Longrightarrow> demcr t = d \<Longrightarrow> (h \<longrightarrow> halted t) \<Longrightarrow>
      wp m (\<lambda>x t'. Q x \<and> inv t' \<and> demcr t' = d' \<and> (h' \<longrightarrow> halted t')) (\<lambda>e _. fail e) t"
  shows "hoare (core_at d h r l) (tgt m) (\<lambda>x s. Q x \<and> core_at d' h' r l s)"
  unfolding hoare_def wp_tgt using assms by (auto simp: core_at_def intro: wp_mono)

lemma quiet_hoare:
  assumes "\<And>t. inv t \<Longrightarrow> wp m (\<lambda>_ t'. inv t' \<and> demcr t' = demcr t \<and> (halted t \<longrightarrow> halted t')) (\<lambda>e _. fail e) t"
  shows "hoare (core_at d h r l) (tgt m) (\<lambda>_. core_at d h r l)"
  using hoare_tgt [of d h m "\<lambda>_. True" d h r l] assms by (auto intro: wp_mono)

lemma plain_read: "inv t \<Longrightarrow> wp (rn_read32 R a) (\<lambda>_ t'. inv t' \<and> demcr t' = demcr t \<and> (halted t \<longrightarrow> halted t')) (\<lambda>e _. fail e) t"
  by (rule wp_mono [OF quiet_read]) auto

lemma plain_flush: "inv t \<Longrightarrow> wp (rn_flush R) (\<lambda>_ t'. inv t' \<and> demcr t' = demcr t \<and> (halted t \<longrightarrow> halted t')) (\<lambda>e _. fail e) t"
  by (rule wp_mono [OF flushed]) auto

lemma quiet_read_hoare: "hoare (core_at d h r l) (read32 R a) (\<lambda>_. core_at d h r l)"
  by (rule quiet_hoare) (rule plain_read)

lemma quiet_flush_hoare: "hoare (core_at d h r l) (flush R) (\<lambda>_. core_at d h r l)"
  by (rule quiet_hoare) (rule plain_flush)

lemma quiet_reg_hoare: "hoare (core_at d h r l) (tgt (rn_read_reg R nm)) (\<lambda>_. core_at d h r l)"
  by (rule quiet_hoare) (rule quiet_reg)

lemma quiet_notify_hoare: "hoare (core_at d h r l) (notify R e) (\<lambda>_. core_at d h r l)"
  by (rule quiet_hoare [OF quiet]) auto

lemma demcr_read_hoare: "hoare (core_at d h r l) (read32 R DEMCR) (\<lambda>v s. v = d \<and> core_at d h r l s)"
  by (rule hoare_tgt) (auto intro: wp_mono [OF demcr_read])

lemma demcr_write_hoare: "hoare (core_at d h r l) (write32 R DEMCR v) (\<lambda>_. core_at v h r l)"
  using hoare_tgt [of d h "rn_write32 R DEMCR v" "\<lambda>_. True" v h r l] by (auto intro: wp_mono [OF demcr_write])

lemma delegate_hoare: "hoare (core_at d h r l) (call_delegate R name rt) (\<lambda>b s. \<not> b \<and> core_at d h r l s)"
  by (rule hoare_tgt) (auto intro: wp_mono [OF no_delegate])

lemma delegate_quiet: "hoare (core_at d h r l) (call_delegate R name rt) (\<lambda>_. core_at d h r l)"
  by (rule quiet_hoare) (rule wp_mono [OF no_delegate]; auto)

lemma hook_hoare: "hoare (core_at d h r l) (hook_or_sequence R method rt name) (\<lambda>b s. \<not> b \<and> core_at d h r l s)"
  unfolding hook_or_sequence_def
  by (rule hoare_seq [OF delegate_hoare]) (simp add: has_debug_sequence_def no_sequences hoare_def)

lemma halt_hoare: "hoare (core_at d h r l) (halt R) (\<lambda>_. core_at d True r l)"
  unfolding halt_def
  by (intro hoare_seq [OF quiet_notify_hoare] hoare_seq [OF quiet_flush_hoare] quiet_notify_hoare
      hoare_seq [OF hoare_tgt [where Q = "\<lambda>_. True" and h' = True and d' = d, simplified]])
    (auto intro: wp_mono [OF halting])

lemma get_core_state_hoare: "hoare (core_at d h r l) (get_core_state R) (\<lambda>_. core_at d h r l)"
  unfolding get_core_state_def
  by (intro hoare_seq [OF quiet_read_hoare] hoare_seq [where Q' = "\<lambda>_. core_at d h r l"] hoare_ret hoare_if) auto

end

context reset_debug
begin

lemma block_hoare:
  assumes "{a ..< a + 4 * int (length ws)} \<inter> debug_registers = {}"
    and "\<forall>i < length ws. a + 4 * int i = NVIC_AIRCR \<longrightarrow> ws ! i AND (NVIC_AIRCR_SYSRESETREQ OR NVIC_AIRCR_VECTRESET) = 0"
  shows "hoare (core_at d h r l) (tgt (rn_write_block32 R a ws)) (\<lambda>_. core_at d h r l)"
  by (rule quiet_hoare) (rule quiet_block [OF _ assms])

lemma write_hoare:
  "a \<notin> debug_registers \<Longrightarrow> a \<noteq> NVIC_AIRCR \<Longrightarrow> hoare (core_at d h r l) (write32 R a v) (\<lambda>_. core_at d h r l)"
  by (rule quiet_hoare) (rule quiet_write)

lemma quiet_regs_hoare: "hoare (core_at d h r l) (tgt (rn_write_regs R names vals)) (\<lambda>_. core_at d h r l)"
  by (rule quiet_hoare [OF quiet]) auto

lemmas reset_addresses = ICSR_def CPACR_def FPCCR_def SYSTICK_CSR_def NVIC_ICER0_def NVIC_ICPR0_def NVIC_IPR0_def
  NVIC_AIRCR_def debug_registers_def

lemma numregs_bound: "nat ((x AND 0xf) + 1) \<le> 16" for x :: int
proof -
  have "x AND 0xf = x mod 16" using and_low_mask [of x 4] by simp
  then show ?thesis by simp
qed

lemma emulated_reset_hoare:
  assumes d: "d AND DEMCR_VC_CORERESET \<noteq> 0"
  shows "hoare (core_at d h r l) (perform_emulated_reset R) (\<lambda>_. core_at d True r l)"
proof -
  let ?P = "core_at d True r l"
  have icsr: "hoare ?P (tgt (rn_write_block32 R ICSR
        [ICSR_PENDSVCLR OR ICSR_PENDSTCLR, vb, NVIC_AIRCR_VECTKEY OR NVIC_AIRCR_VECTCLRACTIVE, 0, 0, 0, 0, 0, 0, 0])) (\<lambda>_. ?P)" for vb
    by (rule block_hoare)
      (auto simp: reset_addresses less_Suc_eq nth_Cons' NVIC_AIRCR_VECTKEY_def NVIC_AIRCR_VECTCLRACTIVE_def
        NVIC_AIRCR_SYSRESETREQ_def NVIC_AIRCR_VECTRESET_def)
  have small: "hoare ?P (tgt (rn_write_block32 R FPCCR [0, 0, 0])) (\<lambda>_. ?P)"
    "hoare ?P (tgt (rn_write_block32 R SYSTICK_CSR [0, 0, 0])) (\<lambda>_. ?P)"
    "hoare ?P (write32 R CPACR 0) (\<lambda>_. ?P)"
    by (rule block_hoare write_hoare; auto simp: reset_addresses)+
  have nvic: "hoare ?P (tgt (rn_write_block32 R NVIC_ICER0 (replicate (nat ((x AND 0xf) + 1)) 0xffffffff))) (\<lambda>_. ?P)"
    "hoare ?P (tgt (rn_write_block32 R NVIC_ICPR0 (replicate (nat ((x AND 0xf) + 1)) 0xffffffff))) (\<lambda>_. ?P)"
    "hoare ?P (tgt (rn_write_block32 R NVIC_IPR0 (replicate (nat ((x AND 0xf) + 1) * 8) 0xffffffff))) (\<lambda>_. ?P)" for x
    using numregs_bound [of x] by - (rule block_hoare; auto simp: reset_addresses)+
  have fin: "hoare (\<lambda>s. v = d \<and> ?P s) (if v AND DEMCR_VC_CORERESET = 0 then resume R else ret ()) (\<lambda>_. ?P)" for v
    using d by (auto simp: hoare_def)
  have boot: "hoare ?P (case rn_boot R of None \<Rightarrow> read32 R VTOR | Some start \<Rightarrow> ret start) (\<lambda>_. ?P)"
    by (cases "rn_boot R") (auto intro: quiet_read_hoare hoare_ret)
  have later: "hoare ?P (bind (tgt (rn_write_regs R (map fst regs) (map snd regs))) (\<lambda>_.
     bind (tgt (rn_write_block32 R ICSR
        [ICSR_PENDSVCLR OR ICSR_PENDSTCLR, vb, NVIC_AIRCR_VECTKEY OR NVIC_AIRCR_VECTCLRACTIVE, 0, 0, 0, 0, 0, 0, 0])) (\<lambda>_.
     bind (write32 R CPACR 0) (\<lambda>_.
     bind (if fpu then tgt (rn_write_block32 R FPCCR [0, 0, 0]) else ret ()) (\<lambda>_.
     bind (tgt (rn_write_block32 R SYSTICK_CSR [0, 0, 0])) (\<lambda>_.
     bind (read32 R ICTR) (\<lambda>ictr.
     bind (tgt (rn_write_block32 R NVIC_ICER0 (replicate (nat ((ictr AND 0xf) + 1)) 0xffffffff))) (\<lambda>_.
     bind (tgt (rn_write_block32 R NVIC_ICPR0 (replicate (nat ((ictr AND 0xf) + 1)) 0xffffffff))) (\<lambda>_.
     bind (tgt (rn_write_block32 R NVIC_IPR0 (replicate (nat ((ictr AND 0xf) + 1) * 8) 0xffffffff))) (\<lambda>_.
     bind (read32 R DEMCR) (\<lambda>demcr.
       if demcr AND DEMCR_VC_CORERESET = 0 then resume R else ret ())))))))))))
     (\<lambda>_. ?P)" for regs vb fpu
    by (intro hoare_seq [OF quiet_regs_hoare] hoare_seq [OF icsr] hoare_seq [OF small(1)] hoare_seq [OF small(2)] hoare_seq [OF small(3)]
        hoare_seq [OF nvic(1)] hoare_seq [OF nvic(2)] hoare_seq [OF nvic(3)] hoare_seq [OF demcr_read_hoare]
        hoare_seq [OF quiet_read_hoare] hoare_seq [OF hoare_if [OF small(1)]] hoare_ret fin)
  show ?thesis
    unfolding perform_emulated_reset_def Let_def
    by (intro hoare_seq [OF halt_hoare] hoare_seq [OF boot] hoare_seq [OF quiet_read_hoare] hoare_state)
      (rule hoare_D [OF later], assumption)
qed

lemma accessibility_hoare: "hoare (core_at d h r l) (accessibility_loop R n) (\<lambda>_. core_at d h r l)"
proof (induction n)
  case (Suc n)
  have "hoare (core_at d h r l) (catch (bind (read32 R DHCSR) (\<lambda>v. ret (v AND S_RESET_ST = 0))) is_transfer_error
             (\<lambda>_. bind (catch (flush R) is_transfer_error (\<lambda>_. ret ())) (\<lambda>_. ret False))) (\<lambda>_. core_at d h r l)"
    unfolding hoare_def wp_catch wp_bind wp_ret wp_tgt
    by (auto simp: core_at_def intro!: wp_mono [OF quiet_read] wp_mono [OF flushed])
  then show ?case unfolding accessibility_loop.simps by (rule hoare_seq) (auto intro: hoare_ret Suc.IH)
next
  case 0
  show ?case unfolding accessibility_loop.simps by (rule hoare_ret)
qed

lemma reset_write_hoare:
  assumes "d AND DEMCR_VC_CORERESET \<noteq> 0" and "m \<in> {NVIC_AIRCR_SYSRESETREQ, NVIC_AIRCR_VECTRESET}"
  shows "hoare (core_at d h r l) (catch (bind (write32 R NVIC_AIRCR (NVIC_AIRCR_VECTKEY OR m)) (\<lambda>_. flush R))
      is_transfer_error (\<lambda>_. flush R)) (\<lambda>_. core_at d True r l)"
  unfolding hoare_def wp_catch wp_bind wp_tgt
  using assms by (auto simp: core_at_def intro!: wp_mono [OF reset_write] wp_mono [OF flushed])

lemma perform_reset_hoare:
  assumes d: "d AND DEMCR_VC_CORERESET \<noteq> 0"
  shows "hoare (core_at d h r l) (perform_reset R rt) (\<lambda>_. core_at d True r l)"
proof -
  have dp: "hoare (core_at d h r l) (tgt (rn_dp_reset R)) (\<lambda>_. core_at d True r l)"
    using hoare_tgt [of d h "rn_dp_reset R" "\<lambda>_. True" d True r l] d by (auto intro: wp_mono [OF dp_reset])
  have m: "m \<in> {NVIC_AIRCR_SYSRESETREQ, NVIC_AIRCR_VECTRESET}" if "reset_mask rt = (rt', m)" for rt' m
    using that by (auto simp: reset_mask_def split: if_splits)
  have first: "hoare (core_at d h r l)
      (if rt \<in> {HARDWARE, NSRST} then bind (tgt (rn_dp_reset R)) (\<lambda>_. ret NSRST)
       else if rt = EMULATED then bind (perform_emulated_reset R) (\<lambda>_. ret rt)
       else case reset_mask rt of (rt', m) \<Rightarrow>
         bind (catch (bind (write32 R NVIC_AIRCR (NVIC_AIRCR_VECTKEY OR m)) (\<lambda>_. flush R))
                 is_transfer_error (\<lambda>_. flush R)) (\<lambda>_. ret rt')) (\<lambda>_. core_at d True r l)"
    by (intro hoare_if hoare_seq [OF dp] hoare_seq [OF emulated_reset_hoare [OF d]] hoare_ret, assumption+)
      (auto simp del: wp_bind split: prod.split intro!: hoare_seq [OF reset_write_hoare [OF d m]] hoare_ret)
  have rec: "hoare (core_at d True r l) (tgt (rn_post_reset_recovery R)) (\<lambda>_. core_at d True r l)"
    by (rule quiet_hoare [OF quiet]) auto
  have acc: "hoare (core_at d True r l) (post_reset_core_accessibility_test R) (\<lambda>_. core_at d True r l)"
    unfolding post_reset_core_accessibility_test_def
    by (intro hoare_if hoare_ret hoare_state, assumption) (rule hoare_D [OF accessibility_hoare])
  show ?thesis
    unfolding perform_reset_def
    by (intro hoare_seq [OF first] hoare_seq [OF hoare_if [OF rec hoare_ret]] hoare_if acc hoare_ret)
qed

lemma bump_hoare: "hoare (core_at d h r l) bump_run_token (\<lambda>_. core_at d h (r + 1) l)"
  by (simp add: bump_run_token_def hoare_def core_at_def)

lemma reset_hoare:
  assumes d: "d AND DEMCR_VC_CORERESET \<noteq> 0"
  shows "hoare (core_at d h r l) (reset R rt) (\<lambda>_. core_at d True (r + 1) l)"
proof -
  have hook: "hoare (core_at d h (r + 1) l) (reset_hook R rt') (\<lambda>_. core_at d True (r + 1) l)" for rt'
    unfolding reset_hook_def no_sequences option.case
    by (rule hoare_seq [OF delegate_hoare]) (auto simp: hoare_def intro: hoare_D [OF perform_reset_hoare [OF d]])
  show ?thesis
    unfolding reset_def Let_def
    by (rule hoare_state, erule hoare_D [rotated])
      (intro hoare_seq [OF quiet_notify_hoare] hoare_seq [OF bump_hoare] hoare_seq [OF hook]
        hoare_seq [OF delegate_quiet] quiet_notify_hoare)
qed

lemma set_reset_catch_hoare:
  "hoare (core_at d h r l) (set_reset_catch R rt) (\<lambda>_. core_at (d OR DEMCR_VC_CORERESET) True r l)"
proof -
  have or: "d OR DEMCR_VC_CORERESET = d" if "d AND DEMCR_VC_CORERESET \<noteq> 0"
    using that and_exp_eq_0_iff_not_bit [of d 0] by (intro bit_eqI) (auto simp: DEMCR_VC_CORERESET_def bit_or_iff bit_1_iff)
  have act: "hoare (core_at d h r l) (bind (halt R) (\<lambda>_. bind (read32 R DEMCR) (\<lambda>demcr.
      if demcr AND DEMCR_VC_CORERESET = 0 then write32 R DEMCR (demcr OR DEMCR_VC_CORERESET) else ret ())))
      (\<lambda>_. core_at (d OR DEMCR_VC_CORERESET) True r l)"
  proof (intro hoare_seq [OF halt_hoare] hoare_seq [OF demcr_read_hoare])
    fix v
    show "hoare (\<lambda>s. v = d \<and> core_at d True r l s)
      (if v AND DEMCR_VC_CORERESET = 0 then write32 R DEMCR (v OR DEMCR_VC_CORERESET) else ret ())
      (\<lambda>_. core_at (d OR DEMCR_VC_CORERESET) True r l)"
      using demcr_write_hoare [of d True r l "d OR DEMCR_VC_CORERESET"] or by (auto simp: hoare_def simp del: wp_tgt)
  qed
  show ?thesis
    unfolding set_reset_catch_def
    by (intro hoare_seq [OF quiet_notify_hoare] hoare_seq [OF hook_hoare]) (use act in \<open>auto simp: hoare_def simp del: wp_bind wp_tgt\<close>)
qed

lemma clear_reset_catch_hoare:
  "hoare (core_at d h r l) (clear_reset_catch R rt)
    (\<lambda>_. core_at (if l AND VectorCatch_CORE_RESET = 0 then d AND NOT DEMCR_VC_CORERESET else d) h r l)"
proof -
  let ?d = "if l AND VectorCatch_CORE_RESET = 0 then d AND NOT DEMCR_VC_CORERESET else d"
  have same: "d AND NOT DEMCR_VC_CORERESET = d" if "d AND DEMCR_VC_CORERESET = 0"
    using that and_exp_eq_0_iff_not_bit [of d 0]
    by (intro bit_eqI) (auto simp: DEMCR_VC_CORERESET_def bit_and_iff bit_not_iff bit_1_iff intro!: gr0I)
  have clr: "hoare (core_at d h r l) (bind (read32 R DEMCR) (\<lambda>demcr.
      if demcr AND DEMCR_VC_CORERESET \<noteq> 0 then write32 R DEMCR (demcr AND NOT DEMCR_VC_CORERESET) else ret ()))
      (\<lambda>_. core_at (d AND NOT DEMCR_VC_CORERESET) h r l)"
  proof (rule hoare_seq [OF demcr_read_hoare])
    fix v
    show "hoare (\<lambda>s. v = d \<and> core_at d h r l s)
      (if v AND DEMCR_VC_CORERESET \<noteq> 0 then write32 R DEMCR (v AND NOT DEMCR_VC_CORERESET) else ret ())
      (\<lambda>_. core_at (d AND NOT DEMCR_VC_CORERESET) h r l)"
      using demcr_write_hoare [of d h r l "d AND NOT DEMCR_VC_CORERESET"] same by (auto simp: hoare_def simp del: wp_tgt)
  qed
  have body: "hoare (\<lambda>s. \<not> res \<and> core_at d h r l s) (bind get_state (\<lambda>s.
     bind (if \<not> res \<and> cm_last_vector_catch s AND VectorCatch_CORE_RESET = 0
           then bind (read32 R DEMCR) (\<lambda>demcr.
             if demcr AND DEMCR_VC_CORERESET \<noteq> 0 then write32 R DEMCR (demcr AND NOT DEMCR_VC_CORERESET) else ret ())
           else ret ()) (\<lambda>_. notify R (POST_HALT VECTOR_CATCH)))) (\<lambda>_. core_at ?d h r l)" for res
  proof (rule hoare_state)
    fix s assume 1: "\<not> res \<and> core_at d h r l s"
    then have l: "cm_last_vector_catch s = l" by (simp add: core_at_def)
    have "hoare (core_at d h r l) (bind (if \<not> res \<and> l AND VectorCatch_CORE_RESET = 0
           then bind (read32 R DEMCR) (\<lambda>demcr.
             if demcr AND DEMCR_VC_CORERESET \<noteq> 0 then write32 R DEMCR (demcr AND NOT DEMCR_VC_CORERESET) else ret ())
           else ret ()) (\<lambda>_. notify R (POST_HALT VECTOR_CATCH))) (\<lambda>_. core_at ?d h r l)"
      by (rule hoare_seq [OF _ quiet_notify_hoare]) (use clr 1 in \<open>auto intro: hoare_ret simp del: wp_bind\<close>)
    then show "wp (bind (if \<not> res \<and> cm_last_vector_catch s AND VectorCatch_CORE_RESET = 0
           then bind (read32 R DEMCR) (\<lambda>demcr.
             if demcr AND DEMCR_VC_CORERESET \<noteq> 0 then write32 R DEMCR (demcr AND NOT DEMCR_VC_CORERESET) else ret ())
           else ret ()) (\<lambda>_. notify R (POST_HALT VECTOR_CATCH))) (\<lambda>_. core_at ?d h r l) (\<lambda>e _. fail e) s"
      unfolding l by (rule hoare_D) (use 1 in blast)
  qed
  show ?thesis unfolding clear_reset_catch_def by (rule hoare_seq [OF hook_hoare body])
qed

lemma wait_stopped_hoare: "hoare (core_at d h r l) (wait_stopped R n) (\<lambda>_. core_at d h r l)"
  by (induction n) (auto simp del: ret_apply simp: wait_stopped.simps intro!: hoare_seq [OF get_core_state_hoare] hoare_ret hoare_if)

lemma check_t_bit_hoare: "hoare (core_at d h r l) (check_t_bit R) (\<lambda>_. core_at d h r l)"
  unfolding check_t_bit_def
  by (intro hoare_seq [OF get_core_state_hoare] hoare_if hoare_seq [OF quiet_reg_hoare] hoare_ret)

lemma reset_and_halt_hoare:
  assumes "l AND VectorCatch_CORE_RESET \<noteq> 0 \<longleftrightarrow> d AND DEMCR_VC_CORERESET \<noteq> 0"
  shows "hoare (core_at d h r l) (reset_and_halt R rt) (\<lambda>_. core_at d True (r + 1) l)"
proof -
  have set: "(d OR DEMCR_VC_CORERESET) AND DEMCR_VC_CORERESET \<noteq> 0"
    using and_exp_eq_0_iff_not_bit [of "d OR DEMCR_VC_CORERESET" 0] by (simp add: DEMCR_VC_CORERESET_def bit_or_iff)
  have kept: "(if l AND VectorCatch_CORE_RESET = 0 then (d OR DEMCR_VC_CORERESET) AND NOT DEMCR_VC_CORERESET
      else d OR DEMCR_VC_CORERESET) = d"
    using assms and_exp_eq_0_iff_not_bit [of d 0]
    by (auto intro!: bit_eqI gr0I simp: DEMCR_VC_CORERESET_def bit_or_iff bit_and_iff bit_not_iff bit_1_iff)
  have wait: "hoare (core_at d' h' r' l') (if b then bind get_state (\<lambda>s. wait_stopped R (rn_halt_ticks R (cm_target s))) else ret ())
      (\<lambda>_. core_at d' h' r' l')" for b d' h' r' l'
    by (intro hoare_if hoare_state hoare_ret) (rule hoare_D [OF wait_stopped_hoare])
  show ?thesis
    unfolding reset_and_halt_def Let_def
    by (rule hoare_state, erule hoare_D [rotated])
      (intro hoare_seq [OF set_reset_catch_hoare] hoare_seq [OF reset_hoare [OF set]]
        hoare_seq [OF wait] hoare_seq [OF clear_reset_catch_hoare [of "d OR DEMCR_VC_CORERESET" True "r + 1" l, unfolded kept]]
        check_t_bit_hoare)
qed

end

subsection \<open>A core that keeps the laws\<close>

text \<open>
  DHCSR's C_MASKINTS and C_PMOV, whether the core is halted, DEMCR, and the reads until a started
  core halts again; \<open>sp_broken\<close> notes a write that changes C_MASKINTS of a running core, or while
  it starts it.
\<close>

record sim_cpu =
  sp_ctl :: int
  sp_halted :: bool
  sp_demcr :: int
  sp_pend :: nat
  sp_broken :: bool

definition sim_cpu_read :: "int \<Rightarrow> (sim_cpu, int) exec" where
  "sim_cpu_read a p =
     (if a = DHCSR
      then let h = sp_halted p \<or> sp_pend p = 0
           in (Inr (C_DEBUGEN OR (if h then C_HALT OR S_HALT else 0) OR sp_ctl p), p\<lparr>sp_halted := h, sp_pend := sp_pend p - 1\<rparr>)
      else (Inr (if a = DEMCR then sp_demcr p else 0), p))"

definition sim_cpu_write :: "int \<Rightarrow> int \<Rightarrow> (sim_cpu, unit) exec" where
  "sim_cpu_write a v p =
     (Inr (),
      if a = DHCSR
      then p\<lparr>sp_ctl := v AND (C_MASKINTS OR C_PMOV), sp_halted := v AND C_HALT \<noteq> 0, sp_pend := 2,
             sp_broken := sp_broken p \<or> v AND C_MASKINTS \<noteq> sp_ctl p AND C_MASKINTS \<and> \<not> (sp_halted p \<and> v AND C_HALT \<noteq> 0)\<rparr>
      else if a = DEMCR then p\<lparr>sp_demcr := v\<rparr>
      else if a = NVIC_AIRCR then p\<lparr>sp_halted := sp_demcr p AND DEMCR_VC_CORERESET \<noteq> 0\<rparr>
      else p)"

definition sim_run_ops :: "nat option \<Rightarrow> sim_cpu run_ops" where
  "sim_run_ops ticks = \<lparr>rn_read32 = sim_cpu_read, rn_write32 = sim_cpu_write, rn_write_block32 = (\<lambda>_ _. ret ()),
     rn_flush = ret (), rn_set_cacheable = ret (), rn_read_reg = (\<lambda>_. ret 0x100), rn_write_regs = (\<lambda>_ _. ret ()),
     rn_notify = (\<lambda>_. ret ()), rn_delegate = (\<lambda>_ _. ret False), rn_sequences = None,
     rn_dp_reset = (\<lambda>p. (Inr (), p\<lparr>sp_halted := sp_demcr p AND DEMCR_VC_CORERESET \<noteq> 0\<rparr>)),
     rn_post_reset_recovery = ret (), rn_remove_breakpoints = ret (), rn_remove_watchpoints = ret (), rn_boot = Some 0,
     rn_reset_option = ''default'', rn_step_ticks = (\<lambda>_. ticks), rn_halt_ticks = (\<lambda>_. 3), rn_recover_ticks = (\<lambda>_. 3),
     rn_recover_enabled = True, rn_irq_table = (\<lambda>_. None)\<rparr>"

lemma sim_run_ops_simps [simp]:
  "rn_read32 (sim_run_ops k) = sim_cpu_read" "rn_write32 (sim_run_ops k) = sim_cpu_write"
  "rn_write_block32 (sim_run_ops k) = (\<lambda>_ _. ret ())" "rn_flush (sim_run_ops k) = ret ()"
  "rn_read_reg (sim_run_ops k) = (\<lambda>_. ret 0x100)" "rn_write_regs (sim_run_ops k) = (\<lambda>_ _. ret ())"
  "rn_notify (sim_run_ops k) = (\<lambda>_. ret ())" "rn_delegate (sim_run_ops k) = (\<lambda>_ _. ret False)"
  "rn_sequences (sim_run_ops k) = None" "rn_post_reset_recovery (sim_run_ops k) = ret ()"
  "rn_dp_reset (sim_run_ops k) = (\<lambda>p. (Inr (), p\<lparr>sp_halted := sp_demcr p AND DEMCR_VC_CORERESET \<noteq> 0\<rparr>))"
  "rn_step_ticks (sim_run_ops k) = (\<lambda>_. k)"
  by (simp_all add: sim_run_ops_def)

definition sim_cpu_inv :: "sim_cpu \<Rightarrow> bool" where
  "sim_cpu_inv p \<longleftrightarrow> sp_ctl p AND (C_MASKINTS OR C_PMOV) = sp_ctl p"

lemma sim_ctl_bits:
  assumes "sim_cpu_inv p" and "h = 0 \<or> h = C_HALT OR S_HALT"
  shows "(C_DEBUGEN OR h OR sp_ctl p) AND C_MASKINTS = sp_ctl p AND C_MASKINTS"
    "(C_DEBUGEN OR h OR sp_ctl p) AND C_PMOV = sp_ctl p AND C_PMOV"
    "(C_DEBUGEN OR h OR sp_ctl p) AND C_DEBUGEN \<noteq> 0"
    "(C_DEBUGEN OR h OR sp_ctl p) AND C_HALT \<noteq> 0 \<longleftrightarrow> h \<noteq> 0"
proof -
  have "sp_ctl p \<in> {0, 8, 64, 72}"
    using assms(1) one_bit [of "sp_ctl p"] two_bits [of "sp_ctl p"]
    by (auto simp: sim_cpu_inv_def C_MASKINTS_def C_PMOV_def)
  then show "(C_DEBUGEN OR h OR sp_ctl p) AND C_MASKINTS = sp_ctl p AND C_MASKINTS"
    "(C_DEBUGEN OR h OR sp_ctl p) AND C_PMOV = sp_ctl p AND C_PMOV"
    "(C_DEBUGEN OR h OR sp_ctl p) AND C_DEBUGEN \<noteq> 0"
    "(C_DEBUGEN OR h OR sp_ctl p) AND C_HALT \<noteq> 0 \<longleftrightarrow> h \<noteq> 0"
    using assms(2) by (auto simp: C_MASKINTS_def C_PMOV_def C_DEBUGEN_def C_HALT_def S_HALT_def)
qed

lemma debug_addresses [simp]: "DHCSR \<noteq> DEMCR" "DFSR \<noteq> DHCSR" "DFSR \<noteq> DEMCR" "DFSR \<noteq> NVIC_AIRCR" "DEMCR \<noteq> DHCSR"
  "NVIC_AIRCR \<noteq> DHCSR" "NVIC_AIRCR \<noteq> DEMCR"
  by (simp_all add: DHCSR_def DEMCR_def DFSR_def NVIC_AIRCR_def)

interpretation sim_step: halting_debug "sim_run_ops None" sim_cpu_inv sp_ctl sp_halted sp_pend 2 "\<lambda>_. False"
proof
  fix t assume t: "sim_cpu_inv t"
  show "wp (rn_read32 (sim_run_ops None) DHCSR)
      (\<lambda>v t'. sim_cpu_inv t' \<and> sp_ctl t' = sp_ctl t \<and> v AND C_MASKINTS = sp_ctl t AND C_MASKINTS
         \<and> v AND C_PMOV = sp_ctl t AND C_PMOV \<and> v AND C_DEBUGEN \<noteq> 0 \<and> (v AND C_HALT \<noteq> 0 \<longleftrightarrow> sp_halted t')
         \<and> (sp_halted t \<longrightarrow> sp_halted t') \<and> (\<not> sp_halted t' \<longrightarrow> sp_pend t' < sp_pend t)) (\<lambda>_ _. False) t"
    using sim_ctl_bits [OF t, of 0] sim_ctl_bits [OF t, of "C_HALT OR S_HALT"] t
    by (simp add: wp_case sim_cpu_read_def Let_def C_HALT_def S_HALT_def) (simp add: sim_cpu_inv_def)
qed (auto simp: wp_case sim_cpu_read_def sim_cpu_write_def sim_cpu_inv_def)

interpretation sim_reset: reset_debug "sim_run_ops k" "\<lambda>_. True" sp_demcr sp_halted "\<lambda>_. False"
  by unfold_locales
    (auto simp: wp_case sim_cpu_read_def sim_cpu_write_def Let_def debug_registers_def DHCSR_def DEMCR_def
      C_HALT_def C_DEBUGEN_def DBGKEY_def NVIC_AIRCR_def)

definition demo_cpu :: "int \<Rightarrow> int \<Rightarrow> sim_cpu cortex_m" where
  "demo_cpu masks demcr =
     CortexM False False \<lparr>sp_ctl = masks, sp_halted = True, sp_demcr = demcr, sp_pend = 0, sp_broken = False\<rparr>"

lemma demo_cpu_simps [simp]: "cm_target (demo_cpu c d) = \<lparr>sp_ctl = c, sp_halted = True, sp_demcr = d, sp_pend = 0, sp_broken = False\<rparr>"
  "cm_run_token (demo_cpu c d) = 0" "cm_last_vector_catch (demo_cpu c d) = 0"
  by (simp_all add: demo_cpu_def CortexM_def)

subsection \<open>Stepping and resetting, end to end\<close>





text \<open>
  C25. Setting the vector catches and reading them back returns exactly the requested ones of the
  nine kinds, remembers them, and leaves every other bit of DEMCR alone.
\<close>

theorem vector_catch_roundtrip:
  assumes "demcr_register R invar demcr halted fail" and "invar (cm_target s)"
  shows "case set_vector_catch R m s of
      (Inr _, s1) \<Rightarrow>
        (case get_vector_catch R s1 of
           (Inr x, s2) \<Rightarrow> x = m AND VectorCatch_ALL \<and> cm_last_vector_catch s2 = x
             \<and> demcr (cm_target s2) AND NOT 0xff1 = demcr (cm_target s) AND NOT 0xff1
         | (Inl e, _) \<Rightarrow> fail e)
    | (Inl e, _) \<Rightarrow> fail e"
  using demcr_register.set_then_get [OF assms, of m]
  by (auto simp: wp_case bind_def split: prod.splits sum.splits)

theorem vector_catch_roundtrip_witness:
  "case set_vector_catch (sim_run_ops None) 0x181 (demo_cpu 0 0x01000010) of
      (Inr _, s1) \<Rightarrow>
        (case get_vector_catch (sim_run_ops None) s1 of
           (Inr x, s2) \<Rightarrow> x = 0x181 AND VectorCatch_ALL \<and> cm_last_vector_catch s2 = x
             \<and> sp_demcr (cm_target s2) AND NOT 0xff1 = sp_demcr (cm_target (demo_cpu 0 0x01000010)) AND NOT 0xff1
         | (Inl e, _) \<Rightarrow> False)
    | (Inl e, _) \<Rightarrow> False"
  by (rule vector_catch_roundtrip [OF sim_reset.demcr_register_axioms]) simp

subsection \<open>Where the code departs from its documentation\<close>

text \<open>
  A step that times out restores C_MASKINTS with a write to a core that still runs; the
  architecture leaves the effect unpredictable.
\<close>

lemma step_timeout_breaks_rule:
  "\<not> sp_broken (cm_target (snd (step (sim_run_ops None) 5 True 0 0 None (demo_cpu 0 0))))"
  "sp_broken (cm_target (snd (step (sim_run_ops (Some 1)) 5 True 0 0 None (demo_cpu 0 0))))"
  by code_simp+

text \<open>
  On a core without VECTRESET the \<open>CORE\<close> reset is not replaced by the emulated one: the reset type
  stays, and its bit of AIRCR is VECTRESET.
\<close>

lemma core_reset_not_emulated:
  assumes "cm_architecture s = ARMv6M" and "CORE \<in> set (cm_supported_reset_types s)"
  shows "\<exists>s'. init_reset_types s = (Inr (), s') \<and> VECTRESET \<notin> set (cm_supported_reset_types s')
    \<and> get_actual_reset_type R s' (Some CORE) = CORE \<and> reset_mask CORE = (VECTRESET, NVIC_AIRCR_VECTRESET)"
  using assms by (simp add: init_reset_types_def get_actual_reset_type_def reset_mask_def)

text \<open>Parts of \<open>n_srst\<close>, even the empty name, are taken for the hardware reset.\<close>

lemma reset_name_substring: "convert_reset_type ''rst'' = Inr NSRST" "convert_reset_type '''' = Inr NSRST"
  "convert_reset_type ''nsrst'' = Inl ValueError"
  by code_simp+

end
