(* ===== verification/Spec2Isabelle.thy ===== *)
theory Spec2Isabelle
  imports Prelude Mask Conversion Names Memory_Range Memory_Map Memory_Interface Mem_Ap Memory_Cache
    Core_Registers Register_Access Register_Cache Breakpoint_Units Breakpoint_Manager Notification Options
    Flash_Algo Flash_Builder Flash_Layout Flash_Fill Flash_Program Flash_Commit Flash_Device Rtt Swo Memory_Stack Run_Control Core_Debug
begin

text \<open>
  A verification library for pyOCD.
\<close>

end
